(* ===== verification/Prelude.thy ===== *)
theory Prelude
  imports Complex_Main "HOL-Library.Word" "HOL-Library.Multiset" "HOL-Library.Signed_Division"
begin

unbundle bit_operations_syntax

text \<open>
  What every component of the library shares: the outcome of a C function that can fail, the
  conversion of doubles to integers, a byte-addressed memory with \<open>memcpy\<close> and \<open>memset\<close>,
  bitmaps held in that memory or in byte arrays, and the generic facts about lists sorted by a
  key. The collections \<open>outcome_simps\<close>, \<open>mem_simps\<close> and \<open>bitmap_simps\<close> are what the component
  theories pass to the simplifier.
\<close>

named_theorems outcome_simps
named_theorems mem_simps
named_theorems bitmap_simps

section \<open>Outcomes\<close>

text \<open>
  A C function either returns or stops the program: \<open>Exit_Failure\<close> is \<open>exit(EXIT_FAILURE)\<close>,
  \<open>Aborted\<close> is \<open>abort()\<close>, and \<open>Undefined\<close> is an operation the C standard gives no meaning to
  (an array index out of bounds, a null pointer read, a float to integer cast out of range).
\<close>

datatype fault = Exit_Failure | Aborted | Undefined

type_synonym 'a outcome = "fault + 'a"

definition and_then :: "'a outcome \<Rightarrow> ('a \<Rightarrow> 'b outcome) \<Rightarrow> 'b outcome" where
  "and_then m f = (case m of Inl x \<Rightarrow> Inl x | Inr a \<Rightarrow> f a)"

lemma and_then_Inl [simp, outcome_simps]: "and_then (Inl x) f = Inl x"
  by (simp add: and_then_def)

lemma and_then_Inr [simp, outcome_simps]: "and_then (Inr a) f = f a"
  by (simp add: and_then_def)

lemma and_then_eq_Inr [outcome_simps]:
  "and_then m f = Inr b \<longleftrightarrow> (\<exists>a. m = Inr a \<and> f a = Inr b)"
  by (cases m) auto

lemma and_then_assoc: "and_then (and_then m f) g = and_then m (\<lambda>a. and_then (f a) g)"
  by (cases m) auto

section \<open>Doubles and integers\<close>

text \<open>
  A double is a real number; the rounding of an arithmetic result to a representable double is
  a function of the configuration (theory \<open>Setup\<close>). The cast \<open>(int)x\<close> truncates toward zero and
  is undefined when the result does not fit 32 bits.
\<close>

definition trunc_double :: "real \<Rightarrow> int" where
  "trunc_double x = (if x < 0 then \<lceil>x\<rceil> else \<lfloor>x\<rfloor>)"

definition fits_int32 :: "int \<Rightarrow> bool" where
  "fits_int32 i \<longleftrightarrow> - (2 ^ 31) \<le> i \<and> i < 2 ^ 31"

definition int_of_double :: "real \<Rightarrow> int outcome" where
  "int_of_double x = (if fits_int32 (trunc_double x) then Inr (trunc_double x) else Inl Undefined)"

lemma trunc_double_nonneg: "0 \<le> x \<Longrightarrow> trunc_double x = \<lfloor>x\<rfloor>"
  by (simp add: trunc_double_def)

lemma trunc_double_ge_0: "0 \<le> x \<Longrightarrow> 0 \<le> trunc_double x"
  by (simp add: trunc_double_def)

lemma smod_nonneg: "0 \<le> a \<Longrightarrow> 0 < b \<Longrightarrow> (a::int) smod b = a mod b"
  by (cases "a = 0") (simp_all add: signed_modulo_int_def signed_divide_int_def minus_mult_div_eq_mod mult.commute)

section \<open>Byte memory\<close>

type_synonym byte = "8 word"
type_synonym memory = "nat \<Rightarrow> byte"

definition memcpy :: "memory \<Rightarrow> nat \<Rightarrow> nat \<Rightarrow> nat \<Rightarrow> memory" where
  "memcpy m dst src n = (\<lambda>a. if dst \<le> a \<and> a < dst + n then m (src + (a - dst)) else m a)"

definition memset :: "memory \<Rightarrow> nat \<Rightarrow> byte \<Rightarrow> nat \<Rightarrow> memory" where
  "memset m dst v n = (\<lambda>a. if dst \<le> a \<and> a < dst + n then v else m a)"

definition store_bytes :: "memory \<Rightarrow> nat \<Rightarrow> byte list \<Rightarrow> memory" where
  "store_bytes m dst bs = (\<lambda>a. if dst \<le> a \<and> a < dst + length bs then bs ! (a - dst) else m a)"

lemma memcpy_inside [mem_simps]: "dst \<le> a \<Longrightarrow> a < dst + n \<Longrightarrow> memcpy m dst src n a = m (src + (a - dst))"
  by (simp add: memcpy_def)

lemma memcpy_outside [mem_simps]: "a < dst \<or> dst + n \<le> a \<Longrightarrow> memcpy m dst src n a = m a"
  by (auto simp: memcpy_def)

lemma memset_inside [mem_simps]: "dst \<le> a \<Longrightarrow> a < dst + n \<Longrightarrow> memset m dst v n a = v"
  by (simp add: memset_def)

lemma memset_outside [mem_simps]: "a < dst \<or> dst + n \<le> a \<Longrightarrow> memset m dst v n a = m a"
  by (auto simp: memset_def)

lemma store_bytes_outside [mem_simps]:
  "a < dst \<or> dst + length bs \<le> a \<Longrightarrow> store_bytes m dst bs a = m a"
  by (auto simp: store_bytes_def)

section \<open>Bits of a byte\<close>

text \<open>\<open>(byte >> k) & 1\<close>, \<open>byte |= 1 << k\<close> and \<open>byte &= ~(1 << k)\<close> for \<open>k < 8\<close>.\<close>

definition bit_is_set :: "byte \<Rightarrow> nat \<Rightarrow> bool" where
  "bit_is_set b k \<longleftrightarrow> (drop_bit k b) AND 1 = 1"

definition set_bit8 :: "byte \<Rightarrow> nat \<Rightarrow> byte" where
  "set_bit8 b k = b OR push_bit k 1"

definition clear_bit8 :: "byte \<Rightarrow> nat \<Rightarrow> byte" where
  "clear_bit8 b k = b AND NOT (push_bit k 1)"

lemma bit_is_set_iff [bitmap_simps]: "bit_is_set b k \<longleftrightarrow> bit b k"
proof -
  have "(drop_bit k b) AND 1 = (if bit b k then 1 else 0)"
    by (simp add: and_one_eq bit_iff_odd_drop_bit mod_2_eq_odd)
  then show ?thesis by (simp add: bit_is_set_def)
qed

lemma bit_set_bit8 [bitmap_simps]: "k < 8 \<Longrightarrow> bit (set_bit8 b k) j \<longleftrightarrow> j = k \<or> bit b j"
  by (auto simp: set_bit8_def bit_or_iff bit_exp_iff)

lemma bit_clear_bit8 [bitmap_simps]: "bit (clear_bit8 b k) j \<longleftrightarrow> j \<noteq> k \<and> bit b j"
  by (auto simp: clear_bit8_def bit_and_iff bit_not_iff bit_exp_iff dest: bit_imp_le_length)

lemma byte_zero_iff: "(b::byte) = 0 \<longleftrightarrow> (\<forall>k<8. \<not> bit b k)"
  by (auto simp: bit_eq_iff dest: bit_imp_le_length)

section \<open>Ends of a list\<close>

lemma in_set_tl: "x \<in> set (tl xs) \<Longrightarrow> x \<in> set xs"
  by (cases xs) auto

lemma last_notin_butlast: "distinct xs \<Longrightarrow> xs \<noteq> [] \<Longrightarrow> last xs \<notin> set (butlast xs)"
  by (induction xs) auto

lemma hd_notin_tl: "distinct xs \<Longrightarrow> xs \<noteq> [] \<Longrightarrow> hd xs \<notin> set (tl xs)"
  by (cases xs) auto

section \<open>Lists sorted by a key\<close>

text \<open>
  Insertion behind the last element whose key is not larger: what the walk
  \<open>while (current != tail && current->timestamp <= elem->timestamp)\<close> followed by the linking of
  \<open>elem\<close> in front of \<open>current\<close> does.
\<close>

fun insert_by :: "('a \<Rightarrow> 'k::linorder) \<Rightarrow> 'a \<Rightarrow> 'a list \<Rightarrow> 'a list" where
  "insert_by f x [] = [x]"
| "insert_by f x (y # ys) = (if f y \<le> f x then y # insert_by f x ys else x # y # ys)"

lemma mset_insert_by [simp]: "mset (insert_by f x ys) = add_mset x (mset ys)"
  by (induction ys) auto

lemma set_insert_by [simp]: "set (insert_by f x ys) = insert x (set ys)"
  by (induction ys) auto

lemma length_insert_by [simp]: "length (insert_by f x ys) = Suc (length ys)"
  by (induction ys) auto

lemma distinct_insert_by [simp]: "distinct (insert_by f x ys) \<longleftrightarrow> x \<notin> set ys \<and> distinct ys"
  by (induction ys) auto

lemma insert_by_not_Nil [simp]: "insert_by f x ys \<noteq> []"
  by (cases ys) auto

definition sorted_by :: "('a \<Rightarrow> 'k::linorder) \<Rightarrow> 'a list \<Rightarrow> bool" where
  "sorted_by f xs \<longleftrightarrow> sorted (map f xs)"

lemma sorted_by_Nil [simp]: "sorted_by f []"
  by (simp add: sorted_by_def)

lemma sorted_by_Cons [simp]: "sorted_by f (x # xs) \<longleftrightarrow> (\<forall>y \<in> set xs. f x \<le> f y) \<and> sorted_by f xs"
  by (simp add: sorted_by_def)

lemma sorted_by_append:
  "sorted_by f (xs @ ys) \<longleftrightarrow> sorted_by f xs \<and> sorted_by f ys \<and> (\<forall>x \<in> set xs. \<forall>y \<in> set ys. f x \<le> f y)"
  by (auto simp: sorted_by_def sorted_append)

lemma sorted_by_insert_by [simp]: "sorted_by f (insert_by f x ys) \<longleftrightarrow> sorted_by f ys"
proof (induction ys)
  case (Cons y ys)
  then show ?case by (cases "f y \<le> f x") (auto intro: order_trans less_imp_le)
qed simp

lemma insert_by_takeWhile:
  "insert_by f x ys = takeWhile (\<lambda>y. f y \<le> f x) ys @ x # dropWhile (\<lambda>y. f y \<le> f x) ys"
  by (induction ys) auto

lemma insert_by_last: "\<forall>y \<in> set ys. f y \<le> f x \<Longrightarrow> insert_by f x ys = ys @ [x]"
  by (induction ys) auto

text \<open>Two elements with the same key keep their order of insertion.\<close>

lemma insert_by_stable:
  "sorted_by f ys \<Longrightarrow> filter (\<lambda>y. f y = k) (insert_by f x ys) =
     filter (\<lambda>y. f y = k) ys @ (if f x = k then [x] else [])"
proof (induction ys)
  case (Cons y ys)
  show ?case
  proof (cases "f y \<le> f x")
    case False
    with Cons.prems have "\<forall>z \<in> set (y # ys). f z \<noteq> f x" by auto
    then have "filter (\<lambda>z. f z = f x) (y # ys) = []" by (simp add: filter_empty_conv)
    with False show ?thesis by (cases "f x = k") auto
  qed (use Cons in auto)
qed simp

end
