(* ===== verification/Linked_List.thy ===== *)
theory Linked_List
  imports Prelude
begin

text \<open>
  The intrusive linked lists of the code, on explicit \<open>next\<close> and \<open>prev\<close> pointers, and the lists
  of elements they stand for. Two shapes occur. A slot of \<open>queue\<close>, a \<open>retractable_queue\<close> and a
  lane of the highway model are bounded by two sentinel nodes (\<open>dll\<close>). A fallback queue, a
  speculation queue and a send log are bounded by null pointers and have a head and a tail
  pointer beside them (\<open>nlist\<close>). Every pointer routine of the code on them is a definition that
  works on the pointers alone and returns \<open>None\<close> where the code would read through a null
  pointer or never return; the lemmas give the list operation it implements. The theories above
  work on the lists.
\<close>

section \<open>Pointers\<close>

record 'a links =
  nxt :: "'a \<Rightarrow> 'a option"
  prv :: "'a \<Rightarrow> 'a option"

definition set_nxt :: "'a links \<Rightarrow> 'a \<Rightarrow> 'a option \<Rightarrow> 'a links" where
  "set_nxt h p v = h\<lparr>nxt := (nxt h)(p := v)\<rparr>"

definition set_prv :: "'a links \<Rightarrow> 'a \<Rightarrow> 'a option \<Rightarrow> 'a links" where
  "set_prv h p v = h\<lparr>prv := (prv h)(p := v)\<rparr>"

lemma nxt_set_nxt [simp]: "nxt (set_nxt h p v) = (nxt h)(p := v)"
  by (simp add: set_nxt_def)

lemma prv_set_nxt [simp]: "prv (set_nxt h p v) = prv h"
  by (simp add: set_nxt_def)

lemma nxt_set_prv [simp]: "nxt (set_prv h p v) = nxt h"
  by (simp add: set_prv_def)

lemma prv_set_prv [simp]: "prv (set_prv h p v) = (prv h)(p := v)"
  by (simp add: set_prv_def)

definition linked :: "'a links \<Rightarrow> 'a \<Rightarrow> 'a \<Rightarrow> bool" where
  "linked h a b \<longleftrightarrow> nxt h a = Some b \<and> prv h b = Some a"

lemma linkedD: "linked h a b \<Longrightarrow> nxt h a = Some b" "linked h a b \<Longrightarrow> prv h b = Some a"
  by (simp_all add: linked_def)

text \<open>A chain of links is kept by every update away from it.\<close>

lemma successively_linked_cong:
  assumes "\<And>x. x \<in> set (butlast xs) \<Longrightarrow> nxt h' x = nxt h x"
    and "\<And>x. x \<in> set (tl xs) \<Longrightarrow> prv h' x = prv h x"
  shows "successively (linked h') xs \<longleftrightarrow> successively (linked h) xs"
  using assms
proof (induction xs rule: induct_list012)
  case (3 x y zs)
  have "successively (linked h') (y # zs) \<longleftrightarrow> successively (linked h) (y # zs)"
    by (rule "3.IH"(2)) (use "3.prems" in \<open>auto simp: in_set_tl\<close>)
  moreover have "linked h' x y \<longleftrightarrow> linked h x y"
    using "3.prems" by (simp add: linked_def)
  ultimately show ?case by simp
qed simp_all

section \<open>Lists between two sentinels\<close>

definition dll :: "'a links \<Rightarrow> 'a \<Rightarrow> 'a list \<Rightarrow> 'a \<Rightarrow> bool" where
  "dll h head xs tail \<longleftrightarrow> distinct (head # xs @ [tail]) \<and> successively (linked h) (head # xs @ [tail])"

lemma dll_append:
  "dll h head (xs @ ys) tail \<longleftrightarrow>
     distinct (head # xs @ ys @ [tail]) \<and> successively (linked h) (head # xs)
       \<and> linked h (last (head # xs)) (hd (ys @ [tail])) \<and> successively (linked h) (ys @ [tail])"
proof -
  have "head # (xs @ ys) @ [tail] = (head # xs) @ (ys @ [tail])" by simp
  then show ?thesis
    unfolding dll_def by (simp only: successively_append_iff) auto
qed

lemma dll_frame:
  assumes "dll h head xs tail"
    and "\<And>x. x \<in> insert head (insert tail (set xs)) \<Longrightarrow> nxt h' x = nxt h x \<and> prv h' x = prv h x"
  shows "dll h' head xs tail"
proof -
  have "successively (linked h') (head # xs @ [tail]) \<longleftrightarrow> successively (linked h) (head # xs @ [tail])"
    by (rule successively_linked_cong) (use assms(2) in \<open>auto simp: butlast_append\<close>)
  with assms(1) show ?thesis by (simp add: dll_def)
qed

lemma dll_first: "dll h head xs tail \<Longrightarrow> nxt h head = Some (hd (xs @ [tail]))"
  by (cases xs) (auto simp: dll_def linked_def)

lemma dll_last: "dll h head xs tail \<Longrightarrow> prv h tail = Some (last (head # xs))"
  using dll_append [of h head xs "[]" tail] by (auto dest: linkedD)

lemma dll_empty_iff: "dll h head xs tail \<Longrightarrow> nxt h head = Some tail \<longleftrightarrow> xs = []"
  by (cases xs) (auto simp: dll_def linked_def)

subsection \<open>Set-up: \<open>head->next = tail; head->prev = NULL; tail->next = NULL; tail->prev = head\<close>\<close>

definition init_sentinels :: "'a links \<Rightarrow> 'a \<Rightarrow> 'a \<Rightarrow> 'a links" where
  "init_sentinels h head tail =
     set_prv (set_nxt (set_prv (set_nxt h head (Some tail)) head None) tail None) tail (Some head)"

lemma init_sentinels_dll: "head \<noteq> tail \<Longrightarrow> dll (init_sentinels h head tail) head [] tail"
  by (simp add: dll_def linked_def init_sentinels_def)

subsection \<open>Ordered insertion\<close>

text \<open>\<open>while (current != tail && current->timestamp <= t) current = current->next;\<close>\<close>

partial_function (option) insert_walk :: "'a links \<Rightarrow> ('a \<Rightarrow> real) \<Rightarrow> 'a \<Rightarrow> real \<Rightarrow> 'a \<Rightarrow> 'a option" where
  "insert_walk h ts tail t current =
     (if current \<noteq> tail \<and> ts current \<le> t
      then (case nxt h current of None \<Rightarrow> None | Some n \<Rightarrow> insert_walk h ts tail t n)
      else Some current)"

text \<open>
  \<open>elem->next = current; elem->prev = current->prev; current->prev->next = elem;
  current->prev = elem;\<close>
\<close>

definition link_before :: "'a links \<Rightarrow> 'a \<Rightarrow> 'a \<Rightarrow> 'a links option" where
  "link_before h elem current =
     (let h1 = set_nxt h elem (Some current);
          h2 = set_prv h1 elem (prv h1 current)
      in case prv h2 current of
           None \<Rightarrow> None
         | Some p \<Rightarrow> Some (set_prv (set_nxt h2 p (Some elem)) current (Some elem)))"

definition ptr_insert :: "'a links \<Rightarrow> ('a \<Rightarrow> real) \<Rightarrow> 'a \<Rightarrow> 'a \<Rightarrow> 'a \<Rightarrow> 'a links option" where
  "ptr_insert h ts head tail elem =
     (case nxt h head of
        None \<Rightarrow> None
      | Some first \<Rightarrow>
          (case insert_walk h ts tail (ts elem) first of
             None \<Rightarrow> None
           | Some current \<Rightarrow> link_before h elem current))"

lemma insert_walk_finds:
  assumes "successively (linked h) (xs @ [tail])" and "tail \<notin> set xs"
  shows "insert_walk h ts tail t (hd (xs @ [tail])) =
     Some (hd (dropWhile (\<lambda>x. ts x \<le> t) xs @ [tail]))"
  using assms
proof (induction xs)
  case Nil
  then show ?case by (simp add: insert_walk.simps)
next
  case (Cons x xs)
  have "nxt h x = Some (hd (xs @ [tail]))"
    using Cons.prems(1) by (cases xs) (auto simp: linked_def)
  moreover have "successively (linked h) (xs @ [tail])"
    using Cons.prems(1) by (simp add: successively_Cons)
  moreover have "x \<noteq> tail" "tail \<notin> set xs" using Cons.prems(2) by auto
  ultimately show ?case
    using Cons.IH by (simp add: insert_walk.simps [of h ts tail t x])
qed

lemma link_before_chain:
  assumes ne: "A \<noteq> []" "B \<noteq> []" and dist: "distinct (A @ B)"
    and chain: "successively (linked h) (A @ B)" and fresh: "elem \<notin> set (A @ B)"
  shows "\<exists>h'. link_before h elem (hd B) = Some h' \<and> successively (linked h') (A @ elem # B)
     \<and> (\<forall>x. x \<notin> set (A @ elem # B) \<longrightarrow> nxt h' x = nxt h x \<and> prv h' x = prv h x)"
proof -
  obtain p c where p: "p = last A" and c: "c = hd B" by simp
  from ne p c have inA: "p \<in> set A" and inB: "c \<in> set B" by simp_all
  from dist have dA: "distinct A" and dB: "distinct B" and disj: "set A \<inter> set B = {}" by auto
  have pA: "p \<notin> set (butlast A)" using last_notin_butlast [OF dA ne(1)] p by simp
  have cB: "c \<notin> set (tl B)" using hd_notin_tl [OF dB ne(2)] c by simp
  have ep: "elem \<noteq> p" and ec: "elem \<noteq> c" and npc: "p \<noteq> c" using inA inB fresh disj by auto
  from chain have sA: "successively (linked h) A" and sB: "successively (linked h) B" and pc: "linked h p c"
    using ne by (auto simp: successively_append_iff p c)
  define h' where "h' = set_prv (set_nxt (set_prv (set_nxt h elem (Some c)) elem (Some p)) p (Some elem)) c (Some elem)"
  have step: "link_before h elem c = Some h'"
    using pc ec by (simp add: link_before_def h'_def linked_def)
  have "successively (linked h') A \<longleftrightarrow> successively (linked h) A"
    by (rule successively_linked_cong) (use pA fresh disj inB in \<open>auto simp: h'_def dest: in_set_butlastD in_set_tl\<close>)
  moreover have "successively (linked h') B \<longleftrightarrow> successively (linked h) B"
    by (rule successively_linked_cong) (use cB fresh disj inA in \<open>auto simp: h'_def dest: in_set_butlastD in_set_tl\<close>)
  moreover have "linked h' p elem" "linked h' elem c"
    using ep ec npc by (auto simp: h'_def linked_def)
  ultimately have "successively (linked h') (A @ elem # B)"
    using sA sB ne by (simp add: successively_append_iff successively_Cons p c)
  moreover have "\<forall>x. x \<notin> set (A @ elem # B) \<longrightarrow> nxt h' x = nxt h x \<and> prv h' x = prv h x"
    using inA inB by (auto simp: h'_def)
  ultimately show ?thesis using step c by blast
qed

text \<open>
  The C insertion is \<^const>\<open>insert_by\<close> on the list, and touches no pointer outside the list and
  the new node.
\<close>

text \<open>
  Property C33. The walk and the four pointer writes of an ordered insertion end, never read through a
  null pointer, and turn the chain of \<open>xs\<close> into the chain of \<open>insert_by ts elem xs\<close>; no node outside the
  list is written.
\<close>

theorem ptr_insert_dll:
  assumes d: "dll h head xs tail" and fresh: "elem \<notin> set (head # xs @ [tail])"
  shows "\<exists>h'. ptr_insert h ts head tail elem = Some h' \<and> dll h' head (insert_by ts elem xs) tail
     \<and> (\<forall>x. x \<notin> set (head # elem # xs @ [tail]) \<longrightarrow> nxt h' x = nxt h x \<and> prv h' x = prv h x)"
proof -
  let ?P = "\<lambda>x. ts x \<le> ts elem"
  let ?A = "head # takeWhile ?P xs" and ?B = "dropWhile ?P xs @ [tail]"
  have AB: "?A @ ?B = head # xs @ [tail]" by simp
  have walk: "insert_walk h ts tail (ts elem) (hd (xs @ [tail])) = Some (hd ?B)"
    by (rule insert_walk_finds) (use d in \<open>auto simp: dll_def successively_Cons\<close>)
  obtain h' where h': "link_before h elem (hd ?B) = Some h'"
      "successively (linked h') (?A @ elem # ?B)"
      "\<forall>x. x \<notin> set (?A @ elem # ?B) \<longrightarrow> nxt h' x = nxt h x \<and> prv h' x = prv h x"
    using link_before_chain [of ?A ?B h elem] d fresh unfolding AB dll_def by auto
  have set_eq: "set (?A @ elem # ?B) = set (head # elem # xs @ [tail])"
    using AB by (metis insert_commute list.simps(15) set_append Un_insert_right)
  have "ptr_insert h ts head tail elem = Some h'"
    using dll_first [OF d] walk h'(1) by (simp add: ptr_insert_def)
  moreover have "dll h' head (insert_by ts elem xs) tail"
  proof -
    have "distinct (head # insert_by ts elem xs @ [tail])"
      using d fresh by (auto simp: dll_def distinct_insert_by)
    with h'(2) show ?thesis by (simp add: dll_def insert_by_takeWhile)
  qed
  ultimately show ?thesis using h'(3) set_eq by metis
qed

subsection \<open>Removal\<close>

text \<open>\<open>elem->prev->next = elem->next; elem->next->prev = elem->prev;\<close>\<close>

definition unlink :: "'a links \<Rightarrow> 'a \<Rightarrow> 'a links option" where
  "unlink h elem =
     (case prv h elem of
        None \<Rightarrow> None
      | Some p \<Rightarrow>
          (let h1 = set_nxt h p (nxt h elem)
           in case nxt h1 elem of
                None \<Rightarrow> None
              | Some n \<Rightarrow> Some (set_prv h1 n (prv h1 elem))))"

lemma unlink_chain:
  assumes ne: "A \<noteq> []" "B \<noteq> []" and dist: "distinct (A @ elem # B)"
    and chain: "successively (linked h) (A @ elem # B)"
  shows "\<exists>h'. unlink h elem = Some h' \<and> successively (linked h') (A @ B)
     \<and> nxt h' elem = nxt h elem \<and> prv h' elem = prv h elem
     \<and> (\<forall>x. x \<notin> set (A @ B) \<longrightarrow> nxt h' x = nxt h x \<and> prv h' x = prv h x)"
proof -
  obtain p c where p: "p = last A" and c: "c = hd B" by simp
  from ne p c have inA: "p \<in> set A" and inB: "c \<in> set B" by simp_all
  from dist have dA: "distinct A" and dB: "distinct B" and disj: "set A \<inter> set B = {}"
    and fresh: "elem \<notin> set A" "elem \<notin> set B" by auto
  have pA: "p \<notin> set (butlast A)" using last_notin_butlast [OF dA ne(1)] p by simp
  have cB: "c \<notin> set (tl B)" using hd_notin_tl [OF dB ne(2)] c by simp
  have ep: "elem \<noteq> p" and ec: "elem \<noteq> c" and npc: "p \<noteq> c" using inA inB fresh disj by auto
  from chain have sA: "successively (linked h) A" and sB: "successively (linked h) B"
    and pe: "linked h p elem" and ec': "linked h elem c"
    using ne by (auto simp: successively_append_iff successively_Cons p c)
  define h' where "h' = set_prv (set_nxt h p (Some c)) c (Some p)"
  have step: "unlink h elem = Some h'"
    using pe ec' ep by (simp add: unlink_def h'_def linked_def)
  have "successively (linked h') A \<longleftrightarrow> successively (linked h) A"
    by (rule successively_linked_cong) (use pA disj inB in \<open>auto simp: h'_def dest: in_set_butlastD in_set_tl\<close>)
  moreover have "successively (linked h') B \<longleftrightarrow> successively (linked h) B"
    by (rule successively_linked_cong) (use cB disj inA in \<open>auto simp: h'_def dest: in_set_butlastD in_set_tl\<close>)
  moreover have "linked h' p c" using npc by (simp add: h'_def linked_def)
  ultimately have "successively (linked h') (A @ B)"
    using sA sB ne by (simp add: successively_append_iff p c)
  moreover have "\<forall>x. x \<notin> set (A @ B) \<longrightarrow> nxt h' x = nxt h x \<and> prv h' x = prv h x"
    using inA inB by (auto simp: h'_def)
  moreover have "nxt h' elem = nxt h elem" "prv h' elem = prv h elem"
    using ep ec by (simp_all add: h'_def)
  ultimately show ?thesis using step by blast
qed

lemma unlink_dll:
  assumes d: "dll h head (ys @ elem # zs) tail"
  shows "\<exists>h'. unlink h elem = Some h' \<and> dll h' head (ys @ zs) tail
     \<and> nxt h' elem = nxt h elem \<and> prv h' elem = prv h elem
     \<and> (\<forall>x. x \<notin> set (head # ys @ zs @ [tail]) \<longrightarrow> nxt h' x = nxt h x \<and> prv h' x = prv h x)"
  using unlink_chain [of "head # ys" "zs @ [tail]" elem h] d by (auto simp: dll_def)

text \<open>
  The head extraction of \<open>queue_extract\<close> and \<open>restore_retractable_events\<close>: with
  \<open>elem = head->next\<close>, \<open>head->next = elem->next; elem->next->prev = head; elem->next = NULL;
  elem->prev = NULL;\<close>. The caller has checked \<open>head->next != tail\<close>.
\<close>

definition ptr_extract_head :: "'a links \<Rightarrow> 'a \<Rightarrow> ('a \<times> 'a links) option" where
  "ptr_extract_head h head =
     (case nxt h head of
        None \<Rightarrow> None
      | Some elem \<Rightarrow>
          (let h1 = set_nxt h head (nxt h elem)
           in case nxt h1 elem of
                None \<Rightarrow> None
              | Some n \<Rightarrow>
                  Some (elem, set_prv (set_nxt (set_prv h1 n (Some head)) elem None) elem None)))"

lemma ptr_extract_head_dll:
  assumes d: "dll h head (x # xs) tail"
  shows "\<exists>h'. ptr_extract_head h head = Some (x, h') \<and> dll h' head xs tail
     \<and> nxt h' x = None \<and> prv h' x = None
     \<and> (\<forall>y. y \<notin> set (head # x # xs @ [tail]) \<longrightarrow> nxt h' y = nxt h y \<and> prv h' y = prv h y)"
proof -
  obtain c where c: "c = hd (xs @ [tail])" by simp
  have cin: "c \<in> set (xs @ [tail])" using c by (cases xs) auto
  from d have hx: "linked h head x" and xc: "linked h x c"
    by (auto simp: dll_def successively_Cons c)
  have ne: "x \<noteq> head" "x \<noteq> c" "head \<noteq> c" using d cin by (auto simp: dll_def)
  define h1 where "h1 = set_prv (set_nxt h head (Some c)) c (Some head)"
  define h' where "h' = set_prv (set_nxt h1 x None) x None"
  have un: "unlink h x = Some h1"
    using hx xc ne by (simp add: unlink_def linked_def h1_def)
  have "dll h1 head xs tail"
    using unlink_dll [of h head "[]" x xs tail] d un by auto
  then have "dll h' head xs tail"
    by (rule dll_frame) (use d in \<open>auto simp: h'_def dll_def\<close>)
  moreover have "ptr_extract_head h head = Some (x, h')"
    using hx xc ne by (simp add: ptr_extract_head_def linked_def h'_def h1_def)
  ultimately show ?thesis
    using cin by (auto simp: h'_def h1_def)
qed

subsection \<open>Insertion in front of the tail sentinel\<close>

text \<open>
  \<open>retractable_queue_insert_locked\<close>: \<open>elem->prev = tail.prev; elem->next = &tail;
  tail.prev->next = elem; tail.prev = elem;\<close>.
\<close>

definition ptr_tail_insert :: "'a links \<Rightarrow> 'a \<Rightarrow> 'a \<Rightarrow> 'a links option" where
  "ptr_tail_insert h tail elem =
     (let h2 = set_nxt (set_prv h elem (prv h tail)) elem (Some tail)
      in case prv h2 tail of
           None \<Rightarrow> None
         | Some p \<Rightarrow> Some (set_prv (set_nxt h2 p (Some elem)) tail (Some elem)))"

lemma ptr_tail_insert_eq_link_before:
  "elem \<noteq> tail \<Longrightarrow> ptr_tail_insert h tail elem = link_before h elem tail"
  by (auto simp: ptr_tail_insert_def link_before_def set_nxt_def set_prv_def Let_def split: option.splits)

lemma ptr_tail_insert_dll:
  assumes d: "dll h head xs tail" and fresh: "elem \<notin> set (head # xs @ [tail])"
  shows "\<exists>h'. ptr_tail_insert h tail elem = Some h' \<and> dll h' head (xs @ [elem]) tail
     \<and> (\<forall>x. x \<notin> set (head # elem # xs @ [tail]) \<longrightarrow> nxt h' x = nxt h x \<and> prv h' x = prv h x)"
proof -
  have "elem \<noteq> tail" using fresh by auto
  moreover have "\<exists>h'. link_before h elem (hd [tail]) = Some h'
     \<and> successively (linked h') ((head # xs) @ elem # [tail])
     \<and> (\<forall>x. x \<notin> set ((head # xs) @ elem # [tail]) \<longrightarrow> nxt h' x = nxt h x \<and> prv h' x = prv h x)"
    by (rule link_before_chain) (use d fresh in \<open>auto simp: dll_def\<close>)
  ultimately show ?thesis
    using d fresh by (auto simp: ptr_tail_insert_eq_link_before dll_def insert_commute)
qed

section \<open>Lists between null pointers\<close>

record 'a ends =
  hd_ptr :: "'a option"
  tl_ptr :: "'a option"

definition nlist :: "'a links \<Rightarrow> 'a ends \<Rightarrow> 'a list \<Rightarrow> bool" where
  "nlist h l xs \<longleftrightarrow> distinct xs \<and> successively (linked h) xs
     \<and> (if xs = [] then hd_ptr l = None \<and> tl_ptr l = None
        else hd_ptr l = Some (hd xs) \<and> tl_ptr l = Some (last xs)
          \<and> prv h (hd xs) = None \<and> nxt h (last xs) = None)"

lemma nlist_empty: "nlist h \<lparr>hd_ptr = None, tl_ptr = None\<rparr> []"
  by (simp add: nlist_def)

lemma nlist_hd_None_iff: "nlist h l xs \<Longrightarrow> hd_ptr l = None \<longleftrightarrow> xs = []"
  by (auto simp: nlist_def split: if_splits)

subsection \<open>Tail insertion\<close>

text \<open>The tail insertion of \<open>queue_insert\<close> and of \<open>speculation_queue_insert\<close>.\<close>

definition ptr_append :: "'a links \<Rightarrow> 'a ends \<Rightarrow> 'a \<Rightarrow> ('a links \<times> 'a ends) option" where
  "ptr_append h l elem =
     (let h1 = set_nxt h elem None
      in if hd_ptr l = None
         then Some (set_prv h1 elem None, \<lparr>hd_ptr = Some elem, tl_ptr = Some elem\<rparr>)
         else (case tl_ptr l of
                 None \<Rightarrow> None
               | Some t \<Rightarrow> Some (set_nxt (set_prv h1 elem (Some t)) t (Some elem), l\<lparr>tl_ptr := Some elem\<rparr>)))"

lemma ptr_append_nlist:
  assumes l: "nlist h l xs" and fresh: "elem \<notin> set xs"
  shows "\<exists>h' l'. ptr_append h l elem = Some (h', l') \<and> nlist h' l' (xs @ [elem])
     \<and> (\<forall>x. x \<notin> set (elem # xs) \<longrightarrow> nxt h' x = nxt h x \<and> prv h' x = prv h x)"
proof (cases "xs = []")
  case True
  with l show ?thesis by (auto simp: nlist_def ptr_append_def)
next
  case False
  obtain t where t: "t = last xs" by simp
  from False t have tin: "t \<in> set xs" by simp
  from l False have d: "distinct xs" and s: "successively (linked h) xs"
    and e: "hd_ptr l = Some (hd xs)" "tl_ptr l = Some t" "prv h (hd xs) = None"
    by (auto simp: nlist_def t)
  define h' where "h' = set_nxt (set_prv (set_nxt h elem None) elem (Some t)) t (Some elem)"
  have "t \<noteq> elem" and he: "hd xs \<noteq> elem" using tin fresh False hd_in_set by auto
  have tb: "t \<notin> set (butlast xs)" using last_notin_butlast [OF d False] t by simp
  have "successively (linked h') xs \<longleftrightarrow> successively (linked h) xs"
    by (rule successively_linked_cong) (use fresh tb in \<open>auto simp: h'_def dest: in_set_butlastD in_set_tl\<close>)
  moreover have "linked h' t elem" using \<open>t \<noteq> elem\<close> by (simp add: h'_def linked_def)
  ultimately have "nlist h' (l\<lparr>tl_ptr := Some elem\<rparr>) (xs @ [elem])"
    using s d fresh e False he \<open>t \<noteq> elem\<close> by (simp add: nlist_def successively_append_iff t [symmetric] h'_def)
  moreover have "ptr_append h l elem = Some (h', l\<lparr>tl_ptr := Some elem\<rparr>)"
    using e by (simp add: ptr_append_def h'_def)
  ultimately show ?thesis using tin by (auto simp: h'_def)
qed

subsection \<open>Removal of a node\<close>

text \<open>The removal of \<open>current\<close> in \<open>fallback_check\<close>.\<close>

definition ptr_remove :: "'a links \<Rightarrow> 'a ends \<Rightarrow> 'a \<Rightarrow> 'a links \<times> 'a ends" where
  "ptr_remove h l current =
     (let (h1, l1) = (case prv h current of
                        Some p \<Rightarrow> (set_nxt h p (nxt h current), l)
                      | None \<Rightarrow> (h, l\<lparr>hd_ptr := nxt h current\<rparr>))
      in case nxt h1 current of
           Some n \<Rightarrow> (set_prv h1 n (prv h1 current), l1)
         | None \<Rightarrow> (h1, l1\<lparr>tl_ptr := prv h1 current\<rparr>))"

text \<open>
  Taking an element out of a list with a head and a tail pointer, as \<open>fallback_check\<close> does,
  removes it wherever it stands, updates both ends, and leaves the element's own pointers, from which
  the walk goes on, as they were.
\<close>

theorem ptr_remove_nlist:
  assumes l: "nlist h l (ys @ cur # zs)"
  shows "\<exists>h' l'. ptr_remove h l cur = (h', l') \<and> nlist h' l' (ys @ zs)
     \<and> nxt h' cur = nxt h cur \<and> prv h' cur = prv h cur"
proof -
  from l have d: "distinct (ys @ cur # zs)" and s: "successively (linked h) (ys @ cur # zs)"
    by (auto simp: nlist_def)
  have prv_cur: "prv h cur = (if ys = [] then None else Some (last ys))"
    using l s by (auto simp: nlist_def successively_append_iff linked_def)
  have nxt_cur: "nxt h cur = (if zs = [] then None else Some (hd zs))"
    using l s by (cases zs) (auto simp: nlist_def successively_append_iff linked_def)
  consider (only) "ys = []" "zs = []" | (first) "ys = []" "zs \<noteq> []" | (last) "ys \<noteq> []" "zs = []"
    | (middle) "ys \<noteq> []" "zs \<noteq> []" by blast
  then show ?thesis
  proof cases
    case only
    with l prv_cur nxt_cur show ?thesis by (auto simp: ptr_remove_def nlist_def)
  next
    case first
    then obtain z zs' where z: "zs = z # zs'" by (cases zs) auto
    define h' where "h' = set_prv h z None"
    have "successively (linked h') zs \<longleftrightarrow> successively (linked h) zs"
      by (rule successively_linked_cong) (use d z in \<open>auto simp: h'_def\<close>)
    then have "nlist h' (l\<lparr>hd_ptr := Some z\<rparr>) zs"
      using l first z by (auto simp: nlist_def h'_def successively_Cons)
    then show ?thesis
      using first z prv_cur nxt_cur d by (auto simp: ptr_remove_def h'_def)
  next
    case last
    obtain p where p: "p = List.last ys" by simp
    with last have pin: "p \<in> set ys" by simp
    define h' where "h' = set_nxt h p None"
    have "p \<notin> set (butlast ys)" using last_notin_butlast [of ys] d last p by auto
    then have "successively (linked h') ys \<longleftrightarrow> successively (linked h) ys"
      by (intro successively_linked_cong) (auto simp: h'_def)
    then have "nlist h' (l\<lparr>tl_ptr := Some p\<rparr>) ys"
      using l last by (auto simp: nlist_def h'_def successively_append_iff p)
    moreover have "p \<noteq> cur" using d pin by auto
    ultimately show ?thesis
      using last prv_cur nxt_cur by (auto simp: ptr_remove_def h'_def p)
  next
    case middle
    obtain p c where p: "p = List.last ys" and c: "c = hd zs" by simp
    with middle have pin: "p \<in> set ys" and cin: "c \<in> set zs" by simp_all
    then have ne: "p \<noteq> cur" "c \<noteq> cur" "p \<noteq> c" using d by auto
    obtain h' where h': "unlink h cur = Some h'" "successively (linked h') (ys @ zs)"
        "nxt h' cur = nxt h cur" "prv h' cur = prv h cur"
      using unlink_chain [OF middle d s] by blast
    have h'_eq: "h' = set_prv (set_nxt h p (Some c)) c (Some p)"
      using h'(1) prv_cur nxt_cur middle ne by (simp add: unlink_def p c)
    have "ptr_remove h l cur = (h', l)"
      using prv_cur nxt_cur middle ne by (simp add: ptr_remove_def h'_eq p c)
    moreover have "hd ys \<noteq> c" "List.last zs \<noteq> p"
      using d pin cin middle by (auto dest: hd_in_set last_in_set)
    then have "nlist h' l (ys @ zs)"
      using l middle h'(2) d by (auto simp: nlist_def h'_eq)
    ultimately show ?thesis using h'(3,4) by blast
  qed
qed

subsection \<open>Dropping the newest elements\<close>

text \<open>
  \<open>rollback_speculation_queue\<close> and \<open>log_rollback\<close> walk from the tail towards the head while the
  send time is not before the rollback time, and cut the list there.
\<close>

definition trim_by :: "('a \<Rightarrow> real) \<Rightarrow> real \<Rightarrow> 'a list \<Rightarrow> 'a list" where
  "trim_by st t xs = rev (dropWhile (\<lambda>x. t \<le> st x) (rev xs))"

definition trimmed_by :: "('a \<Rightarrow> real) \<Rightarrow> real \<Rightarrow> 'a list \<Rightarrow> 'a list" where
  "trimmed_by st t xs = takeWhile (\<lambda>x. t \<le> st x) (rev xs)"

lemma trim_by_Nil [simp]: "trim_by st t [] = []"
  by (simp add: trim_by_def)

lemma trim_by_snoc [simp]: "trim_by st t (xs @ [x]) = (if t \<le> st x then trim_by st t xs else xs @ [x])"
  by (simp add: trim_by_def)

lemma trimmed_by_Nil [simp]: "trimmed_by st t [] = []"
  by (simp add: trimmed_by_def)

lemma trimmed_by_snoc [simp]:
  "trimmed_by st t (xs @ [x]) = (if t \<le> st x then x # trimmed_by st t xs else [])"
  by (simp add: trimmed_by_def)

lemma trim_by_append_trimmed: "trim_by st t xs @ rev (trimmed_by st t xs) = xs"
  by (simp add: trim_by_def trimmed_by_def flip: rev_append)

lemma set_trimmed_by: "x \<in> set (trimmed_by st t xs) \<Longrightarrow> x \<in> set xs \<and> t \<le> st x"
  by (auto simp: trimmed_by_def dest: set_takeWhileD)

text \<open>On a list whose send times never decrease, the cut keeps exactly what was sent before.\<close>

lemma trim_by_sorted: "sorted_by st xs \<Longrightarrow> trim_by st t xs = filter (\<lambda>x. st x < t) xs"
proof (induction xs rule: rev_induct)
  case (snoc x xs)
  show ?case
  proof (cases "t \<le> st x")
    case False
    with snoc.prems have "\<forall>y \<in> set xs. st y < t" by (auto simp: sorted_by_append)
    then have "filter (\<lambda>x. st x < t) xs = xs" by simp
    with False show ?thesis by simp
  qed (use snoc in \<open>auto simp: sorted_by_append\<close>)
qed simp

partial_function (option) trim_walk :: "'a links \<Rightarrow> ('a \<Rightarrow> real) \<Rightarrow> real \<Rightarrow> 'a option \<Rightarrow> 'a option option" where
  "trim_walk h st t current =
     (case current of
        None \<Rightarrow> Some None
      | Some c \<Rightarrow> if t \<le> st c then trim_walk h st t (prv h c) else Some (Some c))"

definition ptr_trim :: "'a links \<Rightarrow> 'a ends \<Rightarrow> ('a \<Rightarrow> real) \<Rightarrow> real \<Rightarrow> ('a links \<times> 'a ends) option" where
  "ptr_trim h l st t =
     (case trim_walk h st t (tl_ptr l) of
        None \<Rightarrow> None
      | Some None \<Rightarrow> Some (h, l\<lparr>tl_ptr := None, hd_ptr := None\<rparr>)
      | Some (Some c) \<Rightarrow> Some (set_nxt h c None, l\<lparr>tl_ptr := Some c\<rparr>))"

lemma trim_walk_finds:
  assumes "successively (linked h) xs" and "xs \<noteq> [] \<Longrightarrow> prv h (hd xs) = None"
  shows "trim_walk h st t (if xs = [] then None else Some (last xs)) =
     Some (if trim_by st t xs = [] then None else Some (last (trim_by st t xs)))"
  using assms
proof (induction xs rule: rev_induct)
  case Nil
  then show ?case by (simp add: trim_walk.simps)
next
  case (snoc x xs)
  have p: "prv h x = (if xs = [] then None else Some (last xs))"
    using snoc.prems by (auto simp: successively_append_iff linked_def)
  have "successively (linked h) xs" "xs \<noteq> [] \<Longrightarrow> prv h (hd xs) = None"
    using snoc.prems by (auto simp: successively_append_iff)
  from snoc.IH [OF this] p show ?case
    by (simp add: trim_walk.simps [of h st t "Some x"])
qed

text \<open>
  The backward walk of a rollback ends and cuts off the list exactly the elements at its end
  that were sent at or after the rollback time.
\<close>

theorem ptr_trim_nlist:
  assumes l: "nlist h l xs"
  shows "\<exists>h' l'. ptr_trim h l st t = Some (h', l') \<and> nlist h' l' (trim_by st t xs)"
proof -
  let ?ys = "trim_by st t xs" and ?zs = "rev (trimmed_by st t xs)"
  have xs: "xs = ?ys @ ?zs" by (simp add: trim_by_append_trimmed)
  have tl: "tl_ptr l = (if xs = [] then None else Some (last xs))"
    using l by (auto simp: nlist_def)
  have walk: "trim_walk h st t (tl_ptr l) = Some (if ?ys = [] then None else Some (last ?ys))"
    unfolding tl by (rule trim_walk_finds) (use l in \<open>auto simp: nlist_def split: if_splits\<close>)
  show ?thesis
  proof (cases "?ys = []")
    case True
    with walk show ?thesis by (simp add: ptr_trim_def nlist_def)
  next
    case False
    obtain c where c: "c = last ?ys" by simp
    have ne: "xs \<noteq> []" and hd: "hd xs = hd ?ys" using xs False by (metis append_is_Nil_conv, metis hd_append2)
    have d: "distinct ?ys" and s: "successively (linked h) ?ys"
      using l xs by (metis nlist_def distinct_append, metis nlist_def successively_append_iff)
    have "c \<notin> set (butlast ?ys)" using last_notin_butlast [OF d False] c by simp
    then have "successively (linked (set_nxt h c None)) ?ys"
      using s by (subst successively_linked_cong [where h = h]) auto
    then have "nlist (set_nxt h c None) (l\<lparr>tl_ptr := Some c\<rparr>) ?ys"
      using l ne hd d False c by (auto simp: nlist_def)
    with walk False c show ?thesis by (simp add: ptr_trim_def)
  qed
qed

section \<open>A concrete chain\<close>

definition demo_links :: "nat links" where
  "demo_links = \<lparr>nxt = [0 \<mapsto> 1, 1 \<mapsto> 3, 3 \<mapsto> 9], prv = [1 \<mapsto> 0, 3 \<mapsto> 1, 9 \<mapsto> 3]\<rparr>"

lemma demo_links_dll: "dll demo_links 0 [1, 3] 9"
  by (simp add: dll_def linked_def demo_links_def)

definition demo_nlist :: "nat links" where
  "demo_nlist = \<lparr>nxt = [1 \<mapsto> 2, 2 \<mapsto> 3], prv = [2 \<mapsto> 1, 3 \<mapsto> 2]\<rparr>"

lemma demo_nlist: "nlist demo_nlist \<lparr>hd_ptr = Some 1, tl_ptr = Some 3\<rparr> [1, 2, 3]"
  by (simp add: nlist_def linked_def demo_nlist_def)

theorem ptr_insert_dll_witness:
  "\<exists>h'. ptr_insert demo_links real 0 9 2 = Some h' \<and> dll h' 0 [1, 2, 3] 9"
  using ptr_insert_dll [OF demo_links_dll, of 2 real] by auto

theorem ptr_remove_nlist_witness:
  "\<exists>h' l'. ptr_remove demo_nlist \<lparr>hd_ptr = Some 1, tl_ptr = Some 3\<rparr> 2 = (h', l') \<and> nlist h' l' [1, 3]"
  using ptr_remove_nlist [of demo_nlist "\<lparr>hd_ptr = Some 1, tl_ptr = Some 3\<rparr>" "[1]" 2 "[3]"] demo_nlist by auto

theorem ptr_trim_nlist_witness:
  "\<exists>h' l'. ptr_trim demo_nlist \<lparr>hd_ptr = Some 1, tl_ptr = Some 3\<rparr> real 2 = Some (h', l') \<and> nlist h' l' [1]"
  using ptr_trim_nlist [OF demo_nlist, of real 2] by (simp add: trim_by_def)

end
