(* ===== verification/Setup.thy ===== *)
theory Setup
  imports Prelude
begin

text \<open>
  The compile-time configuration and the data types the runtime shares (\<open>include/run.h\<close>,
  \<open>include/setup.h\<close>, \<open>include/queue.h\<close>, \<open>include/engine.h\<close>, \<open>include/speculation.h\<close>): macros set
  by the build become fields of \<open>config\<close>, structs become records. Events are values that carry
  the address of their \<open>malloc\<close>ed struct, so that two events with the same content stay apart;
  the place of an event in a linked list is its place in a list (theory \<open>Linked_List\<close> relates
  the two).
\<close>

section \<open>Configuration\<close>

text \<open>
  \<open>rnd\<close> rounds the exact result of a floating point operation to the double the machine
  returns; nothing below depends on which rounding it is, and theorems that need more of it say
  so.
\<close>

record config =
  THREADS :: nat
  OBJECTS :: nat
  LOOKAHEAD :: real
  SPECULATION :: bool
  AVOID_THROTTLING :: bool
  rnd :: "real \<Rightarrow> real"

definition dadd :: "config \<Rightarrow> real \<Rightarrow> real \<Rightarrow> real" where
  "dadd cfg a b = rnd cfg (a + b)"

definition dsub :: "config \<Rightarrow> real \<Rightarrow> real \<Rightarrow> real" where
  "dsub cfg a b = rnd cfg (a - b)"

definition dmul :: "config \<Rightarrow> real \<Rightarrow> real \<Rightarrow> real" where
  "dmul cfg a b = rnd cfg (a * b)"

definition ddiv :: "config \<Rightarrow> real \<Rightarrow> real \<Rightarrow> real" where
  "ddiv cfg a b = rnd cfg (a / b)"

definition NUM_SLOTS :: nat where
  "NUM_SLOTS = 2000"

definition epsilon :: real where
  "epsilon = 2328306435454494 / 10 ^ 25"

definition MAX_EVENT_SIZE :: int where
  "MAX_EVENT_SIZE = 512"

definition STARTUP_TIME :: real where
  "STARTUP_TIME = 0"

definition MAX_NUMA_NODES :: nat where
  "MAX_NUMA_NODES = 128"

text \<open>\<open>INIT\<close>, the event type the runtime injects at start-up.\<close>

definition INIT :: int where
  "INIT = 0"

lemma NUM_SLOTS_pos [simp]: "0 < NUM_SLOTS"
  by (simp add: NUM_SLOTS_def)

lemma epsilon_pos: "0 < epsilon"
  by (simp add: epsilon_def)

section \<open>Events\<close>

record event_buffer =
  destination :: int
  timestamp :: real
  send_time :: real
  event_type :: int
  payload :: "byte list"
  event_size :: int

record queue_elem =
  q_destination :: int
  q_timestamp :: real
  q_send_time :: real

record event =
  ev_addr :: nat
  ev_e :: event_buffer
  ev_q :: queue_elem

abbreviation ev_time :: "event \<Rightarrow> real" where
  "ev_time ev \<equiv> q_timestamp (ev_q ev)"

abbreviation ev_dest :: "event \<Rightarrow> int" where
  "ev_dest ev \<equiv> q_destination (ev_q ev)"

abbreviation ev_sent :: "event \<Rightarrow> real" where
  "ev_sent ev \<equiv> q_send_time (ev_q ev)"

record log_element =
  the_element :: event
  log_time :: real

section \<open>Status of a simulation object\<close>

datatype ownership = FREE | BUSY

record object_status =
  current_time :: real
  owner :: int
  causality_violation_time :: real
  standing_rollback :: bool
  in_stack :: bool
  the_state :: ownership
  already_taken :: bool
  checkpointed :: bool

section \<open>Global and thread-local variables of the runtime\<close>

text \<open>
  \<open>shared\<close> holds the globals of \<open>queue/queue.c\<close>, \<open>speculation/speculation.c\<close> and the counter of
  \<open>stubs/stubs.c\<close>. Spinlocks have no field: a definition is what runs inside one critical
  section, and an interleaving is a sequence of such definitions.
\<close>

record shared =
  queue :: "nat \<Rightarrow> nat \<Rightarrow> event list"
  retractable_queue :: "nat \<Rightarrow> event list"
  speculation_queue :: "nat \<Rightarrow> event list"
  log_queue :: "nat \<Rightarrow> log_element list"
  current_min_limit :: real
  current_max_limit :: real
  current_index :: nat
  pending_events :: int
  speculation_events :: int
  retractable_events :: int
  object_identifiers :: int
  shadow_object_identifiers :: int
  retractable_object_identifiers :: int
  object_identifiers_vector :: "nat \<Rightarrow> int"
  end_flag :: bool
  filter_message :: "nat \<Rightarrow> real"
  speculation :: "nat \<Rightarrow> object_status"
  rollbacks :: "64 word"
  epochs :: "64 word"
  filtered_events :: "64 word"

text \<open>
  \<open>tls\<close> holds the \<open>__thread\<close> variables of one worker; \<open>target\<close> is unsigned, so the \<open>-1\<close> it is
  reset to is the largest word. \<open>object_stack\<close> lists the stacked objects from the top of the
  stack down: \<open>stack_index\<close> is its length minus one.
\<close>

record tls =
  me :: int
  my_index :: nat
  fallback_queue :: "event list"
  target :: "32 word"
  myNUMAnode :: nat
  myNUMAindex :: nat
  stealNUMAindex :: nat
  TOT_NUMA_NODES :: nat
  numa_c :: "nat \<Rightarrow> int"
  numa_min :: "nat \<Rightarrow> int"
  object_stack :: "nat list"
  current :: int
  cur_time :: real

definition valid_object :: "config \<Rightarrow> int \<Rightarrow> bool" where
  "valid_object cfg d \<longleftrightarrow> 0 \<le> d \<and> d < int (OBJECTS cfg)"

text \<open>Writing one slot, one retractable queue, one speculation queue, one status entry.\<close>

definition set_slot :: "nat \<Rightarrow> nat \<Rightarrow> event list \<Rightarrow> shared \<Rightarrow> shared" where
  "set_slot d i xs s = s\<lparr>queue := (queue s)(d := (queue s d)(i := xs))\<rparr>"

definition set_retractable :: "nat \<Rightarrow> event list \<Rightarrow> shared \<Rightarrow> shared" where
  "set_retractable d xs s = s\<lparr>retractable_queue := (retractable_queue s)(d := xs)\<rparr>"

definition set_specqueue :: "nat \<Rightarrow> event list \<Rightarrow> shared \<Rightarrow> shared" where
  "set_specqueue d xs s = s\<lparr>speculation_queue := (speculation_queue s)(d := xs)\<rparr>"

definition set_log :: "nat \<Rightarrow> log_element list \<Rightarrow> shared \<Rightarrow> shared" where
  "set_log d xs s = s\<lparr>log_queue := (log_queue s)(d := xs)\<rparr>"

definition upd_status :: "nat \<Rightarrow> (object_status \<Rightarrow> object_status) \<Rightarrow> shared \<Rightarrow> shared" where
  "upd_status d f s = s\<lparr>speculation := (speculation s)(d := f (speculation s d))\<rparr>"

definition add_pending :: "int \<Rightarrow> shared \<Rightarrow> shared" where
  "add_pending k s = s\<lparr>pending_events := pending_events s + k\<rparr>"

definition add_speculative :: "int \<Rightarrow> shared \<Rightarrow> shared" where
  "add_speculative k s = s\<lparr>speculation_events := speculation_events s + k\<rparr>"

definition add_retractable :: "int \<Rightarrow> shared \<Rightarrow> shared" where
  "add_retractable k s = s\<lparr>retractable_events := retractable_events s + k\<rparr>"

named_theorems shared_defs
lemmas [shared_defs] = set_slot_def set_retractable_def set_specqueue_def set_log_def
  upd_status_def add_pending_def add_speculative_def add_retractable_def

section \<open>Start of the program\<close>

text \<open>
  The static initialisers: what is not mentioned is zero. The slots have no list before
  \<open>queue_init\<close> has linked their sentinels; they are shown empty here.
\<close>

definition initial_shared :: "config \<Rightarrow> shared" where
  "initial_shared cfg = \<lparr>queue = (\<lambda>_ _. []), retractable_queue = (\<lambda>_. []), speculation_queue = (\<lambda>_. []),
     log_queue = (\<lambda>_. []), current_min_limit = 0, current_max_limit = dmul cfg (real NUM_SLOTS) (LOOKAHEAD cfg),
     current_index = 0, pending_events = 0, speculation_events = 0, retractable_events = 0,
     object_identifiers = 0, shadow_object_identifiers = 0, retractable_object_identifiers = 0,
     object_identifiers_vector = (\<lambda>_. 0), end_flag = False,
     filter_message = (\<lambda>i. if i = 0 then dsub cfg 0 epsilon else 0),
     speculation = (\<lambda>_. \<lparr>current_time = 0, owner = 0, causality_violation_time = 0,
       standing_rollback = False, in_stack = False, the_state = FREE, already_taken = False, checkpointed = False\<rparr>),
     rollbacks = 0, epochs = 0, filtered_events = 0\<rparr>"

definition initial_tls :: tls where
  "initial_tls = \<lparr>me = 0, my_index = 0, fallback_queue = [], target = -1, myNUMAnode = 0, myNUMAindex = 0,
     stealNUMAindex = 0, TOT_NUMA_NODES = 0, numa_c = (\<lambda>_. 0), numa_min = (\<lambda>_. 0), object_stack = [],
     current = 0, cur_time = 0\<rparr>"

section \<open>A concrete configuration\<close>

text \<open>
  Witnesses use four objects and two threads with the default look-ahead, and a rounding to
  multiples of \<open>2^-20\<close>.
\<close>

definition round20 :: "real \<Rightarrow> real" where
  "round20 x = real_of_int \<lfloor>x * 2 ^ 20 + 1 / 2\<rfloor> / 2 ^ 20"

definition demo_cfg :: config where
  "demo_cfg = \<lparr>THREADS = 2, OBJECTS = 4, LOOKAHEAD = 1, SPECULATION = False,
     AVOID_THROTTLING = False, rnd = round20\<rparr>"

lemma demo_cfg_simps [simp]:
  "THREADS demo_cfg = 2" "OBJECTS demo_cfg = 4" "LOOKAHEAD demo_cfg = 1"
  "SPECULATION demo_cfg = False" "AVOID_THROTTLING demo_cfg = False" "rnd demo_cfg = round20"
  by (simp_all add: demo_cfg_def)

definition demo_event :: "nat \<Rightarrow> int \<Rightarrow> real \<Rightarrow> event" where
  "demo_event a d t = \<lparr>ev_addr = a,
     ev_e = \<lparr>destination = d, timestamp = t, send_time = 0, event_type = 1, payload = [], event_size = 0\<rparr>,
     ev_q = \<lparr>q_destination = d, q_timestamp = t, q_send_time = 0\<rparr>\<rparr>"

lemma demo_event_simps [simp]:
  "ev_addr (demo_event a d t) = a" "ev_dest (demo_event a d t) = d" "ev_time (demo_event a d t) = t"
  "ev_sent (demo_event a d t) = 0"
  by (simp_all add: demo_event_def)

lemma round20_simps [simp]:
  "round20 (real_of_int i) = real_of_int i" "round20 (real n) = real n" "round20 (numeral k) = numeral k"
  "round20 0 = 0" "round20 1 = 1"
proof -
  show i: "round20 (real_of_int i) = real_of_int i" for i
  proof -
    have "\<lfloor>real_of_int i * 2 ^ 20 + 1 / 2\<rfloor> = i * 2 ^ 20"
      by (rule floor_unique) simp_all
    then show ?thesis by (simp add: round20_def)
  qed
  show "round20 (real n) = real n" using i [of "int n"] by simp
  show "round20 (numeral k) = numeral k" using i [of "numeral k"] by simp
  show "round20 0 = 0" using i [of 0] by simp
  show "round20 1 = 1" using i [of 1] by simp
qed

end
