(* ===== verification/Barrier.thy ===== *)
theory Barrier
  imports Prelude
begin

text \<open>
  The spinning barrier of \<open>queue/barrier-synchronization.c\<close>, one step per access to a shared
  variable, under every interleaving of the worker threads. The invariant distinguishes three
  phases (quiescent, gathering, leaving); from it follow that no thread leaves a round before
  all have arrived in it, that exactly one thread is told \<open>1\<close> in every round, and that every
  reachable state can be driven back to quiescence.
\<close>

section \<open>State and steps\<close>

text \<open>
  A program counter names the next shared access of \<open>barrier()\<close>: the two reads of the condition
  \<open>era_counter != THREADS && control_counter == THREADS\<close>, the compare-and-swap, the reset of
  \<open>era_counter\<close>, the increment of \<open>control_counter\<close>, the spin on it, the increment of
  \<open>era_counter\<close>. The local \<open>ret\<close> is the argument of the later ones. \<open>Outside\<close> is a thread not in
  \<open>barrier()\<close>.
\<close>

datatype barrier_pc =
    Outside | Read_Era | Read_Control | Cas | Reset_Era
  | Add_Control bool | Spin bool | Add_Era bool

text \<open>
  The last three fields are history: how often each thread has incremented \<open>control_counter\<close>,
  how often it has left the spin, and the values \<open>barrier()\<close> has returned to it.
\<close>

record barrier_state =
  control_counter :: int
  era_counter :: int
  pcs :: "nat \<Rightarrow> barrier_pc"
  arrived :: "nat \<Rightarrow> nat"
  passed :: "nat \<Rightarrow> nat"
  returned :: "nat \<Rightarrow> bool list"

definition barrier_init :: "nat \<Rightarrow> barrier_state" where
  "barrier_init T = \<lparr>control_counter = int T, era_counter = int T, pcs = (\<lambda>_. Outside),
     arrived = (\<lambda>_. 0), passed = (\<lambda>_. 0), returned = (\<lambda>_. [])\<rparr>"

definition goto :: "nat \<Rightarrow> barrier_pc \<Rightarrow> barrier_state \<Rightarrow> barrier_state" where
  "goto i pc s = s\<lparr>pcs := (pcs s)(i := pc)\<rparr>"

definition barrier_exec :: "nat \<Rightarrow> nat \<Rightarrow> barrier_state \<Rightarrow> barrier_state" where
  "barrier_exec T i s =
     (case pcs s i of
        Outside \<Rightarrow> goto i Read_Era s
      | Read_Era \<Rightarrow> if era_counter s \<noteq> int T then goto i Read_Control s else goto i Cas s
      | Read_Control \<Rightarrow> if control_counter s = int T then goto i Read_Era s else goto i Cas s
      | Cas \<Rightarrow>
          if control_counter s = int T then goto i Reset_Era (s\<lparr>control_counter := 0\<rparr>)
          else goto i (Add_Control False) s
      | Reset_Era \<Rightarrow> goto i (Add_Control True) (s\<lparr>era_counter := 0\<rparr>)
      | Add_Control ret \<Rightarrow>
          goto i (Spin ret) (s\<lparr>control_counter := control_counter s + 1,
                              arrived := (arrived s)(i := Suc (arrived s i))\<rparr>)
      | Spin ret \<Rightarrow>
          if control_counter s \<noteq> int T then s
          else goto i (Add_Era ret) (s\<lparr>passed := (passed s)(i := Suc (passed s i))\<rparr>)
      | Add_Era ret \<Rightarrow>
          goto i Outside (s\<lparr>era_counter := era_counter s + 1,
                           returned := (returned s)(i := returned s i @ [ret])\<rparr>))"

inductive barrier_step :: "nat \<Rightarrow> barrier_state \<Rightarrow> barrier_state \<Rightarrow> bool" for T where
  step: "i < T \<Longrightarrow> barrier_step T s (barrier_exec T i s)"

inductive_cases barrier_stepE: "barrier_step T s t"

inductive barrier_reachable :: "nat \<Rightarrow> barrier_state \<Rightarrow> bool" for T where
  init: "barrier_reachable T (barrier_init T)"
| step: "barrier_reachable T s \<Longrightarrow> barrier_step T s t \<Longrightarrow> barrier_reachable T t"

section \<open>Counting threads\<close>

definition count_pcs :: "nat \<Rightarrow> (barrier_pc \<Rightarrow> bool) \<Rightarrow> (nat \<Rightarrow> barrier_pc) \<Rightarrow> nat" where
  "count_pcs T P f = card {i. i < T \<and> P (f i)}"

lemma finite_below [simp]: "finite {i. i < (T::nat) \<and> Q i}"
  by simp

lemma count_pcs_upd:
  assumes "i < T"
  shows "int (count_pcs T P (f(i := x))) = int (count_pcs T P f) + of_bool (P x) - of_bool (P (f i))"
proof -
  let ?R = "{j. j < T \<and> j \<noteq> i \<and> P (f j)}"
  have new: "{j. j < T \<and> P ((f(i := x)) j)} = (if P x then insert i ?R else ?R)"
    using assms by auto
  have old: "{j. j < T \<and> P (f j)} = (if P (f i) then insert i ?R else ?R)"
    using assms by auto
  show ?thesis unfolding count_pcs_def new old by simp
qed

lemma count_pcs_same: "i < T \<Longrightarrow> P x = P (f i) \<Longrightarrow> count_pcs T P (f(i := x)) = count_pcs T P f"
  using count_pcs_upd [of i T P f x] by simp

lemma count_pcs_le: "count_pcs T P f \<le> T"
proof -
  have "card {i. i < T \<and> P (f i)} \<le> card {i. i < T}" by (rule card_mono) auto
  then show ?thesis by (simp add: count_pcs_def)
qed

lemma count_pcs_full: "count_pcs T P f = T \<longleftrightarrow> (\<forall>i<T. P (f i))"
proof
  assume "count_pcs T P f = T"
  then have "card {i. i < T \<and> P (f i)} = card {i. i < T}" by (simp add: count_pcs_def)
  then have "{i. i < T \<and> P (f i)} = {i. i < T}" by (intro card_subset_eq) auto
  then show "\<forall>i<T. P (f i)" by blast
next
  assume "\<forall>i<T. P (f i)"
  then have "{i. i < T \<and> P (f i)} = {i. i < T}" by auto
  then show "count_pcs T P f = T" by (simp add: count_pcs_def)
qed

lemma count_pcs_zero: "count_pcs T P f = 0 \<longleftrightarrow> (\<forall>i<T. \<not> P (f i))"
  by (auto simp: count_pcs_def card_eq_0_iff)

lemma count_pcs_less: "i < T \<Longrightarrow> \<not> P (f i) \<Longrightarrow> count_pcs T P f < T"
  using count_pcs_le [of T P f] count_pcs_full [of T P f] by (metis le_neq_implies_less)

section \<open>The three phases\<close>

fun is_spin :: "barrier_pc \<Rightarrow> bool" where
  "is_spin (Spin b) = True" | "is_spin _ = False"

fun is_inside :: "barrier_pc \<Rightarrow> bool" where
  "is_inside (Spin b) = True" | "is_inside (Add_Era b) = True" | "is_inside _ = False"

fun is_waiting :: "barrier_pc \<Rightarrow> bool" where
  "is_waiting Outside = True" | "is_waiting Read_Era = True" | "is_waiting Read_Control = True"
| "is_waiting _ = False"

fun is_leader :: "barrier_pc \<Rightarrow> bool" where
  "is_leader Reset_Era = True" | "is_leader (Add_Control b) = b" | "is_leader (Spin b) = b"
| "is_leader (Add_Era b) = b" | "is_leader _ = False"

text \<open>
  \<open>r\<close> is the number of complete rounds. In every phase the values already returned are those of
  complete rounds, each with one \<open>True\<close>.
\<close>

definition rounds_ok :: "nat \<Rightarrow> nat \<Rightarrow> barrier_state \<Rightarrow> bool" where
  "rounds_ok T r s \<longleftrightarrow> (\<forall>k<r. \<exists>!i. i < T \<and> returned s i ! k)"

type_synonym thread_view = "barrier_pc \<times> nat \<times> nat \<times> bool list"

definition view :: "barrier_state \<Rightarrow> nat \<Rightarrow> thread_view" where
  "view s i = (pcs s i, arrived s i, passed s i, returned s i)"

fun quiescent_view :: "nat \<Rightarrow> thread_view \<Rightarrow> bool" where
  "quiescent_view r (pc, a, p, ret) \<longleftrightarrow> (is_waiting pc \<or> pc = Cas) \<and> a = r \<and> p = r \<and> length ret = r"

fun gathering_view :: "nat \<Rightarrow> bool \<Rightarrow> thread_view \<Rightarrow> bool" where
  "gathering_view r lead (pc, a, p, ret) \<longleftrightarrow> (\<forall>b. pc \<noteq> Add_Era b) \<and> (is_leader pc \<longleftrightarrow> lead)
     \<and> a = (if is_spin pc then Suc r else r) \<and> p = r \<and> length ret = r"

fun leaving_view :: "nat \<Rightarrow> bool \<Rightarrow> thread_view \<Rightarrow> bool" where
  "leaving_view r lead (pc, a, p, ret) \<longleftrightarrow> a = Suc r
     \<and> (if is_inside pc then (is_leader pc \<longleftrightarrow> lead) \<and> length ret = r \<and> p = (if is_spin pc then r else Suc r)
        else is_waiting pc \<and> (ret ! r \<longleftrightarrow> lead) \<and> length ret = Suc r \<and> p = Suc r)"

definition quiescent :: "nat \<Rightarrow> nat \<Rightarrow> barrier_state \<Rightarrow> bool" where
  "quiescent T r s \<longleftrightarrow> control_counter s = int T \<and> era_counter s = int T
     \<and> (\<forall>i<T. quiescent_view r (view s i))"

definition gathering :: "nat \<Rightarrow> nat \<Rightarrow> nat \<Rightarrow> barrier_state \<Rightarrow> bool" where
  "gathering T r l s \<longleftrightarrow> l < T
     \<and> era_counter s = (if pcs s l = Reset_Era then int T else 0)
     \<and> control_counter s = int (count_pcs T is_spin (pcs s)) \<and> control_counter s < int T
     \<and> (\<forall>i<T. gathering_view r (i = l) (view s i))"

definition leaving :: "nat \<Rightarrow> nat \<Rightarrow> nat \<Rightarrow> barrier_state \<Rightarrow> bool" where
  "leaving T r l s \<longleftrightarrow> l < T \<and> control_counter s = int T
     \<and> era_counter s = int T - int (count_pcs T is_inside (pcs s)) \<and> era_counter s < int T
     \<and> (\<forall>i<T. leaving_view r (i = l) (view s i))"

definition barrier_inv :: "nat \<Rightarrow> barrier_state \<Rightarrow> bool" where
  "barrier_inv T s \<longleftrightarrow> (\<exists>r. rounds_ok T r s \<and> (quiescent T r s \<or> (\<exists>l. gathering T r l s) \<or> (\<exists>l. leaving T r l s)))"

section \<open>The invariant\<close>

named_theorems barrier_simps
lemmas [barrier_simps] = barrier_exec_def goto_def count_pcs_upd

lemma barrier_inv_init: "barrier_inv T (barrier_init T)"
proof -
  have "quiescent T 0 (barrier_init T)" by (simp add: quiescent_def barrier_init_def view_def)
  moreover have "rounds_ok T 0 (barrier_init T)" by (simp add: rounds_ok_def)
  ultimately show ?thesis unfolding barrier_inv_def by blast
qed

lemma rounds_ok_cong:
  assumes "rounds_ok T r s" and "\<And>i k. i < T \<Longrightarrow> k < r \<Longrightarrow> returned t i ! k = returned s i ! k"
  shows "rounds_ok T r t"
  using assms unfolding rounds_ok_def by (metis (no_types, lifting))

lemma waiting_idle:
  "is_waiting pc \<or> pc = Cas \<Longrightarrow> \<not> is_spin pc \<and> \<not> is_leader pc \<and> \<not> is_inside pc \<and> (\<forall>b. pc \<noteq> Add_Era b)"
  by (cases pc) auto

lemma spin_inside: "is_spin pc \<Longrightarrow> is_inside pc"
  by (cases pc) auto

text \<open>A step of thread \<open>i\<close> is seen by thread \<open>i\<close> alone; the others keep their view.\<close>

lemma exec_other: "j \<noteq> i \<Longrightarrow> view (barrier_exec T i s) j = view s j"
  by (cases "pcs s i") (simp_all add: barrier_exec_def goto_def view_def)

lemma exec_views:
  assumes "\<forall>j<T. V j (view s j)" and "\<And>j. j \<noteq> i \<Longrightarrow> j < T \<Longrightarrow> V j (view s j) \<Longrightarrow> W j (view s j)"
    and "W i (view (barrier_exec T i s) i)"
  shows "\<forall>j<T. W j (view (barrier_exec T i s) j)"
proof (intro allI impI)
  fix j assume "j < T"
  with assms show "W j (view (barrier_exec T i s) j)"
    by (cases "j = i") (simp_all add: exec_other)
qed

lemma quiescent_exec:
  assumes q: "quiescent T r s" and i: "i < T"
  shows "quiescent T r (barrier_exec T i s) \<or> gathering T r i (barrier_exec T i s)"
proof -
  let ?t = "barrier_exec T i s"
  have vs: "\<forall>j<T. quiescent_view r (view s j)" and ctr: "control_counter s = int T" "era_counter s = int T"
    using q by (simp_all add: quiescent_def)
  have vi: "quiescent_view r (view s i)" using vs i by simp
  show ?thesis
  proof (cases "pcs s i = Cas")
    case False
    have "quiescent_view r (view ?t i)"
      using vi ctr False by (cases "pcs s i") (simp_all add: view_def barrier_exec_def goto_def)
    then have "\<forall>j<T. quiescent_view r (view ?t j)"
      by (intro exec_views [where V = "\<lambda>j. quiescent_view r" and W = "\<lambda>j. quiescent_view r", OF vs])
    moreover have "control_counter ?t = int T" "era_counter ?t = int T"
      using vi ctr False by (cases "pcs s i"; simp add: view_def barrier_exec_def goto_def)+
    ultimately show ?thesis by (simp add: quiescent_def)
  next
    case True
    have t: "pcs ?t = (pcs s)(i := Reset_Era)" "control_counter ?t = 0" "era_counter ?t = int T"
      using True ctr by (simp_all add: barrier_exec_def goto_def)
    have "gathering_view r (i = i) (view ?t i)"
      using True vi ctr by (simp add: view_def barrier_exec_def goto_def)
    moreover have "gathering_view r (j = i) (view s j)" if "j \<noteq> i" "quiescent_view r (view s j)" for j
      using that waiting_idle by (auto simp: view_def)
    ultimately have "\<forall>j<T. gathering_view r (j = i) (view ?t j)"
      by (intro exec_views [where V = "\<lambda>j. quiescent_view r" and W = "\<lambda>j. gathering_view r (j = i)", OF vs])
    moreover have "count_pcs T is_spin ((pcs s)(i := Reset_Era)) = 0"
      unfolding count_pcs_zero using vs waiting_idle by (auto simp: view_def)
    ultimately show ?thesis using t i by (simp add: gathering_def)
  qed
qed

lemma gathering_exec:
  assumes g: "gathering T r l s" and i: "i < T"
  shows "gathering T r l (barrier_exec T i s)
    \<or> leaving T r l (barrier_exec T i s) \<and> (\<forall>j<T. is_spin (pcs (barrier_exec T i s) j))"
proof -
  let ?t = "barrier_exec T i s"
  have l: "l < T" and era: "era_counter s = (if pcs s l = Reset_Era then int T else 0)"
    and ctl: "control_counter s = int (count_pcs T is_spin (pcs s))" "control_counter s < int T"
    and vs: "\<forall>j<T. gathering_view r (j = l) (view s j)"
    using g by (simp_all add: gathering_def)
  have vi: "gathering_view r (i = l) (view s i)" using vs i by simp
  have "gathering_view r (i = l) (view ?t i)"
    using vi ctl by (cases "pcs s i") (auto simp: view_def barrier_exec_def goto_def)
  then have vt: "\<forall>j<T. gathering_view r (j = l) (view ?t j)"
    by (intro exec_views [where V = "\<lambda>j. gathering_view r (j = l)" and W = "\<lambda>j. gathering_view r (j = l)", OF vs])
  have ctl': "control_counter ?t = int (count_pcs T is_spin (pcs ?t))"
    using vi ctl by (cases "pcs s i") (auto simp: view_def barrier_exec_def goto_def count_pcs_same [OF i] count_pcs_same [OF l] count_pcs_upd [OF i])
  have era': "era_counter ?t = (if pcs ?t l = Reset_Era then int T else 0)"
    using vi ctl era by (cases "pcs s i") (auto simp: view_def barrier_exec_def goto_def)
  show ?thesis
  proof (cases "count_pcs T is_spin (pcs ?t) = T")
    case False
    then have "control_counter ?t < int T"
      using ctl' count_pcs_le [of T is_spin "pcs ?t"] by simp
    then show ?thesis using l vt ctl' era' by (simp add: gathering_def)
  next
    case True
    then have all: "is_spin (pcs ?t j)" if "j < T" for j using that count_pcs_full by blast
    then have "count_pcs T is_inside (pcs ?t) = T" unfolding count_pcs_full using spin_inside by blast
    moreover have "era_counter ?t = 0" using era' all [OF l] by auto
    moreover have "leaving_view r (j = l) (view ?t j)" if "j < T" for j
      using that all [OF that] spin_inside vt by (auto simp: view_def)
    ultimately show ?thesis using l ctl' True i all by (simp add: leaving_def)
  qed
qed

lemma leaving_exec:
  assumes v: "leaving T r l s" and i: "i < T"
  defines "t \<equiv> barrier_exec T i s"
  shows "leaving T r l t \<or> quiescent T (Suc r) t \<and> (\<exists>!j. j < T \<and> returned t j ! r)"
proof -
  have l: "l < T" and ctl: "control_counter s = int T"
    and era: "era_counter s = int T - int (count_pcs T is_inside (pcs s))" "era_counter s < int T"
    and vs: "\<forall>j<T. leaving_view r (j = l) (view s j)"
    using v by (simp_all add: leaving_def)
  have vi: "leaving_view r (i = l) (view s i)" using vs i by simp
  have "leaving_view r (i = l) (view t i)"
    using vi ctl era by (cases "pcs s i") (auto simp: t_def view_def barrier_exec_def goto_def nth_append split: if_splits)
  then have vt: "\<forall>j<T. leaving_view r (j = l) (view t j)"
    unfolding t_def
    by (intro exec_views [where V = "\<lambda>j. leaving_view r (j = l)" and W = "\<lambda>j. leaving_view r (j = l)", OF vs])
  have ctl': "control_counter t = int T"
    using vi ctl by (cases "pcs s i") (auto simp: t_def view_def barrier_exec_def goto_def)
  have era': "era_counter t = int T - int (count_pcs T is_inside (pcs t))"
    using vi ctl era by (cases "pcs s i") (auto simp: t_def view_def barrier_exec_def goto_def count_pcs_same [OF i] count_pcs_upd [OF i])
  show ?thesis
  proof (cases "count_pcs T is_inside (pcs t) = 0")
    case False
    then show ?thesis using l ctl' era' vt by (simp add: leaving_def)
  next
    case True
    then have no: "\<not> is_inside (pcs t j)" if "j < T" for j using that count_pcs_zero by blast
    have "quiescent_view (Suc r) (view t j) \<and> (returned t j ! r \<longleftrightarrow> j = l)" if "j < T" for j
      using that no [OF that] vt by (auto simp: view_def)
    moreover from this have "\<exists>!j. j < T \<and> returned t j ! r" using l by auto
    ultimately show ?thesis using ctl' era' True by (simp add: quiescent_def)
  qed
qed

text \<open>What has been returned in complete rounds is never changed.\<close>

lemma exec_returned: "k < length (returned s j) \<Longrightarrow> returned (barrier_exec T i s) j ! k = returned s j ! k"
  by (cases "pcs s i"; cases "j = i") (simp_all add: barrier_exec_def goto_def nth_append)

lemma rounds_ok_exec:
  assumes "rounds_ok T r s" and "\<And>j. j < T \<Longrightarrow> r \<le> length (returned s j)"
  shows "rounds_ok T r (barrier_exec T i s)"
proof (rule rounds_ok_cong [OF assms(1)])
  fix j k assume "j < T" "k < r"
  then show "returned (barrier_exec T i s) j ! k = returned s j ! k"
    using assms(2) [of j] exec_returned [of k s j T i] by simp
qed

lemma barrier_inv_exec:
  assumes inv: "barrier_inv T s" and i: "i < T"
  shows "barrier_inv T (barrier_exec T i s)"
proof -
  let ?t = "barrier_exec T i s"
  from inv obtain r where r: "rounds_ok T r s"
    and ph: "quiescent T r s \<or> (\<exists>l. gathering T r l s) \<or> (\<exists>l. leaving T r l s)"
    unfolding barrier_inv_def by blast
  have "r \<le> length (returned s j)" if "j < T" for j
    using ph that by (auto simp: quiescent_def gathering_def leaving_def view_def split: if_splits)
  then have rt: "rounds_ok T r ?t" by (rule rounds_ok_exec [OF r])
  moreover from this have "\<exists>!j. j < T \<and> returned ?t j ! r \<Longrightarrow> rounds_ok T (Suc r) ?t"
    by (auto simp: rounds_ok_def less_Suc_eq)
  ultimately show ?thesis
    using ph quiescent_exec [OF _ i] gathering_exec [OF _ i] leaving_exec [OF _ i]
    unfolding barrier_inv_def by metis
qed

lemma barrier_step_inv: "barrier_step T s t \<Longrightarrow> barrier_inv T s \<Longrightarrow> barrier_inv T t"
  by (elim barrier_stepE) (simp add: barrier_inv_exec)

lemma barrier_reachable_inv: "barrier_reachable T s \<Longrightarrow> barrier_inv T s"
  by (induction rule: barrier_reachable.induct) (auto simp: barrier_inv_init barrier_step_inv)

section \<open>Progress\<close>

text \<open>
  A scheduler that always runs a thread with a positive rank brings the barrier from one phase
  to the next: \<open>to_spin\<close> is how far a thread is from the spin, \<open>to_exit\<close> from the end.
\<close>

abbreviation barrier_steps :: "nat \<Rightarrow> barrier_state \<Rightarrow> barrier_state \<Rightarrow> bool" where
  "barrier_steps T \<equiv> (barrier_step T)\<^sup>*\<^sup>*"

fun to_spin :: "barrier_pc \<Rightarrow> nat" where
  "to_spin Outside = 6" | "to_spin Read_Era = 5" | "to_spin Read_Control = 4" | "to_spin Cas = 3"
| "to_spin Reset_Era = 2" | "to_spin (Add_Control b) = 1" | "to_spin _ = 0"

fun to_exit :: "barrier_pc \<Rightarrow> nat" where
  "to_exit (Spin b) = 2" | "to_exit (Add_Era b) = 1" | "to_exit _ = 0"

fun to_cas :: "barrier_pc \<Rightarrow> nat" where
  "to_cas Read_Control = 3" | "to_cas Read_Era = 2" | "to_cas Cas = 1" | "to_cas _ = 0"

lemma pcs_exec_other: "j \<noteq> i \<Longrightarrow> pcs (barrier_exec T i s) j = pcs s j"
  using exec_other [of j i T s] by (simp add: view_def)

lemma rank_decreases:
  fixes rank :: "barrier_pc \<Rightarrow> nat"
  assumes "i < T" and "rank (pcs (barrier_exec T i s) i) < rank (pcs s i)"
  shows "(\<Sum>j<T. rank (pcs (barrier_exec T i s) j)) < (\<Sum>j<T. rank (pcs s j))"
proof (rule sum_strict_mono_ex1)
  show "\<forall>j\<in>{..<T}. rank (pcs (barrier_exec T i s) j) \<le> rank (pcs s j)"
    using assms(2) pcs_exec_other [of _ i T s] by (metis less_imp_le order_refl)
qed (use assms in auto)

lemma drive:
  fixes rank :: "barrier_pc \<Rightarrow> nat"
  assumes next_thread: "\<And>s. P s \<Longrightarrow> \<not> Q s \<Longrightarrow> \<exists>i<T. rank (pcs (barrier_exec T i s) i) < rank (pcs s i)
       \<and> (P (barrier_exec T i s) \<or> Q (barrier_exec T i s))"
  shows "P s \<or> Q s \<Longrightarrow> \<exists>t. barrier_steps T s t \<and> Q t"
proof (induction "\<Sum>j<T. rank (pcs s j)" arbitrary: s rule: less_induct)
  case less
  show ?case
  proof (cases "Q s")
    case False
    with less.prems next_thread obtain i where i: "i < T"
      "rank (pcs (barrier_exec T i s) i) < rank (pcs s i)"
      "P (barrier_exec T i s) \<or> Q (barrier_exec T i s)" by blast
    from less.hyps [OF rank_decreases [OF i(1,2)] i(3)]
    obtain t where "barrier_steps T (barrier_exec T i s) t" "Q t" by blast
    then show ?thesis using barrier_step.step [OF i(1)] converse_rtranclp_into_rtranclp by metis
  qed blast
qed

text \<open>From gathering, every thread reaches the spin; all are inside and none has left yet.\<close>

lemma gathering_to_leaving:
  assumes "gathering T r l s"
  shows "\<exists>t. barrier_steps T s t \<and> leaving T r l t \<and> (\<forall>i<T. is_inside (pcs t i) \<or> pcs t i = Outside)"
proof (rule drive [where rank = to_spin and P = "gathering T r l"])
  fix s assume g: "gathering T r l s"
  assume not: "\<not> (leaving T r l s \<and> (\<forall>i<T. is_inside (pcs s i) \<or> pcs s i = Outside))"
  have "count_pcs T is_spin (pcs s) < T" using g by (simp add: gathering_def)
  then obtain i where i: "i < T" "\<not> is_spin (pcs s i)"
    using count_pcs_full [of T is_spin "pcs s"] by auto
  let ?t = "barrier_exec T i s"
  have vi: "gathering_view r (i = l) (view s i)" "control_counter s < int T"
    using g i by (simp_all add: gathering_def)
  have rank: "to_spin (pcs ?t i) < to_spin (pcs s i)"
    using vi i by (cases "pcs s i") (auto simp: view_def barrier_exec_def goto_def)
  show "\<exists>i<T. to_spin (pcs (barrier_exec T i s) i) < to_spin (pcs s i)
     \<and> (gathering T r l (barrier_exec T i s)
        \<or> leaving T r l (barrier_exec T i s)
          \<and> (\<forall>j<T. is_inside (pcs (barrier_exec T i s) j) \<or> pcs (barrier_exec T i s) j = Outside))"
    using i(1) rank gathering_exec [OF g i(1)] spin_inside by blast
qed (use assms in blast)

lemma leaving_to_quiescent:
  assumes "leaving T r l s"
  shows "\<exists>t. barrier_steps T s t \<and> quiescent T (Suc r) t"
    and "\<forall>i<T. is_inside (pcs s i) \<or> pcs s i = Outside \<Longrightarrow>
      \<exists>t. barrier_steps T s t \<and> quiescent T (Suc r) t \<and> (\<forall>i<T. pcs t i = Outside)"
proof -
  have turn: "\<exists>i<T. to_exit (pcs (barrier_exec T i s) i) < to_exit (pcs s i)
      \<and> (leaving T r l (barrier_exec T i s) \<or> quiescent T (Suc r) (barrier_exec T i s))
      \<and> is_inside (pcs s i) \<and> (is_inside (pcs (barrier_exec T i s) i) \<or> pcs (barrier_exec T i s) i = Outside)"
    if v: "leaving T r l s" for s
  proof -
    have "count_pcs T is_inside (pcs s) \<noteq> 0" and ctl: "control_counter s = int T"
      using v by (simp_all add: leaving_def)
    then obtain i where i: "i < T" "is_inside (pcs s i)"
      using count_pcs_zero [of T is_inside "pcs s"] by auto
    have "to_exit (pcs (barrier_exec T i s) i) < to_exit (pcs s i)"
      "is_inside (pcs (barrier_exec T i s) i) \<or> pcs (barrier_exec T i s) i = Outside"
      using i(2) ctl by (cases "pcs s i"; simp add: barrier_exec_def goto_def)+
    then show ?thesis using i leaving_exec [OF v i(1)] by blast
  qed
  show "\<exists>t. barrier_steps T s t \<and> quiescent T (Suc r) t"
    by (rule drive [where rank = to_exit and P = "leaving T r l"]) (use turn assms in blast)+
  let ?out = "\<lambda>s. \<forall>i<T. is_inside (pcs s i) \<or> pcs s i = Outside"
  assume out: "?out s"
  have "\<exists>t. barrier_steps T s t \<and> (quiescent T (Suc r) t \<and> ?out t)"
  proof (rule drive [where rank = to_exit and P = "\<lambda>s. leaving T r l s \<and> ?out s"])
    fix s assume v: "leaving T r l s \<and> ?out s"
    with turn obtain i where i: "i < T" "to_exit (pcs (barrier_exec T i s) i) < to_exit (pcs s i)"
      "leaving T r l (barrier_exec T i s) \<or> quiescent T (Suc r) (barrier_exec T i s)"
      "is_inside (pcs (barrier_exec T i s) i) \<or> pcs (barrier_exec T i s) i = Outside" by blast
    moreover have "?out (barrier_exec T i s)"
      using v i(4) pcs_exec_other [of _ i T s] by metis
    ultimately show "\<exists>i<T. to_exit (pcs (barrier_exec T i s) i) < to_exit (pcs s i)
        \<and> ((leaving T r l (barrier_exec T i s) \<and> ?out (barrier_exec T i s))
          \<or> (quiescent T (Suc r) (barrier_exec T i s) \<and> ?out (barrier_exec T i s)))" by blast
  qed (use assms out in blast)
  then obtain t where t: "barrier_steps T s t" "quiescent T (Suc r) t" "?out t" by blast
  moreover have "pcs t i = Outside" if "i < T" for i
    using t(2,3) that waiting_idle [of "pcs t i"] by (auto simp: quiescent_def view_def)
  ultimately show "\<exists>t. barrier_steps T s t \<and> quiescent T (Suc r) t \<and> (\<forall>i<T. pcs t i = Outside)" by blast
qed

lemma quiescent_to_outside:
  assumes "quiescent T r s"
  shows "\<exists>t r'. barrier_steps T s t \<and> quiescent T r' t \<and> (\<forall>i<T. pcs t i = Outside)"
proof (cases "\<forall>i<T. pcs s i = Outside")
  case False
  then obtain i where i: "i < T" "pcs s i \<noteq> Outside" by blast
  let ?early = "\<lambda>s. quiescent T r s \<and> pcs s i \<noteq> Outside"
  have "\<exists>t. barrier_steps T s t \<and> (\<exists>l. gathering T r l t)"
  proof (rule drive [where rank = to_cas and P = ?early])
    fix s assume e: "?early s"
    then have ctr: "control_counter s = int T" "era_counter s = int T" and "quiescent_view r (view s i)"
      using i(1) by (simp_all add: quiescent_def)
    then have pc: "pcs s i \<in> {Read_Era, Read_Control, Cas}"
      using e by (cases "pcs s i") (simp_all add: view_def)
    have "to_cas (pcs (barrier_exec T i s) i) < to_cas (pcs s i)"
      "pcs (barrier_exec T i s) i \<noteq> Outside"
      using pc ctr by (auto simp: barrier_exec_def goto_def)
    then show "\<exists>i<T. to_cas (pcs (barrier_exec T i s) i) < to_cas (pcs s i)
        \<and> (?early (barrier_exec T i s) \<or> (\<exists>l. gathering T r l (barrier_exec T i s)))"
      using i(1) quiescent_exec [of T r s i] e by blast
  qed (use i assms in blast)
  then obtain t l where t: "barrier_steps T s t" "gathering T r l t" by blast
  from gathering_to_leaving [OF t(2)] obtain u where u: "barrier_steps T t u" "leaving T r l u"
    "\<forall>i<T. is_inside (pcs u i) \<or> pcs u i = Outside" by blast
  from leaving_to_quiescent(2) [OF u(2,3)] show ?thesis
    using t(1) u(1) by (meson rtranclp_trans)
qed (use assms in blast)

lemma reachable_to_outside:
  assumes "barrier_inv T s"
  shows "\<exists>t r. barrier_steps T s t \<and> quiescent T r t \<and> (\<forall>i<T. pcs t i = Outside)"
proof -
  have "\<exists>t r. barrier_steps T s t \<and> quiescent T r t"
    using assms gathering_to_leaving leaving_to_quiescent(1) unfolding barrier_inv_def
    by (metis rtranclp.rtrancl_refl rtranclp_trans)
  then show ?thesis using quiescent_to_outside by (meson rtranclp_trans)
qed

section \<open>What the barrier promises\<close>

text \<open>
  Property C4. Under every interleaving, a thread that has left its \<open>n\<close>-th round has done so only after
  every thread has arrived in round \<open>n\<close>: no thread overtakes the barrier.
\<close>

theorem barrier_safe:
  assumes "barrier_reachable T s" and "i < T" and "j < T"
  shows "passed s i \<le> arrived s j"
proof -
  from barrier_reachable_inv [OF assms(1)] obtain r
    where "quiescent T r s \<or> (\<exists>l. gathering T r l s) \<or> (\<exists>l. leaving T r l s)"
    unfolding barrier_inv_def by blast
  then have "passed s i \<le> r \<and> r \<le> arrived s j \<or> passed s i \<le> Suc r \<and> Suc r \<le> arrived s j"
    using assms(2,3) by (auto simp: quiescent_def gathering_def leaving_def view_def split: if_splits)
  then show ?thesis by linarith
qed

text \<open>
  Property C37. In every round that all threads have left, \<open>barrier()\<close> has returned \<open>1\<close> to exactly one
  thread.
\<close>

theorem barrier_one_leader:
  assumes "barrier_reachable T s" and "\<forall>i<T. k < length (returned s i)" and "0 < T"
  shows "\<exists>!i. i < T \<and> returned s i ! k"
proof -
  from barrier_reachable_inv [OF assms(1)] obtain r where ok: "rounds_ok T r s"
    and ph: "quiescent T r s \<or> (\<exists>l. gathering T r l s) \<or> (\<exists>l. leaving T r l s)"
    unfolding barrier_inv_def by blast
  have "\<exists>i<T. length (returned s i) = r"
  proof (cases "\<exists>l. leaving T r l s")
    case True
    then obtain l where l: "leaving T r l s" by blast
    then obtain i where "i < T" "is_inside (pcs s i)"
      using count_pcs_zero [of T is_inside "pcs s"] by (auto simp: leaving_def)
    with l show ?thesis by (auto simp: leaving_def view_def)
  next
    case False
    with ph assms(3) show ?thesis by (auto simp: quiescent_def gathering_def view_def)
  qed
  with assms(2) have "k < r" by auto
  with ok show ?thesis by (simp add: rounds_ok_def)
qed

text \<open>
  Property C16. No schedule can wedge the barrier: from every reachable state there is a schedule after
  which every thread is outside, all having made the same number of complete rounds.
\<close>

theorem barrier_can_complete:
  assumes "barrier_reachable T s"
  shows "\<exists>t n. barrier_steps T s t \<and> (\<forall>i<T. pcs t i = Outside \<and> arrived t i = n \<and> length (returned t i) = n)"
proof -
  from reachable_to_outside [OF barrier_reachable_inv [OF assms]] obtain t r
    where t: "barrier_steps T s t" "quiescent T r t" "\<forall>i<T. pcs t i = Outside" by blast
  then have "\<forall>i<T. pcs t i = Outside \<and> arrived t i = r \<and> length (returned t i) = r"
    by (simp add: quiescent_def view_def)
  with t(1) show ?thesis by blast
qed

section \<open>Concrete runs\<close>

definition barrier_run :: "nat \<Rightarrow> nat list \<Rightarrow> barrier_state" where
  "barrier_run T is = fold (barrier_exec T) is (barrier_init T)"

lemma barrier_run_reachable: "list_all (\<lambda>i. i < T) is \<Longrightarrow> barrier_reachable T (barrier_run T is)"
proof (induction "is" rule: rev_induct)
  case (snoc i "is")
  then show ?case using barrier_reachable.step barrier_step.step by (simp add: barrier_run_def)
qed (simp add: barrier_run_def barrier_reachable.init)

text \<open>
  Two threads; the first leads the round. It is stopped when it has left the spin, when both
  threads are outside, and while the second is still at its compare-and-swap.
\<close>

definition demo_passed :: barrier_state where
  "demo_passed = barrier_run 2 [0,0,0,0,0,1,1,1,1,1,0]"

definition demo_complete :: barrier_state where
  "demo_complete = barrier_run 2 [0,0,0,0,0,1,1,1,1,1,0,0,1,1]"

definition demo_entering :: barrier_state where
  "demo_entering = barrier_run 2 [0,0,0,0,1,1,1]"

lemmas run_simps = barrier_run_def barrier_init_def barrier_exec_def goto_def

lemma demo_reachable:
  "barrier_reachable 2 demo_passed" "barrier_reachable 2 demo_complete" "barrier_reachable 2 demo_entering"
  unfolding demo_passed_def demo_complete_def demo_entering_def
  by (rule barrier_run_reachable, simp)+

lemma demo_values:
  "passed demo_passed 0 = 1" "returned demo_complete 0 = [True]" "returned demo_complete (Suc 0) = [False]"
  by (simp_all add: demo_passed_def demo_complete_def run_simps)

theorem barrier_safe_witness: "1 \<le> arrived demo_passed 1"
  using barrier_safe [OF demo_reachable(1), of 0 1] by (simp add: demo_values)

theorem barrier_one_leader_witness: "\<exists>!i. i < 2 \<and> returned demo_complete i ! 0"
  by (rule barrier_one_leader [OF demo_reachable(2)]) (auto simp: less_2_cases_iff demo_values)

theorem barrier_can_complete_witness:
  "\<exists>t n. barrier_steps 2 demo_entering t
     \<and> (\<forall>i<2. pcs t i = Outside \<and> arrived t i = n \<and> length (returned t i) = n)"
  by (rule barrier_can_complete [OF demo_reachable(3)])

end
