(* ===== verification/Event_Queue.thy ===== *)
theory Event_Queue
  imports Setup Linked_List
begin

text \<open>
  The calendar queue of \<open>queue/queue.c\<close> without speculation: initialisation, the epoch clock, the
  insertion routines, the thread's fallback list and the order checks of the debug build. A slot
  is the list of its events from head to tail; \<open>insert_by ev_time\<close> is the walk and the linking of
  the C code, which theory \<open>Linked_List\<close> proves of the pointers themselves.
\<close>

section \<open>An interface: queues ordered by a key\<close>

locale keyed_queue =
  fixes elements :: "'q \<Rightarrow> 'e list"
    and enqueue :: "'e \<Rightarrow> 'q \<Rightarrow> 'q"
    and key :: "'e \<Rightarrow> 'k::linorder"
  assumes elements_enqueue: "mset (elements (enqueue x q)) = add_mset x (mset (elements q))"
    and ordered_enqueue: "sorted_by key (elements q) \<Longrightarrow> sorted_by key (elements (enqueue x q))"
    and ties_enqueue: "sorted_by key (elements q) \<Longrightarrow>
      filter (\<lambda>y. key y = k) (elements (enqueue x q)) =
      filter (\<lambda>y. key y = k) (elements q) @ (if key x = k then [x] else [])"
begin

lemma fold_elements: "mset (elements (fold enqueue xs q)) = mset xs + mset (elements q)"
  by (induction xs arbitrary: q) (simp_all add: elements_enqueue)

lemma fold_ordered: "sorted_by key (elements q) \<Longrightarrow> sorted_by key (elements (fold enqueue xs q))"
  by (induction xs arbitrary: q) (simp_all add: ordered_enqueue)

lemma fold_ties:
  "sorted_by key (elements q) \<Longrightarrow>
   filter (\<lambda>y. key y = k) (elements (fold enqueue xs q)) =
   filter (\<lambda>y. key y = k) (elements q) @ filter (\<lambda>y. key y = k) xs"
  by (induction xs arbitrary: q) (simp_all add: ordered_enqueue ties_enqueue)

lemma head_minimal:
  assumes "sorted_by key (elements q)" and "elements q = x # xs" and "y \<in> set (elements q)"
  shows "key x \<le> key y"
  using assms by auto

end

interpretation slot: keyed_queue "\<lambda>xs. xs" "insert_by f" f for f :: "'e \<Rightarrow> 'k::linorder"
  by unfold_locales (simp_all add: insert_by_stable)

section \<open>Initialisation and the epoch clock\<close>

text \<open>\<open>spin_init j i\<close> says whether \<open>pthread_spin_init\<close> succeeds for the lock of slot \<open>i\<close> of object \<open>j\<close>.\<close>

definition queue_init :: "config \<Rightarrow> (nat \<Rightarrow> nat \<Rightarrow> bool) \<Rightarrow> shared \<Rightarrow> shared outcome" where
  "queue_init cfg spin_init s =
     (if list_all (\<lambda>j. list_all (spin_init j) [0..<NUM_SLOTS]) [0..<OBJECTS cfg] then
        Inr (s\<lparr>queue := (\<lambda>j i. if j < OBJECTS cfg \<and> i < NUM_SLOTS then [] else queue s j i),
               retractable_queue := (\<lambda>j. if SPECULATION cfg \<and> j < OBJECTS cfg then [] else retractable_queue s j)\<rparr>)
      else Inl Exit_Failure)"

definition update_timing :: "config \<Rightarrow> shared \<Rightarrow> shared" where
  "update_timing cfg s =
     (let s = s\<lparr>current_min_limit := dadd cfg (current_min_limit s) (LOOKAHEAD cfg),
                current_max_limit := dadd cfg (current_max_limit s) (LOOKAHEAD cfg),
                current_index := (current_index s + 1) mod NUM_SLOTS,
                epochs := epochs s + 1,
                object_identifiers := 0\<rparr>;
          s = (if SPECULATION cfg then s\<lparr>shadow_object_identifiers := 0, retractable_object_identifiers := 0\<rparr> else s);
          s = s\<lparr>object_identifiers_vector :=
                  (\<lambda>i. if i < MAX_NUMA_NODES then 0 else object_identifiers_vector s i)\<rparr>
      in if pending_events s = 0 \<and> (SPECULATION cfg \<longrightarrow> speculation_events s = 0)
         then s\<lparr>end_flag := True\<rparr> else s)"

section \<open>Insertion\<close>

text \<open>\<open>(int)(timestamp / SLOT_LEN) % NUM_SLOTS\<close>, the remainder of C.\<close>

definition slot_index :: "config \<Rightarrow> real \<Rightarrow> int outcome" where
  "slot_index cfg t = and_then (int_of_double (ddiv cfg t (LOOKAHEAD cfg))) (\<lambda>i. Inr (i smod int NUM_SLOTS))"

text \<open>The critical section under \<open>locks[destination][index]\<close>.\<close>

definition slot_insert :: "config \<Rightarrow> event \<Rightarrow> int \<Rightarrow> shared \<Rightarrow> shared outcome" where
  "slot_insert cfg ev index s =
     (if valid_object cfg (ev_dest ev) \<and> 0 \<le> index \<and> index < int NUM_SLOTS then
        Inr (set_slot (nat (ev_dest ev)) (nat index)
              (insert_by ev_time ev (queue s (nat (ev_dest ev)) (nat index))) s)
      else Inl Undefined)"

definition queue_insert_in_epoch :: "config \<Rightarrow> event \<Rightarrow> shared \<Rightarrow> shared outcome" where
  "queue_insert_in_epoch cfg ev s =
     and_then (slot_index cfg (ev_time ev)) (\<lambda>index.
     and_then (slot_insert cfg ev index s) (\<lambda>s. Inr (add_pending 1 s)))"

definition queue_insert_from_fallback :: "config \<Rightarrow> event \<Rightarrow> shared \<Rightarrow> shared outcome" where
  "queue_insert_from_fallback cfg ev s =
     and_then (slot_index cfg (ev_time ev)) (\<lambda>index. slot_insert cfg ev index s)"

definition queue_insert_in_slot :: "config \<Rightarrow> event \<Rightarrow> int \<Rightarrow> shared \<Rightarrow> shared outcome" where
  "queue_insert_in_slot cfg ev index s =
     and_then (slot_insert cfg ev index s) (\<lambda>s. Inr (add_pending 1 s))"

definition queue_insert :: "config \<Rightarrow> event \<Rightarrow> shared \<Rightarrow> tls \<Rightarrow> (int \<times> shared \<times> tls) outcome" where
  "queue_insert cfg ev s t =
     (if ev_time ev < current_min_limit s then Inr (-1, s, t)
      else if ev_time ev \<ge> current_max_limit s then
        Inr (0, add_pending 1 s, t\<lparr>fallback_queue := fallback_queue t @ [ev]\<rparr>)
      else
        and_then (slot_index cfg (ev_time ev)) (\<lambda>index.
        and_then (slot_insert cfg ev index s) (\<lambda>s. Inr (0, add_pending 1 s, t))))"

text \<open>
  The walk of \<open>fallback_check\<close>: \<open>rest\<close> is the part of the list not visited yet, \<open>kept\<close> what stays
  of the visited part.
\<close>

fun fallback_loop :: "config \<Rightarrow> event list \<Rightarrow> event list \<Rightarrow> shared \<Rightarrow> (event list \<times> shared) outcome" where
  "fallback_loop cfg kept [] s = Inr (kept, s)"
| "fallback_loop cfg kept (ev # rest) s =
     (if ev_time ev < current_max_limit s then
        and_then (queue_insert_from_fallback cfg ev s) (\<lambda>s. fallback_loop cfg kept rest s)
      else fallback_loop cfg (kept @ [ev]) rest s)"

definition fallback_check :: "config \<Rightarrow> shared \<Rightarrow> tls \<Rightarrow> (shared \<times> tls) outcome" where
  "fallback_check cfg s t =
     and_then (fallback_loop cfg [] (fallback_queue t) s) (\<lambda>(kept, s). Inr (s, t\<lparr>fallback_queue := kept\<rparr>))"

section \<open>The checks of the debug build\<close>

text \<open>\<open>order_walk\<close> compares neighbours up to the tail; both early returns end in its base cases.\<close>

fun order_walk :: "event list \<Rightarrow> unit outcome" where
  "order_walk (a # b # xs) = (if ev_time a > ev_time b then Inl Exit_Failure else order_walk (b # xs))"
| "order_walk _ = Inr ()"

definition verify_queue_order :: "nat \<Rightarrow> shared \<Rightarrow> tls \<Rightarrow> unit outcome" where
  "verify_queue_order d s t = order_walk (queue s d (my_index t))"

definition verify_retractable_queue_order :: "nat \<Rightarrow> shared \<Rightarrow> unit outcome" where
  "verify_retractable_queue_order d s = order_walk (retractable_queue s d)"

definition verify_empty_queues :: "config \<Rightarrow> shared \<Rightarrow> tls \<Rightarrow> unit outcome" where
  "verify_empty_queues cfg s t =
     (if list_all (\<lambda>i. queue s i (my_index t) = []) [0..<OBJECTS cfg] then Inr () else Inl Exit_Failure)"

definition verify_empty_speculation_queues :: "config \<Rightarrow> shared \<Rightarrow> unit outcome" where
  "verify_empty_speculation_queues cfg s =
     (if list_all (\<lambda>i. speculation_queue s i = []) [0..<OBJECTS cfg] then Inr () else Inl Exit_Failure)"

definition verify_empty_retractable_queues :: "config \<Rightarrow> shared \<Rightarrow> unit outcome" where
  "verify_empty_retractable_queues cfg s =
     (if list_all (\<lambda>i. retractable_queue s i = []) [0..<OBJECTS cfg] then Inr () else Inl Exit_Failure)"

definition verify_speculation_status :: "config \<Rightarrow> shared \<Rightarrow> unit outcome" where
  "verify_speculation_status cfg s =
     (if list_all (\<lambda>i. \<not> standing_rollback (speculation s i) \<and> owner (speculation s i) = -1) [0..<OBJECTS cfg]
      then Inr () else Inl Exit_Failure)"

section \<open>What is queued\<close>

definition queue_wf :: "config \<Rightarrow> shared \<Rightarrow> bool" where
  "queue_wf cfg s \<longleftrightarrow> (\<forall>d < OBJECTS cfg. \<forall>i < NUM_SLOTS. sorted_by ev_time (queue s d i) \<and>
     (\<forall>ev \<in> set (queue s d i). ev_dest ev = int d \<and> slot_index cfg (ev_time ev) = Inr (int i)))"

definition queued :: "config \<Rightarrow> shared \<Rightarrow> event multiset" where
  "queued cfg s = (\<Sum>d < OBJECTS cfg. \<Sum>i < NUM_SLOTS. mset (queue s d i))"

lemma queue_wfD:
  assumes "queue_wf cfg s" and "d < OBJECTS cfg" and "i < NUM_SLOTS"
  shows "sorted_by ev_time (queue s d i)"
    and "ev \<in> set (queue s d i) \<Longrightarrow> ev_dest ev = int d"
    and "ev \<in> set (queue s d i) \<Longrightarrow> slot_index cfg (ev_time ev) = Inr (int i)"
  using assms by (auto simp: queue_wf_def)

lemma in_queued: "ev \<in># queued cfg s \<longleftrightarrow> (\<exists>d < OBJECTS cfg. \<exists>i < NUM_SLOTS. ev \<in> set (queue s d i))"
  by (auto simp: queued_def set_mset_sum)

lemma sum_upd:
  fixes f :: "nat \<Rightarrow> 'a::cancel_comm_monoid_add"
  assumes "d < n"
  shows "(\<Sum>j<n. (f(d := x)) j) + f d = (\<Sum>j<n. f j) + x"
proof -
  have "(\<Sum>j<n. (f(d := x)) j) = x + (\<Sum>j\<in>{..<n} - {d}. f j)"
    using assms by (simp add: sum.remove [where x = d])
  moreover have "(\<Sum>j<n. f j) = f d + (\<Sum>j\<in>{..<n} - {d}. f j)"
    using assms by (simp add: sum.remove [where x = d])
  ultimately show ?thesis by (simp add: ac_simps)
qed

lemma queued_set_slot:
  assumes d: "d < OBJECTS cfg" and i: "i < NUM_SLOTS"
  shows "queued cfg (set_slot d i xs s) + mset (queue s d i) = queued cfg s + mset xs"
proof -
  let ?row = "\<lambda>s j. \<Sum>i < NUM_SLOTS. mset (queue s j i)"
  have "(\<Sum>k < NUM_SLOTS. mset (((queue s d)(i := xs)) k)) =
        (\<Sum>k < NUM_SLOTS. ((\<lambda>k. mset (queue s d k))(i := mset xs)) k)"
    by (rule sum.cong) auto
  then have row: "?row (set_slot d i xs s) d + mset (queue s d i) = ?row s d + mset xs"
    using sum_upd [OF i, of "\<lambda>k. mset (queue s d k)" "mset xs"] by (simp add: set_slot_def)
  have "queued cfg (set_slot d i xs s) =
        (\<Sum>j < OBJECTS cfg. ((?row s)(d := ?row (set_slot d i xs s) d)) j)"
    unfolding queued_def by (rule sum.cong) (auto simp: set_slot_def)
  with sum_upd [OF d, of "?row s" "?row (set_slot d i xs s) d"]
  have all: "queued cfg (set_slot d i xs s) + ?row s d = queued cfg s + ?row (set_slot d i xs s) d"
    by (simp add: queued_def)
  show ?thesis
    unfolding multiset_eq_iff
  proof
    fix x
    show "count (queued cfg (set_slot d i xs s) + mset (queue s d i)) x = count (queued cfg s + mset xs) x"
      using arg_cong [OF all, of "\<lambda>m. count m x"] arg_cong [OF row, of "\<lambda>m. count m x"] by simp
  qed
qed

lemma slot_insert_Inr:
  "slot_insert cfg ev index s = Inr s' \<longleftrightarrow>
     valid_object cfg (ev_dest ev) \<and> 0 \<le> index \<and> index < int NUM_SLOTS \<and>
     s' = set_slot (nat (ev_dest ev)) (nat index)
            (insert_by ev_time ev (queue s (nat (ev_dest ev)) (nat index))) s"
  by (auto simp: slot_insert_def)

lemma slot_insert_queued:
  assumes "slot_insert cfg ev index s = Inr s'"
  shows "queued cfg s' = add_mset ev (queued cfg s)"
proof -
  from assms have d: "nat (ev_dest ev) < OBJECTS cfg" and i: "nat index < NUM_SLOTS"
    and s': "s' = set_slot (nat (ev_dest ev)) (nat index)
       (insert_by ev_time ev (queue s (nat (ev_dest ev)) (nat index))) s"
    by (auto simp: slot_insert_Inr valid_object_def)
  show ?thesis
    using queued_set_slot [OF d i, of "insert_by ev_time ev (queue s (nat (ev_dest ev)) (nat index))" s]
    unfolding s' by simp
qed

lemma slot_insert_wf:
  assumes "slot_insert cfg ev index s = Inr s'" and "queue_wf cfg s"
    and "slot_index cfg (ev_time ev) = Inr index"
  shows "queue_wf cfg s'"
  unfolding queue_wf_def
proof (intro allI impI)
  fix d i assume d: "d < OBJECTS cfg" and i: "i < NUM_SLOTS"
  show "sorted_by ev_time (queue s' d i) \<and>
     (\<forall>x \<in> set (queue s' d i). ev_dest x = int d \<and> slot_index cfg (ev_time x) = Inr (int i))"
  proof (cases "d = nat (ev_dest ev) \<and> i = nat index")
    case True
    then have "queue s' d i = insert_by ev_time ev (queue s d i)"
      using assms(1) by (simp add: slot_insert_Inr set_slot_def)
    moreover have "ev_dest ev = int d" "slot_index cfg (ev_time ev) = Inr (int i)"
      using True assms(1,3) by (auto simp: slot_insert_Inr valid_object_def)
    ultimately show ?thesis
      using queue_wfD [OF assms(2) d i] by auto
  next
    case False
    then have "queue s' d i = queue s d i"
      using assms(1) by (auto simp: slot_insert_Inr set_slot_def)
    then show ?thesis using queue_wfD [OF assms(2) d i] by simp
  qed
qed

lemma slot_insert_frame:
  assumes "slot_insert cfg ev index s = Inr s'"
  shows "s'\<lparr>queue := queue s\<rparr> = s"
  using assms by (auto simp: slot_insert_Inr set_slot_def)

lemma slot_insert_fields:
  assumes "slot_insert cfg ev index s = Inr s'"
  shows "current_min_limit s' = current_min_limit s" "current_max_limit s' = current_max_limit s"
    "current_index s' = current_index s" "pending_events s' = pending_events s"
    "speculation_events s' = speculation_events s" "speculation s' = speculation s"
    "retractable_queue s' = retractable_queue s" "speculation_queue s' = speculation_queue s"
    "log_queue s' = log_queue s" "retractable_events s' = retractable_events s"
  using assms by (auto simp: slot_insert_Inr set_slot_def)

lemma queued_add_pending [simp]: "queued cfg (add_pending k s) = queued cfg s"
  by (simp add: queued_def add_pending_def)

lemma queue_wf_add_pending [simp]: "queue_wf cfg (add_pending k s) = queue_wf cfg s"
  by (simp add: queue_wf_def add_pending_def)

lemma queue_insert_cases:
  assumes "queue_insert cfg ev s t = Inr (r, s', t')"
  obtains (illegal) "ev_time ev < current_min_limit s" "r = -1" "s' = s" "t' = t"
  | (fallback) "current_max_limit s \<le> ev_time ev" "current_min_limit s \<le> ev_time ev" "r = 0"
      "s' = add_pending 1 s" "t' = t\<lparr>fallback_queue := fallback_queue t @ [ev]\<rparr>"
  | (slot) index s1 where "current_min_limit s \<le> ev_time ev" "ev_time ev < current_max_limit s" "r = 0"
      "slot_index cfg (ev_time ev) = Inr index" "slot_insert cfg ev index s = Inr s1"
      "s' = add_pending 1 s1" "t' = t"
  using assms by (force simp: queue_insert_def and_then_eq_Inr not_less split: if_splits)

lemma queue_insert_in_epoch_Inr:
  "queue_insert_in_epoch cfg ev s = Inr s' \<longleftrightarrow>
     (\<exists>i s1. slot_index cfg (ev_time ev) = Inr i \<and> slot_insert cfg ev i s = Inr s1 \<and> s' = add_pending 1 s1)"
  by (auto simp: queue_insert_in_epoch_def and_then_eq_Inr)

lemma queue_insert_from_fallback_Inr:
  "queue_insert_from_fallback cfg ev s = Inr s' \<longleftrightarrow>
     (\<exists>i. slot_index cfg (ev_time ev) = Inr i \<and> slot_insert cfg ev i s = Inr s')"
  by (auto simp: queue_insert_from_fallback_def and_then_eq_Inr)

text \<open>The fallback walk moves exactly the events below the limit, and keeps the order of the rest.\<close>

lemma queue_insert_from_fallback_facts:
  assumes "queue_insert_from_fallback cfg ev s = Inr s'"
  shows "queued cfg s' = add_mset ev (queued cfg s)"
    and "queue_wf cfg s \<Longrightarrow> queue_wf cfg s'"
    and "current_min_limit s' = current_min_limit s" "current_max_limit s' = current_max_limit s"
    and "current_index s' = current_index s" "pending_events s' = pending_events s"
proof -
  from assms obtain i where i: "slot_index cfg (ev_time ev) = Inr i" "slot_insert cfg ev i s = Inr s'"
    by (auto simp: queue_insert_from_fallback_Inr)
  show "queue_wf cfg s \<Longrightarrow> queue_wf cfg s'" by (rule slot_insert_wf [OF i(2) _ i(1)])
qed (use assms in \<open>auto simp: queue_insert_from_fallback_Inr slot_insert_fields slot_insert_queued\<close>)

lemma fallback_loop_Inr:
  assumes "fallback_loop cfg kept evs s = Inr (kept', s')"
  shows "kept' = kept @ filter (\<lambda>ev. current_max_limit s \<le> ev_time ev) evs
    \<and> queued cfg s' = mset (filter (\<lambda>ev. ev_time ev < current_max_limit s) evs) + queued cfg s
    \<and> (queue_wf cfg s \<longrightarrow> queue_wf cfg s')
    \<and> current_min_limit s' = current_min_limit s \<and> current_max_limit s' = current_max_limit s
    \<and> current_index s' = current_index s \<and> pending_events s' = pending_events s"
  using assms
proof (induction evs arbitrary: kept s)
  case (Cons ev rest)
  show ?case
  proof (cases "ev_time ev < current_max_limit s")
    case True
    with Cons.prems obtain s1 where s1: "queue_insert_from_fallback cfg ev s = Inr s1"
      "fallback_loop cfg kept rest s1 = Inr (kept', s')" by (auto simp: and_then_eq_Inr)
    note f = queue_insert_from_fallback_facts [OF s1(1)]
    from Cons.IH [OF s1(2)] True show ?thesis unfolding f(1,3-6) using f(2) by simp
  next
    case False
    with Cons.prems have "fallback_loop cfg (kept @ [ev]) rest s = Inr (kept', s')" by simp
    from Cons.IH [OF this] False show ?thesis by simp
  qed
qed simp

lemma fallback_check_Inr:
  assumes "fallback_check cfg s t = Inr (s', t')"
  obtains kept where "fallback_loop cfg [] (fallback_queue t) s = Inr (kept, s')"
    and "t' = t\<lparr>fallback_queue := kept\<rparr>"
  using assms by (auto simp: fallback_check_def and_then_eq_Inr)

section \<open>Time and slots\<close>

text \<open>
  \<open>clock_at\<close>: the clock stands at epoch \<open>k\<close>. \<open>horizon\<close>: what is queued lies between the two
  limits. \<open>exact_slot\<close>: the division that computes the slot of a timestamp is exact, as it is
  for a look-ahead that is a power of two.
\<close>

definition clock_at :: "config \<Rightarrow> nat \<Rightarrow> shared \<Rightarrow> bool" where
  "clock_at cfg k s \<longleftrightarrow> current_min_limit s = real k * LOOKAHEAD cfg \<and>
     current_max_limit s = real (k + NUM_SLOTS) * LOOKAHEAD cfg \<and> current_index s = k mod NUM_SLOTS"

definition horizon :: "config \<Rightarrow> shared \<Rightarrow> bool" where
  "horizon cfg s \<longleftrightarrow> (\<forall>ev \<in># queued cfg s. current_min_limit s \<le> ev_time ev \<and> ev_time ev < current_max_limit s)"

definition exact_slot :: "config \<Rightarrow> real \<Rightarrow> bool" where
  "exact_slot cfg t \<longleftrightarrow> rnd cfg (t / LOOKAHEAD cfg) = t / LOOKAHEAD cfg"

lemma slot_index_floor:
  assumes "slot_index cfg t = Inr i" and "0 \<le> t" and "0 < LOOKAHEAD cfg" and "exact_slot cfg t"
  shows "i = \<lfloor>t / LOOKAHEAD cfg\<rfloor> mod int NUM_SLOTS"
proof -
  have "0 \<le> \<lfloor>t / LOOKAHEAD cfg\<rfloor>" using assms by simp
  with assms show ?thesis
    by (auto simp: slot_index_def and_then_eq_Inr int_of_double_def ddiv_def exact_slot_def
        trunc_double_nonneg smod_nonneg split: if_splits)
qed

lemma floor_between:
  assumes "0 < (L::real)"
  shows "int k \<le> \<lfloor>t / L\<rfloor> \<longleftrightarrow> real k * L \<le> t" and "\<lfloor>t / L\<rfloor> < int k \<longleftrightarrow> t < real k * L"
  using assms by (simp_all add: le_floor_iff floor_less_iff field_simps)

lemma mod_window:
  assumes "int k \<le> (x::int)" and "x < int (k + n)" and "0 < n"
  shows "x mod int n = int (k mod n) \<longleftrightarrow> x = int k"
proof
  assume "x mod int n = int (k mod n)"
  then have "x mod int n = int k mod int n" by (simp add: of_nat_mod)
  then have "int n dvd x - int k" by (simp add: mod_eq_dvd_iff)
  moreover have "\<not> (0 < x - int k \<and> int n dvd x - int k)"
    using assms zdvd_not_zless [of "x - int k" "int n"] by auto
  ultimately show "x = int k" using assms by auto
qed (simp add: of_nat_mod)

lemma slot_of_event:
  assumes "queue_wf cfg s" and "horizon cfg s" and "clock_at cfg k s" and "0 < LOOKAHEAD cfg"
    and "d < OBJECTS cfg" and "i < NUM_SLOTS" and "ev \<in> set (queue s d i)" and "exact_slot cfg (ev_time ev)"
  shows "i = current_index s \<longleftrightarrow> ev_time ev < real (k + 1) * LOOKAHEAD cfg"
proof -
  let ?L = "LOOKAHEAD cfg" and ?x = "\<lfloor>ev_time ev / LOOKAHEAD cfg\<rfloor>"
  have "ev \<in># queued cfg s" using assms(5-7) by (auto simp: in_queued)
  with assms(2) have "current_min_limit s \<le> ev_time ev" "ev_time ev < current_max_limit s"
    by (simp_all add: horizon_def)
  then have t: "real k * ?L \<le> ev_time ev" "ev_time ev < real (k + NUM_SLOTS) * ?L"
    using assms(3) by (simp_all only: clock_at_def)
  then have x: "int k \<le> ?x" "?x < int (k + NUM_SLOTS)"
    unfolding floor_between [OF assms(4)] .
  have "0 \<le> real k * ?L" using assms(4) by simp
  then have "0 \<le> ev_time ev" using t(1) by linarith
  then have "int i = ?x mod int NUM_SLOTS"
    using slot_index_floor queue_wfD(3) [OF assms(1,5,6,7)] assms(4,8) by blast
  then have "i = k mod NUM_SLOTS \<longleftrightarrow> ?x = int k"
    using mod_window [OF x] by (metis NUM_SLOTS_pos of_nat_eq_iff)
  also have "\<dots> \<longleftrightarrow> ?x < int (k + 1)" using x(1) by auto
  also have "\<dots> \<longleftrightarrow> ev_time ev < real (k + 1) * ?L" by (rule floor_between [OF assms(4)])
  finally show ?thesis using assms(3) by (simp add: clock_at_def)
qed

lemma update_timing_fields [simp]:
  "queue (update_timing cfg s) = queue s" "pending_events (update_timing cfg s) = pending_events s"
  "current_min_limit (update_timing cfg s) = dadd cfg (current_min_limit s) (LOOKAHEAD cfg)"
  "current_max_limit (update_timing cfg s) = dadd cfg (current_max_limit s) (LOOKAHEAD cfg)"
  "current_index (update_timing cfg s) = (current_index s + 1) mod NUM_SLOTS"
  by (simp_all add: update_timing_def Let_def)

lemma queued_update_timing [simp]: "queued cfg (update_timing cfg s) = queued cfg s"
  by (simp add: queued_def)

lemma queue_wf_update_timing [simp]: "queue_wf cfg (update_timing cfg s) = queue_wf cfg s"
  by (simp add: queue_wf_def)

text \<open>The two additions of the clock are exact at epoch \<open>k\<close>.\<close>

definition exact_tick :: "config \<Rightarrow> nat \<Rightarrow> bool" where
  "exact_tick cfg k \<longleftrightarrow> rnd cfg (real (k + 1) * LOOKAHEAD cfg) = real (k + 1) * LOOKAHEAD cfg
     \<and> rnd cfg (real (k + 1 + NUM_SLOTS) * LOOKAHEAD cfg) = real (k + 1 + NUM_SLOTS) * LOOKAHEAD cfg"

lemma clock_at_update_timing:
  assumes "clock_at cfg k s" and "exact_tick cfg k"
  shows "clock_at cfg (k + 1) (update_timing cfg s)"
proof -
  have "real k * LOOKAHEAD cfg + LOOKAHEAD cfg = real (k + 1) * LOOKAHEAD cfg"
    "real (k + NUM_SLOTS) * LOOKAHEAD cfg + LOOKAHEAD cfg = real (k + 1 + NUM_SLOTS) * LOOKAHEAD cfg"
    by (simp_all add: algebra_simps)
  with assms show ?thesis by (simp add: clock_at_def exact_tick_def dadd_def mod_Suc_eq)
qed

section \<open>What the queue promises\<close>

lemma queue_insert_correct_lemma:
  assumes "queue_insert cfg ev s t = Inr (r, s', t')" and "queue_wf cfg s"
  shows "if ev_time ev < current_min_limit s then r = -1 \<and> s' = s \<and> t' = t
    else r = 0 \<and> queue_wf cfg s' \<and> pending_events s' = pending_events s + 1
      \<and> queued cfg s' + mset (fallback_queue t') = add_mset ev (queued cfg s + mset (fallback_queue t))
      \<and> fallback_queue t' = fallback_queue t @ (if current_max_limit s \<le> ev_time ev then [ev] else [])"
  using assms(1)
proof (cases rule: queue_insert_cases)
  case fallback
  with assms(2) show ?thesis by (simp add: queue_wf_def queued_def add_pending_def)
next
  case (slot index s1)
  have "queue_wf cfg s1" by (rule slot_insert_wf [OF slot(5) assms(2) slot(4)])
  moreover have "queued cfg s1 = add_mset ev (queued cfg s)" by (rule slot_insert_queued [OF slot(5)])
  moreover have "pending_events s1 = pending_events s" by (rule slot_insert_fields [OF slot(5)])
  ultimately show ?thesis using slot by (simp add: add_pending_def queue_wf_def queued_def)
qed simp

text \<open>
  Property C15. \<open>queue_insert\<close> rejects an event below the lower limit and changes nothing; otherwise it
  returns 0, exactly one event is added to the slots and the thread's fallback list together,
  \<open>pending_events\<close> grows by one, the fallback list gets the events at or beyond the upper limit at
  its end, and the slots stay sorted, each event in the slot and under the object it belongs to.
\<close>

theorem queue_insert_correct:
  assumes "queue_insert cfg ev s t = Inr (r, s', t')" and "queue_wf cfg s"
  shows "if ev_time ev < current_min_limit s then r = -1 \<and> s' = s \<and> t' = t
    else r = 0 \<and> queue_wf cfg s' \<and> pending_events s' = pending_events s + 1
      \<and> queued cfg s' + mset (fallback_queue t') = add_mset ev (queued cfg s + mset (fallback_queue t))
      \<and> fallback_queue t' = fallback_queue t @ (if current_max_limit s \<le> ev_time ev then [ev] else [])"
  using queue_insert_correct_lemma [OF assms] .

text \<open>
  With a valid destination, an exact division and a clock below epoch \<open>2^31 - 2000\<close>,
  \<open>queue_insert\<close> returns: neither the cast of the slot number nor the indexing of \<open>queue\<close> goes wrong.
\<close>

theorem queue_insert_returns:
  assumes "clock_at cfg k s" and "k + NUM_SLOTS \<le> 2 ^ 31" and "0 < LOOKAHEAD cfg"
    and "valid_object cfg (ev_dest ev)" and "exact_slot cfg (ev_time ev)"
  shows "\<exists>r s' t'. queue_insert cfg ev s t = Inr (r, s', t')"
proof (cases "current_min_limit s \<le> ev_time ev \<and> ev_time ev < current_max_limit s")
  case True
  let ?x = "\<lfloor>ev_time ev / LOOKAHEAD cfg\<rfloor>"
  from True assms(1) have t: "real k * LOOKAHEAD cfg \<le> ev_time ev" "ev_time ev < real (k + NUM_SLOTS) * LOOKAHEAD cfg"
    by (simp_all only: clock_at_def)
  then have x: "int k \<le> ?x" "?x < int (k + NUM_SLOTS)" unfolding floor_between [OF assms(3)] .
  have "0 \<le> real k * LOOKAHEAD cfg" using assms(3) by simp
  with t(1) have "0 \<le> ev_time ev" by linarith
  then have "0 \<le> ev_time ev / LOOKAHEAD cfg" using assms(3) by simp
  then have "trunc_double (ev_time ev / LOOKAHEAD cfg) = ?x" by (rule trunc_double_nonneg)
  moreover have "0 \<le> ?x" by (rule order_trans [OF _ x(1)]) simp
  then have "- (2 ^ 31) \<le> ?x" by (rule order_trans [rotated]) simp
  moreover have "int (k + NUM_SLOTS) \<le> 2 ^ 31" using assms(2) by simp
  then have "?x < 2 ^ 31" using x(2) by linarith
  ultimately have "trunc_double (ev_time ev / LOOKAHEAD cfg) = ?x" "fits_int32 ?x"
    unfolding fits_int32_def by blast+
  then have "slot_index cfg (ev_time ev) = Inr (?x smod int NUM_SLOTS)"
    using assms(5) by (simp add: slot_index_def int_of_double_def ddiv_def exact_slot_def)
  moreover have "?x smod int NUM_SLOTS = ?x mod int NUM_SLOTS"
    by (rule smod_nonneg [OF order_trans [OF _ x(1)]]) simp_all
  ultimately show ?thesis using True assms(4) by (simp add: queue_insert_def slot_insert_def)
next
  case False
  then show ?thesis by (auto simp: queue_insert_def)
qed

section \<open>Runs of the calendar\<close>

text \<open>
  What the threads of a non-speculative build do to the calendar, in any order: one of them sends an
  event, the head of a slot of the current epoch is extracted, and, once these slots are empty, the
  clock advances and every thread walks its fallback list. \<open>pend\<close> collects the events that were
  accepted (\<open>queue_insert\<close> returned 0) and not extracted yet.
\<close>

fun fallback_checks :: "config \<Rightarrow> shared \<Rightarrow> tls list \<Rightarrow> (shared \<times> tls list) outcome" where
  "fallback_checks cfg s [] = Inr (s, [])"
| "fallback_checks cfg s (t # ts) =
     and_then (fallback_check cfg s t) (\<lambda>(s, t').
     and_then (fallback_checks cfg s ts) (\<lambda>(s, ts'). Inr (s, t' # ts')))"

inductive calendar_run :: "config \<Rightarrow> nat \<Rightarrow> shared \<Rightarrow> tls list \<Rightarrow> event multiset \<Rightarrow> bool" for cfg where
  run_init: "queue_init cfg spin (initial_shared cfg) = Inr s \<Longrightarrow> \<forall>t \<in> set ts. fallback_queue t = [] \<Longrightarrow>
    calendar_run cfg 0 s ts {#}"
| run_send: "calendar_run cfg k s ts pend \<Longrightarrow> j < length ts \<Longrightarrow> exact_slot cfg (ev_time ev) \<Longrightarrow>
    queue_insert cfg ev s (ts ! j) = Inr (r, s', t') \<Longrightarrow>
    calendar_run cfg k s' (ts[j := t']) (if r = 0 then add_mset ev pend else pend)"
| run_extract: "calendar_run cfg k s ts pend \<Longrightarrow> d < OBJECTS cfg \<Longrightarrow>
    queue s d (current_index s) = ev # rest \<Longrightarrow>
    calendar_run cfg k (add_pending (-1) (set_slot d (current_index s) rest s)) ts (pend - {#ev#})"
| run_advance: "calendar_run cfg k s ts pend \<Longrightarrow> \<forall>d < OBJECTS cfg. queue s d (current_index s) = [] \<Longrightarrow>
    exact_tick cfg k \<Longrightarrow> fallback_checks cfg (update_timing cfg s) ts = Inr (s', ts') \<Longrightarrow>
    calendar_run cfg (k + 1) s' ts' pend"

text \<open>The invariant of a run; \<open>beyond\<close> says that the fallback lists lie at or above a time.\<close>

definition beyond :: "real \<Rightarrow> tls list \<Rightarrow> bool" where
  "beyond x ts \<longleftrightarrow> (\<forall>t \<in> set ts. \<forall>ev \<in> set (fallback_queue t). x \<le> ev_time ev)"

definition fallbacks :: "tls list \<Rightarrow> event multiset" where
  "fallbacks ts = (\<Sum>t\<leftarrow>ts. mset (fallback_queue t))"

definition run_inv :: "config \<Rightarrow> nat \<Rightarrow> shared \<Rightarrow> tls list \<Rightarrow> event multiset \<Rightarrow> bool" where
  "run_inv cfg k s ts pend \<longleftrightarrow> queue_wf cfg s \<and> horizon cfg s \<and> clock_at cfg k s \<and>
     beyond (current_max_limit s) ts \<and> pend = queued cfg s + fallbacks ts \<and>
     (\<forall>ev \<in># pend. exact_slot cfg (ev_time ev))"

lemma fallbacks_Cons: "fallbacks (t # ts) = mset (fallback_queue t) + fallbacks ts"
  by (simp add: fallbacks_def)

lemma fallbacks_upd:
  assumes "j < length ts" and "fallback_queue t' = fallback_queue (ts ! j) @ evs"
  shows "fallbacks (ts[j := t']) = mset evs + fallbacks ts"
  using assms
proof (induction ts arbitrary: j)
  case (Cons t ts)
  then show ?case by (cases j) (simp_all add: fallbacks_Cons)
qed simp

lemma beyond_upd:
  assumes "beyond x ts" and "j < length ts" and "fallback_queue t' = fallback_queue (ts ! j) @ evs"
    and "\<forall>ev \<in> set evs. x \<le> ev_time ev"
  shows "beyond x (ts[j := t'])"
proof -
  have "\<forall>ev \<in> set (fallback_queue t'). x \<le> ev_time ev"
    using assms by (auto simp: beyond_def)
  then show ?thesis using assms(1) set_update_subset_insert [of ts j t'] by (auto simp: beyond_def)
qed

lemma fallback_check_facts:
  assumes "fallback_check cfg u t = Inr (s', t')" and "queue_wf cfg u" and "horizon cfg u"
    and "\<forall>ev \<in> set (fallback_queue t). current_min_limit u \<le> ev_time ev"
  shows "queue_wf cfg s' \<and> horizon cfg s' \<and> current_min_limit s' = current_min_limit u
    \<and> current_max_limit s' = current_max_limit u \<and> current_index s' = current_index u
    \<and> (\<forall>ev \<in> set (fallback_queue t'). current_max_limit u \<le> ev_time ev)
    \<and> queued cfg s' + mset (fallback_queue t') = queued cfg u + mset (fallback_queue t)"
proof -
  from assms(1) obtain kept where loop: "fallback_loop cfg [] (fallback_queue t) u = Inr (kept, s')"
    and t': "t' = t\<lparr>fallback_queue := kept\<rparr>" by (rule fallback_check_Inr)
  have f: "kept = filter (\<lambda>ev. current_max_limit u \<le> ev_time ev) (fallback_queue t)"
    "queued cfg s' = mset (filter (\<lambda>ev. ev_time ev < current_max_limit u) (fallback_queue t)) + queued cfg u"
    "queue_wf cfg u \<longrightarrow> queue_wf cfg s'"
    "current_min_limit s' = current_min_limit u" "current_max_limit s' = current_max_limit u"
    "current_index s' = current_index u"
    using fallback_loop_Inr [OF loop] by simp_all
  have "horizon cfg s'" unfolding horizon_def f(2,4,5) using assms(3,4) by (auto simp: horizon_def)
  moreover have "mset (filter (\<lambda>ev. ev_time ev < current_max_limit u) (fallback_queue t)) + mset kept
      = mset (fallback_queue t)"
    unfolding f(1) using multiset_partition [of "mset (fallback_queue t)" "\<lambda>ev. ev_time ev < current_max_limit u"]
    by (simp add: not_less flip: mset_filter)
  ultimately show ?thesis using f t' assms(2) by simp
qed

lemma fallback_checks_facts:
  assumes "fallback_checks cfg u ts = Inr (s', ts')" and "queue_wf cfg u" and "horizon cfg u"
    and "beyond (current_min_limit u) ts"
  shows "queue_wf cfg s' \<and> horizon cfg s' \<and> current_min_limit s' = current_min_limit u
    \<and> current_max_limit s' = current_max_limit u \<and> current_index s' = current_index u
    \<and> beyond (current_max_limit u) ts' \<and> queued cfg s' + fallbacks ts' = queued cfg u + fallbacks ts"
  using assms
proof (induction ts arbitrary: u ts')
  case Nil
  then show ?case by (simp add: beyond_def)
next
  case (Cons t ts)
  from Cons.prems(1) obtain s1 t' ts1 where s1: "fallback_check cfg u t = Inr (s1, t')"
    and rest: "fallback_checks cfg s1 ts = Inr (s', ts1)" and ts': "ts' = t' # ts1"
    by (auto simp: and_then_eq_Inr)
  have early: "\<forall>ev \<in> set (fallback_queue t). current_min_limit u \<le> ev_time ev"
    using Cons.prems(4) by (simp add: beyond_def)
  note f = fallback_check_facts [OF s1 Cons.prems(2,3) early]
  have b: "beyond (current_min_limit s1) ts" using Cons.prems(4) f by (simp add: beyond_def)
  have g: "queue_wf cfg s' \<and> horizon cfg s' \<and> current_min_limit s' = current_min_limit s1
    \<and> current_max_limit s' = current_max_limit s1 \<and> current_index s' = current_index s1
    \<and> beyond (current_max_limit s1) ts1 \<and> queued cfg s' + fallbacks ts1 = queued cfg s1 + fallbacks ts"
    by (rule Cons.IH [OF rest _ _ b]) (use f in simp_all)
  have "queued cfg s' + fallbacks ts' = mset (fallback_queue t') + (queued cfg s' + fallbacks ts1)"
    by (simp add: ts' fallbacks_Cons ac_simps)
  also have "\<dots> = (queued cfg s1 + mset (fallback_queue t')) + fallbacks ts" using g by (simp add: ac_simps)
  also have "\<dots> = queued cfg u + fallbacks (t # ts)" using f by (simp add: fallbacks_Cons ac_simps)
  finally show ?case using f g by (simp add: ts' beyond_def)
qed

lemma clock_limits:
  assumes "clock_at cfg k s" and "0 < LOOKAHEAD cfg"
  shows "current_min_limit s + LOOKAHEAD cfg \<le> current_max_limit s"
proof -
  have "real (k + 1) * LOOKAHEAD cfg \<le> real (k + NUM_SLOTS) * LOOKAHEAD cfg"
    using assms(2) by (intro mult_right_mono) (auto simp: NUM_SLOTS_def)
  then show ?thesis using assms(1) by (simp add: clock_at_def algebra_simps)
qed

lemma horizon_update_timing:
  assumes "queue_wf cfg s" and "horizon cfg s" and "clock_at cfg k s" and "0 < LOOKAHEAD cfg"
    and "exact_tick cfg k" and "\<forall>ev \<in># queued cfg s. exact_slot cfg (ev_time ev)"
    and "\<forall>d < OBJECTS cfg. queue s d (current_index s) = []"
  shows "horizon cfg (update_timing cfg s)"
  unfolding horizon_def queued_update_timing
proof
  fix ev assume ev: "ev \<in># queued cfg s"
  note u = clock_at_update_timing [OF assms(3,5)]
  from ev obtain d i where di: "d < OBJECTS cfg" "i < NUM_SLOTS" "ev \<in> set (queue s d i)"
    by (auto simp: in_queued)
  with assms(7) have "i \<noteq> current_index s" by auto
  with slot_of_event [OF assms(1-4) di] assms(6) ev have "real (k + 1) * LOOKAHEAD cfg \<le> ev_time ev" by auto
  moreover have "ev_time ev < real (k + NUM_SLOTS) * LOOKAHEAD cfg"
    using assms(2,3) ev by (simp add: horizon_def clock_at_def)
  moreover have "real (k + NUM_SLOTS) * LOOKAHEAD cfg \<le> real (k + 1 + NUM_SLOTS) * LOOKAHEAD cfg"
    using assms(4) by (intro mult_right_mono) auto
  ultimately show "current_min_limit (update_timing cfg s) \<le> ev_time ev \<and> ev_time ev < current_max_limit (update_timing cfg s)"
    using u unfolding clock_at_def by linarith
qed

lemma run_inv_init:
  assumes "queue_init cfg spin (initial_shared cfg) = Inr s" and "\<forall>t \<in> set ts. fallback_queue t = []"
    and "rnd cfg (real NUM_SLOTS * LOOKAHEAD cfg) = real NUM_SLOTS * LOOKAHEAD cfg"
  shows "run_inv cfg 0 s ts {#}"
proof -
  have "queue s = (\<lambda>_ _. [])" and lim: "current_min_limit s = 0" "current_index s = 0"
    "current_max_limit s = dmul cfg (real NUM_SLOTS) (LOOKAHEAD cfg)"
    using assms(1) by (auto simp: queue_init_def initial_shared_def fun_eq_iff split: if_splits)
  moreover have "fallbacks ts = {#}" using assms(2) by (induction ts) (simp_all add: fallbacks_def)
  ultimately show ?thesis using assms(2,3)
    by (simp add: run_inv_def queue_wf_def horizon_def queued_def clock_at_def dmul_def beyond_def)
qed

lemma run_inv_send:
  assumes "run_inv cfg k s ts pend" and "j < length ts" and "exact_slot cfg (ev_time ev)"
    and ins: "queue_insert cfg ev s (ts ! j) = Inr (r, s', t')"
  shows "run_inv cfg k s' (ts[j := t']) (if r = 0 then add_mset ev pend else pend)"
proof -
  have wf: "queue_wf cfg s" and hor: "horizon cfg s" and clk: "clock_at cfg k s"
    and bey: "beyond (current_max_limit s) ts" and pend: "pend = queued cfg s + fallbacks ts"
    and ex: "\<forall>ev \<in># pend. exact_slot cfg (ev_time ev)" using assms(1) by (simp_all add: run_inv_def)
  from ins show ?thesis
  proof (cases rule: queue_insert_cases)
    case illegal
    then show ?thesis using assms(1) by simp
  next
    case fallback
    have fq: "fallback_queue t' = fallback_queue (ts ! j) @ [ev]" using fallback by simp
    have "beyond (current_max_limit s) (ts[j := t'])"
      by (rule beyond_upd [OF bey assms(2) fq]) (simp add: fallback)
    then show ?thesis using fallback wf hor clk pend ex assms(3) fallbacks_upd [OF assms(2) fq]
      by (simp add: run_inv_def horizon_def clock_at_def add_pending_def queue_wf_def queued_def)
  next
    case (slot index s1)
    have wf1: "queue_wf cfg s1" by (rule slot_insert_wf [OF slot(5) wf slot(4)])
    have q: "queued cfg s1 = add_mset ev (queued cfg s)" by (rule slot_insert_queued [OF slot(5)])
    note lim = slot_insert_fields(1-3) [OF slot(5)]
    have "horizon cfg s1" unfolding horizon_def q lim using hor slot(1,2) by (auto simp: horizon_def)
    moreover have "clock_at cfg k s1" using clk by (simp add: clock_at_def lim)
    moreover have "ts[j := t'] = ts" using slot by simp
    ultimately show ?thesis using slot(3,6) wf1 q pend ex assms(3) bey lim
      by (simp add: run_inv_def horizon_def clock_at_def add_pending_def queue_wf_def queued_def)
  qed
qed

lemma run_inv_add_pending [simp]: "run_inv cfg k (add_pending x s) ts pend = run_inv cfg k s ts pend"
  by (simp add: run_inv_def horizon_def clock_at_def) (simp add: add_pending_def)

lemma run_inv_extract:
  assumes "run_inv cfg k s ts pend" and "d < OBJECTS cfg" and hd: "queue s d (current_index s) = ev # rest"
  shows "run_inv cfg k (add_pending (-1) (set_slot d (current_index s) rest s)) ts (pend - {#ev#})"
proof -
  let ?s = "set_slot d (current_index s) rest s"
  have wf: "queue_wf cfg s" and hor: "horizon cfg s" and clk: "clock_at cfg k s"
    and bey: "beyond (current_max_limit s) ts" and pend: "pend = queued cfg s + fallbacks ts"
    and ex: "\<forall>ev \<in># pend. exact_slot cfg (ev_time ev)" using assms(1) by (simp_all add: run_inv_def)
  have i: "current_index s < NUM_SLOTS" using clk by (simp add: clock_at_def)
  have "add_mset ev (queued cfg ?s) + mset rest = queued cfg s + mset rest"
    using queued_set_slot [OF assms(2) i, of rest s] hd by simp
  then have q: "queued cfg s = add_mset ev (queued cfg ?s)" by simp
  have "queue_wf cfg ?s"
    unfolding queue_wf_def
  proof (intro allI impI)
    fix e l assume el: "e < OBJECTS cfg" "l < NUM_SLOTS"
    have "set (queue ?s e l) \<subseteq> set (queue s e l)" "sorted_by ev_time (queue s e l) \<Longrightarrow> sorted_by ev_time (queue ?s e l)"
      using hd by (auto simp: set_slot_def)
    then show "sorted_by ev_time (queue ?s e l) \<and>
      (\<forall>x \<in> set (queue ?s e l). ev_dest x = int e \<and> slot_index cfg (ev_time x) = Inr (int l))"
      using queue_wfD [OF wf el] by blast
  qed
  moreover have "horizon cfg ?s" using hor by (simp add: horizon_def q) (simp add: set_slot_def)
  moreover have "pend - {#ev#} = queued cfg ?s + fallbacks ts" by (simp add: pend q)
  moreover have "\<forall>x \<in># pend - {#ev#}. exact_slot cfg (ev_time x)" using ex by (auto dest: in_diffD)
  moreover have "clock_at cfg k ?s" "current_max_limit ?s = current_max_limit s"
    using clk by (simp_all add: clock_at_def set_slot_def)
  ultimately have "run_inv cfg k ?s ts (pend - {#ev#})" using bey by (simp add: run_inv_def)
  then show ?thesis by simp
qed

lemma run_inv_advance:
  assumes "run_inv cfg k s ts pend" and "0 < LOOKAHEAD cfg" and "exact_tick cfg k"
    and empty: "\<forall>d < OBJECTS cfg. queue s d (current_index s) = []"
    and adv: "fallback_checks cfg (update_timing cfg s) ts = Inr (s', ts')"
  shows "run_inv cfg (k + 1) s' ts' pend"
proof -
  let ?u = "update_timing cfg s"
  have wf: "queue_wf cfg s" and hor: "horizon cfg s" and clk: "clock_at cfg k s"
    and bey: "beyond (current_max_limit s) ts" and pend: "pend = queued cfg s + fallbacks ts"
    and ex: "\<forall>ev \<in># pend. exact_slot cfg (ev_time ev)" using assms(1) by (simp_all add: run_inv_def)
  note u = clock_at_update_timing [OF clk assms(3)]
  have ex_q: "\<forall>ev \<in># queued cfg s. exact_slot cfg (ev_time ev)" using ex by (simp add: pend)
  have hor_u: "horizon cfg ?u" by (rule horizon_update_timing [OF wf hor clk assms(2,3) ex_q empty])
  have "current_min_limit ?u = current_min_limit s + LOOKAHEAD cfg"
    using u clk unfolding clock_at_def by (simp add: algebra_simps)
  then have "current_min_limit ?u \<le> current_max_limit s" using clock_limits [OF clk assms(2)] by linarith
  then have "beyond (current_min_limit ?u) ts"
    using bey unfolding beyond_def by (blast intro: order_trans)
  note f = fallback_checks_facts [OF adv _ hor_u this, unfolded queue_wf_update_timing queued_update_timing, OF wf]
  have "clock_at cfg (k + 1) s'" using u f unfolding clock_at_def by presburger
  then show ?thesis using f ex pend by (simp add: run_inv_def)
qed

lemma calendar_run_inv:
  assumes "calendar_run cfg k s ts pend" and "0 < LOOKAHEAD cfg"
    and "rnd cfg (real NUM_SLOTS * LOOKAHEAD cfg) = real NUM_SLOTS * LOOKAHEAD cfg"
  shows "run_inv cfg k s ts pend"
  using assms(1)
proof (induction rule: calendar_run.induct)
  case (run_init spin s ts)
  then show ?case by (rule run_inv_init [OF _ _ assms(3)])
next
  case (run_send k s ts pend j ev r s' t')
  then show ?case by (intro run_inv_send)
next
  case (run_extract k s ts pend d ev rest)
  then show ?case by (intro run_inv_extract)
next
  case (run_advance k s ts pend s' ts')
  then show ?case by (intro run_inv_advance [OF _ assms(2)])
qed

lemma filter_mset_sums: "filter_mset P (\<Sum>i < (n::nat). f i) = (\<Sum>i < n. filter_mset P (f i))"
  by (induction n) simp_all

lemma slot_content:
  assumes "queue_wf cfg s" and "d < OBJECTS cfg" and "i < NUM_SLOTS"
  shows "mset (queue s d i) =
    filter_mset (\<lambda>ev. ev_dest ev = int d \<and> slot_index cfg (ev_time ev) = Inr (int i)) (queued cfg s)"
    (is "_ = filter_mset ?P _")
proof -
  have one: "filter_mset ?P (mset (queue s j l)) = (if l = i then if j = d then mset (queue s d i) else {#} else {#})"
    if "j < OBJECTS cfg" "l < NUM_SLOTS" for j l
    using queue_wfD(2,3) [OF assms(1) that] by (auto simp: filter_mset_eq_conv)
  have "filter_mset ?P (queued cfg s) = (\<Sum>j < OBJECTS cfg. \<Sum>l < NUM_SLOTS. filter_mset ?P (mset (queue s j l)))"
    by (simp add: queued_def filter_mset_sums)
  also have "\<dots> = (\<Sum>j < OBJECTS cfg. \<Sum>l < NUM_SLOTS. if l = i then if j = d then mset (queue s d i) else {#} else {#})"
    using one by (intro sum.cong refl) simp_all
  also have "\<dots> = mset (queue s d i)" using assms(2,3) by simp
  finally show ?thesis by simp
qed

text \<open>
  Property C1. In every state that sends, extractions and advances of the clock lead to from the
  initial calendar, the slot of the current epoch holds, in timestamp order, exactly the events of
  the epoch: of all events accepted and not extracted yet, wherever they were put, those of the object
  below \<open>current_min_limit + LOOKAHEAD\<close> are the ones in slot \<open>current_index\<close>, each as often as it was
  sent. So a thread that has emptied this slot has extracted everything the epoch has for the object.
\<close>

theorem current_slot_is_epoch:
  assumes "calendar_run cfg k s ts pend" and "0 < LOOKAHEAD cfg"
    and "rnd cfg (real NUM_SLOTS * LOOKAHEAD cfg) = real NUM_SLOTS * LOOKAHEAD cfg" and "d < OBJECTS cfg"
  shows "mset (queue s d (current_index s)) =
      filter_mset (\<lambda>ev. ev_dest ev = int d \<and> ev_time ev < current_min_limit s + LOOKAHEAD cfg) pend
    \<and> sorted_by ev_time (queue s d (current_index s))
    \<and> current_min_limit s = real k * LOOKAHEAD cfg"
proof -
  have wf: "queue_wf cfg s" and hor: "horizon cfg s" and clk: "clock_at cfg k s"
    and bey: "beyond (current_max_limit s) ts" and pend: "pend = queued cfg s + fallbacks ts"
    and ex: "\<forall>ev \<in># pend. exact_slot cfg (ev_time ev)"
    using calendar_run_inv [OF assms(1-3)] by (simp_all add: run_inv_def)
  have ci: "current_index s < NUM_SLOTS" using clk by (simp add: clock_at_def)
  have limit: "current_min_limit s + LOOKAHEAD cfg = real (k + 1) * LOOKAHEAD cfg"
    using clk by (simp add: clock_at_def algebra_simps)
  have late: "filter_mset (\<lambda>ev. ev_dest ev = int d \<and> ev_time ev < current_min_limit s + LOOKAHEAD cfg) (fallbacks ts) = {#}"
    using bey clock_limits [OF clk assms(2)]
    by (fastforce simp: fallbacks_def beyond_def)
  have "slot_index cfg (ev_time ev) = Inr (int (current_index s)) \<longleftrightarrow> ev_time ev < current_min_limit s + LOOKAHEAD cfg"
    if ev: "ev \<in># queued cfg s" for ev
  proof -
    from ev obtain e i where ei: "e < OBJECTS cfg" "i < NUM_SLOTS" "ev \<in> set (queue s e i)"
      by (auto simp: in_queued)
    have "exact_slot cfg (ev_time ev)" using ex ev by (simp add: pend)
    from slot_of_event [OF wf hor clk assms(2) ei this] queue_wfD(3) [OF wf ei]
    show ?thesis unfolding limit by simp
  qed
  then have "mset (queue s d (current_index s)) =
      filter_mset (\<lambda>ev. ev_dest ev = int d \<and> ev_time ev < current_min_limit s + LOOKAHEAD cfg) (queued cfg s)"
    unfolding slot_content [OF wf assms(4) ci] by (intro filter_mset_cong) simp_all
  then show ?thesis using late queue_wfD(1) [OF wf assms(4) ci] clk by (simp add: pend clock_at_def)
qed

text \<open>
  Property C5. When every object has emptied the current slot, advancing the clock and then moving a
  thread's fallback events into the slots leads to a well-formed queue at the next epoch in which
  every queued event lies again between the limits, the events the thread keeps are exactly those
  still beyond the upper limit, and none is lost.
\<close>

theorem epoch_advance:
  assumes "queue_wf cfg s" and "horizon cfg s" and "clock_at cfg k s" and "0 < LOOKAHEAD cfg"
    and "exact_tick cfg k" and "\<forall>ev \<in># queued cfg s. exact_slot cfg (ev_time ev)"
    and "\<forall>d < OBJECTS cfg. queue s d (current_index s) = []"
    and "\<forall>ev \<in> set (fallback_queue t). current_max_limit s \<le> ev_time ev"
    and "fallback_check cfg (update_timing cfg s) t = Inr (s', t')"
  shows "queue_wf cfg s' \<and> clock_at cfg (k + 1) s' \<and> horizon cfg s'
    \<and> (\<forall>ev \<in> set (fallback_queue t'). current_max_limit s' \<le> ev_time ev)
    \<and> queued cfg s' + mset (fallback_queue t') = queued cfg s + mset (fallback_queue t)"
proof -
  let ?u = "update_timing cfg s"
  have u: "clock_at cfg (k + 1) ?u" by (rule clock_at_update_timing [OF assms(3,5)])
  from assms(9) obtain kept where loop: "fallback_loop cfg [] (fallback_queue t) ?u = Inr (kept, s')"
    and t': "t' = t\<lparr>fallback_queue := kept\<rparr>" by (rule fallback_check_Inr)
  have f: "kept = filter (\<lambda>ev. current_max_limit ?u \<le> ev_time ev) (fallback_queue t)"
    "queued cfg s' = mset (filter (\<lambda>ev. ev_time ev < current_max_limit ?u) (fallback_queue t)) + queued cfg ?u"
    "queue_wf cfg ?u \<longrightarrow> queue_wf cfg s'"
    "current_min_limit s' = current_min_limit ?u" "current_max_limit s' = current_max_limit ?u"
    "current_index s' = current_index ?u"
    using fallback_loop_Inr [OF loop] by simp_all
  have clock: "clock_at cfg (k + 1) s'" using u unfolding clock_at_def f(4-6) .
  have old: "current_min_limit ?u \<le> ev_time ev \<and> ev_time ev < current_max_limit ?u"
    if ev: "ev \<in># queued cfg s" for ev
  proof -
    from ev obtain d i where di: "d < OBJECTS cfg" "i < NUM_SLOTS" "ev \<in> set (queue s d i)"
      by (auto simp: in_queued)
    with assms(7) have "i \<noteq> current_index s" by auto
    with slot_of_event [OF assms(1-4) di] assms(6) ev have "real (k + 1) * LOOKAHEAD cfg \<le> ev_time ev" by auto
    moreover have "ev_time ev < real (k + NUM_SLOTS) * LOOKAHEAD cfg"
      using assms(2,3) ev by (simp add: horizon_def clock_at_def)
    moreover have "real (k + NUM_SLOTS) * LOOKAHEAD cfg \<le> real (k + 1 + NUM_SLOTS) * LOOKAHEAD cfg"
      using assms(4) by (intro mult_right_mono) auto
    ultimately show ?thesis using u unfolding clock_at_def by linarith
  qed
  have new: "current_min_limit ?u \<le> ev_time ev" if "ev \<in> set (fallback_queue t)" for ev
  proof -
    have "real (k + 1) * LOOKAHEAD cfg \<le> real (k + NUM_SLOTS) * LOOKAHEAD cfg"
      using assms(4) by (intro mult_right_mono) (auto simp: NUM_SLOTS_def)
    then show ?thesis using u assms(3,8) that unfolding clock_at_def by force
  qed
  have "horizon cfg s'" unfolding horizon_def f(2,4,5) using old new by auto
  moreover have "mset (filter (\<lambda>ev. ev_time ev < current_max_limit ?u) (fallback_queue t)) + mset kept
      = mset (fallback_queue t)"
    unfolding f(1) using multiset_partition [of "mset (fallback_queue t)" "\<lambda>ev. ev_time ev < current_max_limit ?u"]
    by (simp add: not_less flip: mset_filter)
  ultimately show ?thesis using f(1-3,5) clock t' assms(1) by simp
qed

lemma order_walk_iff: "order_walk xs = Inr () \<longleftrightarrow> sorted_by ev_time xs"
proof (induction xs rule: order_walk.induct)
  case (1 a b xs)
  then show ?case by (auto simp: not_less intro: order_trans)
qed simp_all

text \<open>
  The order check of the debug build stops the program exactly when the slot is out of
  order, so on a well-formed queue it never does.
\<close>

theorem verify_queue_order_exact:
  "verify_queue_order d s t = (if sorted_by ev_time (queue s d (my_index t)) then Inr () else Inl Exit_Failure)"
proof -
  have "order_walk xs \<noteq> Inr () \<Longrightarrow> order_walk xs = Inl Exit_Failure" for xs
    by (induction xs rule: order_walk.induct) (auto split: if_splits)
  then show ?thesis unfolding verify_queue_order_def using order_walk_iff by presburger
qed

section \<open>Concrete queues\<close>

lemma round20_half [simp]: "round20 (1 / 2) = 1 / 2" "round20 (3 / 2) = 3 / 2"
  by (simp_all add: round20_def)

lemma demo_slot_index [simp]:
  "slot_index demo_cfg (1 / 2) = Inr 0" "slot_index demo_cfg (3 / 2) = Inr 1" "slot_index demo_cfg 2000 = Inr 0"
  by (simp_all add: slot_index_def ddiv_def int_of_double_def trunc_double_def fits_int32_def NUM_SLOTS_def
      signed_modulo_int_def signed_divide_int_def)

definition demo_start :: shared where
  "demo_start = initial_shared demo_cfg"

text \<open>An event in the next epoch for object 0, and one just beyond the horizon.\<close>

definition demo_queue :: shared where
  "demo_queue = set_slot 0 1 [demo_event 1 0 (3 / 2)] demo_start"

definition demo_worker :: tls where
  "demo_worker = initial_tls\<lparr>fallback_queue := [demo_event 2 0 2000]\<rparr>"

lemma demo_start_wf [simp]: "queue_wf demo_cfg demo_start"
  by (simp add: queue_wf_def demo_start_def initial_shared_def)

lemma demo_start_clock [simp]: "clock_at demo_cfg 0 demo_start"
  by (simp add: clock_at_def demo_start_def initial_shared_def dmul_def NUM_SLOTS_def)

lemma demo_queue_slots: "queue demo_queue d i = (if d = 0 \<and> i = 1 then [demo_event 1 0 (3 / 2)] else [])"
  by (simp add: demo_queue_def demo_start_def initial_shared_def set_slot_def)

lemma demo_queued: "ev \<in># queued demo_cfg demo_queue \<longleftrightarrow> ev = demo_event 1 0 (3 / 2)"
  by (auto simp: in_queued demo_queue_slots NUM_SLOTS_def)

lemma demo_queue_facts [simp]:
  "queue_wf demo_cfg demo_queue" "clock_at demo_cfg 0 demo_queue" "horizon demo_cfg demo_queue"
  "\<forall>ev \<in># queued demo_cfg demo_queue. exact_slot demo_cfg (ev_time ev)"
proof -
  show "queue_wf demo_cfg demo_queue" by (simp add: queue_wf_def demo_queue_slots)
  show clock: "clock_at demo_cfg 0 demo_queue"
    using demo_start_clock by (simp add: clock_at_def demo_queue_def set_slot_def)
  show "horizon demo_cfg demo_queue"
    using clock by (simp add: horizon_def demo_queued clock_at_def NUM_SLOTS_def)
  show "\<forall>ev \<in># queued demo_cfg demo_queue. exact_slot demo_cfg (ev_time ev)"
    by (simp add: demo_queued exact_slot_def)
qed

lemma demo_insert:
  "\<exists>s'. queue_insert demo_cfg (demo_event 3 2 (1 / 2)) demo_queue demo_worker = Inr (0, s', demo_worker)"
  using demo_queue_facts(2)
  by (simp add: queue_insert_def clock_at_def NUM_SLOTS_def slot_insert_def valid_object_def)

theorem queue_insert_correct_witness:
  "\<exists>s'. queue_insert demo_cfg (demo_event 3 2 (1 / 2)) demo_queue demo_worker = Inr (0, s', demo_worker)
     \<and> queue_wf demo_cfg s'
     \<and> queued demo_cfg s' = add_mset (demo_event 3 2 (1 / 2)) (queued demo_cfg demo_queue)"
proof -
  obtain s' where s': "queue_insert demo_cfg (demo_event 3 2 (1 / 2)) demo_queue demo_worker = Inr (0, s', demo_worker)"
    using demo_insert by blast
  moreover have "\<not> 1 / 2 < current_min_limit demo_queue"
    using demo_queue_facts(2) by (simp add: clock_at_def)
  ultimately show ?thesis using queue_insert_correct [OF s' demo_queue_facts(1)] by simp
qed

theorem queue_insert_returns_witness:
  "\<exists>r s' t'. queue_insert demo_cfg (demo_event 3 2 (1 / 2)) demo_queue demo_worker = Inr (r, s', t')"
  by (rule queue_insert_returns [OF demo_queue_facts(2)])
    (simp_all add: NUM_SLOTS_def valid_object_def exact_slot_def)

text \<open>Object 2 is sent an event of the second epoch and then one of the first.\<close>

lemma demo_start_run: "calendar_run demo_cfg 0 demo_start [initial_tls] {#}"
proof (rule run_init)
  show "queue_init demo_cfg (\<lambda>_ _. True) (initial_shared demo_cfg) = Inr demo_start"
    by (simp add: queue_init_def demo_start_def initial_shared_def list_all_iff fun_eq_iff)
qed (simp add: initial_tls_def)

definition demo_sent :: "event list \<Rightarrow> shared" where
  "demo_sent evs = fold (\<lambda>ev s. add_pending 1 (set_slot (nat (ev_dest ev)) (nat \<lfloor>ev_time ev\<rfloor>)
     (insert_by ev_time ev (queue s (nat (ev_dest ev)) (nat \<lfloor>ev_time ev\<rfloor>))) s)) evs demo_start"

theorem current_slot_is_epoch_witness:
  "\<exists>s1 s2. queue_insert demo_cfg (demo_event 1 2 (3 / 2)) demo_start initial_tls = Inr (0, s1, initial_tls)
     \<and> queue_insert demo_cfg (demo_event 2 2 (1 / 2)) s1 initial_tls = Inr (0, s2, initial_tls)
     \<and> mset (queue s2 2 (current_index s2)) = {# demo_event 2 2 (1 / 2) #}"
proof -
  let ?a = "demo_event 1 2 (3 / 2)" and ?b = "demo_event 2 2 (1 / 2)"
  have ra: "queue_insert demo_cfg ?a demo_start initial_tls = Inr (0, demo_sent [?a], initial_tls)"
    using demo_start_clock
    by (simp add: queue_insert_def clock_at_def NUM_SLOTS_def slot_insert_def valid_object_def demo_sent_def)
  have run_a: "calendar_run demo_cfg 0 (demo_sent [?a]) [initial_tls] {# ?a #}"
    using run_send [OF demo_start_run, of 0 ?a 0 "demo_sent [?a]" initial_tls] ra by (simp add: exact_slot_def)
  have rb: "queue_insert demo_cfg ?b (demo_sent [?a]) initial_tls = Inr (0, demo_sent [?a, ?b], initial_tls)"
    using demo_start_clock
    by (simp add: queue_insert_def clock_at_def NUM_SLOTS_def slot_insert_def valid_object_def demo_sent_def
        add_pending_def set_slot_def)
  have run_b: "calendar_run demo_cfg 0 (demo_sent [?a, ?b]) [initial_tls] {# ?a, ?b #}"
    using run_send [OF run_a, of 0 ?b 0 "demo_sent [?a, ?b]" initial_tls] rb
    by (simp add: exact_slot_def add_mset_commute)
  have "mset (queue (demo_sent [?a, ?b]) 2 (current_index (demo_sent [?a, ?b]))) = {# ?b #}"
    using current_slot_is_epoch [OF run_b, of 2] by (simp add: NUM_SLOTS_def)
  then show ?thesis using ra rb by blast
qed

lemma demo_advance:
  "\<exists>s' t'. fallback_check demo_cfg (update_timing demo_cfg demo_queue) demo_worker = Inr (s', t')"
  using demo_queue_facts(2)
  by (simp add: fallback_check_def demo_worker_def clock_at_def dadd_def NUM_SLOTS_def
      queue_insert_from_fallback_def slot_insert_def valid_object_def)

theorem epoch_advance_witness:
  "\<exists>s' t'. fallback_check demo_cfg (update_timing demo_cfg demo_queue) demo_worker = Inr (s', t')
     \<and> queue_wf demo_cfg s' \<and> clock_at demo_cfg 1 s' \<and> horizon demo_cfg s'"
proof -
  obtain s' t' where st: "fallback_check demo_cfg (update_timing demo_cfg demo_queue) demo_worker = Inr (s', t')"
    using demo_advance by blast
  have "queue_wf demo_cfg s' \<and> clock_at demo_cfg (0 + 1) s' \<and> horizon demo_cfg s'
    \<and> (\<forall>ev \<in> set (fallback_queue t'). current_max_limit s' \<le> ev_time ev)
    \<and> queued demo_cfg s' + mset (fallback_queue t') = queued demo_cfg demo_queue + mset (fallback_queue demo_worker)"
  proof (rule epoch_advance [OF demo_queue_facts(1,3,2) _ _ demo_queue_facts(4) _ _ st])
    show "exact_tick demo_cfg 0" by (simp add: exact_tick_def NUM_SLOTS_def)
    show "\<forall>d<OBJECTS demo_cfg. queue demo_queue d (current_index demo_queue) = []"
      using demo_queue_facts(2) by (simp add: clock_at_def demo_queue_slots)
    show "\<forall>ev\<in>set (fallback_queue demo_worker). current_max_limit demo_queue \<le> ev_time ev"
      using demo_queue_facts(2) by (simp add: clock_at_def demo_worker_def NUM_SLOTS_def)
  qed simp
  with st show ?thesis by auto
qed

end
