(* ===== verification/Rollback.thy ===== *)
theory Rollback
  imports Event_Queue
begin

text \<open>
  The speculative part of the runtime: \<open>speculation/speculation.c\<close> (object status, the thread's
  stack of objects, the rollback of an object) and the part of \<open>queue/queue.c\<close> compiled under
  \<open>SPECULATION\<close> (insertion through the speculation queue, the log of sends, annihilation of
  events, the end-of-epoch flushes). The operations of the checkpoint backend the code calls,
  \<open>set_ckpt\<close> and \<open>restore_object\<close>, are arguments over the object memory \<open>'m\<close>; the backends are
  modelled in theories of their own.
\<close>

section \<open>Status entries and the thread's stack\<close>

definition speculation_init :: "config \<Rightarrow> shared \<Rightarrow> int \<times> shared" where
  "speculation_init cfg s = (1, s\<lparr>
     filter_message := (\<lambda>j. if j < OBJECTS cfg then dsub cfg 0 epsilon else filter_message s j),
     log_queue := (\<lambda>j. if j < OBJECTS cfg then [] else log_queue s j),
     speculation := (\<lambda>j. if j < OBJECTS cfg
        then (speculation s j)\<lparr>owner := -1,
               checkpointed := (if AVOID_THROTTLING cfg then True else checkpointed (speculation s j))\<rparr>
        else speculation s j)\<rparr>)"

text \<open>
  The stack holds at most \<open>STACKABLE_OBJECTS\<close> entries, which is \<open>OBJECTS\<close>; a push beyond that
  stops the program. \<open>put_head_into_stack\<close> shifts the whole array up by one and writes entry 0,
  the bottom of the stack.
\<close>

definition put_into_stack :: "config \<Rightarrow> nat \<Rightarrow> shared \<Rightarrow> tls \<Rightarrow> (shared \<times> tls) outcome" where
  "put_into_stack cfg d s t =
     (if length (object_stack t) \<ge> OBJECTS cfg then Inl Exit_Failure
      else Inr (upd_status d (in_stack_update (\<lambda>_. True)) s, t\<lparr>object_stack := d # object_stack t\<rparr>))"

definition put_head_into_stack :: "config \<Rightarrow> nat \<Rightarrow> shared \<Rightarrow> tls \<Rightarrow> (shared \<times> tls) outcome" where
  "put_head_into_stack cfg d s t =
     (if length (object_stack t) \<ge> OBJECTS cfg then Inl Exit_Failure
      else Inr (upd_status d (in_stack_update (\<lambda>_. True)) s, t\<lparr>object_stack := object_stack t @ [d]\<rparr>))"

text \<open>\<open>get_from_stack(&target)\<close>, the only way the runtime calls it.\<close>

definition get_from_stack :: "shared \<Rightarrow> tls \<Rightarrow> bool \<times> shared \<times> tls" where
  "get_from_stack s t =
     (case object_stack t of
        [] \<Rightarrow> (False, s, t)
      | d # ds \<Rightarrow> (True, upd_status d (in_stack_update (\<lambda>_. False)) s,
                    t\<lparr>target := of_nat d, object_stack := ds\<rparr>))"

section \<open>Queues of the speculative build\<close>

definition retractable_queue_insert_locked :: "event \<Rightarrow> nat \<Rightarrow> shared \<Rightarrow> shared" where
  "retractable_queue_insert_locked ev d s = set_retractable d (retractable_queue s d @ [ev]) s"

definition retractable_queue_insert :: "config \<Rightarrow> event \<Rightarrow> shared \<Rightarrow> shared outcome" where
  "retractable_queue_insert cfg ev s =
     (if ev_time ev < current_min_limit s then Inl Exit_Failure
      else if ev_time ev \<ge> dadd cfg (current_min_limit s) (LOOKAHEAD cfg) then Inl Exit_Failure
      else if \<not> valid_object cfg (ev_dest ev) then Inl Undefined
      else Inr (add_pending 1 (add_retractable 1 (retractable_queue_insert_locked ev (nat (ev_dest ev)) s))))"

text \<open>\<open>node\<close> says whether the \<open>malloc\<close> of the log entry succeeds.\<close>

definition log_the_send :: "bool \<Rightarrow> event \<Rightarrow> nat \<Rightarrow> real \<Rightarrow> shared \<Rightarrow> shared outcome" where
  "log_the_send node ev d now s =
     (if \<not> node then Inl Exit_Failure
      else Inr (set_log d (log_queue s d @ [\<lparr>the_element = ev, log_time = now\<rparr>]) s))"

definition flush_log :: "nat \<Rightarrow> shared \<Rightarrow> shared" where
  "flush_log d s = set_log d [] s"

text \<open>Lowering the violation time of an object whose rollback already stands, or raising the rollback.\<close>

definition raise_violation :: "real \<Rightarrow> object_status \<Rightarrow> object_status" where
  "raise_violation v st =
     (if standing_rollback st then
        (if causality_violation_time st > v then st\<lparr>causality_violation_time := v\<rparr> else st)
      else st\<lparr>standing_rollback := True, causality_violation_time := v\<rparr>)"

definition take_object :: "int \<Rightarrow> object_status \<Rightarrow> object_status" where
  "take_object who st = st\<lparr>the_state := BUSY, owner := who\<rparr>"

definition stamp_send :: "real \<Rightarrow> event \<Rightarrow> event" where
  "stamp_send now ev = ev\<lparr>ev_q := (ev_q ev)\<lparr>q_send_time := now\<rparr>\<rparr>"

text \<open>The part of \<open>speculation_queue_insert\<close> under the lock of the destination.\<close>

definition insert_straggler :: "config \<Rightarrow> event \<Rightarrow> nat \<Rightarrow> nat \<Rightarrow> shared \<Rightarrow> tls \<Rightarrow> (shared \<times> tls) outcome" where
  "insert_straggler cfg ev src d s t =
     (let standing = standing_rollback (speculation s d);
          s1 = upd_status d (raise_violation (ev_time ev)) s in
      and_then
        (if \<not> standing \<and> the_state (speculation s1 d) = FREE then
           and_then (put_head_into_stack cfg src (upd_status d (take_object (me t)) s1) t) (\<lambda>(s2, t2).
           and_then (put_into_stack cfg d s2 t2) (\<lambda>(s3, t3). Inr (s3, t3\<lparr>target := -1\<rparr>)))
         else Inr (s1, t))
        (\<lambda>(s4, t4). and_then (queue_insert_in_epoch cfg ev s4) (\<lambda>s5. Inr (s5, t4))))"

definition insert_in_order :: "config \<Rightarrow> event \<Rightarrow> nat \<Rightarrow> shared \<Rightarrow> tls \<Rightarrow> (shared \<times> tls) outcome" where
  "insert_in_order cfg ev d s t =
     and_then (queue_insert_in_epoch cfg ev s) (\<lambda>s1.
       if the_state (speculation s1 d) = FREE \<and> already_taken (speculation s1 d) then
         put_into_stack cfg d (upd_status d (take_object (me t)) s1) t
       else Inr (s1, t))"

definition speculation_queue_insert ::
  "config \<Rightarrow> bool \<Rightarrow> event \<Rightarrow> shared \<Rightarrow> tls \<Rightarrow> (int \<times> shared \<times> tls) outcome" where
  "speculation_queue_insert cfg node ev0 s t =
     (let ev = stamp_send (cur_time t) ev0; src = nat (current t); d = nat (ev_dest ev) in
      if ev_time ev < current_min_limit s then Inr (-1, s, t)
      else if \<not> valid_object cfg (current t) then Inl Undefined
      else if ev_time ev \<ge> dadd cfg (current_min_limit s) (LOOKAHEAD cfg) then
        Inr (0, add_speculative 1 (set_specqueue src (speculation_queue s src @ [ev]) s), t)
      else and_then (log_the_send node ev src (cur_time t) s) (\<lambda>s1.
        if \<not> valid_object cfg (ev_dest ev) then Inl Undefined
        else and_then
          (if current_time (speculation s1 d) \<ge> ev_time ev then insert_straggler cfg ev src d s1 t
           else insert_in_order cfg ev d s1 t)
          (\<lambda>(s2, t2). Inr (0, s2, t2))))"

section \<open>End-of-epoch flushes\<close>

text \<open>The events of a speculation queue go through \<open>queue_insert\<close>, whose result is not looked at.\<close>

fun flush_events :: "config \<Rightarrow> event list \<Rightarrow> shared \<Rightarrow> tls \<Rightarrow> (shared \<times> tls) outcome" where
  "flush_events cfg [] s t = Inr (s, t)"
| "flush_events cfg (ev # evs) s t =
     and_then (queue_insert cfg ev s t) (\<lambda>(r, s, t). flush_events cfg evs s t)"

definition reset_object :: "object_status \<Rightarrow> object_status" where
  "reset_object st = st\<lparr>causality_violation_time := 0, standing_rollback := False, the_state := FREE,
     owner := -1, already_taken := False\<rparr>"

definition speculation_flush_object ::
  "config \<Rightarrow> (nat \<Rightarrow> 'm \<Rightarrow> 'm outcome) \<Rightarrow> nat \<Rightarrow> shared \<Rightarrow> tls \<Rightarrow> 'm \<Rightarrow> (shared \<times> tls \<times> 'm) outcome" where
  "speculation_flush_object cfg set_ckpt d s t m =
     (let s1 = upd_status d reset_object s;
          s2 = s1\<lparr>filter_message := (filter_message s1)
                    (d := dsub cfg (dadd cfg (current_min_limit s1) (LOOKAHEAD cfg)) epsilon)\<rparr>;
          s3 = flush_log d s2;
          evs = speculation_queue s3 d in
      and_then (flush_events cfg evs s3 t) (\<lambda>(s4, t4).
        let s5 = set_specqueue d [] (add_speculative (- int (length evs)) s4) in
        if AVOID_THROTTLING cfg then Inr (upd_status d (checkpointed_update (\<lambda>_. False)) s5, t4, m)
        else and_then (set_ckpt d m) (\<lambda>m1. Inr (s5, t4, m1))))"

text \<open>No flush touches the counters the threads take their objects from.\<close>

definition same_counters :: "shared \<Rightarrow> shared \<Rightarrow> bool" where
  "same_counters s s' \<longleftrightarrow> shadow_object_identifiers s' = shadow_object_identifiers s
     \<and> retractable_object_identifiers s' = retractable_object_identifiers s"

lemma same_counters_refl [simp]: "same_counters s s"
  by (simp add: same_counters_def)

lemma queue_insert_counters: "queue_insert cfg ev s t = Inr (r, s', t') \<Longrightarrow> same_counters s s'"
  by (erule queue_insert_cases) (auto simp: same_counters_def slot_insert_Inr shared_defs)

lemma flush_events_counters: "flush_events cfg evs s t = Inr (s', t') \<Longrightarrow> same_counters s s'"
proof (induction evs arbitrary: s t)
  case (Cons ev evs)
  then obtain r s1 t1 where "queue_insert cfg ev s t = Inr (r, s1, t1)" "flush_events cfg evs s1 t1 = Inr (s', t')"
    by (auto simp: and_then_eq_Inr)
  then show ?case using Cons.IH queue_insert_counters by (force simp: same_counters_def)
qed simp

text \<open>The object as \<open>speculation_queue_flush\<close> leaves it before it looks at the queued events.\<close>

definition flush_prepare :: "config \<Rightarrow> nat \<Rightarrow> shared \<Rightarrow> shared" where
  "flush_prepare cfg d s = flush_log d ((upd_status d reset_object s)\<lparr>filter_message := (filter_message s)
     (d := dsub cfg (dadd cfg (current_min_limit s) (LOOKAHEAD cfg)) epsilon)\<rparr>)"

lemma speculation_flush_object_Inr:
  assumes "speculation_flush_object cfg set_ckpt d s t m = Inr (s', t', m')"
  obtains s4 where "flush_events cfg (speculation_queue s d) (flush_prepare cfg d s) t = Inr (s4, t')"
    and "s' = (let s5 = set_specqueue d [] (add_speculative (- int (length (speculation_queue s d))) s4)
               in if AVOID_THROTTLING cfg then upd_status d (checkpointed_update (\<lambda>_. False)) s5 else s5)"
    and "if AVOID_THROTTLING cfg then m' = m else set_ckpt d m = Inr m'"
proof -
  have prep: "flush_log d ((upd_status d reset_object s)\<lparr>filter_message := (filter_message (upd_status d reset_object s))
      (d := dsub cfg (dadd cfg (current_min_limit (upd_status d reset_object s)) (LOOKAHEAD cfg)) epsilon)\<rparr>)
      = flush_prepare cfg d s"
    by (simp add: flush_prepare_def upd_status_def)
  have evs: "speculation_queue (flush_prepare cfg d s) d = speculation_queue s d"
    by (simp add: flush_prepare_def flush_log_def shared_defs)
  show thesis
  proof (cases "flush_events cfg (speculation_queue s d) (flush_prepare cfg d s) t")
    case (Inl a)
    with assms show thesis by (simp add: speculation_flush_object_def Let_def prep evs)
  next
    case (Inr st)
    then obtain s4 t4 where st: "flush_events cfg (speculation_queue s d) (flush_prepare cfg d s) t = Inr (s4, t4)"
      by (cases st) auto
    show thesis
    proof (cases "AVOID_THROTTLING cfg")
      case True
      with assms st show thesis by (intro that) (auto simp: speculation_flush_object_def Let_def prep evs)
    next
      case False
      with assms st obtain m1 where "set_ckpt d m = Inr m1"
        by (cases "set_ckpt d m") (auto simp: speculation_flush_object_def Let_def prep evs)
      with False assms st show thesis by (intro that) (auto simp: speculation_flush_object_def Let_def prep evs)
    qed
  qed
qed

lemma speculation_flush_object_counters:
  assumes "speculation_flush_object cfg set_ckpt d s t m = Inr (s', t', m')"
  shows "same_counters s s'"
  using assms
proof (rule speculation_flush_object_Inr)
  fix s4
  assume "flush_events cfg (speculation_queue s d) (flush_prepare cfg d s) t = Inr (s4, t')"
  then have "same_counters (flush_prepare cfg d s) s4" by (rule flush_events_counters)
  moreover assume "s' = (let s5 = set_specqueue d [] (add_speculative (- int (length (speculation_queue s d))) s4)
               in if AVOID_THROTTLING cfg then upd_status d (checkpointed_update (\<lambda>_. False)) s5 else s5)"
  ultimately show ?thesis by (simp add: same_counters_def flush_prepare_def flush_log_def shared_defs Let_def)
qed

lemma and_then_cong [fundef_cong]:
  "m = m' \<Longrightarrow> (\<And>a. m' = Inr a \<Longrightarrow> f a = g a) \<Longrightarrow> and_then m f = and_then m' g"
  by (cases m') auto

text \<open>
  The thread's loop takes object numbers from a shared counter until they run out. The counter
  is a \<open>long\<close>, the number an \<open>unsigned\<close>; the counter stays below \<open>OBJECTS + THREADS\<close>, where the
  two agree.
\<close>

function speculation_queue_flush ::
  "config \<Rightarrow> (nat \<Rightarrow> 'm \<Rightarrow> 'm outcome) \<Rightarrow> shared \<Rightarrow> tls \<Rightarrow> 'm \<Rightarrow> (shared \<times> tls \<times> 'm) outcome" where
  "speculation_queue_flush cfg set_ckpt s t m =
     (let target_object = shadow_object_identifiers s;
          s1 = s\<lparr>shadow_object_identifiers := target_object + 1\<rparr> in
      if valid_object cfg target_object then
        and_then (speculation_flush_object cfg set_ckpt (nat target_object) s1 t m)
          (\<lambda>(s2, t2, m2). speculation_queue_flush cfg set_ckpt s2 t2 m2)
      else Inr (s1, t, m))"
  by pat_completeness auto
termination
  by (relation "measure (\<lambda>(cfg, set_ckpt, s, t, m). nat (int (OBJECTS cfg) - shadow_object_identifiers s))")
    (auto dest!: speculation_flush_object_counters simp: same_counters_def valid_object_def)

declare speculation_queue_flush.simps [simp del]

definition retractable_flush_object :: "nat \<Rightarrow> shared \<Rightarrow> shared" where
  "retractable_flush_object d s =
     set_retractable d [] (add_retractable (- int (length (retractable_queue s d))) s)"

function retractable_queue_flush :: "config \<Rightarrow> shared \<Rightarrow> shared" where
  "retractable_queue_flush cfg s =
     (let target_object = retractable_object_identifiers s;
          s1 = s\<lparr>retractable_object_identifiers := target_object + 1\<rparr> in
      if valid_object cfg target_object then
        retractable_queue_flush cfg (retractable_flush_object (nat target_object) s1)
      else s1)"
  by pat_completeness auto
termination
  by (relation "measure (\<lambda>(cfg, s). nat (int (OBJECTS cfg) - retractable_object_identifiers s))")
    (auto simp: retractable_flush_object_def shared_defs valid_object_def)

declare retractable_queue_flush.simps [simp del]

section \<open>Rollback of an object\<close>

text \<open>
  The walk from the tail of the speculation queue; theory \<open>Linked_List\<close> has the loop over the
  pointers and proves that it computes \<open>trim_by\<close>.
\<close>

definition rollback_speculation_queue :: "nat \<Rightarrow> real \<Rightarrow> shared \<Rightarrow> shared" where
  "rollback_speculation_queue d rollback_time s =
     (let q = speculation_queue s d in
      set_specqueue d (trim_by ev_sent rollback_time q)
        (add_speculative (- int (length (trimmed_by ev_sent rollback_time q))) s))"

text \<open>
  \<open>the_elem->prev->next = the_elem->next\<close> and its mirror take the element out of the list it is in,
  whichever branch executes them: the retractable queue or a slot of its destination. An element
  that is in neither is not linked, and following its pointers is undefined.
\<close>

definition unlink_event :: "event \<Rightarrow> nat \<Rightarrow> shared \<Rightarrow> shared outcome" where
  "unlink_event ev d s =
     (let other = (\<lambda>x. ev_addr x \<noteq> ev_addr ev) in
      if list_all other (retractable_queue s d) \<and> list_all (\<lambda>i. list_all other (queue s d i)) [0..<NUM_SLOTS]
      then Inl Undefined
      else Inr (s\<lparr>retractable_queue := (retractable_queue s)(d := filter other (retractable_queue s d)),
                  queue := (queue s)(d := (\<lambda>i. if i < NUM_SLOTS then filter other (queue s d i) else queue s d i))\<rparr>))"

definition queue_elem_annihilation :: "config \<Rightarrow> event \<Rightarrow> shared \<Rightarrow> tls \<Rightarrow> (shared \<times> tls) outcome" where
  "queue_elem_annihilation cfg ev s t =
     (if \<not> valid_object cfg (ev_dest ev) then Inl Undefined
      else
        let d = nat (ev_dest ev);
            standing = standing_rollback (speculation s d);
            s1 = upd_status d (raise_violation (ev_time ev)) s in
        and_then
          (if \<not> standing \<and> the_state (speculation s1 d) = FREE
           then put_into_stack cfg d (upd_status d (take_object (me t)) s1) t
           else Inr (s1, t))
          (\<lambda>(s2, t2). and_then (unlink_event ev d s2) (\<lambda>s3.
             if current_time (speculation s2 d) > ev_time ev then Inr (add_retractable (-1) s3, t2)
             else Inr (add_pending (-1) s3, t2))))"

text \<open>The log, from its tail: \<open>rest\<close> is the reversed part not visited yet.\<close>

fun log_rollback_loop ::
  "config \<Rightarrow> real \<Rightarrow> log_element list \<Rightarrow> shared \<Rightarrow> tls \<Rightarrow> (log_element list \<times> shared \<times> tls) outcome" where
  "log_rollback_loop cfg rollback_time [] s t = Inr ([], s, t)"
| "log_rollback_loop cfg rollback_time (l # rest) s t =
     (if log_time l \<ge> rollback_time then
        and_then (queue_elem_annihilation cfg (the_element l) s t) (\<lambda>(s, t).
          log_rollback_loop cfg rollback_time rest s t)
      else Inr (l # rest, s, t))"

definition log_rollback :: "config \<Rightarrow> nat \<Rightarrow> real \<Rightarrow> shared \<Rightarrow> tls \<Rightarrow> (shared \<times> tls) outcome" where
  "log_rollback cfg d rollback_time s t =
     and_then (log_rollback_loop cfg rollback_time (rev (log_queue s d)) s t)
       (\<lambda>(rest, s, t). Inr (set_log d (rev rest) s, t))"

fun restore_loop :: "config \<Rightarrow> nat \<Rightarrow> int \<Rightarrow> event list \<Rightarrow> shared \<Rightarrow> shared outcome" where
  "restore_loop cfg d index [] s = Inr s"
| "restore_loop cfg d index (ev # rest) s =
     and_then (queue_insert_in_slot cfg ev index (set_retractable d rest s)) (restore_loop cfg d index rest)"

definition restore_retractable_events :: "config \<Rightarrow> nat \<Rightarrow> shared \<Rightarrow> shared outcome" where
  "restore_retractable_events cfg d s =
     (case retractable_queue s d of
        [] \<Rightarrow> Inr s
      | ev # rest \<Rightarrow>
          and_then (slot_index cfg (ev_time ev)) (\<lambda>index.
          and_then (restore_loop cfg d index (ev # rest) s) (\<lambda>s1.
          Inr (add_retractable (- int (length (ev # rest))) s1))))"

definition restore_state :: "(nat \<Rightarrow> 'm \<Rightarrow> 'm outcome) \<Rightarrow> nat \<Rightarrow> 'm \<Rightarrow> 'm outcome" where
  "restore_state restore_object d m = restore_object d m"

definition run_rollback ::
  "config \<Rightarrow> (nat \<Rightarrow> 'm \<Rightarrow> 'm outcome) \<Rightarrow> nat \<Rightarrow> real \<Rightarrow> shared \<Rightarrow> tls \<Rightarrow> 'm \<Rightarrow> (int \<times> shared \<times> tls \<times> 'm) outcome" where
  "run_rollback cfg restore_object d rollback_time s t m =
     and_then (restore_state restore_object d m) (\<lambda>m1.
     and_then (log_rollback cfg d rollback_time (rollback_speculation_queue d rollback_time s) t) (\<lambda>(s1, t1).
     and_then (restore_retractable_events cfg d s1) (\<lambda>s2. Inr (0, s2, t1, m1))))"

section \<open>How a status entry may change\<close>

text \<open>
  \<open>covered st x\<close>: an event at time \<open>x\<close> is either not in the past of the object, or a rollback to a
  time not after \<open>x\<close> stands. \<open>worsens\<close>: the entry keeps its time and its rollback only moves back.
\<close>

definition covered :: "object_status \<Rightarrow> real \<Rightarrow> bool" where
  "covered st x \<longleftrightarrow> current_time st \<le> x \<or> standing_rollback st \<and> causality_violation_time st \<le> x"

definition worsens :: "object_status \<Rightarrow> object_status \<Rightarrow> bool" where
  "worsens st st' \<longleftrightarrow> current_time st' = current_time st \<and> (standing_rollback st \<longrightarrow>
     standing_rollback st' \<and> causality_violation_time st' \<le> causality_violation_time st)"

lemma worsens_refl [simp]: "worsens st st"
  by (simp add: worsens_def)

lemma worsens_trans: "worsens a b \<Longrightarrow> worsens b c \<Longrightarrow> worsens a c"
  by (auto simp: worsens_def)

lemma worsens_covered: "worsens st st' \<Longrightarrow> covered st x \<Longrightarrow> covered st' x"
  by (auto simp: worsens_def covered_def)

lemma worsens_raise [simp]: "worsens st (raise_violation v st)"
  by (simp add: worsens_def raise_violation_def)

lemma worsens_take [simp]: "worsens a (take_object w b) = worsens a b" "worsens a (in_stack_update f b) = worsens a b"
  by (simp_all add: worsens_def take_object_def)

lemma raise_violation_stands [simp]:
  "standing_rollback (raise_violation v st)" "causality_violation_time (raise_violation v st) \<le> v"
  by (simp_all add: raise_violation_def)

lemma covered_raise: "covered (raise_violation v st) v"
  by (simp add: covered_def)

lemma covered_take [simp]: "covered (take_object w st) x = covered st x" "covered (in_stack_update f st) x = covered st x"
  by (simp_all add: covered_def take_object_def)

lemma take_object_fields [simp]:
  "standing_rollback (take_object w st) = standing_rollback st"
  "causality_violation_time (take_object w st) = causality_violation_time st"
  "current_time (take_object w st) = current_time st"
  by (simp_all add: take_object_def)

text \<open>\<open>status_step\<close>: only status entries differ, and all of them worsen.\<close>

definition status_step :: "shared \<Rightarrow> shared \<Rightarrow> bool" where
  "status_step s s' \<longleftrightarrow> s'\<lparr>speculation := speculation s\<rparr> = s \<and> (\<forall>d. worsens (speculation s d) (speculation s' d))"

lemma status_step_refl [simp]: "status_step s s"
  by (simp add: status_step_def)

lemma status_step_trans: "status_step s u \<Longrightarrow> status_step u v \<Longrightarrow> status_step s v"
proof -
  assume a: "status_step s u" and b: "status_step u v"
  have "v\<lparr>speculation := speculation s\<rparr> = (v\<lparr>speculation := speculation u\<rparr>)\<lparr>speculation := speculation s\<rparr>" by simp
  also have "\<dots> = s" using a b by (simp add: status_step_def)
  finally show ?thesis using a b worsens_trans unfolding status_step_def by blast
qed

lemma status_step_fields:
  assumes "status_step s s'"
  shows "queue s' = queue s" "retractable_queue s' = retractable_queue s" "log_queue s' = log_queue s"
    "speculation_queue s' = speculation_queue s" "current_min_limit s' = current_min_limit s"
    "current_max_limit s' = current_max_limit s" "current_index s' = current_index s"
    "pending_events s' = pending_events s" "speculation_events s' = speculation_events s"
    "retractable_events s' = retractable_events s"
proof -
  from assms have eq: "s'\<lparr>speculation := speculation s\<rparr> = s" by (simp add: status_step_def)
  show "queue s' = queue s" using arg_cong [OF eq, of queue] by simp
  show "retractable_queue s' = retractable_queue s" using arg_cong [OF eq, of retractable_queue] by simp
  show "log_queue s' = log_queue s" using arg_cong [OF eq, of log_queue] by simp
  show "speculation_queue s' = speculation_queue s" using arg_cong [OF eq, of speculation_queue] by simp
  show "current_min_limit s' = current_min_limit s" using arg_cong [OF eq, of current_min_limit] by simp
  show "current_max_limit s' = current_max_limit s" using arg_cong [OF eq, of current_max_limit] by simp
  show "current_index s' = current_index s" using arg_cong [OF eq, of current_index] by simp
  show "pending_events s' = pending_events s" using arg_cong [OF eq, of pending_events] by simp
  show "speculation_events s' = speculation_events s" using arg_cong [OF eq, of speculation_events] by simp
  show "retractable_events s' = retractable_events s" using arg_cong [OF eq, of retractable_events] by simp
qed

lemma status_step_upd: "worsens (speculation s d) (f (speculation s d)) \<Longrightarrow> status_step s (upd_status d f s)"
  by (simp add: status_step_def upd_status_def)

lemma put_into_stack_Inr:
  assumes "put_into_stack cfg d s t = Inr (s', t')"
  shows "s' = upd_status d (in_stack_update (\<lambda>_. True)) s" and "t' = t\<lparr>object_stack := d # object_stack t\<rparr>"
  using assms by (auto simp: put_into_stack_def split: if_splits)

lemma put_head_into_stack_Inr:
  assumes "put_head_into_stack cfg d s t = Inr (s', t')"
  shows "s' = upd_status d (in_stack_update (\<lambda>_. True)) s" and "t' = t\<lparr>object_stack := object_stack t @ [d]\<rparr>"
  using assms by (auto simp: put_head_into_stack_def split: if_splits)

lemma put_into_stack_step: "put_into_stack cfg d s t = Inr (s', t') \<Longrightarrow> status_step s s'"
  by (drule put_into_stack_Inr(1)) (simp add: status_step_upd)

lemma put_head_into_stack_step: "put_head_into_stack cfg d s t = Inr (s', t') \<Longrightarrow> status_step s s'"
  by (drule put_head_into_stack_Inr(1)) (simp add: status_step_upd)

lemmas stack_steps = put_into_stack_step put_head_into_stack_step status_step_upd

section \<open>No event is queued in the past of its object\<close>

text \<open>
  The invariant of optimistic processing: an event that is still queued is covered, so it is either
  ahead of its object or a rollback that will undo the object past it stands.
\<close>

definition causal :: "config \<Rightarrow> shared \<Rightarrow> bool" where
  "causal cfg s \<longleftrightarrow> (\<forall>ev \<in># queued cfg s. covered (speculation s (nat (ev_dest ev))) (ev_time ev))"

lemma queued_cong: "queue s' = queue s \<Longrightarrow> queued cfg s' = queued cfg s"
  by (simp add: queued_def)

lemma queue_wf_cong: "queue s' = queue s \<Longrightarrow> queue_wf cfg s' = queue_wf cfg s"
  by (simp add: queue_wf_def)

lemma causal_mono:
  assumes "causal cfg s" and "queued cfg s' \<subseteq># queued cfg s"
    and "\<And>d. worsens (speculation s d) (speculation s' d)"
  shows "causal cfg s'"
  using assms worsens_covered unfolding causal_def by (meson mset_subset_eqD)

lemma status_step_causal: "status_step s s' \<Longrightarrow> causal cfg s \<Longrightarrow> causal cfg s'"
  by (rule causal_mono) (auto simp: status_step_def queued_cong [OF status_step_fields(1)])

lemma stamp_send_simps [simp]:
  "ev_time (stamp_send now ev) = ev_time ev" "ev_dest (stamp_send now ev) = ev_dest ev"
  "ev_sent (stamp_send now ev) = now" "ev_addr (stamp_send now ev) = ev_addr ev" "ev_e (stamp_send now ev) = ev_e ev"
  by (simp_all add: stamp_send_def)

lemma queue_insert_in_epoch_facts:
  assumes "queue_insert_in_epoch cfg ev s = Inr s'"
  shows "queued cfg s' = add_mset ev (queued cfg s)"
    and "queue_wf cfg s \<Longrightarrow> queue_wf cfg s'"
    and "pending_events s' = pending_events s + 1"
    and "speculation s' = speculation s" "speculation_queue s' = speculation_queue s" "log_queue s' = log_queue s"
    and "current_min_limit s' = current_min_limit s" "speculation_events s' = speculation_events s"
    and "retractable_queue s' = retractable_queue s"
proof -
  from assms obtain i s1 where i: "slot_index cfg (ev_time ev) = Inr i" "slot_insert cfg ev i s = Inr s1"
    "s' = add_pending 1 s1" by (auto simp: queue_insert_in_epoch_Inr)
  then show "queue_wf cfg s \<Longrightarrow> queue_wf cfg s'" using slot_insert_wf [OF i(2) _ i(1)] by simp
  show "queued cfg s' = add_mset ev (queued cfg s)" using i slot_insert_queued [OF i(2)] by simp
  show "pending_events s' = pending_events s + 1" "speculation s' = speculation s"
    "speculation_queue s' = speculation_queue s" "log_queue s' = log_queue s"
    "current_min_limit s' = current_min_limit s" "speculation_events s' = speculation_events s"
    "retractable_queue s' = retractable_queue s"
    using i(3) slot_insert_fields [OF i(2)] by (simp_all add: add_pending_def)
qed

lemma insert_straggler_Inr:
  assumes "insert_straggler cfg ev src d s t = Inr (s', t')"
  obtains s4 where "status_step s s4" and "standing_rollback (speculation s4 d)"
    and "causality_violation_time (speculation s4 d) \<le> ev_time ev" and "queue_insert_in_epoch cfg ev s4 = Inr s'"
proof (cases "\<not> standing_rollback (speculation s d) \<and> the_state (speculation (upd_status d (raise_violation (ev_time ev)) s) d) = FREE")
  case False
  with assms have "queue_insert_in_epoch cfg ev (upd_status d (raise_violation (ev_time ev)) s) = Inr s'"
    by (auto simp: insert_straggler_def Let_def and_then_eq_Inr split: if_splits)
  then show thesis
    by (intro that [of "upd_status d (raise_violation (ev_time ev)) s"] status_step_upd) (simp_all add: upd_status_def)
next
  case True
  let ?s1 = "upd_status d (raise_violation (ev_time ev)) s"
  let ?s2 = "upd_status d (take_object (me t)) ?s1"
  from True assms obtain s2 t2 s3 t3 where
    h: "put_head_into_stack cfg src ?s2 t = Inr (s2, t2)" and p: "put_into_stack cfg d s2 t2 = Inr (s3, t3)"
    and q: "queue_insert_in_epoch cfg ev s3 = Inr s'"
    by (auto simp: insert_straggler_def Let_def and_then_eq_Inr)
  have "status_step s ?s1" "status_step ?s1 ?s2" by (rule status_step_upd; simp)+
  then have "status_step s s3"
    using put_head_into_stack_step [OF h] put_into_stack_step [OF p] by (meson status_step_trans)
  moreover have "worsens (speculation ?s1 d) (speculation s3 d)"
    using \<open>status_step ?s1 ?s2\<close> put_head_into_stack_step [OF h] put_into_stack_step [OF p]
    by (metis status_step_trans status_step_def)
  then have "standing_rollback (speculation s3 d) \<and> causality_violation_time (speculation s3 d) \<le> ev_time ev"
    using raise_violation_stands [of "ev_time ev" "speculation s d"]
    by (auto simp: worsens_def upd_status_def elim: order_trans)
  ultimately show thesis using q that by blast
qed

lemma insert_in_order_Inr:
  assumes "insert_in_order cfg ev d s t = Inr (s', t')"
  obtains s1 where "queue_insert_in_epoch cfg ev s = Inr s1" and "status_step s1 s'"
proof -
  from assms obtain s1 where s1: "queue_insert_in_epoch cfg ev s = Inr s1"
    and r: "(if the_state (speculation s1 d) = FREE \<and> already_taken (speculation s1 d) then
         put_into_stack cfg d (upd_status d (take_object (me t)) s1) t else Inr (s1, t)) = Inr (s', t')"
    by (auto simp: insert_in_order_def and_then_eq_Inr)
  have "status_step s1 (upd_status d (take_object (me t)) s1)" by (rule status_step_upd) simp
  with r have "status_step s1 s'" using put_into_stack_step status_step_trans by (fastforce split: if_splits)
  with s1 show thesis by (rule that)
qed

text \<open>Both ways of putting an event into the epoch add it to the slots and leave it covered.\<close>

lemma epoch_insert_causal:
  assumes c: "causal cfg s" and q: "queue_insert_in_epoch cfg ev s = Inr s'"
    and "covered (speculation s (nat (ev_dest ev))) (ev_time ev)"
  shows "causal cfg s'"
  using assms queue_insert_in_epoch_facts [OF q] by (simp add: causal_def)

text \<open>
  Property C2. \<open>speculation_queue_insert\<close> rejects an event below the lower limit, keeps one at or beyond
  the next epoch in the speculation queue of its sender, and puts any other into its slot and into the
  sender's log; in every case each queued event stays covered: an insertion in the past of its
  destination leaves a rollback standing to a time not after it.
\<close>

theorem speculation_queue_insert_correct:
  assumes "speculation_queue_insert cfg node ev s t = Inr (r, s', t')" and "queue_wf cfg s" and "causal cfg s"
  defines "e \<equiv> stamp_send (cur_time t) ev" and "src \<equiv> nat (current t)"
  shows "if ev_time ev < current_min_limit s then r = -1 \<and> s' = s \<and> t' = t
    else r = 0 \<and> queue_wf cfg s' \<and> causal cfg s' \<and>
      (if dadd cfg (current_min_limit s) (LOOKAHEAD cfg) \<le> ev_time ev
       then queued cfg s' = queued cfg s \<and> log_queue s' = log_queue s
         \<and> speculation_queue s' = (speculation_queue s)(src := speculation_queue s src @ [e])
         \<and> speculation_events s' = speculation_events s + 1
       else queued cfg s' = add_mset e (queued cfg s) \<and> speculation_queue s' = speculation_queue s
         \<and> log_queue s' = (log_queue s)(src := log_queue s src @ [\<lparr>the_element = e, log_time = cur_time t\<rparr>])
         \<and> pending_events s' = pending_events s + 1)"
proof (cases "ev_time ev < current_min_limit s \<or> dadd cfg (current_min_limit s) (LOOKAHEAD cfg) \<le> ev_time ev")
  case True
  with assms show ?thesis
    by (auto simp: speculation_queue_insert_def Let_def causal_def queue_wf_def queued_def shared_defs split: if_splits)
next
  case False
  let ?s1 = "set_log src (log_queue s src @ [\<lparr>the_element = e, log_time = cur_time t\<rparr>]) s"
    and ?d = "nat (ev_dest ev)"
  from False assms(1) have run: "(if current_time (speculation ?s1 ?d) \<ge> ev_time ev
      then insert_straggler cfg e src ?d ?s1 t else insert_in_order cfg e ?d ?s1 t) = Inr (s', t')" and r: "r = 0"
    by (auto simp: speculation_queue_insert_def Let_def and_then_eq_Inr log_the_send_def e_def src_def split: if_splits)
  have same: "queue ?s1 = queue s" "speculation ?s1 = speculation s" by (simp_all add: set_log_def)
  have s1: "queue_wf cfg ?s1" "causal cfg ?s1"
    using assms(2,3) unfolding causal_def queue_wf_cong [OF same(1)] queued_cong [OF same(1)] same(2) .
  have ev: "ev_time e = ev_time ev" "nat (ev_dest e) = ?d" by (simp_all add: e_def)
  have "queue_wf cfg s' \<and> causal cfg s' \<and> queued cfg s' = add_mset e (queued cfg ?s1)
      \<and> speculation_queue s' = speculation_queue ?s1 \<and> log_queue s' = log_queue ?s1
      \<and> pending_events s' = pending_events ?s1 + 1"
  proof (cases "current_time (speculation ?s1 ?d) \<ge> ev_time ev")
    case True
    with run obtain s4 where s4: "status_step ?s1 s4" "standing_rollback (speculation s4 ?d)"
      "causality_violation_time (speculation s4 ?d) \<le> ev_time e" "queue_insert_in_epoch cfg e s4 = Inr s'"
      by (auto elim: insert_straggler_Inr)
    have "causal cfg s4" by (rule status_step_causal [OF s4(1) s1(2)])
    then have "causal cfg s'" by (rule epoch_insert_causal [OF _ s4(4)]) (use s4 ev in \<open>simp add: covered_def\<close>)
    moreover have "queue_wf cfg s4" using s1(1) queue_wf_cong [OF status_step_fields(1) [OF s4(1)]] by simp
    ultimately show ?thesis
      using queue_insert_in_epoch_facts [OF s4(4)] status_step_fields [OF s4(1)]
        queued_cong [OF status_step_fields(1) [OF s4(1)]] by simp
  next
    case False
    with run obtain s2 where s2: "queue_insert_in_epoch cfg e ?s1 = Inr s2" "status_step s2 s'"
      by (auto elim: insert_in_order_Inr)
    have "causal cfg s2" by (rule epoch_insert_causal [OF s1(2) s2(1)]) (use False ev in \<open>simp add: covered_def\<close>)
    then have "causal cfg s'" by (rule status_step_causal [OF s2(2)])
    then show ?thesis
      using queue_insert_in_epoch_facts [OF s2(1)] status_step_fields [OF s2(2)] s1(1)
        queued_cong [OF status_step_fields(1) [OF s2(2)]] queue_wf_cong [OF status_step_fields(1) [OF s2(2)]] by simp
  qed
  with False r queued_cong [OF same(1)] show ?thesis by (simp add: set_log_def)
qed

section \<open>Annihilation\<close>

text \<open>\<open>without es s s'\<close>: the queues of \<open>s'\<close> are those of \<open>s\<close> with the events \<open>es\<close> taken out.\<close>

definition is_copy :: "event set \<Rightarrow> nat \<Rightarrow> event \<Rightarrow> bool" where
  "is_copy es d x \<longleftrightarrow> (\<exists>e \<in> es. nat (ev_dest e) = d \<and> ev_addr x = ev_addr e)"

definition without :: "event set \<Rightarrow> shared \<Rightarrow> shared \<Rightarrow> bool" where
  "without es s s' \<longleftrightarrow>
     (\<forall>d. \<forall>i < NUM_SLOTS. queue s' d i = filter (\<lambda>x. \<not> is_copy es d x) (queue s d i)) \<and>
     (\<forall>d. retractable_queue s' d = filter (\<lambda>x. \<not> is_copy es d x) (retractable_queue s d))"

lemma without_empty: "without {} s s"
  by (simp add: without_def is_copy_def)

lemma is_copy_Un: "is_copy (A \<union> B) d x \<longleftrightarrow> is_copy A d x \<or> is_copy B d x"
  by (auto simp: is_copy_def)

lemma without_trans: "without A s u \<Longrightarrow> without B u v \<Longrightarrow> without (A \<union> B) s v"
  by (simp add: without_def is_copy_Un conj_commute)

lemma without_cong: "without A s u \<Longrightarrow> queue v = queue u \<Longrightarrow> retractable_queue v = retractable_queue u \<Longrightarrow> without A s v"
  by (simp add: without_def)

lemma sum_subseteq_mset: "(\<And>i. i < n \<Longrightarrow> f i \<subseteq># g i) \<Longrightarrow> (\<Sum>i<n. f i) \<subseteq># (\<Sum>i<(n::nat). g i)"
  by (induction n) (simp_all add: subset_mset.add_mono)

lemma without_queued:
  assumes "without A s s'"
  shows "queued cfg s' \<subseteq># queued cfg s"
proof -
  have row: "(\<Sum>i<NUM_SLOTS. mset (queue s' d i)) \<subseteq># (\<Sum>i<NUM_SLOTS. mset (queue s d i))" for d
    by (rule sum_subseteq_mset) (use assms in \<open>simp add: without_def mset_filter\<close>)
  show ?thesis unfolding queued_def by (rule sum_subseteq_mset) (rule row)
qed

lemma without_wf:
  assumes "without A s s'" and "queue_wf cfg s"
  shows "queue_wf cfg s'"
  using assms by (auto simp: without_def queue_wf_def sorted_by_def sorted_filter)

lemma unlink_event_Inr:
  assumes "unlink_event ev d s = Inr s'" and "d = nat (ev_dest ev)"
  shows "without {ev} s s'"
    and "s'\<lparr>queue := queue s, retractable_queue := retractable_queue s\<rparr> = s"
  using assms by (auto simp: unlink_event_def without_def is_copy_def Let_def split: if_splits)

lemma annihilation_Inr:
  assumes "queue_elem_annihilation cfg ev s t = Inr (s', t')"
  shows "without {ev} s s'"
    and "\<forall>d. worsens (speculation s d) (speculation s' d)"
    and "standing_rollback (speculation s' (nat (ev_dest ev)))
       \<and> causality_violation_time (speculation s' (nat (ev_dest ev))) \<le> ev_time ev"
    and "log_queue s' = log_queue s \<and> speculation_queue s' = speculation_queue s
       \<and> current_min_limit s' = current_min_limit s \<and> speculation_events s' = speculation_events s"
proof -
  let ?d = "nat (ev_dest ev)"
  let ?s1 = "upd_status ?d (raise_violation (ev_time ev)) s"
  let ?s2 = "upd_status ?d (take_object (me t)) ?s1"
  from assms obtain s2 s3 where
    g: "(if \<not> standing_rollback (speculation s ?d) \<and> the_state (speculation ?s1 ?d) = FREE
         then put_into_stack cfg ?d ?s2 t else Inr (?s1, t)) = Inr (s2, t')"
    and u: "unlink_event ev ?d s2 = Inr s3"
    and s': "s' = (if current_time (speculation s2 ?d) > ev_time ev then add_retractable (-1) s3 else add_pending (-1) s3)"
    by (auto simp: queue_elem_annihilation_def Let_def and_then_eq_Inr split: if_splits)
  have 1: "status_step s ?s1" "status_step ?s1 ?s2" by (rule status_step_upd; simp)+
  have 2: "status_step ?s1 s2"
    using g 1(2) put_into_stack_step status_step_trans by (fastforce split: if_splits)
  have 3: "speculation s3 = speculation s2" "log_queue s3 = log_queue s2" "speculation_queue s3 = speculation_queue s2"
    "current_min_limit s3 = current_min_limit s2" "speculation_events s3 = speculation_events s2"
    using u by (auto simp: unlink_event_def Let_def split: if_splits)
  have 4: "status_step s s2" using 1(1) 2 by (rule status_step_trans)
  have spec: "speculation s' = speculation s2" using s' 3 by (simp add: shared_defs)
  have "without {ev} s2 s3" by (rule unlink_event_Inr(1) [OF u refl])
  then have "without {ev} s s3" by (simp add: without_def status_step_fields [OF 4])
  then show "without {ev} s s'" by (rule without_cong) (simp_all add: s' shared_defs)
  show "\<forall>d. worsens (speculation s d) (speculation s' d)" using 4 spec by (simp add: status_step_def)
  have "worsens (speculation ?s1 ?d) (speculation s2 ?d)" using 2 by (simp add: status_step_def)
  then show "standing_rollback (speculation s' ?d) \<and> causality_violation_time (speculation s' ?d) \<le> ev_time ev"
    unfolding spec using raise_violation_stands [of "ev_time ev" "speculation s ?d"]
    by (auto simp: worsens_def upd_status_def elim: order_trans)
  show "log_queue s' = log_queue s \<and> speculation_queue s' = speculation_queue s
       \<and> current_min_limit s' = current_min_limit s \<and> speculation_events s' = speculation_events s"
    using s' 3 status_step_fields [OF 4] by (simp add: shared_defs)
qed

text \<open>The rollback of a log annihilates the events of the entries at its end.\<close>

definition undone :: "real \<Rightarrow> log_element list \<Rightarrow> event set" where
  "undone rt ls = the_element ` set (takeWhile (\<lambda>l. rt \<le> log_time l) (rev ls))"

definition undo_spec :: "event set \<Rightarrow> shared \<Rightarrow> shared \<Rightarrow> bool" where
  "undo_spec es s s' \<longleftrightarrow> without es s s' \<and> (\<forall>d. worsens (speculation s d) (speculation s' d))
     \<and> (\<forall>e \<in> es. standing_rollback (speculation s' (nat (ev_dest e)))
          \<and> causality_violation_time (speculation s' (nat (ev_dest e))) \<le> ev_time e)
     \<and> log_queue s' = log_queue s \<and> speculation_queue s' = speculation_queue s
     \<and> current_min_limit s' = current_min_limit s \<and> speculation_events s' = speculation_events s"

lemma undo_spec_empty: "undo_spec {} s s"
  by (simp add: undo_spec_def without_empty)

lemma undo_spec_trans:
  assumes "undo_spec A s u" and "undo_spec B u v"
  shows "undo_spec (A \<union> B) s v"
proof -
  have "standing_rollback (speculation v (nat (ev_dest e)))
      \<and> causality_violation_time (speculation v (nat (ev_dest e))) \<le> ev_time e" if "e \<in> A" for e
    using assms that unfolding undo_spec_def worsens_def by (meson order_trans)
  moreover have "worsens (speculation s d) (speculation v d)" for d
    using assms worsens_trans unfolding undo_spec_def by blast
  ultimately show ?thesis using assms without_trans by (auto simp: undo_spec_def)
qed

lemma annihilation_undo: "queue_elem_annihilation cfg ev s t = Inr (s', t') \<Longrightarrow> undo_spec {ev} s s'"
  using annihilation_Inr by (simp add: undo_spec_def)

lemma log_rollback_loop_Inr:
  assumes "log_rollback_loop cfg rt ls s t = Inr (rest, s', t')"
  shows "rest = dropWhile (\<lambda>l. rt \<le> log_time l) ls
    \<and> undo_spec (the_element ` set (takeWhile (\<lambda>l. rt \<le> log_time l) ls)) s s'"
  using assms
proof (induction ls arbitrary: s t)
  case (Cons l ls)
  show ?case
  proof (cases "rt \<le> log_time l")
    case True
    with Cons.prems obtain s1 t1 where a: "queue_elem_annihilation cfg (the_element l) s t = Inr (s1, t1)"
      and r: "log_rollback_loop cfg rt ls s1 t1 = Inr (rest, s', t')" by (auto simp: and_then_eq_Inr)
    from undo_spec_trans [OF annihilation_undo [OF a]] Cons.IH [OF r] True show ?thesis by simp
  qed (use Cons.prems undo_spec_empty in auto)
qed (simp add: undo_spec_empty)

lemma log_rollback_Inr:
  assumes "log_rollback cfg d rt s t = Inr (s', t')"
  obtains s1 where "undo_spec (undone rt (log_queue s d)) s s1"
    and "s' = set_log d (trim_by log_time rt (log_queue s d)) s1"
proof -
  from assms obtain rest s1 where l: "log_rollback_loop cfg rt (rev (log_queue s d)) s t = Inr (rest, s1, t')"
    and s': "s' = set_log d (rev rest) s1" by (auto simp: log_rollback_def and_then_eq_Inr)
  show thesis
    by (rule that) (use log_rollback_loop_Inr [OF l] s' in \<open>simp_all add: undone_def trim_by_def\<close>)
qed

section \<open>Putting processed events back\<close>

lemma restore_loop_Inr:
  assumes "restore_loop cfg d index evs s = Inr s'" and "retractable_queue s d = evs"
  shows "retractable_queue s' = (retractable_queue s)(d := [])
    \<and> queued cfg s' = mset evs + queued cfg s \<and> pending_events s' = pending_events s + int (length evs)
    \<and> speculation s' = speculation s \<and> log_queue s' = log_queue s \<and> speculation_queue s' = speculation_queue s
    \<and> retractable_events s' = retractable_events s \<and> current_min_limit s' = current_min_limit s
    \<and> ((\<forall>ev \<in> set evs. slot_index cfg (ev_time ev) = Inr index) \<longrightarrow> queue_wf cfg s \<longrightarrow> queue_wf cfg s')"
  using assms
proof (induction evs arbitrary: s)
  case Nil
  then show ?case by auto
next
  case (Cons ev evs)
  from Cons.prems obtain s1 where s1: "slot_insert cfg ev index (set_retractable d evs s) = Inr s1"
    and l: "restore_loop cfg d index evs (add_pending 1 s1) = Inr s'"
    by (auto simp: queue_insert_in_slot_def and_then_eq_Inr)
  note f = slot_insert_fields [OF s1]
  have "retractable_queue (add_pending 1 s1) d = evs" using f by (simp add: shared_defs)
  note IH = Cons.IH [OF l this]
  have q: "queued cfg (add_pending 1 s1) = add_mset ev (queued cfg s)"
    using slot_insert_queued [OF s1] queued_cong [of "set_retractable d evs s" s] by (simp add: set_retractable_def)
  have "queue_wf cfg (add_pending 1 s1)" if "slot_index cfg (ev_time ev) = Inr index" "queue_wf cfg s"
    using slot_insert_wf [OF s1 _ that(1)] that(2) queue_wf_cong [of "set_retractable d evs s" s]
    by (simp add: set_retractable_def)
  with IH q f show ?case by (auto simp: shared_defs)
qed

definition one_slot :: "config \<Rightarrow> event list \<Rightarrow> bool" where
  "one_slot cfg evs \<longleftrightarrow> (\<forall>x \<in> set evs. \<forall>y \<in> set evs. slot_index cfg (ev_time x) = slot_index cfg (ev_time y))"

lemma restore_retractable_Inr:
  assumes "restore_retractable_events cfg d s = Inr s'"
  shows "retractable_queue s' = (retractable_queue s)(d := [])
    \<and> queued cfg s' = mset (retractable_queue s d) + queued cfg s
    \<and> retractable_events s' = retractable_events s - int (length (retractable_queue s d))
    \<and> speculation s' = speculation s \<and> log_queue s' = log_queue s \<and> speculation_queue s' = speculation_queue s
    \<and> current_min_limit s' = current_min_limit s
    \<and> (one_slot cfg (retractable_queue s d) \<longrightarrow> queue_wf cfg s \<longrightarrow> queue_wf cfg s')"
proof (cases "retractable_queue s d")
  case Nil
  with assms show ?thesis by (auto simp: restore_retractable_events_def)
next
  case (Cons ev rest)
  with assms obtain i s1 where i: "slot_index cfg (ev_time ev) = Inr i"
    and l: "restore_loop cfg d i (ev # rest) s = Inr s1"
    and s': "s' = add_retractable (- int (length (ev # rest))) s1"
    by (auto simp: restore_retractable_events_def and_then_eq_Inr simp del: restore_loop.simps)
  have same: "queue s' = queue s1" by (simp add: s' add_retractable_def)
  note f = restore_loop_Inr [OF l Cons]
  have wf: "queue_wf cfg s \<Longrightarrow> queue_wf cfg s1" if "\<forall>x \<in> set (ev # rest). slot_index cfg (ev_time x) = Inr i"
    using f that by (elim conjE) iprover
  have "queue_wf cfg s'" if same_slot: "one_slot cfg (retractable_queue s d)" and "queue_wf cfg s"
  proof -
    have "ev \<in> set (ev # rest)" by simp
    with same_slot i have "\<forall>x \<in> set (ev # rest). slot_index cfg (ev_time x) = Inr i"
      unfolding Cons one_slot_def by metis
    then show ?thesis using wf that(2) queue_wf_cong [OF same] by simp
  qed
  moreover have "retractable_queue s1 = (retractable_queue s)(d := [])" "queued cfg s1 = mset (ev # rest) + queued cfg s"
    "speculation s1 = speculation s" "log_queue s1 = log_queue s" "speculation_queue s1 = speculation_queue s"
    "retractable_events s1 = retractable_events s" "current_min_limit s1 = current_min_limit s"
    using f by - (elim conjE, assumption)+
  moreover have "queued cfg s' = queued cfg s1" by (rule queued_cong [OF same])
  ultimately show ?thesis unfolding Cons by (simp add: s' add_retractable_def)
qed

lemma undone_sorted: "sorted_by log_time ls \<Longrightarrow> undone rt ls = the_element ` {l \<in> set ls. rt \<le> log_time l}"
proof -
  assume "sorted_by log_time ls"
  then have "filter (\<lambda>l. log_time l < rt) ls @ rev (trimmed_by log_time rt ls) = ls"
    using trim_by_append_trimmed [of log_time rt ls] by (simp add: trim_by_sorted)
  then have "set (trimmed_by log_time rt ls) \<union> {l \<in> set ls. log_time l < rt} = set ls"
    by (metis Un_commute set_append set_filter set_rev)
  then have "set (trimmed_by log_time rt ls) = {l \<in> set ls. rt \<le> log_time l}"
    using set_trimmed_by [of _ log_time rt ls] by fastforce
  then show ?thesis by (simp add: undone_def trimmed_by_def)
qed

lemma in_queued_without:
  assumes "without es s u" and "queue_wf cfg s" and "x \<in># queued cfg u"
  shows "\<not> is_copy es (nat (ev_dest x)) x"
proof -
  from assms(3) obtain d i where di: "d < OBJECTS cfg" "i < NUM_SLOTS" "x \<in> set (queue u d i)"
    by (auto simp: in_queued)
  with assms(1) have "x \<in> set (queue s d i)" "\<not> is_copy es d x" by (auto simp: without_def)
  with queue_wfD(2) [OF assms(2) di(1,2)] show ?thesis by simp
qed

text \<open>
  Property C3. A rollback of object \<open>d\<close> to time \<open>rt\<close> restores the object's memory, forgets exactly the
  speculative events and the log entries it produced at or after \<open>rt\<close>, takes the events of those entries
  out of every queue while their destinations are left with a rollback standing to a time not after
  them, and puts every event \<open>d\<close> has processed back into its slot; the queue stays well-formed and
  every queued event covered.
\<close>

theorem run_rollback_correct:
  assumes run: "run_rollback cfg restore_object d rt s t m = Inr (r, s', t', m')"
    and wf: "queue_wf cfg s" and c: "causal cfg s"
    and sorted: "sorted_by log_time (log_queue s d)" "sorted_by ev_sent (speculation_queue s d)"
    and processed: "one_slot cfg (retractable_queue s d)"
      "\<forall>x \<in> set (retractable_queue s d). ev_dest x = int d \<and> covered (speculation s d) (ev_time x)"
  defines "es \<equiv> the_element ` {l \<in> set (log_queue s d). rt \<le> log_time l}"
  shows "restore_object d m = Inr m' \<and> queue_wf cfg s' \<and> causal cfg s'
    \<and> speculation_queue s' d = filter (\<lambda>x. ev_sent x < rt) (speculation_queue s d)
    \<and> log_queue s' d = filter (\<lambda>l. log_time l < rt) (log_queue s d)
    \<and> retractable_queue s' d = []
    \<and> (\<exists>u. without es s u \<and> queued cfg s' = mset (retractable_queue u d) + queued cfg u)
    \<and> (\<forall>x \<in># queued cfg s'. \<not> is_copy es (nat (ev_dest x)) x)
    \<and> (\<forall>e \<in> es. standing_rollback (speculation s' (nat (ev_dest e)))
         \<and> causality_violation_time (speculation s' (nat (ev_dest e))) \<le> ev_time e)"
proof -
  let ?s0 = "rollback_speculation_queue d rt s"
  from run obtain s1 where m: "restore_object d m = Inr m'"
    and l: "log_rollback cfg d rt ?s0 t = Inr (s1, t')" and re: "restore_retractable_events cfg d s1 = Inr s'"
    by (auto simp: run_rollback_def restore_state_def and_then_eq_Inr)
  have s0: "queue ?s0 = queue s" "log_queue ?s0 = log_queue s" "retractable_queue ?s0 = retractable_queue s"
    "speculation ?s0 = speculation s"
    "speculation_queue ?s0 d = filter (\<lambda>x. ev_sent x < rt) (speculation_queue s d)"
    using sorted(2) by (simp_all add: rollback_speculation_queue_def Let_def shared_defs trim_by_sorted)
  from l obtain u where u: "undo_spec es ?s0 u"
    and s1: "s1 = set_log d (filter (\<lambda>l. log_time l < rt) (log_queue s d)) u"
    by (rule log_rollback_Inr)
      (use sorted(1) s0(2) in \<open>simp add: undone_sorted trim_by_sorted es_def\<close>)
  have w: "without es s u" using u s0 by (simp add: undo_spec_def without_def)
  have wfu: "queue_wf cfg u" by (rule without_wf [OF w wf])
  have worse: "\<And>d. worsens (speculation s d) (speculation u d)" using u s0(4) by (simp add: undo_spec_def)
  have cu: "causal cfg u" by (rule causal_mono [OF c without_queued [OF w] worse])
  have s1': "queue s1 = queue u" "retractable_queue s1 = retractable_queue u" "speculation s1 = speculation u"
    by (simp_all add: s1 set_log_def)
  have ret: "retractable_queue u d = filter (\<lambda>x. \<not> is_copy es d x) (retractable_queue s d)"
    using w by (simp add: without_def)
  have q: "queued cfg s' = mset (retractable_queue u d) + queued cfg u" and spec: "speculation s' = speculation u"
    and keep: "retractable_queue s' d = []" "log_queue s' = log_queue s1" "speculation_queue s' = speculation_queue s1"
    and wf': "one_slot cfg (retractable_queue u d) \<longrightarrow> queue_wf cfg s1 \<longrightarrow> queue_wf cfg s'"
    using restore_retractable_Inr [OF re] s1' queued_cong [OF s1'(1)] by auto
  have "one_slot cfg (retractable_queue u d)" using processed(1) by (auto simp: one_slot_def ret)
  then have "queue_wf cfg s'" using wf' wfu queue_wf_cong [OF s1'(1)] by simp
  moreover have "causal cfg s'"
    using cu processed(2) worsens_covered [OF worse] unfolding causal_def q spec ret by auto
  moreover have "\<forall>x \<in># queued cfg s'. \<not> is_copy es (nat (ev_dest x)) x"
    using in_queued_without [OF w wf] processed(2) unfolding q ret by auto
  moreover have "log_queue s' d = filter (\<lambda>l. log_time l < rt) (log_queue s d)"
    "speculation_queue s' d = filter (\<lambda>x. ev_sent x < rt) (speculation_queue s d)"
    using keep u s0(5) by (simp_all add: s1 set_log_def undo_spec_def)
  moreover have "\<exists>u. without es s u \<and> queued cfg s' = mset (retractable_queue u d) + queued cfg u"
    using w q by blast
  moreover have "\<forall>e \<in> es. standing_rollback (speculation s' (nat (ev_dest e)))
         \<and> causality_violation_time (speculation s' (nat (ev_dest e))) \<le> ev_time e"
    using u unfolding undo_spec_def spec by blast
  ultimately show ?thesis using m keep(1) by (intro conjI)
qed

section \<open>The flush at the end of an epoch\<close>

definition spec_held :: "config \<Rightarrow> shared \<Rightarrow> event multiset" where
  "spec_held cfg s = (\<Sum>d < OBJECTS cfg. mset (speculation_queue s d))"

text \<open>All events of the runtime that one thread can see: slots, its fallback list, speculation queues.\<close>

definition all_events :: "config \<Rightarrow> shared \<Rightarrow> tls \<Rightarrow> event multiset" where
  "all_events cfg s t = queued cfg s + mset (fallback_queue t) + spec_held cfg s"

definition spec_legal :: "config \<Rightarrow> shared \<Rightarrow> bool" where
  "spec_legal cfg s \<longleftrightarrow> (\<forall>d < OBJECTS cfg. \<forall>ev \<in> set (speculation_queue s d). current_min_limit s \<le> ev_time ev)"

lemma spec_held_clear:
  assumes "d < OBJECTS cfg" and "speculation_queue s' = (speculation_queue s)(d := [])"
  shows "spec_held cfg s' + mset (speculation_queue s d) = spec_held cfg s"
proof -
  have "(\<Sum>j < OBJECTS cfg. mset (((speculation_queue s)(d := [])) j)) =
        (\<Sum>j < OBJECTS cfg. ((\<lambda>j. mset (speculation_queue s j))(d := {#})) j)"
    by (rule sum.cong) auto
  then show ?thesis
    using sum_upd [OF assms(1), of "\<lambda>j. mset (speculation_queue s j)" "{#}"] assms(2) by (simp add: spec_held_def)
qed

lemma queue_insert_frame:
  assumes "queue_insert cfg ev s t = Inr (r, s', t')"
  shows "speculation_queue s' = speculation_queue s \<and> log_queue s' = log_queue s
    \<and> current_min_limit s' = current_min_limit s \<and> speculation_events s' = speculation_events s
    \<and> speculation s' = speculation s"
  using assms
proof (cases rule: queue_insert_cases)
  case (slot index s1)
  then show ?thesis using slot_insert_fields [OF slot(5)] by (simp add: add_pending_def)
qed (simp_all add: add_pending_def)

lemma flush_events_Inr:
  assumes "flush_events cfg evs s t = Inr (s', t')" and "queue_wf cfg s"
    and "\<forall>ev \<in> set evs. current_min_limit s \<le> ev_time ev"
  shows "queue_wf cfg s' \<and> pending_events s' = pending_events s + int (length evs)
    \<and> queued cfg s' + mset (fallback_queue t') = mset evs + (queued cfg s + mset (fallback_queue t))
    \<and> speculation_queue s' = speculation_queue s \<and> log_queue s' = log_queue s
    \<and> current_min_limit s' = current_min_limit s \<and> speculation_events s' = speculation_events s
    \<and> speculation s' = speculation s"
  using assms
proof (induction evs arbitrary: s t)
  case (Cons ev evs)
  then obtain r s1 t1 where q: "queue_insert cfg ev s t = Inr (r, s1, t1)" and l: "flush_events cfg evs s1 t1 = Inr (s', t')"
    by (auto simp: and_then_eq_Inr)
  from queue_insert_correct_lemma [OF q Cons.prems(2)] Cons.prems(3) queue_insert_frame [OF q]
  have 1: "queue_wf cfg s1" "pending_events s1 = pending_events s + 1"
    "queued cfg s1 + mset (fallback_queue t1) = add_mset ev (queued cfg s + mset (fallback_queue t))"
    "current_min_limit s1 = current_min_limit s" by auto
  then have "\<forall>ev \<in> set evs. current_min_limit s1 \<le> ev_time ev" using Cons.prems(3) by simp
  from Cons.IH [OF l 1(1) this] 1 queue_insert_frame [OF q] show ?case by simp
qed simp

lemma speculation_flush_object_facts:
  assumes f: "speculation_flush_object cfg set_ckpt d s t m = Inr (s', t', m')" and "queue_wf cfg s"
    and legal: "\<forall>ev \<in> set (speculation_queue s d). current_min_limit s \<le> ev_time ev" and d: "d < OBJECTS cfg"
  shows "queue_wf cfg s'" and "all_events cfg s' t' = all_events cfg s t"
    and "speculation_queue s' = (speculation_queue s)(d := [])" and "current_min_limit s' = current_min_limit s"
    and "pending_events s' + speculation_events s' = pending_events s + speculation_events s"
    and "log_queue s' = (log_queue s)(d := [])"
    and "\<not> standing_rollback (speculation s' d) \<and> the_state (speculation s' d) = FREE \<and> owner (speculation s' d) = -1"
    and "j \<noteq> d \<Longrightarrow> speculation s' j = speculation s j"
proof -
  let ?evs = "speculation_queue s d" and ?p = "flush_prepare cfg d s"
  from f obtain s4 where fe: "flush_events cfg ?evs ?p t = Inr (s4, t')"
    and s': "s' = (let s5 = set_specqueue d [] (add_speculative (- int (length ?evs)) s4)
               in if AVOID_THROTTLING cfg then upd_status d (checkpointed_update (\<lambda>_. False)) s5 else s5)"
    by (rule speculation_flush_object_Inr)
  have p: "queue ?p = queue s" "speculation_queue ?p = speculation_queue s" "log_queue ?p = (log_queue s)(d := [])"
    "current_min_limit ?p = current_min_limit s" "pending_events ?p = pending_events s"
    "speculation_events ?p = speculation_events s"
    "speculation ?p = (speculation s)(d := reset_object (speculation s d))"
    by (simp_all add: flush_prepare_def flush_log_def shared_defs)
  have g: "queue_wf cfg s4 \<and> pending_events s4 = pending_events s + int (length ?evs)
    \<and> queued cfg s4 + mset (fallback_queue t') = mset ?evs + (queued cfg s + mset (fallback_queue t))
    \<and> speculation_queue s4 = speculation_queue s \<and> log_queue s4 = (log_queue s)(d := [])
    \<and> current_min_limit s4 = current_min_limit s \<and> speculation_events s4 = speculation_events s
    \<and> speculation s4 = (speculation s)(d := reset_object (speculation s d))"
    using flush_events_Inr [OF fe] queue_wf_cong [OF p(1)] queued_cong [OF p(1)] assms(2) legal
    by (simp add: p(2-7))
  have q: "queue s' = queue s4" by (simp add: s' Let_def shared_defs)
  show sq: "speculation_queue s' = (speculation_queue s)(d := [])" using g by (simp add: s' Let_def shared_defs)
  show "queue_wf cfg s'" using g queue_wf_cong [OF q] by simp
  have "queued cfg s' + mset (fallback_queue t') = mset ?evs + (queued cfg s + mset (fallback_queue t))"
    using g queued_cong [OF q] by simp
  then show "all_events cfg s' t' = all_events cfg s t"
    unfolding all_events_def using spec_held_clear [OF d sq] by (simp add: ac_simps)
  show "current_min_limit s' = current_min_limit s" "log_queue s' = (log_queue s)(d := [])"
    "pending_events s' + speculation_events s' = pending_events s + speculation_events s"
    "\<not> standing_rollback (speculation s' d) \<and> the_state (speculation s' d) = FREE \<and> owner (speculation s' d) = -1"
    "j \<noteq> d \<Longrightarrow> speculation s' j = speculation s j"
    using g by (simp_all add: s' Let_def shared_defs reset_object_def)
qed

lemma speculation_queue_flush_step:
  assumes "speculation_queue_flush cfg set_ckpt s t m = Inr (s', t', m')"
  obtains (stop) "\<not> valid_object cfg (shadow_object_identifiers s)" "t' = t" "m' = m"
      "s' = s\<lparr>shadow_object_identifiers := shadow_object_identifiers s + 1\<rparr>"
  | (next_object) s2 t2 m2 where "valid_object cfg (shadow_object_identifiers s)"
      "speculation_flush_object cfg set_ckpt (nat (shadow_object_identifiers s))
         (s\<lparr>shadow_object_identifiers := shadow_object_identifiers s + 1\<rparr>) t m = Inr (s2, t2, m2)"
      "speculation_queue_flush cfg set_ckpt s2 t2 m2 = Inr (s', t', m')"
  using assms by (subst (asm) speculation_queue_flush.simps) (auto simp: Let_def and_then_eq_Inr split: if_splits)

lemma queue_insert_filter:
  assumes "queue_insert cfg ev s t = Inr (r, s', t')"
  shows "filter_message s' = filter_message s"
  using assms by (cases rule: queue_insert_cases) (auto simp: slot_insert_Inr add_pending_def set_slot_def)

lemma flush_events_filter: "flush_events cfg evs s t = Inr (s', t') \<Longrightarrow> filter_message s' = filter_message s"
proof (induction evs arbitrary: s t)
  case (Cons ev evs)
  then obtain r s1 t1 where "queue_insert cfg ev s t = Inr (r, s1, t1)" "flush_events cfg evs s1 t1 = Inr (s', t')"
    by (auto simp: and_then_eq_Inr)
  then show ?case using Cons.IH queue_insert_filter by metis
qed simp

text \<open>The status of an object after the flush, and the bound below which its new messages are filtered.\<close>

definition idle_status :: "config \<Rightarrow> object_status \<Rightarrow> object_status" where
  "idle_status cfg st = \<lparr>current_time = current_time st, owner = -1, causality_violation_time = 0,
     standing_rollback = False, in_stack = in_stack st, the_state = FREE, already_taken = False,
     checkpointed = (checkpointed st \<and> \<not> AVOID_THROTTLING cfg)\<rparr>"

lemma idle_status_reset:
  "idle_status cfg st = (if AVOID_THROTTLING cfg then (reset_object st)\<lparr>checkpointed := False\<rparr> else reset_object st)"
  by (cases st) (simp add: idle_status_def reset_object_def)

lemma speculation_flush_object_status:
  assumes f: "speculation_flush_object cfg set_ckpt d s t m = Inr (s', t', m')" and "queue_wf cfg s"
    and legal: "\<forall>ev \<in> set (speculation_queue s d). current_min_limit s \<le> ev_time ev"
  shows "speculation s' = (speculation s)(d := idle_status cfg (speculation s d))"
    and "filter_message s' = (filter_message s)(d := dsub cfg (dadd cfg (current_min_limit s) (LOOKAHEAD cfg)) epsilon)"
proof -
  let ?evs = "speculation_queue s d" and ?p = "flush_prepare cfg d s"
  from f obtain s4 where fe: "flush_events cfg ?evs ?p t = Inr (s4, t')"
    and s': "s' = (let s5 = set_specqueue d [] (add_speculative (- int (length ?evs)) s4)
               in if AVOID_THROTTLING cfg then upd_status d (checkpointed_update (\<lambda>_. False)) s5 else s5)"
    by (rule speculation_flush_object_Inr)
  have p: "queue ?p = queue s" "current_min_limit ?p = current_min_limit s"
    "speculation ?p = (speculation s)(d := reset_object (speculation s d))"
    "filter_message ?p = (filter_message s)(d := dsub cfg (dadd cfg (current_min_limit s) (LOOKAHEAD cfg)) epsilon)"
    by (simp_all add: flush_prepare_def flush_log_def shared_defs)
  have "speculation s4 = speculation ?p" "filter_message s4 = filter_message ?p"
    using flush_events_Inr [OF fe] queue_wf_cong [OF p(1)] assms(2) legal flush_events_filter [OF fe] by (simp_all add: p(2))
  then show "speculation s' = (speculation s)(d := idle_status cfg (speculation s d))"
    "filter_message s' = (filter_message s)(d := dsub cfg (dadd cfg (current_min_limit s) (LOOKAHEAD cfg)) epsilon)"
    by (simp_all add: s' Let_def shared_defs p(3,4) idle_status_reset)
qed

text \<open>
  The flush by all threads: an entry of the schedule is the thread that takes the next object number
  and, unless the objects have run out, flushes that object. Flushes of different objects touch
  different entries of every array; they meet only in the locked slots and the atomic counters.
\<close>

fun flush_schedule :: "config \<Rightarrow> (nat \<Rightarrow> 'm \<Rightarrow> 'm outcome) \<Rightarrow> nat list \<Rightarrow> shared \<Rightarrow> tls list \<Rightarrow> 'm \<Rightarrow>
    (shared \<times> tls list \<times> 'm) outcome" where
  "flush_schedule cfg set_ckpt [] s ts m = Inr (s, ts, m)"
| "flush_schedule cfg set_ckpt (j # js) s ts m =
     (let target_object = shadow_object_identifiers s;
          s1 = s\<lparr>shadow_object_identifiers := target_object + 1\<rparr> in
      if valid_object cfg target_object then
        and_then (speculation_flush_object cfg set_ckpt (nat target_object) s1 (ts ! j) m)
          (\<lambda>(s2, t2, m2). flush_schedule cfg set_ckpt js s2 (ts[j := t2]) m2)
      else flush_schedule cfg set_ckpt js s1 ts m)"

fun ckpt_objects :: "(nat \<Rightarrow> 'm \<Rightarrow> 'm outcome) \<Rightarrow> nat list \<Rightarrow> 'm \<Rightarrow> 'm outcome" where
  "ckpt_objects set_ckpt [] m = Inr m"
| "ckpt_objects set_ckpt (d # ds) m = and_then (set_ckpt d m) (ckpt_objects set_ckpt ds)"

lemma ckpt_objects_snoc:
  "ckpt_objects f (ds @ [d]) m = and_then (ckpt_objects f ds m) (f d)"
proof (induction ds arbitrary: m)
  case Nil
  then show ?case by (cases "f d m") simp_all
next
  case (Cons e ds)
  then show ?case by (cases "f e m") simp_all
qed

text \<open>A run of one thread alone is a schedule that names only this thread.\<close>

lemma speculation_queue_flush_schedule:
  assumes "speculation_queue_flush cfg set_ckpt s t m = Inr (s', t', m')" and "0 \<le> shadow_object_identifiers s"
  shows "\<exists>n. flush_schedule cfg set_ckpt (replicate n 0) s [t] m = Inr (s', [t'], m')
    \<and> int (OBJECTS cfg) \<le> shadow_object_identifiers s'"
  using assms
proof (induction cfg set_ckpt s t m rule: speculation_queue_flush.induct)
  case (1 cfg set_ckpt s t m)
  let ?c = "shadow_object_identifiers s"
  from 1(2) show ?case
  proof (cases rule: speculation_queue_flush_step)
    case stop
    then show ?thesis using 1(3) by (intro exI [of _ 1]) (auto simp: Let_def valid_object_def)
  next
    case (next_object s2 t2 m2)
    have "0 \<le> shadow_object_identifiers s2"
      using speculation_flush_object_counters [OF next_object(2)] 1(3) by (simp add: same_counters_def)
    then obtain n where "flush_schedule cfg set_ckpt (replicate n 0) s2 [t2] m2 = Inr (s', [t'], m')
        \<and> int (OBJECTS cfg) \<le> shadow_object_identifiers s'"
      using 1(1) [OF refl refl next_object(1,2) refl refl next_object(3)] by blast
    then show ?thesis using next_object(1,2) by (intro exI [of _ "Suc n"]) (simp add: Let_def)
  qed
qed

text \<open>The state of the flush after the objects below \<open>c\<close> were taken, compared with the start.\<close>

definition flushed :: "config \<Rightarrow> shared \<Rightarrow> shared \<Rightarrow> nat \<Rightarrow> bool" where
  "flushed cfg s0 s d \<longleftrightarrow> speculation_queue s d = [] \<and> log_queue s d = []
     \<and> speculation s d = idle_status cfg (speculation s0 d)
     \<and> filter_message s d = dsub cfg (dadd cfg (current_min_limit s0) (LOOKAHEAD cfg)) epsilon"

definition flush_inv :: "config \<Rightarrow> (nat \<Rightarrow> 'm \<Rightarrow> 'm outcome) \<Rightarrow> shared \<Rightarrow> event multiset \<Rightarrow> 'm \<Rightarrow>
    shared \<Rightarrow> tls list \<Rightarrow> 'm \<Rightarrow> bool" where
  "flush_inv cfg set_ckpt s0 evs m0 s ts m \<longleftrightarrow>
     queue_wf cfg s \<and> current_min_limit s = current_min_limit s0 \<and> 0 \<le> shadow_object_identifiers s
     \<and> (\<forall>d < OBJECTS cfg. if int d < shadow_object_identifiers s then flushed cfg s0 s d
          else speculation s d = speculation s0 d \<and> speculation_queue s d = speculation_queue s0 d)
     \<and> queued cfg s + fallbacks ts + spec_held cfg s = evs
     \<and> pending_events s + speculation_events s = pending_events s0 + speculation_events s0
     \<and> (if AVOID_THROTTLING cfg then m = m0
        else ckpt_objects set_ckpt [0..<min (nat (shadow_object_identifiers s)) (OBJECTS cfg)] m0 = Inr m)"

lemma fallbacks_change:
  "j < length ts \<Longrightarrow> fallbacks (ts[j := t']) + mset (fallback_queue (ts ! j)) = fallbacks ts + mset (fallback_queue t')"
proof (induction ts arbitrary: j)
  case (Cons t ts)
  then show ?case by (cases j) (simp_all add: fallbacks_Cons ac_simps)
qed simp

lemma flush_inv_step:
  assumes inv: "flush_inv cfg set_ckpt s0 evs m0 s ts m" and legal0: "spec_legal cfg s0" and j: "j < length ts"
    and valid: "valid_object cfg (shadow_object_identifiers s)"
    and fl: "speculation_flush_object cfg set_ckpt (nat (shadow_object_identifiers s))
      (s\<lparr>shadow_object_identifiers := shadow_object_identifiers s + 1\<rparr>) (ts ! j) m = Inr (s2, t2, m2)"
  shows "flush_inv cfg set_ckpt s0 evs m0 s2 (ts[j := t2]) m2"
proof -
  define d where "d = nat (shadow_object_identifiers s)"
  define s1 where "s1 = s\<lparr>shadow_object_identifiers := shadow_object_identifiers s + 1\<rparr>"
  have d: "d < OBJECTS cfg" "shadow_object_identifiers s = int d" using valid by (auto simp: valid_object_def d_def)
  have fl': "speculation_flush_object cfg set_ckpt d s1 (ts ! j) m = Inr (s2, t2, m2)"
    using fl by (simp add: d_def s1_def)
  have I: "queue_wf cfg s" "current_min_limit s = current_min_limit s0"
    "queued cfg s + fallbacks ts + spec_held cfg s = evs"
    "pending_events s + speculation_events s = pending_events s0 + speculation_events s0"
    and old: "\<And>e. e < OBJECTS cfg \<Longrightarrow> e < d \<Longrightarrow> flushed cfg s0 s e"
      "\<And>e. e < OBJECTS cfg \<Longrightarrow> \<not> e < d \<Longrightarrow> speculation s e = speculation s0 e \<and> speculation_queue s e = speculation_queue s0 e"
    and ck: "if AVOID_THROTTLING cfg then m = m0 else ckpt_objects set_ckpt [0..<d] m0 = Inr m"
    using inv d by (auto simp: flush_inv_def split: if_splits)
  have wf1: "queue_wf cfg s1" using I(1) by (simp add: s1_def queue_wf_def)
  have legal: "\<forall>ev \<in> set (speculation_queue s1 d). current_min_limit s1 \<le> ev_time ev"
    using legal0 old(2) [OF d(1)] I(2) d(1) by (simp add: s1_def spec_legal_def)
  note f = speculation_flush_object_facts [OF fl' wf1 legal d(1)]
  note g = speculation_flush_object_status [OF fl' wf1 legal]
  have c2: "shadow_object_identifiers s2 = int d + 1"
    using speculation_flush_object_counters [OF fl'] d(2) by (simp add: same_counters_def s1_def)
  have same: "queued cfg s1 = queued cfg s" "spec_held cfg s1 = spec_held cfg s"
    by (simp_all add: s1_def queued_def spec_held_def)
  have st: "flushed cfg s0 s2 e" if "e < OBJECTS cfg" "e < d + 1" for e
  proof (cases "e = d")
    case True
    then show ?thesis using f(3,6) g I(2) old(2) [OF d(1)] by (simp add: flushed_def s1_def)
  next
    case False
    with that have "flushed cfg s0 s e" using old(1) by simp
    then show ?thesis using False f(3,6) g by (simp add: flushed_def s1_def)
  qed
  have un: "speculation s2 e = speculation s0 e \<and> speculation_queue s2 e = speculation_queue s0 e"
    if "e < OBJECTS cfg" "\<not> e < d + 1" for e
    using that f(3) g(1) old(2) [of e] by (simp add: s1_def)
  have "queued cfg s2 + mset (fallback_queue t2) + spec_held cfg s2 = queued cfg s + mset (fallback_queue (ts ! j)) + spec_held cfg s"
    using f(2) by (simp add: all_events_def same)
  moreover have "fallbacks (ts[j := t2]) + mset (fallback_queue (ts ! j)) = fallbacks ts + mset (fallback_queue t2)"
    by (rule fallbacks_change [OF j])
  ultimately have "queued cfg s2 + fallbacks (ts[j := t2]) + spec_held cfg s2 + mset (fallback_queue (ts ! j))
      = evs + mset (fallback_queue (ts ! j))"
    unfolding I(3) [symmetric] by (simp add: ac_simps)
  then have "queued cfg s2 + fallbacks (ts[j := t2]) + spec_held cfg s2 = evs" by simp
  moreover have "if AVOID_THROTTLING cfg then m2 = m0 else ckpt_objects set_ckpt [0..<d + 1] m0 = Inr m2"
    using ck fl' by (auto elim!: speculation_flush_object_Inr simp: ckpt_objects_snoc)
  moreover have c3: "min (nat (shadow_object_identifiers s2)) (OBJECTS cfg) = d + 1" using d(1) c2 by simp
  ultimately show ?thesis using f(1,4,5) I(2,4) st un
    unfolding flush_inv_def c3 by (simp add: c2 s1_def split: if_splits)
qed

lemma flush_schedule_inv:
  assumes "flush_schedule cfg set_ckpt js s ts m = Inr (s', ts', m')" and "flush_inv cfg set_ckpt s0 evs m0 s ts m"
    and "spec_legal cfg s0" and "\<forall>j \<in> set js. j < length ts"
  shows "flush_inv cfg set_ckpt s0 evs m0 s' ts' m'"
  using assms(1,2,4)
proof (induction js arbitrary: s ts m)
  case Nil
  then show ?case by simp
next
  case (Cons j js)
  let ?s1 = "s\<lparr>shadow_object_identifiers := shadow_object_identifiers s + 1\<rparr>"
  show ?case
  proof (cases "valid_object cfg (shadow_object_identifiers s)")
    case True
    with Cons.prems(1) obtain s2 t2 m2 where
      fl: "speculation_flush_object cfg set_ckpt (nat (shadow_object_identifiers s)) ?s1 (ts ! j) m = Inr (s2, t2, m2)"
      and rest: "flush_schedule cfg set_ckpt js s2 (ts[j := t2]) m2 = Inr (s', ts', m')"
      by (auto simp: Let_def and_then_eq_Inr)
    have "flush_inv cfg set_ckpt s0 evs m0 s2 (ts[j := t2]) m2"
      by (rule flush_inv_step [OF Cons.prems(2) assms(3) _ True fl]) (use Cons.prems(3) in simp)
    from Cons.IH [OF rest this] Cons.prems(3) show ?thesis by simp
  next
    case False
    then have out: "int (OBJECTS cfg) \<le> shadow_object_identifiers s"
      using Cons.prems(2) by (auto simp: flush_inv_def valid_object_def)
    then have "min (nat (shadow_object_identifiers ?s1)) (OBJECTS cfg) = OBJECTS cfg"
      "min (nat (shadow_object_identifiers s)) (OBJECTS cfg) = OBJECTS cfg" by simp_all
    moreover have "queue_wf cfg ?s1 = queue_wf cfg s" "queued cfg ?s1 = queued cfg s" "spec_held cfg ?s1 = spec_held cfg s"
      "flushed cfg s0 ?s1 d = flushed cfg s0 s d" for d
      by (simp_all add: queue_wf_def queued_def spec_held_def flushed_def)
    ultimately have "flush_inv cfg set_ckpt s0 evs m0 ?s1 ts m"
      using Cons.prems(2) out unfolding flush_inv_def by (simp split: if_splits)
    moreover have "flush_schedule cfg set_ckpt js ?s1 ts m = Inr (s', ts', m')"
      using Cons.prems(1) False by (simp add: Let_def)
    ultimately show ?thesis using Cons.IH Cons.prems(3) by simp
  qed
qed

text \<open>
  Property C6. Whatever way the threads share the objects out between them, once the object numbers
  have run out every object is out of speculation: its log and speculation queue are empty, its status
  is \<open>idle_status\<close> (no violation time, no standing rollback, free, without owner, not taken, and in the
  build without throttling not checkpointed; its time and its stack mark are kept), and its messages are filtered
  from the end of the epoch on. Each event of the speculation queues is, exactly once, in a slot or
  in the fallback list of a thread; what \<open>speculation_events\<close> loses \<open>pending_events\<close> gains; and
  with throttling every object has had its checkpoint taken, in the order of the numbers.
\<close>

theorem speculation_queue_flush_correct:
  assumes "flush_schedule cfg set_ckpt js s ts m = Inr (s', ts', m')" and "\<forall>j \<in> set js. j < length ts"
    and "queue_wf cfg s" and "spec_legal cfg s" and "shadow_object_identifiers s = 0"
    and "int (OBJECTS cfg) \<le> shadow_object_identifiers s'"
  shows "queue_wf cfg s'
    \<and> (\<forall>d < OBJECTS cfg. speculation_queue s' d = [] \<and> log_queue s' d = []
        \<and> speculation s' d = idle_status cfg (speculation s d)
        \<and> filter_message s' d = dsub cfg (dadd cfg (current_min_limit s) (LOOKAHEAD cfg)) epsilon)
    \<and> queued cfg s' + fallbacks ts' = queued cfg s + fallbacks ts + spec_held cfg s
    \<and> pending_events s' + speculation_events s' = pending_events s + speculation_events s
    \<and> (if AVOID_THROTTLING cfg then m' = m else ckpt_objects set_ckpt [0..<OBJECTS cfg] m = Inr m')"
proof -
  have "flush_inv cfg set_ckpt s (queued cfg s + fallbacks ts + spec_held cfg s) m s ts m"
    using assms(3,5) by (simp add: flush_inv_def)
  then have inv: "flush_inv cfg set_ckpt s (queued cfg s + fallbacks ts + spec_held cfg s) m s' ts' m'"
    by (rule flush_schedule_inv [OF assms(1) _ assms(4,2)])
  have fl: "\<forall>d < OBJECTS cfg. flushed cfg s s' d" using inv assms(6) by (auto simp: flush_inv_def split: if_splits)
  then have "spec_held cfg s' = {#}" by (simp add: spec_held_def flushed_def)
  moreover have all: "min (nat (shadow_object_identifiers s')) (OBJECTS cfg) = OBJECTS cfg" using assms(6) by linarith
  ultimately show ?thesis using inv fl unfolding flush_inv_def all by (simp add: flushed_def)
qed

text \<open>The retractable flush empties every retractable queue and takes its events out of the count.\<close>

lemma retractable_queue_flush_from:
  "0 \<le> retractable_object_identifiers s \<Longrightarrow>
   \<forall>d < OBJECTS cfg. int d < retractable_object_identifiers s \<longrightarrow> retractable_queue s d = [] \<Longrightarrow>
   (\<forall>d < OBJECTS cfg. retractable_queue (retractable_queue_flush cfg s) d = [])
   \<and> retractable_events (retractable_queue_flush cfg s) =
     retractable_events s - (\<Sum>d < OBJECTS cfg. int (length (retractable_queue s d)))
   \<and> queue (retractable_queue_flush cfg s) = queue s"
proof (induction "nat (int (OBJECTS cfg) - retractable_object_identifiers s)" arbitrary: s rule: less_induct)
  case less
  let ?c = "retractable_object_identifiers s"
  let ?s1 = "s\<lparr>retractable_object_identifiers := ?c + 1\<rparr>"
  show ?case
  proof (cases "valid_object cfg ?c")
    case False
    with less.prems have "\<forall>d < OBJECTS cfg. retractable_queue s d = []" by (auto simp: valid_object_def)
    with False show ?thesis by (simp add: retractable_queue_flush.simps [of cfg s] Let_def)
  next
    case True
    define d where "d = nat ?c"
    have d: "d < OBJECTS cfg" "?c = int d" using True by (auto simp: valid_object_def d_def)
    let ?s2 = "retractable_flush_object d ?s1"
    have s2: "retractable_queue ?s2 = (retractable_queue s)(d := [])" "queue ?s2 = queue s"
      "retractable_events ?s2 = retractable_events s - int (length (retractable_queue s d))"
      "retractable_object_identifiers ?s2 = ?c + 1"
      by (simp_all add: retractable_flush_object_def shared_defs)
    have "(\<Sum>j < OBJECTS cfg. int (length (((retractable_queue s)(d := [])) j))) =
        (\<Sum>j < OBJECTS cfg. ((\<lambda>j. int (length (retractable_queue s j)))(d := 0)) j)"
      by (rule sum.cong) auto
    then have sum: "(\<Sum>j < OBJECTS cfg. int (length (retractable_queue ?s2 j))) + int (length (retractable_queue s d))
      = (\<Sum>j < OBJECTS cfg. int (length (retractable_queue s j)))"
      unfolding s2 using sum_upd [OF d(1), of "\<lambda>j. int (length (retractable_queue s j))" 0] by (simp only: add_0_right)
    have "(\<forall>j < OBJECTS cfg. retractable_queue (retractable_queue_flush cfg ?s2) j = [])
      \<and> retractable_events (retractable_queue_flush cfg ?s2) =
        retractable_events ?s2 - (\<Sum>j < OBJECTS cfg. int (length (retractable_queue ?s2 j)))
      \<and> queue (retractable_queue_flush cfg ?s2) = queue ?s2"
      by (rule less.hyps) (use d less.prems s2 in auto)
    moreover have "retractable_queue_flush cfg s = retractable_queue_flush cfg ?s2"
      using True by (subst retractable_queue_flush.simps) (simp add: Let_def d_def)
    ultimately show ?thesis using sum s2(2,3) by simp
  qed
qed

text \<open>
  A complete run of \<open>retractable_queue_flush\<close> frees the processed events of every object and
  takes exactly their number off \<open>retractable_events\<close>; the slots are not touched.
\<close>

theorem retractable_queue_flush_correct:
  assumes "retractable_object_identifiers s = 0"
  shows "(\<forall>d < OBJECTS cfg. retractable_queue (retractable_queue_flush cfg s) d = [])
    \<and> retractable_events (retractable_queue_flush cfg s) =
      retractable_events s - (\<Sum>d < OBJECTS cfg. int (length (retractable_queue s d)))
    \<and> queue (retractable_queue_flush cfg s) = queue s"
  by (rule retractable_queue_flush_from) (simp_all add: assms)

section \<open>Concrete runs\<close>

text \<open>
  Epoch 0, objects 0 to 3, worker 7. Object 0 has processed an event at 1/4 and one at 1/2; at 1/4 it sent
  an event at 3/4 to object 1, which is queued, and at 1/2 a speculative one for the next epoch.
\<close>

lemma round20_quarter [simp]: "round20 (1 / 4) = 1 / 4" "round20 (3 / 4) = 3 / 4"
  by (simp_all add: round20_def)

lemma demo_slot_index_quarter [simp]:
  "slot_index demo_cfg (1 / 4) = Inr 0" "slot_index demo_cfg (3 / 4) = Inr 0"
  by (simp_all add: slot_index_def ddiv_def int_of_double_def trunc_double_def fits_int32_def NUM_SLOTS_def
      signed_modulo_int_def signed_divide_int_def)

definition demo_sent :: event where
  "demo_sent = stamp_send (1 / 4) (demo_event 11 1 (3 / 4))"

definition demo_spec :: event where
  "demo_spec = stamp_send (1 / 2) (demo_event 12 2 (3 / 2))"

definition demo_epoch :: shared where
  "demo_epoch = set_retractable 0 [demo_event 9 0 (1 / 4), demo_event 10 0 (1 / 2)]
     (set_specqueue 0 [demo_spec] (set_log 0 [\<lparr>the_element = demo_sent, log_time = 1 / 4\<rparr>]
     (set_slot 1 0 [demo_sent] demo_start)))"

definition demo_thread :: tls where
  "demo_thread = initial_tls\<lparr>me := 7, current := 3, cur_time := 1 / 8\<rparr>"

lemma demo_times [simp]:
  "ev_time demo_sent = 3 / 4" "ev_dest demo_sent = 1" "ev_time demo_spec = 3 / 2" "ev_dest demo_spec = 2"
  "ev_sent demo_spec = 1 / 2" "ev_addr demo_sent = 11"
  by (simp_all add: demo_sent_def demo_spec_def)

lemma demo_epoch_fields [simp]:
  "queue demo_epoch = (\<lambda>d i. if d = 1 \<and> i = 0 then [demo_sent] else [])"
  "retractable_queue demo_epoch = (\<lambda>d. if d = 0 then [demo_event 9 0 (1 / 4), demo_event 10 0 (1 / 2)] else [])"
  "speculation_queue demo_epoch = (\<lambda>d. if d = 0 then [demo_spec] else [])"
  "log_queue demo_epoch = (\<lambda>d. if d = 0 then [\<lparr>the_element = demo_sent, log_time = 1 / 4\<rparr>] else [])"
  "current_min_limit demo_epoch = 0" "current_max_limit demo_epoch = 2000"
  "speculation demo_epoch d = \<lparr>current_time = 0, owner = 0, causality_violation_time = 0,
       standing_rollback = False, in_stack = False, the_state = FREE, already_taken = False, checkpointed = False\<rparr>"
  "shadow_object_identifiers demo_epoch = 0" "retractable_object_identifiers demo_epoch = 0"
  by (auto simp: demo_epoch_def shared_defs demo_start_def initial_shared_def dmul_def NUM_SLOTS_def fun_eq_iff)

lemma demo_epoch_wf [simp]: "queue_wf demo_cfg demo_epoch"
  by (simp add: queue_wf_def)

lemma demo_epoch_causal [simp]: "causal demo_cfg demo_epoch"
  by (auto simp: causal_def in_queued covered_def split: if_splits)

lemma demo_in_epoch:
  "slot_insert demo_cfg (stamp_send (1 / 8) (demo_event 13 2 (1 / 2))) 0 s =
     Inr (set_slot 2 0 (insert_by ev_time (stamp_send (1 / 8) (demo_event 13 2 (1 / 2))) (queue s 2 0)) s)"
  by (simp add: slot_insert_def valid_object_def)

lemma demo_send:
  "\<exists>s' t'. speculation_queue_insert demo_cfg True (demo_event 13 2 (1 / 2)) demo_epoch demo_thread = Inr (0, s', t')"
  by (simp add: speculation_queue_insert_def Let_def demo_thread_def initial_tls_def valid_object_def dadd_def
      log_the_send_def insert_in_order_def queue_insert_in_epoch_def demo_in_epoch set_log_def
      add_pending_def set_slot_def)

theorem speculation_queue_insert_correct_witness:
  "\<exists>s' t'. speculation_queue_insert demo_cfg True (demo_event 13 2 (1 / 2)) demo_epoch demo_thread = Inr (0, s', t')
     \<and> causal demo_cfg s'
     \<and> queued demo_cfg s' = add_mset (stamp_send (1 / 8) (demo_event 13 2 (1 / 2))) (queued demo_cfg demo_epoch)"
proof -
  obtain s' t' where st: "speculation_queue_insert demo_cfg True (demo_event 13 2 (1 / 2)) demo_epoch demo_thread = Inr (0, s', t')"
    using demo_send by blast
  with speculation_queue_insert_correct [OF st demo_epoch_wf demo_epoch_causal] show ?thesis
    by (simp add: demo_thread_def initial_tls_def dadd_def)
qed

lemma unlink_event_linked:
  assumes "i < NUM_SLOTS" and "x \<in> set (queue s d i)" and "ev_addr x = ev_addr ev"
  shows "\<exists>s'. unlink_event ev d s = Inr s'"
  using assms by (fastforce simp: unlink_event_def Let_def list_all_iff)

lemma demo_unlink: "\<exists>s'. unlink_event demo_sent 1 s = Inr s'" if "queue s = queue demo_epoch"
  by (rule unlink_event_linked [of 0 demo_sent]) (simp_all add: that)

lemma demo_annihilation:
  assumes "queue s = queue demo_epoch" and "speculation s = speculation demo_epoch"
  shows "\<exists>s' t'. queue_elem_annihilation demo_cfg demo_sent s demo_thread = Inr (s', t')"
proof -
  let ?s1 = "upd_status 1 (in_stack_update (\<lambda>_. True)) (upd_status 1 (take_object 7) (upd_status 1 (raise_violation (3 / 4)) s))"
  obtain s3 where "unlink_event demo_sent 1 ?s1 = Inr s3"
    using demo_unlink [of ?s1] assms(1) by (auto simp: upd_status_def)
  then show ?thesis
    using assms(2) by (simp add: queue_elem_annihilation_def valid_object_def Let_def put_into_stack_def demo_thread_def
        initial_tls_def upd_status_def raise_violation_def)
qed

lemma demo_restore:
  assumes "retractable_queue s 0 = [demo_event 9 0 (1 / 4), demo_event 10 0 (1 / 2)]"
  shows "\<exists>s'. restore_retractable_events demo_cfg 0 s = Inr s'"
  using assms by (simp add: restore_retractable_events_def queue_insert_in_slot_def slot_insert_def valid_object_def)

lemma demo_rollback:
  "\<exists>r s' t'. run_rollback demo_cfg (\<lambda>d m. Inr (m + 1)) 0 (1 / 4) demo_epoch demo_thread (0::nat) = Inr (r, s', t', 1)"
proof -
  let ?s0 = "rollback_speculation_queue 0 (1 / 4) demo_epoch"
  have s0: "queue ?s0 = queue demo_epoch" "speculation ?s0 = speculation demo_epoch" "log_queue ?s0 = log_queue demo_epoch"
    "retractable_queue ?s0 = retractable_queue demo_epoch"
    by (simp_all add: rollback_speculation_queue_def Let_def shared_defs fun_eq_iff del: demo_epoch_fields)
  obtain s1 t1 where a: "queue_elem_annihilation demo_cfg demo_sent ?s0 demo_thread = Inr (s1, t1)"
    using demo_annihilation [OF s0(1,2)] by blast
  have "without {demo_sent} ?s0 s1" using annihilation_undo [OF a] by (simp add: undo_spec_def)
  then have "retractable_queue (set_log 0 [] s1) 0 = [demo_event 9 0 (1 / 4), demo_event 10 0 (1 / 2)]"
    using s0(4) by (simp add: without_def is_copy_def set_log_def)
  then obtain s2 where r: "restore_retractable_events demo_cfg 0 (set_log 0 [] s1) = Inr s2"
    using demo_restore by blast
  have "log_rollback demo_cfg 0 (1 / 4) ?s0 demo_thread = Inr (set_log 0 [] s1, t1)"
    using a s0(3) by (simp add: log_rollback_def)
  with r show ?thesis by (simp add: run_rollback_def restore_state_def)
qed

theorem run_rollback_correct_witness:
  "\<exists>r s' t'. run_rollback demo_cfg (\<lambda>d m. Inr (m + 1)) 0 (1 / 4) demo_epoch demo_thread (0::nat) = Inr (r, s', t', 1)
     \<and> speculation_queue s' 0 = [] \<and> log_queue s' 0 = [] \<and> retractable_queue s' 0 = []
     \<and> standing_rollback (speculation s' 1)"
proof -
  obtain r s' t' where st: "run_rollback demo_cfg (\<lambda>d m. Inr (m + 1)) 0 (1 / 4) demo_epoch demo_thread (0::nat) = Inr (r, s', t', 1)"
    using demo_rollback by blast
  have "one_slot demo_cfg (retractable_queue demo_epoch 0)" by (simp add: one_slot_def)
  with run_rollback_correct [OF st demo_epoch_wf demo_epoch_causal] st show ?thesis
    by (simp add: covered_def image_Collect)
qed

lemma demo_flush_events:
  assumes "current_min_limit s = 0" and "current_max_limit s = 2000"
  shows "\<exists>s'. flush_events demo_cfg [demo_spec] s demo_thread = Inr (s', demo_thread)
     \<and> current_min_limit s' = 0 \<and> current_max_limit s' = 2000 \<and> speculation_queue s' = speculation_queue s
     \<and> shadow_object_identifiers s' = shadow_object_identifiers s"
  using assms by (simp add: queue_insert_def slot_insert_def valid_object_def set_slot_def add_pending_def NUM_SLOTS_def)

text \<open>With nothing to insert the flush goes through all objects.\<close>

lemma flush_empty_returns:
  assumes "\<forall>d m. \<exists>m'. set_ckpt d m = Inr m'"
  shows "\<forall>d. speculation_queue s d = [] \<Longrightarrow>
    \<exists>s' m'. speculation_queue_flush cfg set_ckpt s t m = Inr (s', t, m')"
proof (induction "nat (int (OBJECTS cfg) - shadow_object_identifiers s)" arbitrary: s m rule: less_induct)
  case less
  let ?c = "shadow_object_identifiers s"
  let ?s1 = "s\<lparr>shadow_object_identifiers := ?c + 1\<rparr>"
  show ?case
  proof (cases "valid_object cfg ?c")
    case True
    obtain m1 where "set_ckpt (nat ?c) m = Inr m1" using assms by blast
    then have "\<exists>s2 m2. speculation_flush_object cfg set_ckpt (nat ?c) ?s1 t m = Inr (s2, t, m2)
        \<and> (\<forall>d. speculation_queue s2 d = [])"
      using less.prems
      by (cases "AVOID_THROTTLING cfg") (simp_all add: speculation_flush_object_def Let_def flush_log_def shared_defs)
    then obtain s2 m2 where s2: "speculation_flush_object cfg set_ckpt (nat ?c) ?s1 t m = Inr (s2, t, m2)"
      and e: "\<forall>d. speculation_queue s2 d = []" by blast
    have "shadow_object_identifiers s2 = ?c + 1"
      using speculation_flush_object_counters [OF s2] by (simp add: same_counters_def)
    then have "\<exists>s' m'. speculation_queue_flush cfg set_ckpt s2 t m2 = Inr (s', t, m')"
      using True e by (intro less.hyps) (auto simp: valid_object_def)
    with s2 True show ?thesis by (subst speculation_queue_flush.simps) (simp add: Let_def)
  qed (subst speculation_queue_flush.simps, simp add: Let_def)
qed

lemma demo_flush:
  "\<exists>s' m'. speculation_queue_flush demo_cfg (\<lambda>d m. Inr (m + 1)) demo_epoch demo_thread (0::nat) = Inr (s', demo_thread, m')"
proof -
  let ?s = "demo_epoch\<lparr>shadow_object_identifiers := 1\<rparr>"
  obtain s1 where s1: "flush_events demo_cfg [demo_spec] (flush_prepare demo_cfg 0 ?s) demo_thread = Inr (s1, demo_thread)"
    "speculation_queue s1 = speculation_queue (flush_prepare demo_cfg 0 ?s)" "shadow_object_identifiers s1 = 1"
    using demo_flush_events [of "flush_prepare demo_cfg 0 ?s"]
    by (auto simp: flush_prepare_def flush_log_def shared_defs)
  then have first: "speculation_flush_object demo_cfg (\<lambda>d m. Inr (m + 1)) 0 ?s demo_thread (0::nat) =
      Inr (set_specqueue 0 [] (add_speculative (- 1) s1), demo_thread, 1)"
    by (simp add: speculation_flush_object_def Let_def flush_prepare_def flush_log_def shared_defs)
  have empty: "\<forall>d. speculation_queue (set_specqueue 0 [] (add_speculative (- 1) s1)) d = []"
    using s1(2) by (simp add: flush_prepare_def flush_log_def shared_defs)
  have "\<exists>s' m'. speculation_queue_flush demo_cfg (\<lambda>d m. Inr (m + 1))
      (set_specqueue 0 [] (add_speculative (- 1) s1)) demo_thread (1::nat) = Inr (s', demo_thread, m')"
    by (rule flush_empty_returns [OF _ empty]) simp
  with first show ?thesis
    by (subst speculation_queue_flush.simps) (simp add: Let_def valid_object_def)
qed

theorem speculation_queue_flush_correct_witness:
  "\<exists>js s' m'. flush_schedule demo_cfg (\<lambda>d m. Inr (m + 1)) js demo_epoch [demo_thread] (0::nat) = Inr (s', [demo_thread], m')
     \<and> (\<forall>d < 4. speculation_queue s' d = [] \<and> owner (speculation s' d) = -1) \<and> m' = 4"
proof -
  obtain s' m' where st: "speculation_queue_flush demo_cfg (\<lambda>d m. Inr (m + 1)) demo_epoch demo_thread (0::nat) = Inr (s', demo_thread, m')"
    using demo_flush by blast
  then obtain n where n: "flush_schedule demo_cfg (\<lambda>d m. Inr (m + 1)) (replicate n 0) demo_epoch [demo_thread] (0::nat)
      = Inr (s', [demo_thread], m')" and c: "int (OBJECTS demo_cfg) \<le> shadow_object_identifiers s'"
    using speculation_queue_flush_schedule [OF st] by auto
  have legal: "spec_legal demo_cfg demo_epoch" by (simp add: spec_legal_def)
  have e: "[0..<4] = [0, 1, 2, 3::nat]" by (simp add: upt_rec)
  have "(\<forall>d < 4. speculation_queue s' d = [] \<and> owner (speculation s' d) = -1) \<and> m' = 4"
    using speculation_queue_flush_correct [OF n _ demo_epoch_wf legal _ c] by (auto simp: e idle_status_def)
  with n show ?thesis by blast
qed

theorem retractable_queue_flush_correct_witness:
  "retractable_queue (retractable_queue_flush demo_cfg demo_epoch) 0 = []"
  using retractable_queue_flush_correct [of demo_epoch demo_cfg] by simp

end
