(* ===== verification/Extract.thy ===== *)
theory Extract
  imports Rollback
begin

text \<open>
  \<open>queue_extract\<close> of \<open>queue/queue.c\<close> as a step machine: one program counter for every label and
  every critical section, one step per critical section or atomic counter access, so that the
  steps of several threads interleave. The build with \<open>NUMA_BALANCING\<close> (set in
  \<open>include/setup.h\<close>) is modelled. The barriers at the end of an epoch are single rendezvous
  steps of all threads, which theory \<open>Barrier\<close> justifies.
\<close>

section \<open>Critical sections\<close>

text \<open>The first section under the object's lock: taking the object and deciding about a rollback.\<close>

definition acquire ::
  "config \<Rightarrow> (nat \<Rightarrow> 'm \<Rightarrow> 'm outcome) \<Rightarrow> nat \<Rightarrow> shared \<Rightarrow> tls \<Rightarrow> 'm \<Rightarrow> (real option \<times> shared \<times> 'm) outcome" where
  "acquire cfg set_ckpt d s t m =
     (if the_state (speculation s d) \<noteq> FREE \<and> owner (speculation s d) \<noteq> me t then Inr (None, s, m)
      else
        let s1 = (if the_state (speculation s d) = FREE then upd_status d (take_object (me t)) s else s) in
        and_then
          (if AVOID_THROTTLING cfg \<and> \<not> checkpointed (speculation s1 d) then
             and_then (set_ckpt d m) (\<lambda>m1. Inr (upd_status d (checkpointed_update (\<lambda>_. True)) s1, m1))
           else Inr (s1, m))
          (\<lambda>(s2, m2).
            let s3 = upd_status d (already_taken_update (\<lambda>_. True)) s2;
                violation = causality_violation_time (speculation s3 d) in
            if standing_rollback (speculation s3 d) then
              Inr (Some violation,
                   (upd_status d (\<lambda>st. st\<lparr>standing_rollback := False, current_time := current_min_limit s3\<rparr>) s3)
                     \<lparr>filter_message := (filter_message s3)(d := dsub cfg violation epsilon)\<rparr>, m2)
            else Inr (Some 0, s3, m2)))"

definition release :: "nat \<Rightarrow> shared \<Rightarrow> shared" where
  "release d s = upd_status d (\<lambda>st. st\<lparr>the_state := FREE, owner := -1\<rparr>) s"

text \<open>
  One atomic fetch from the object counter of the current NUMA node. \<open>target\<close> is unsigned, so the
  comparison with the \<open>int\<close> count of the node is one of words.
\<close>

definition fetch_target :: "shared \<Rightarrow> tls \<Rightarrow> shared \<times> 32 word" where
  "fetch_target s t =
     (let k = myNUMAindex t; v = object_identifiers_vector s k in
      (s\<lparr>object_identifiers_vector := (object_identifiers_vector s)(k := v + 1)\<rparr>, word_of_int v))"

definition node_exhausted :: "32 word \<Rightarrow> tls \<Rightarrow> bool" where
  "node_exhausted tg t \<longleftrightarrow> word_of_int (numa_c t (myNUMAindex t)) \<le> tg"

definition node_object :: "32 word \<Rightarrow> tls \<Rightarrow> 32 word" where
  "node_object tg t = tg + word_of_int (numa_min t (myNUMAindex t))"

section \<open>The step machine\<close>

datatype extract_pc =
    Entry | Start | Retry | Redo | Roll real | Look | Pop
  | Wait_Work | Flush | Wait_Flush | Tick | Wait_Tick | Refill | Wait_Refill
  | Returned "event option"

definition retry_step :: "config \<Rightarrow> shared \<Rightarrow> tls \<Rightarrow> extract_pc \<times> shared \<times> tls" where
  "retry_step cfg s t =
     (let (s1, tg) = fetch_target s t in
      if node_exhausted tg t then
        (if stealNUMAindex t < TOT_NUMA_NODES t
         then (Retry, s1, t\<lparr>target := tg, stealNUMAindex := stealNUMAindex t + 1,
                            myNUMAindex := (myNUMAindex t + 1) mod TOT_NUMA_NODES t\<rparr>)
         else (Redo, s1, t\<lparr>target := of_nat (OBJECTS cfg)\<rparr>))
      else (Redo, s1, t\<lparr>target := node_object tg t\<rparr>))"

text \<open>An empty slot: the object is given back and another target looked for.\<close>

definition next_target :: "shared \<Rightarrow> tls \<Rightarrow> extract_pc \<times> shared \<times> tls" where
  "next_target s t =
     (let (s1, tg) = fetch_target s t in
      if node_exhausted tg t then (Retry, s1, t\<lparr>target := tg\<rparr>)
      else (Redo, s1, t\<lparr>target := node_object tg t\<rparr>))"

definition look_step :: "config \<Rightarrow> shared \<Rightarrow> tls \<Rightarrow> extract_pc \<times> shared \<times> tls" where
  "look_step cfg s t =
     (let d = unat (target t) in
      if queue s d (my_index t) \<noteq> [] then (Pop, s, t)
      else if SPECULATION cfg then
        (let (found, s1, t1) = get_from_stack (release d s) t in
         if found then (Redo, s1, t1) else next_target s1 t1)
      else next_target s t)"

text \<open>The second look at the slot, the extraction of its head, and the bookkeeping of it.\<close>

definition pop_empty :: "config \<Rightarrow> shared \<Rightarrow> tls \<Rightarrow> (extract_pc \<times> shared \<times> tls) outcome" where
  "pop_empty cfg s t =
     (let d = unat (target t); final = (\<lambda>s. if end_flag s then Returned None else Redo) in
      if SPECULATION cfg then
        (if in_stack (speculation s d) then Inl Exit_Failure
         else let (found, s1, t1) = get_from_stack (release d s) t in
              if found then Inr (Redo, s1, t1) else Inr (final s1, s1, t1))
      else Inr (final s, s, t))"

definition pop_head :: "config \<Rightarrow> nat \<Rightarrow> event \<Rightarrow> event list \<Rightarrow> shared \<Rightarrow> tls \<Rightarrow> shared" where
  "pop_head cfg d ev rest s t =
     (let s1 = set_slot d (my_index t) rest s in
      if SPECULATION cfg then
        add_pending 1 (add_retractable 1 (retractable_queue_insert_locked ev d
          (upd_status d (current_time_update (\<lambda>_. ev_time ev)) s1)))
      else add_pending (-1) s1)"

definition pop_step :: "config \<Rightarrow> shared \<Rightarrow> tls \<Rightarrow> (extract_pc \<times> shared \<times> tls) outcome" where
  "pop_step cfg s t =
     (let d = unat (target t) in
      if SPECULATION cfg \<and> standing_rollback (speculation s d) then Inr (Redo, s, t)
      else case queue s d (my_index t) of
             [] \<Rightarrow> pop_empty cfg s t
           | ev # rest \<Rightarrow> Inr (Returned (Some ev), pop_head cfg d ev rest s t, t))"

definition redo_step ::
  "config \<Rightarrow> (nat \<Rightarrow> 'm \<Rightarrow> 'm outcome) \<Rightarrow> shared \<Rightarrow> tls \<Rightarrow> 'm \<Rightarrow> (extract_pc \<times> shared \<times> tls \<times> 'm) outcome" where
  "redo_step cfg set_ckpt s t m =
     (let d = unat (target t) in
      if end_flag s then Inr (Returned None, s, t, m)
      else if d < OBJECTS cfg then
        (if SPECULATION cfg then
           and_then (acquire cfg set_ckpt d s t m) (\<lambda>(taken, s1, m1).
             case taken of
               None \<Rightarrow> Inr (Start, s1, t\<lparr>target := -1\<rparr>, m1)
             | Some rollback_time \<Rightarrow> Inr (Roll rollback_time, s1, t, m1))
         else Inr (Look, s, t, m))
      else if SPECULATION cfg then
        (let (found, s1, t1) = get_from_stack s t in Inr (if found then Redo else Wait_Work, s1, t1, m))
      else Inr (Wait_Flush, s, t, m))"

definition refill_step :: "config \<Rightarrow> shared \<Rightarrow> tls \<Rightarrow> (shared \<times> tls) outcome" where
  "refill_step cfg s t =
     fallback_check cfg s (t\<lparr>my_index := current_index s, target := -1,
                            myNUMAindex := myNUMAnode t, stealNUMAindex := 0\<rparr>)"

text \<open>
  The step of one thread. At a barrier it waits; \<open>set_ckpt\<close> and \<open>restore_object\<close> are those of the
  checkpoint backend.
\<close>

fun extract_exec ::
  "config \<Rightarrow> (nat \<Rightarrow> 'm \<Rightarrow> 'm outcome) \<Rightarrow> (nat \<Rightarrow> 'm \<Rightarrow> 'm outcome) \<Rightarrow> extract_pc \<Rightarrow> shared \<Rightarrow> tls \<Rightarrow> 'm
   \<Rightarrow> (extract_pc \<times> shared \<times> tls \<times> 'm) outcome" where
  "extract_exec cfg set_ckpt restore_object Entry s t m =
     (let (found, s1, t1) = (if SPECULATION cfg \<and> target t = -1 then get_from_stack s t else (False, s, t))
      in Inr (Start, s1, t1, m))"
| "extract_exec cfg set_ckpt restore_object Start s t m =
     Inr (if target t = -1 then Retry else Redo, s, t, m)"
| "extract_exec cfg set_ckpt restore_object Retry s t m =
     (let (pc, s1, t1) = retry_step cfg s t in Inr (pc, s1, t1, m))"
| "extract_exec cfg set_ckpt restore_object Redo s t m = redo_step cfg set_ckpt s t m"
| "extract_exec cfg set_ckpt restore_object (Roll rollback_time) s t m =
     (if rollback_time > 0 then
        and_then (run_rollback cfg restore_object (unat (target t)) rollback_time s t m)
          (\<lambda>(r, s1, t1, m1). Inr (Look, s1, t1, m1))
      else Inr (Look, s, t, m))"
| "extract_exec cfg set_ckpt restore_object Look s t m =
     (let (pc, s1, t1) = look_step cfg s t in Inr (pc, s1, t1, m))"
| "extract_exec cfg set_ckpt restore_object Pop s t m =
     and_then (pop_step cfg s t) (\<lambda>(pc, s1, t1). Inr (pc, s1, t1, m))"
| "extract_exec cfg set_ckpt restore_object Flush s t m =
     and_then (speculation_queue_flush cfg set_ckpt (retractable_queue_flush cfg s) t m)
       (\<lambda>(s1, t1, m1). Inr (Wait_Flush, s1, t1, m1))"
| "extract_exec cfg set_ckpt restore_object Tick s t m = Inr (Wait_Tick, update_timing cfg s, t, m)"
| "extract_exec cfg set_ckpt restore_object Refill s t m =
     and_then (refill_step cfg s t) (\<lambda>(s1, t1). Inr (Wait_Refill, s1, t1, m))"
| "extract_exec cfg set_ckpt restore_object pc s t m = Inr (pc, s, t, m)"

section \<open>Several threads\<close>

text \<open>
  \<open>working\<close> is history: the object a thread has taken its last event from while it processes it.
  Processing is any number of calls of the insertion the build uses, with the event's destination
  as current object and its timestamp as current time.
\<close>

record 'm system =
  sh :: shared
  om :: 'm
  pc_of :: "nat \<Rightarrow> extract_pc"
  loc :: "nat \<Rightarrow> tls"
  working :: "nat \<Rightarrow> nat option"

definition send_event :: "config \<Rightarrow> bool \<Rightarrow> event \<Rightarrow> shared \<Rightarrow> tls \<Rightarrow> (int \<times> shared \<times> tls) outcome" where
  "send_event cfg node ev s t =
     (if SPECULATION cfg then speculation_queue_insert cfg node ev s t else queue_insert cfg ev s t)"

fun took :: "extract_pc \<Rightarrow> tls \<Rightarrow> nat option" where
  "took (Returned (Some ev)) t = Some (unat (target t))"
| "took _ t = None"

fun at_barrier :: "extract_pc \<Rightarrow> bool" where
  "at_barrier Wait_Work = True" | "at_barrier Wait_Flush = True" | "at_barrier Wait_Tick = True"
| "at_barrier Wait_Refill = True" | "at_barrier (Returned r) = True" | "at_barrier _ = False"

text \<open>After the barrier at \<open>Wait_Flush\<close> thread \<open>l\<close>, the one \<open>barrier()\<close> returned 1 to, ticks the clock.\<close>

fun after_barrier :: "extract_pc \<Rightarrow> nat \<Rightarrow> nat \<Rightarrow> extract_pc" where
  "after_barrier Wait_Work l i = Flush"
| "after_barrier Wait_Flush l i = (if i = l then Tick else Wait_Tick)"
| "after_barrier Wait_Tick l i = Refill"
| "after_barrier Wait_Refill l i = Start"
| "after_barrier pc l i = pc"

inductive sys_step ::
  "config \<Rightarrow> (nat \<Rightarrow> 'm \<Rightarrow> 'm outcome) \<Rightarrow> (nat \<Rightarrow> 'm \<Rightarrow> 'm outcome) \<Rightarrow> 'm system \<Rightarrow> 'm system \<Rightarrow> bool"
  for cfg set_ckpt restore_object where
  thread: "i < THREADS cfg \<Longrightarrow> \<not> at_barrier (pc_of S i) \<Longrightarrow>
     extract_exec cfg set_ckpt restore_object (pc_of S i) (sh S) (loc S i) (om S) = Inr (pc, s, t, m) \<Longrightarrow>
     sys_step cfg set_ckpt restore_object S
       (S\<lparr>sh := s, om := m, pc_of := (pc_of S)(i := pc), loc := (loc S)(i := t),
          working := (working S)(i := took pc t)\<rparr>)"
| send: "i < THREADS cfg \<Longrightarrow> pc_of S i = Returned (Some ev) \<Longrightarrow>
     send_event cfg node e (sh S) ((loc S i)\<lparr>current := ev_dest ev, cur_time := ev_time ev\<rparr>) = Inr (r, s, t) \<Longrightarrow>
     sys_step cfg set_ckpt restore_object S (S\<lparr>sh := s, loc := (loc S)(i := t)\<rparr>)"
| get: "i < THREADS cfg \<Longrightarrow> pc_of S i = Returned (Some ev) \<Longrightarrow>
     sys_step cfg set_ckpt restore_object S (S\<lparr>pc_of := (pc_of S)(i := Entry), working := (working S)(i := None)\<rparr>)"
| barrier: "\<forall>i < THREADS cfg. pc_of S i = pc \<Longrightarrow> pc \<in> {Wait_Work, Wait_Flush, Wait_Tick, Wait_Refill} \<Longrightarrow>
     l < THREADS cfg \<Longrightarrow>
     sys_step cfg set_ckpt restore_object S (S\<lparr>pc_of := (\<lambda>i. after_barrier pc l i)\<rparr>)"

inductive_cases sys_stepE [consumes 1, case_names thread send get barrier]: "sys_step cfg set_ckpt restore_object S S'"

definition sys_start :: "config \<Rightarrow> 'm system \<Rightarrow> bool" where
  "sys_start cfg S \<longleftrightarrow> (\<forall>i < THREADS cfg. pc_of S i = Entry \<and> me (loc S i) = int i \<and> working S i = None)"

inductive sys_reachable ::
  "config \<Rightarrow> (nat \<Rightarrow> 'm \<Rightarrow> 'm outcome) \<Rightarrow> (nat \<Rightarrow> 'm \<Rightarrow> 'm outcome) \<Rightarrow> 'm system \<Rightarrow> bool"
  for cfg set_ckpt restore_object where
  start: "sys_start cfg S \<Longrightarrow> sys_reachable cfg set_ckpt restore_object S"
| step: "sys_reachable cfg set_ckpt restore_object S \<Longrightarrow> sys_step cfg set_ckpt restore_object S S' \<Longrightarrow>
    sys_reachable cfg set_ckpt restore_object S'"

section \<open>Who owns an object\<close>

text \<open>
  \<open>owners_kept X s s'\<close>: every busy object outside \<open>X\<close> stays with its owner. All operations keep all
  owners, but for the release of a thread's own target and the flush.
\<close>

definition owners_kept :: "nat set \<Rightarrow> shared \<Rightarrow> shared \<Rightarrow> bool" where
  "owners_kept X s s' \<longleftrightarrow> (\<forall>d. d \<notin> X \<longrightarrow> the_state (speculation s d) = BUSY \<longrightarrow>
     the_state (speculation s' d) = BUSY \<and> owner (speculation s' d) = owner (speculation s d))"

named_theorems kept

lemma owners_kept_refl [kept, simp]: "owners_kept X s s"
  by (simp add: owners_kept_def)

lemma owners_kept_trans: "owners_kept X s u \<Longrightarrow> owners_kept X u v \<Longrightarrow> owners_kept X s v"
  by (auto simp: owners_kept_def)

lemma owners_kept_mono: "owners_kept {} s u \<Longrightarrow> owners_kept X s u"
  by (auto simp: owners_kept_def)

lemma owners_kept_same: "speculation s' = speculation s \<Longrightarrow> owners_kept X s s'"
  by (simp add: owners_kept_def)

lemma owners_kept_upd:
  assumes "the_state (speculation s d) = BUSY \<Longrightarrow>
      the_state (f (speculation s d)) = BUSY \<and> owner (f (speculation s d)) = owner (speculation s d)"
  shows "owners_kept X s (upd_status d f s)"
  using assms by (auto simp: owners_kept_def upd_status_def)

lemma owners_kept_release: "owners_kept {d} s (release d s)"
  by (simp add: owners_kept_def release_def upd_status_def)

lemma raise_violation_owner [simp]:
  "the_state (raise_violation v st) = the_state st" "owner (raise_violation v st) = owner st"
  by (simp_all add: raise_violation_def)

lemma upd_status_at [simp]: "speculation (upd_status d f s) d = f (speculation s d)"
  by (simp add: upd_status_def)

text \<open>Thread-local identity: \<open>me\<close>, and where an operation keeps it, \<open>target\<close>.\<close>

lemma put_into_stack_tls:
  "put_into_stack cfg d s t = Inr (s', t') \<Longrightarrow> owners_kept {} s s' \<and> me t' = me t \<and> target t' = target t"
  by (frule put_into_stack_Inr(1), drule put_into_stack_Inr(2)) (simp add: owners_kept_upd)

lemma put_head_into_stack_tls:
  "put_head_into_stack cfg d s t = Inr (s', t') \<Longrightarrow> owners_kept {} s s' \<and> me t' = me t \<and> target t' = target t"
  by (frule put_head_into_stack_Inr(1), drule put_head_into_stack_Inr(2)) (simp add: owners_kept_upd)

lemma get_from_stack_tls:
  "get_from_stack s t = (b, s', t') \<Longrightarrow> owners_kept X s s' \<and> me t' = me t"
  by (auto simp: get_from_stack_def owners_kept_upd split: list.splits)

lemma take_free_kept:
  "the_state (speculation s d) = FREE \<Longrightarrow> owners_kept X s (upd_status d (take_object w) s)"
  by (rule owners_kept_upd) simp

lemma queue_insert_tls:
  assumes "queue_insert cfg ev s t = Inr (r, s', t')"
  shows "owners_kept {} s s' \<and> me t' = me t"
  using assms
proof (cases rule: queue_insert_cases)
  case (slot index s1)
  then show ?thesis using slot_insert_fields [OF slot(5)] by (simp add: owners_kept_same add_pending_def)
qed (simp_all add: owners_kept_same add_pending_def)

lemma flush_events_tls: "flush_events cfg evs s t = Inr (s', t') \<Longrightarrow> me t' = me t"
  by (induction evs arbitrary: s t) (auto simp: and_then_eq_Inr dest: queue_insert_tls)

lemma annihilation_tls:
  assumes "queue_elem_annihilation cfg ev s t = Inr (s', t')"
  shows "owners_kept {} s s' \<and> me t' = me t \<and> target t' = target t"
proof -
  let ?d = "nat (ev_dest ev)"
  let ?s1 = "upd_status ?d (raise_violation (ev_time ev)) s"
  let ?s2 = "upd_status ?d (take_object (me t)) ?s1"
  from assms obtain s2 s3 where
    g: "(if \<not> standing_rollback (speculation s ?d) \<and> the_state (speculation ?s1 ?d) = FREE
         then put_into_stack cfg ?d ?s2 t else Inr (?s1, t)) = Inr (s2, t')"
    and u: "unlink_event ev ?d s2 = Inr s3"
    and s': "s' = (if current_time (speculation s2 ?d) > ev_time ev then add_retractable (-1) s3 else add_pending (-1) s3)"
    by (auto simp: queue_elem_annihilation_def Let_def and_then_eq_Inr split: if_splits)
  have 1: "owners_kept {} s ?s1" by (rule owners_kept_upd) simp
  have 2: "owners_kept {} ?s1 s2 \<and> me t' = me t \<and> target t' = target t"
  proof (cases "\<not> standing_rollback (speculation s ?d) \<and> the_state (speculation ?s1 ?d) = FREE")
    case True
    with g have p: "put_into_stack cfg ?d ?s2 t = Inr (s2, t')" by simp
    have "owners_kept {} ?s1 ?s2" using True by (intro take_free_kept) simp
    with put_into_stack_tls [OF p] show ?thesis using owners_kept_trans by blast
  next
    case False
    with g show ?thesis by auto
  qed
  have "speculation s' = speculation s2"
    using u s' by (auto simp: unlink_event_def Let_def shared_defs split: if_splits)
  with 1 2 show ?thesis using owners_kept_same owners_kept_trans by blast
qed

lemma log_rollback_loop_tls:
  "log_rollback_loop cfg rt ls s t = Inr (rest, s', t') \<Longrightarrow> owners_kept {} s s' \<and> me t' = me t \<and> target t' = target t"
proof (induction ls arbitrary: s t)
  case (Cons l ls)
  show ?case
  proof (cases "rt \<le> log_time l")
    case True
    with Cons.prems obtain s1 t1 where a: "queue_elem_annihilation cfg (the_element l) s t = Inr (s1, t1)"
      and r: "log_rollback_loop cfg rt ls s1 t1 = Inr (rest, s', t')" by (auto simp: and_then_eq_Inr)
    show ?thesis using annihilation_tls [OF a] Cons.IH [OF r] owners_kept_trans by metis
  qed (use Cons.prems in auto)
qed simp

lemma run_rollback_tls:
  assumes "run_rollback cfg ro d rt s t m = Inr (r, s', t', m')"
  shows "owners_kept {} s s' \<and> me t' = me t \<and> target t' = target t"
proof -
  let ?s0 = "rollback_speculation_queue d rt s"
  from assms obtain s1 rest s2 where
    l: "log_rollback_loop cfg rt (rev (log_queue ?s0 d)) ?s0 t = Inr (rest, s1, t')"
    and s2: "s2 = set_log d (rev rest) s1" and re: "restore_retractable_events cfg d s2 = Inr s'"
    by (auto simp: run_rollback_def log_rollback_def and_then_eq_Inr)
  have "speculation ?s0 = speculation s" by (simp add: rollback_speculation_queue_def Let_def shared_defs)
  moreover have "speculation s' = speculation s1"
    using restore_retractable_Inr [OF re] s2 by (simp add: set_log_def)
  ultimately show ?thesis using log_rollback_loop_tls [OF l] by (simp add: owners_kept_def)
qed

lemma insert_straggler_own:
  assumes "insert_straggler cfg ev src d s t = Inr (s', t')"
  shows "owners_kept {} s s' \<and> me t' = me t"
proof -
  let ?s1 = "upd_status d (raise_violation (ev_time ev)) s"
  let ?s2 = "upd_status d (take_object (me t)) ?s1"
  from assms obtain s4 where q: "queue_insert_in_epoch cfg ev s4 = Inr s'"
    and g: "(if \<not> standing_rollback (speculation s d) \<and> the_state (speculation ?s1 d) = FREE then
           and_then (put_head_into_stack cfg src ?s2 t) (\<lambda>(s2, t2).
           and_then (put_into_stack cfg d s2 t2) (\<lambda>(s3, t3). Inr (s3, t3\<lparr>target := -1\<rparr>)))
         else Inr (?s1, t)) = Inr (s4, t')"
    by (auto simp: insert_straggler_def Let_def and_then_eq_Inr simp del: upd_status_at)
  have 1: "owners_kept {} s ?s1" by (rule owners_kept_upd) simp
  have "owners_kept {} ?s1 s4 \<and> me t' = me t"
  proof (cases "\<not> standing_rollback (speculation s d) \<and> the_state (speculation ?s1 d) = FREE")
    case True
    with g obtain s3 t3 t4 where h: "put_head_into_stack cfg src ?s2 t = Inr (s3, t3)"
      and p: "put_into_stack cfg d s3 t3 = Inr (s4, t4)" and t': "t' = t4\<lparr>target := -1\<rparr>"
      by (auto simp: and_then_eq_Inr)
    have "owners_kept {} ?s1 ?s2" using True by (intro take_free_kept) simp
    with put_head_into_stack_tls [OF h] put_into_stack_tls [OF p] t' show ?thesis
      using owners_kept_trans by (metis tls.select_convs(1) tls.update_convs(4) tls.surjective)
  qed (use g in auto)
  with 1 queue_insert_in_epoch_facts(4) [OF q] show ?thesis using owners_kept_same owners_kept_trans by blast
qed

lemma insert_in_order_own:
  assumes "insert_in_order cfg ev d s t = Inr (s', t')"
  shows "owners_kept {} s s' \<and> me t' = me t"
proof -
  from assms obtain s1 where q: "queue_insert_in_epoch cfg ev s = Inr s1"
    and r: "(if the_state (speculation s1 d) = FREE \<and> already_taken (speculation s1 d) then
         put_into_stack cfg d (upd_status d (take_object (me t)) s1) t else Inr (s1, t)) = Inr (s', t')"
    by (auto simp: insert_in_order_def and_then_eq_Inr)
  have "owners_kept {} s1 s' \<and> me t' = me t"
  proof (cases "the_state (speculation s1 d) = FREE \<and> already_taken (speculation s1 d)")
    case True
    then have "owners_kept {} s1 (upd_status d (take_object (me t)) s1)" by (intro take_free_kept) simp
    with True r put_into_stack_tls [of cfg d _ t s' t'] show ?thesis using owners_kept_trans by force
  qed (use r in auto)
  moreover have "owners_kept {} s s1" by (rule owners_kept_same) (rule queue_insert_in_epoch_facts(4) [OF q])
  ultimately show ?thesis using owners_kept_trans by blast
qed

lemma flush_me:
  assumes "speculation_queue_flush cfg ck s t m = Inr (s', t', m')"
  shows "me t' = me t"
  using assms
proof (induction cfg ck s t m rule: speculation_queue_flush.induct)
  case (1 cfg ck s t m)
  from "1.prems" show ?case
  proof (cases rule: speculation_queue_flush_step)
    case (next_object s2 t2 m2)
    have "me t2 = me t"
      using next_object(2) by (rule speculation_flush_object_Inr) (rule flush_events_tls)
    moreover have "me t' = me t2" using "1.IH" next_object by blast
    ultimately show ?thesis by simp
  qed simp
qed

definition owned :: "config \<Rightarrow> shared \<Rightarrow> nat \<Rightarrow> int \<Rightarrow> bool" where
  "owned cfg s d w \<longleftrightarrow> d < OBJECTS cfg \<and> the_state (speculation s d) = BUSY \<and> owner (speculation s d) = w"

lemma owned_kept: "owned cfg s d w \<Longrightarrow> owners_kept X s s' \<Longrightarrow> d \<notin> X \<Longrightarrow> owned cfg s' d w"
  by (simp add: owned_def owners_kept_def)

lemma acquire_own:
  assumes "acquire cfg ck d s t m = Inr (taken, s', m')" and "d < OBJECTS cfg"
  shows "owners_kept {} s s' \<and> (taken \<noteq> None \<longrightarrow> owned cfg s' d (me t))"
proof (cases "the_state (speculation s d) \<noteq> FREE \<and> owner (speculation s d) \<noteq> me t")
  case True
  with assms show ?thesis by (simp add: acquire_def)
next
  case False
  let ?s1 = "if the_state (speculation s d) = FREE then upd_status d (take_object (me t)) s else s"
  have busy: "the_state (speculation ?s1 d) = BUSY" "owner (speculation ?s1 d) = me t"
    using False ownership.exhaust by (auto simp: take_object_def)
  have 1: "owners_kept {} s ?s1" by (simp add: take_free_kept)
  from False assms obtain s2 m2 where s2: "s2 = ?s1 \<or> s2 = upd_status d (checkpointed_update (\<lambda>_. True)) ?s1"
    and s': "s' = upd_status d (already_taken_update (\<lambda>_. True)) s2
      \<or> (\<exists>v f. s' = (upd_status d (\<lambda>st. st\<lparr>standing_rollback := False, current_time := v\<rparr>)
            (upd_status d (already_taken_update (\<lambda>_. True)) s2))\<lparr>filter_message := f\<rparr>)"
    by (fastforce simp: acquire_def Let_def and_then_eq_Inr split: if_splits)
  have 2: "owners_kept {} ?s1 s2" using s2 by (auto intro!: owners_kept_upd)
  have busy2: "the_state (speculation s2 d) = BUSY" "owner (speculation s2 d) = me t" using s2 busy by auto
  have 3: "owners_kept {} s2 s'" using s' by (auto simp: owners_kept_def upd_status_def)
  have "the_state (speculation s' d) = BUSY" "owner (speculation s' d) = me t"
    using 3 busy2 by (auto simp: owners_kept_def)
  with 1 2 3 assms(2) show ?thesis using owners_kept_trans unfolding owned_def by blast
qed

fun holding :: "extract_pc \<Rightarrow> bool" where
  "holding (Roll rt) = True" | "holding Look = True" | "holding Pop = True"
| "holding (Returned (Some ev)) = True" | "holding _ = False"

text \<open>The stretch of the epoch a program counter belongs to.\<close>

fun stretch :: "extract_pc \<Rightarrow> nat" where
  "stretch Flush = 1" | "stretch Wait_Flush = 1" | "stretch Tick = 2" | "stretch Wait_Tick = 2"
| "stretch Refill = 3" | "stretch Wait_Refill = 3" | "stretch _ = 0"

lemma next_target_facts:
  "next_target s t = (pc, s', t') \<Longrightarrow> owners_kept X s s' \<and> me t' = me t \<and> \<not> holding pc \<and> stretch pc = 0"
  by (auto simp: next_target_def fetch_target_def Let_def owners_kept_def split: if_splits)

lemma retry_step_facts:
  "retry_step cfg s t = (pc, s', t') \<Longrightarrow> owners_kept {} s s' \<and> me t' = me t \<and> \<not> holding pc \<and> stretch pc = 0"
  by (auto simp: retry_step_def fetch_target_def Let_def owners_kept_def split: if_splits)

lemma look_step_facts:
  assumes "look_step cfg s t = (pc, s', t')" and "SPECULATION cfg"
  defines "d \<equiv> unat (target t)"
  shows "me t' = me t \<and> stretch pc = 0 \<and> owners_kept {d} s s' \<and> (holding pc \<longrightarrow> s' = s \<and> t' = t)"
proof (cases "queue s d (my_index t) = []")
  case True
  obtain b s1 t1 where g: "get_from_stack (release d s) t = (b, s1, t1)" by (metis prod_cases3)
  have 1: "owners_kept {d} s s1 \<and> me t1 = me t"
    using owners_kept_release get_from_stack_tls [OF g, of "{d}"] owners_kept_trans by blast
  show ?thesis
  proof (cases b)
    case True
    with assms g 1 \<open>queue s d (my_index t) = []\<close> show ?thesis by (auto simp: look_step_def d_def)
  next
    case False
    with assms g \<open>queue s d (my_index t) = []\<close> have "next_target s1 t1 = (pc, s', t')"
      by (auto simp: look_step_def d_def)
    from next_target_facts [OF this, of "{d}"] 1 show ?thesis using owners_kept_trans by metis
  qed
qed (use assms in \<open>auto simp: look_step_def\<close>)

lemma pop_step_facts:
  assumes "pop_step cfg s t = Inr (pc, s', t')" and "SPECULATION cfg"
  defines "d \<equiv> unat (target t)"
  shows "me t' = me t \<and> stretch pc = 0 \<and> owners_kept {d} s s'
    \<and> (holding pc \<longrightarrow> owners_kept {} s s' \<and> target t' = target t)"
proof (cases "standing_rollback (speculation s d)")
  case True
  with assms show ?thesis by (auto simp: pop_step_def)
next
  case standing: False
  show ?thesis
  proof (cases "queue s d (my_index t)")
    case Nil
    obtain b s1 t1 where g: "get_from_stack (release d s) t = (b, s1, t1)" by (metis prod_cases3)
    have "owners_kept {d} s s1 \<and> me t1 = me t"
      using owners_kept_release get_from_stack_tls [OF g, of "{d}"] owners_kept_trans by blast
    with Nil standing assms g show ?thesis
      by (auto simp: pop_step_def pop_empty_def Let_def split: if_splits)
  next
    case (Cons ev rest)
    have "owners_kept X s (pop_head cfg d ev rest s t)" for X
      using assms(2) by (auto simp: pop_head_def owners_kept_def shared_defs retractable_queue_insert_locked_def)
    with Cons standing assms show ?thesis by (auto simp: pop_step_def)
  qed
qed

lemma redo_step_facts:
  assumes "redo_step cfg ck s t m = Inr (pc, s', t', m')" and "SPECULATION cfg"
  shows "me t' = me t \<and> stretch pc = 0 \<and> owners_kept {} s s' \<and> (holding pc \<longrightarrow> owned cfg s' (unat (target t')) (me t))"
proof (cases "end_flag s")
  case go: False
  show ?thesis
  proof (cases "unat (target t) < OBJECTS cfg")
    case True
    with go assms obtain taken where a: "acquire cfg ck (unat (target t)) s t m = Inr (taken, s', m')"
      and r: "pc = (case taken of None \<Rightarrow> Start | Some rt \<Rightarrow> Roll rt)"
        "t' = (case taken of None \<Rightarrow> t\<lparr>target := -1\<rparr> | Some rt \<Rightarrow> t)"
      by (auto simp: redo_step_def and_then_eq_Inr split: option.splits)
    from acquire_own [OF a True] r show ?thesis by (auto split: option.splits)
  next
    case False
    obtain b s1 t1 where g: "get_from_stack s t = (b, s1, t1)" by (metis prod_cases3)
    from False go assms g get_from_stack_tls [OF g, of "{}"] show ?thesis
      by (auto simp: redo_step_def split: if_splits)
  qed
qed (use assms in \<open>auto simp: redo_step_def\<close>)

lemma fallback_loop_speculation:
  "fallback_loop cfg kept evs s = Inr (kept', s') \<Longrightarrow> speculation s' = speculation s"
proof (induction evs arbitrary: kept s)
  case (Cons ev evs)
  then show ?case
    by (auto simp: and_then_eq_Inr queue_insert_from_fallback_Inr slot_insert_fields split: if_splits)
qed simp

lemma exec_own:
  assumes x: "extract_exec cfg ck ro pc s t m = Inr (pc', s', t', m')" and sp: "SPECULATION cfg"
    and "\<not> at_barrier pc" and "pc \<noteq> Flush" and own: "holding pc \<Longrightarrow> owned cfg s (unat (target t)) (me t)"
  shows "me t' = me t \<and> stretch pc' = stretch pc
    \<and> owners_kept (if holding pc then {unat (target t)} else {}) s s'
    \<and> (holding pc' \<longrightarrow> owned cfg s' (unat (target t')) (me t))"
proof (cases pc)
  case Entry
  obtain b s1 t1 where g: "get_from_stack s t = (b, s1, t1)" by (metis prod_cases3)
  from Entry x sp g get_from_stack_tls [OF g, of "{}"] show ?thesis by (auto split: if_splits)
next
  case Retry
  obtain pc1 s1 t1 where g: "retry_step cfg s t = (pc1, s1, t1)" by (metis prod_cases3)
  from Retry x g retry_step_facts [OF g] show ?thesis by auto
next
  case Redo
  with x have "redo_step cfg ck s t m = Inr (pc', s', t', m')" by simp
  from redo_step_facts [OF this sp] Redo show ?thesis by simp
next
  case (Roll rt)
  show ?thesis
  proof (cases "rt > 0")
    case True
    with Roll x obtain r where r: "run_rollback cfg ro (unat (target t)) rt s t m = Inr (r, s', t', m')" "pc' = Look"
      by (auto simp: and_then_eq_Inr)
    from run_rollback_tls [OF r(1)] own Roll r(2) show ?thesis
      using owned_kept [of cfg s _ _ "{}"] owners_kept_mono by auto
  qed (use Roll x own in auto)
next
  case Look
  obtain pc1 s1 t1 where g: "look_step cfg s t = (pc1, s1, t1)" by (metis prod_cases3)
  from Look x g look_step_facts [OF g sp] own show ?thesis by auto
next
  case Pop
  with x have p: "pop_step cfg s t = Inr (pc', s', t')" by (auto simp: and_then_eq_Inr)
  from pop_step_facts [OF p sp] own Pop show ?thesis using owned_kept [of cfg s _ _ "{}"] by auto
next
  case Refill
  with x obtain s1 t1 where r: "refill_step cfg s t = Inr (s', t')" "pc' = Wait_Refill"
    by (auto simp: and_then_eq_Inr)
  then obtain kept where "fallback_loop cfg [] (fallback_queue t) s = Inr (kept, s')"
    "me t' = me t" by (auto simp: refill_step_def elim!: fallback_check_Inr)
  with r Refill fallback_loop_speculation show ?thesis by (auto simp: owners_kept_same)
next
  case Tick
  with x show ?thesis by (auto simp: owners_kept_def update_timing_def Let_def)
qed (use assms in \<open>auto split: if_splits\<close>)

lemma send_own:
  assumes "send_event cfg node ev s t = Inr (r, s', t')"
  shows "owners_kept {} s s' \<and> me t' = me t"
proof (cases "SPECULATION cfg")
  case False
  with assms have "queue_insert cfg ev s t = Inr (r, s', t')" by (simp add: send_event_def)
  then show ?thesis by (rule queue_insert_tls)
next
  case sp: True
  let ?e = "stamp_send (cur_time t) ev" and ?d = "nat (ev_dest ev)" and ?src = "nat (current t)"
  let ?s1 = "set_log ?src (log_queue s ?src @ [\<lparr>the_element = ?e, log_time = cur_time t\<rparr>]) s"
  from sp assms have run: "speculation_queue_insert cfg node ev s t = Inr (r, s', t')" by (simp add: send_event_def)
  consider (kept) "speculation s' = speculation s" "t' = t"
    | (straggler) "insert_straggler cfg ?e ?src ?d ?s1 t = Inr (s', t')"
    | (order) "insert_in_order cfg ?e ?d ?s1 t = Inr (s', t')"
    using run by (auto simp: speculation_queue_insert_def Let_def and_then_eq_Inr log_the_send_def
        add_speculative_def set_specqueue_def split: if_splits)
  then show ?thesis
  proof cases
    case kept
    then show ?thesis by (simp add: owners_kept_same)
  next
    case straggler
    from insert_straggler_own [OF straggler] show ?thesis by (simp add: owners_kept_def set_log_def)
  next
    case order
    from insert_in_order_own [OF order] show ?thesis by (simp add: owners_kept_def set_log_def)
  qed
qed

section \<open>The invariant of the system\<close>

definition holds :: "'m system \<Rightarrow> nat \<Rightarrow> nat \<Rightarrow> bool" where
  "holds S i d \<longleftrightarrow> working S i = Some d \<or> (pc_of S i = Look \<or> pc_of S i = Pop \<or> (\<exists>rt. pc_of S i = Roll rt)) \<and> unat (target (loc S i)) = d"

definition own_inv :: "config \<Rightarrow> 'm system \<Rightarrow> bool" where
  "own_inv cfg S \<longleftrightarrow>
     (\<forall>i < THREADS cfg. me (loc S i) = int i
        \<and> (working S i \<noteq> None \<longrightarrow> (\<exists>ev. pc_of S i = Returned (Some ev)))
        \<and> (\<forall>d. holds S i d \<longrightarrow> owned cfg (sh S) d (int i)))
     \<and> (\<exists>p. \<forall>i < THREADS cfg. stretch (pc_of S i) = p)"

lemma holds_stretch: "own_inv cfg S \<Longrightarrow> i < THREADS cfg \<Longrightarrow> holds S i d \<Longrightarrow> stretch (pc_of S i) = 0"
  by (auto simp: own_inv_def holds_def)

lemma own_inv_others:
  assumes "own_inv cfg S" and "j < THREADS cfg" and "i < THREADS cfg" and "j \<noteq> i" and "holds S j d"
    and "owners_kept X (sh S) s" and "\<And>d. d \<in> X \<Longrightarrow> owned cfg (sh S) d (int i)"
  shows "owned cfg s d (int j)"
proof -
  have own: "owned cfg (sh S) d (int j)" using assms(1,2,5) by (simp add: own_inv_def)
  with assms(4,7) have "d \<notin> X" by (auto simp: owned_def)
  show ?thesis by (rule owned_kept [OF own assms(6) \<open>d \<notin> X\<close>])
qed

lemma own_inv_thread:
  assumes inv: "own_inv cfg S" and sp: "SPECULATION cfg" and i: "i < THREADS cfg" and nb: "\<not> at_barrier (pc_of S i)"
    and x: "extract_exec cfg ck ro (pc_of S i) (sh S) (loc S i) (om S) = Inr (pc, s, t, m)"
  shows "own_inv cfg (S\<lparr>sh := s, om := m, pc_of := (pc_of S)(i := pc), loc := (loc S)(i := t),
          working := (working S)(i := took pc t)\<rparr>)" (is "own_inv cfg ?S")
proof -
  from inv obtain p where p: "\<forall>j < THREADS cfg. stretch (pc_of S j) = p" and me: "me (loc S i) = int i"
    using i by (auto simp: own_inv_def)
  have wi: "took pc t \<noteq> None \<longrightarrow> (\<exists>ev. pc = Returned (Some ev))"
    by (cases "(pc, t)" rule: took.cases) auto
  have held: "holds ?S i d \<longleftrightarrow> holding pc \<and> unat (target t) = d" for d
    by (cases "(pc, t)" rule: took.cases) (auto simp: holds_def elim: holding.elims)
  have others: "holds ?S j d \<longleftrightarrow> holds S j d" if "j \<noteq> i" for j d using that by (simp add: holds_def)
  show ?thesis
  proof (cases "pc_of S i = Flush")
    case True
    with x have pc: "pc = Wait_Flush" and met: "me t = me (loc S i)"
      using flush_me by (auto simp: and_then_eq_Inr)
    have "\<not> holds S j d" if "j < THREADS cfg" for j d
      using holds_stretch [OF inv that] p that i True by force
    then have "\<not> holds ?S j d" if "j < THREADS cfg" for j d using held others pc that by (cases "j = i") auto
    moreover have "\<forall>j < THREADS cfg. stretch (pc_of ?S j) = p" using p pc True i by force
    ultimately show ?thesis using inv met me wi by (auto simp: own_inv_def)
  next
    case False
    have own: "owned cfg (sh S) (unat (target (loc S i))) (me (loc S i))" if "holding (pc_of S i)"
    proof -
      have "holds S i (unat (target (loc S i)))" using that nb by (cases "pc_of S i") (auto simp: holds_def)
      then show ?thesis using inv i by (auto simp: own_inv_def)
    qed
    note f = exec_own [OF x sp nb False own]
    have "owned cfg s d (int j)" if j: "j < THREADS cfg" "j \<noteq> i" "holds S j d" for j d
    proof (rule own_inv_others [OF inv j(1) i j(2,3)])
      show "owners_kept (if holding (pc_of S i) then {unat (target (loc S i))} else {}) (sh S) s" using f by simp
    qed (use own me in \<open>auto split: if_splits\<close>)
    then have "owned cfg (sh ?S) d (int j)" if "j < THREADS cfg" "holds ?S j d" for j d
      using that held f me others by (cases "j = i") auto
    moreover have "\<forall>j < THREADS cfg. stretch (pc_of ?S j) = p" using p f i by simp
    ultimately show ?thesis using inv f me wi by (auto simp: own_inv_def)
  qed
qed

lemma own_inv_step:
  assumes "sys_step cfg ck ro S S'" and inv: "own_inv cfg S" and sp: "SPECULATION cfg"
  shows "own_inv cfg S'"
  using assms(1)
proof (cases rule: sys_stepE)
  case (thread i pc s t m)
  show ?thesis unfolding thread(1) by (rule own_inv_thread [OF inv sp thread(2-4)])
next
  case (send i ev node e r s t)
  note f = send_own [OF send(4)]
  have "holds S' j d \<longleftrightarrow> holds S j d" if "j < THREADS cfg" for j d using send by (auto simp: holds_def)
  moreover have "owned cfg s d w" if "owned cfg (sh S) d w" for d w
    using owned_kept [OF that] f by blast
  ultimately show ?thesis using inv f send by (auto simp: own_inv_def)
next
  case (get i ev)
  have "holds S' j d \<Longrightarrow> holds S j d" for j d using get by (auto simp: holds_def split: if_splits)
  moreover have "stretch (pc_of S' j) = stretch (pc_of S j)" for j using get by simp
  ultimately show ?thesis using inv get by (auto simp: own_inv_def)
next
  case (barrier pc l)
  have "working S i = None" if "i < THREADS cfg" for i
    using inv barrier(2,3) that by (fastforce simp: own_inv_def)
  then have "\<not> holds S' i d" "working S' i = None" if "i < THREADS cfg" for i d
    using that barrier by (auto simp: holds_def split: if_splits)
  moreover have "\<exists>p. \<forall>i < THREADS cfg. stretch (pc_of S' i) = p" using barrier by auto
  ultimately show ?thesis using inv barrier(1) by (simp add: own_inv_def)
qed

lemma own_inv_reachable: "sys_reachable cfg ck ro S \<Longrightarrow> SPECULATION cfg \<Longrightarrow> own_inv cfg S"
proof (induction rule: sys_reachable.induct)
  case (start S)
  then show ?case by (auto simp: own_inv_def sys_start_def holds_def)
qed (rule own_inv_step)

text \<open>
  Property C13. In every state the threads can reach, an object is worked on by one thread at a time:
  no object that one thread rolls back, looks at, extracts from or whose event it processes is at the
  same time in the hands of another.
\<close>

theorem object_exclusive:
  assumes "sys_reachable cfg set_ckpt restore_object S" and "SPECULATION cfg"
    and "i < THREADS cfg" and "j < THREADS cfg" and "holds S i d" and "holds S j d"
  shows "i = j"
proof -
  have "owned cfg (sh S) d (int i)" "owned cfg (sh S) d (int j)"
    using own_inv_reachable [OF assms(1,2)] assms(3-6) by (auto simp: own_inv_def)
  then show ?thesis by (simp add: owned_def)
qed

section \<open>What an extraction does\<close>

lemma pop_step_Returned:
  assumes "pop_step cfg s t = Inr (Returned (Some ev), s', t')"
  obtains rest where "queue s (unat (target t)) (my_index t) = ev # rest" and "t' = t"
    and "s' = pop_head cfg (unat (target t)) ev rest s t"
    and "SPECULATION cfg \<Longrightarrow> \<not> standing_rollback (speculation s (unat (target t)))"
proof (cases "SPECULATION cfg \<and> standing_rollback (speculation s (unat (target t)))")
  case False
  show thesis
  proof (cases "queue s (unat (target t)) (my_index t)")
    case Nil
    with False assms show thesis
      by (auto simp: pop_step_def pop_empty_def Let_def split: if_splits prod.splits)
  next
    case (Cons x rest)
    with False assms show thesis by (intro that) (auto simp: pop_step_def)
  qed
qed (use assms in \<open>simp add: pop_step_def\<close>)

text \<open>
  Property C14. An extraction under speculation returns an event of minimal timestamp of the slot, never
  one in the past of the object; the event moves to the end of the retractable queue, the object's time
  becomes its timestamp, and every event still queued stays covered.
\<close>

theorem pop_step_correct:
  assumes "pop_step cfg s t = Inr (Returned (Some ev), s', t')" and "SPECULATION cfg"
    and "queue_wf cfg s" and "causal cfg s" and "horizon cfg s" and "clock_at cfg k s" and "0 < LOOKAHEAD cfg"
    and "\<forall>ev \<in># queued cfg s. exact_slot cfg (ev_time ev)"
    and "my_index t = current_index s" and "unat (target t) < OBJECTS cfg"
  defines "d \<equiv> unat (target t)"
  shows "current_time (speculation s d) \<le> ev_time ev \<and> (\<forall>x \<in> set (queue s d (my_index t)). ev_time ev \<le> ev_time x)
    \<and> queued cfg s = add_mset ev (queued cfg s') \<and> queue_wf cfg s' \<and> causal cfg s'
    \<and> retractable_queue s' = (retractable_queue s)(d := retractable_queue s d @ [ev])
    \<and> current_time (speculation s' d) = ev_time ev"
  using assms(1)
proof (rule pop_step_Returned)
  fix rest
  assume q: "queue s (unat (target t)) (my_index t) = ev # rest"
    and s': "s' = pop_head cfg (unat (target t)) ev rest s t"
    and "SPECULATION cfg \<Longrightarrow> \<not> standing_rollback (speculation s (unat (target t)))" and "t' = t"
  then have no: "\<not> standing_rollback (speculation s d)" using assms(2) by (simp add: d_def)
  have dN: "d < OBJECTS cfg" using assms(10) by (simp add: d_def)
  have iN: "my_index t < NUM_SLOTS" using assms(6,9) by (simp add: clock_at_def)
  have qd: "queue s d (my_index t) = ev # rest" using q by (simp add: d_def)
  have sorted: "sorted_by ev_time (ev # rest)" and dest: "\<forall>x \<in> set (ev # rest). ev_dest x = int d"
    using queue_wfD(1,2) [OF assms(3) dN iN] unfolding qd by auto
  have queue': "queue s' = queue (set_slot d (my_index t) rest s)"
    using s' assms(2) by (simp add: pop_head_def d_def shared_defs retractable_queue_insert_locked_def)
  have spec': "speculation s' = (speculation s)(d := (speculation s d)\<lparr>current_time := ev_time ev\<rparr>)"
    and ret': "retractable_queue s' = (retractable_queue s)(d := retractable_queue s d @ [ev])"
    using s' assms(2) by (simp_all add: pop_head_def d_def shared_defs retractable_queue_insert_locked_def)
  have "queued cfg s' + mset (ev # rest) = queued cfg s + mset rest"
    using queued_set_slot [OF dN iN, of rest s] queued_cong [OF queue'] qd by simp
  then have queued: "queued cfg s = add_mset ev (queued cfg s')" by simp
  have "ev \<in># queued cfg s" using dN iN qd by (force simp: in_queued)
  with assms(4) have "covered (speculation s d) (ev_time ev)" using dest by (auto simp: causal_def)
  with no have time: "current_time (speculation s d) \<le> ev_time ev" by (simp add: covered_def)
  have "sorted_by ev_time (queue s' j i) \<and>
      (\<forall>x \<in> set (queue s' j i). ev_dest x = int j \<and> slot_index cfg (ev_time x) = Inr (int i))"
    if ji: "j < OBJECTS cfg" "i < NUM_SLOTS" for j i
    unfolding queue' using queue_wfD [OF assms(3) ji] qd by (auto simp: set_slot_def)
  then have wf: "queue_wf cfg s'" by (simp add: queue_wf_def)
  have late: "ev_time ev \<le> ev_time x" if "x \<in># queued cfg s'" "nat (ev_dest x) = d" for x
  proof -
    from that(1) obtain j i where ji: "j < OBJECTS cfg" "i < NUM_SLOTS" "x \<in> set (queue s' j i)"
      by (auto simp: in_queued)
    with queue_wfD(2) [OF wf ji(1,2)] that(2) have "j = d" by auto
    show ?thesis
    proof (cases "i = my_index t")
      case True
      with ji(3) \<open>j = d\<close> sorted show ?thesis unfolding queue' by (simp add: set_slot_def)
    next
      case False
      with ji(3) \<open>j = d\<close> have x: "x \<in> set (queue s d i)" unfolding queue' by (simp add: set_slot_def)
      have "x \<in># queued cfg s" using dN ji(2) x by (auto simp: in_queued)
      then have "real (k + 1) * LOOKAHEAD cfg \<le> ev_time x"
        using slot_of_event [OF assms(3,5,6,7) dN ji(2) x] assms(8,9) False by auto
      moreover have "ev_time ev < real (k + 1) * LOOKAHEAD cfg"
        using slot_of_event [OF assms(3,5,6,7) dN iN] qd assms(8,9) \<open>ev \<in># queued cfg s\<close> by auto
      ultimately show ?thesis by linarith
    qed
  qed
  have "causal cfg s'"
    using late assms(4) queued spec' unfolding causal_def by (auto simp: covered_def)
  then show ?thesis using time sorted qd queued wf ret' spec' by auto
qed

lemma acquire_rollback_Inr:
  assumes "acquire cfg set_ckpt d s t m = Inr (Some rt, s', m')"
  obtains s2 where "queue s2 = queue s" and "current_min_limit s2 = current_min_limit s"
    and "standing_rollback (speculation s2 d) = standing_rollback (speculation s d)"
    and "causality_violation_time (speculation s2 d) = causality_violation_time (speculation s d)"
    and "current_time (speculation s2 d) = current_time (speculation s d)"
    and "\<And>j. j \<noteq> d \<Longrightarrow> speculation s2 j = speculation s j"
    and "s' = (if standing_rollback (speculation s2 d) then
        (upd_status d (\<lambda>st. st\<lparr>standing_rollback := False, current_time := current_min_limit s2\<rparr>) s2)
          \<lparr>filter_message := (filter_message s2)(d := dsub cfg (causality_violation_time (speculation s2 d)) epsilon)\<rparr>
      else s2)"
    and "rt = (if standing_rollback (speculation s2 d) then causality_violation_time (speculation s2 d) else 0)"
proof -
  let ?s1 = "if the_state (speculation s d) = FREE then upd_status d (take_object (me t)) s else s"
  from assms obtain s1 m1 where s1: "s1 = ?s1 \<or> s1 = upd_status d (checkpointed_update (\<lambda>_. True)) ?s1"
    and r: "(let s3 = upd_status d (already_taken_update (\<lambda>_. True)) s1;
                violation = causality_violation_time (speculation s3 d) in
            if standing_rollback (speculation s3 d) then
              (Some violation,
                   (upd_status d (\<lambda>st. st\<lparr>standing_rollback := False, current_time := current_min_limit s3\<rparr>) s3)
                     \<lparr>filter_message := (filter_message s3)(d := dsub cfg violation epsilon)\<rparr>)
            else (Some 0, s3)) = (Some rt, s')"
    by (fastforce simp: acquire_def Let_def and_then_eq_Inr split: if_splits)
  let ?s3 = "upd_status d (already_taken_update (\<lambda>_. True)) s1"
  show thesis
  proof (rule that [of ?s3])
    show "queue ?s3 = queue s" "current_min_limit ?s3 = current_min_limit s"
      "standing_rollback (speculation ?s3 d) = standing_rollback (speculation s d)"
      "causality_violation_time (speculation ?s3 d) = causality_violation_time (speculation s d)"
      "current_time (speculation ?s3 d) = current_time (speculation s d)"
      "j \<noteq> d \<Longrightarrow> speculation ?s3 j = speculation s j" for j
      using s1 by (auto simp: upd_status_def take_object_def split: if_splits)
  qed (use r in \<open>auto simp: Let_def split: if_splits\<close>)
qed

text \<open>
  Taking an object whose rollback stands hands its violation time to the rollback, sets the
  object back to the start of the epoch, mutes what it sends before the violation, and keeps every queued
  event covered as long as no event is older than the epoch.
\<close>

theorem acquire_correct:
  assumes "acquire cfg set_ckpt d s t m = Inr (Some rt, s', m')"
    and "causal cfg s" and "\<forall>ev \<in># queued cfg s. current_min_limit s \<le> ev_time ev"
  shows "causal cfg s' \<and> \<not> standing_rollback (speculation s' d) \<and> queue s' = queue s
    \<and> rt = (if standing_rollback (speculation s d) then causality_violation_time (speculation s d) else 0)
    \<and> (standing_rollback (speculation s d) \<longrightarrow> current_time (speculation s' d) = current_min_limit s
        \<and> filter_message s' d = dsub cfg (causality_violation_time (speculation s d)) epsilon)"
  using assms(1)
proof (rule acquire_rollback_Inr)
  fix s2
  assume f: "queue s2 = queue s" "current_min_limit s2 = current_min_limit s"
    "standing_rollback (speculation s2 d) = standing_rollback (speculation s d)"
    "causality_violation_time (speculation s2 d) = causality_violation_time (speculation s d)"
    "current_time (speculation s2 d) = current_time (speculation s d)"
    "\<And>j. j \<noteq> d \<Longrightarrow> speculation s2 j = speculation s j"
    and s': "s' = (if standing_rollback (speculation s2 d) then
        (upd_status d (\<lambda>st. st\<lparr>standing_rollback := False, current_time := current_min_limit s2\<rparr>) s2)
          \<lparr>filter_message := (filter_message s2)(d := dsub cfg (causality_violation_time (speculation s2 d)) epsilon)\<rparr>
      else s2)"
    and rt: "rt = (if standing_rollback (speculation s2 d) then causality_violation_time (speculation s2 d) else 0)"
  have q: "queue s' = queue s" using s' f(1) by (simp add: upd_status_def)
  have "covered (speculation s' (nat (ev_dest ev))) (ev_time ev)" if ev: "ev \<in># queued cfg s" for ev
  proof (cases "nat (ev_dest ev) = d")
    case True
    with ev assms(2,3) have "covered (speculation s d) (ev_time ev)" "current_min_limit s \<le> ev_time ev"
      by (auto simp: causal_def)
    then show ?thesis using s' f(2-5) True by (auto simp: covered_def upd_status_def)
  next
    case False
    with ev assms(2) f(6) show ?thesis using s' by (auto simp: causal_def upd_status_def)
  qed
  then have "causal cfg s'" using queued_cong [OF q] by (simp add: causal_def)
  with q s' rt f(2-4) show ?thesis by (auto simp: upd_status_def)
qed

section \<open>A concrete system\<close>

definition spec_cfg :: config where
  "spec_cfg = demo_cfg\<lparr>SPECULATION := True\<rparr>"

lemma spec_cfg_simps [simp]:
  "THREADS spec_cfg = 2" "OBJECTS spec_cfg = 4" "LOOKAHEAD spec_cfg = 1" "SPECULATION spec_cfg = True"
  "AVOID_THROTTLING spec_cfg = False" "rnd spec_cfg = round20"
  by (simp_all add: spec_cfg_def)

lemma spec_cfg_queue [simp]:
  "queue_wf spec_cfg = queue_wf demo_cfg" "queued spec_cfg = queued demo_cfg" "clock_at spec_cfg = clock_at demo_cfg"
  "horizon spec_cfg = horizon demo_cfg" "exact_slot spec_cfg = exact_slot demo_cfg" "causal spec_cfg = causal demo_cfg"
  by (simp_all add: fun_eq_iff queue_wf_def queued_def clock_at_def horizon_def exact_slot_def causal_def
      slot_index_def ddiv_def)

definition run_thread :: "config \<Rightarrow> nat \<Rightarrow> unit system \<Rightarrow> unit system" where
  "run_thread cfg i S =
     (if at_barrier (pc_of S i) then S
      else case extract_exec cfg (\<lambda>d m. Inr m) (\<lambda>d m. Inr m) (pc_of S i) (sh S) (loc S i) (om S) of
             Inl x \<Rightarrow> S
           | Inr (pc, s, t, m) \<Rightarrow>
               S\<lparr>sh := s, om := m, pc_of := (pc_of S)(i := pc), loc := (loc S)(i := t),
                 working := (working S)(i := took pc t)\<rparr>)"

lemma run_thread_reachable:
  assumes "sys_reachable cfg (\<lambda>d m. Inr m) (\<lambda>d m. Inr m) S" and "i < THREADS cfg"
  shows "sys_reachable cfg (\<lambda>d m. Inr m) (\<lambda>d m. Inr m) (run_thread cfg i S)"
proof (cases "at_barrier (pc_of S i)")
  case False
  show ?thesis
  proof (cases "extract_exec cfg (\<lambda>d m. Inr m) (\<lambda>d m. Inr m) (pc_of S i) (sh S) (loc S i) (om S)")
    case (Inr r)
    obtain pc s t m where r: "r = (pc, s, t, m)" by (metis prod_cases4)
    from sys_step.thread [OF assms(2) False Inr [unfolded r]] assms(1) False Inr r show ?thesis
      by (auto simp: run_thread_def intro: sys_reachable.step)
  qed (use False assms(1) in \<open>simp add: run_thread_def\<close>)
qed (use assms(1) in \<open>simp add: run_thread_def\<close>)

text \<open>Two workers on one NUMA node with four objects; the first takes object 0.\<close>

definition demo_tls :: "nat \<Rightarrow> tls" where
  "demo_tls i = initial_tls\<lparr>me := int i, TOT_NUMA_NODES := 1, numa_c := (\<lambda>_. 4)\<rparr>"

definition demo_boot :: "unit system" where
  "demo_boot = \<lparr>sh = demo_epoch, om = (), pc_of = (\<lambda>_. Entry), loc = demo_tls, working = (\<lambda>_. None)\<rparr>"

definition demo_system :: "unit system" where
  "demo_system = run_thread spec_cfg 0 (run_thread spec_cfg 0 (run_thread spec_cfg 0 (run_thread spec_cfg 0 demo_boot)))"

lemma demo_system_reachable: "sys_reachable spec_cfg (\<lambda>d m. Inr m) (\<lambda>d m. Inr m) demo_system"
proof -
  have "sys_start spec_cfg demo_boot" by (simp add: sys_start_def demo_boot_def demo_tls_def)
  then show ?thesis unfolding demo_system_def by (intro run_thread_reachable sys_reachable.start) simp_all
qed

lemma demo_tls_simps [simp]:
  "target (demo_tls i) = -1" "object_stack (demo_tls i) = []" "myNUMAindex (demo_tls i) = 0"
  "numa_c (demo_tls i) k = 4" "numa_min (demo_tls i) k = 0" "me (demo_tls i) = int i"
  by (simp_all add: demo_tls_def initial_tls_def)

lemma demo_system_at: "pc_of demo_system 0 = Roll 0 \<and> target (loc demo_system 0) = 0"
proof -
  let ?v = "demo_epoch\<lparr>object_identifiers_vector := (object_identifiers_vector demo_epoch)(0 := 1)\<rparr>"
  have vec: "object_identifiers_vector demo_epoch 0 = 0" and no_end: "\<not> end_flag demo_epoch"
    by (simp_all add: demo_epoch_def shared_defs demo_start_def initial_shared_def)
  have 1: "run_thread spec_cfg 0 demo_boot = demo_boot\<lparr>pc_of := (\<lambda>_. Entry)(0 := Start)\<rparr>"
    by (simp add: run_thread_def demo_boot_def get_from_stack_def)
  have 2: "run_thread spec_cfg 0 (demo_boot\<lparr>pc_of := (\<lambda>_. Entry)(0 := Start)\<rparr>)
      = demo_boot\<lparr>pc_of := (\<lambda>_. Entry)(0 := Retry)\<rparr>"
    by (simp add: run_thread_def demo_boot_def)
  have 3: "run_thread spec_cfg 0 (demo_boot\<lparr>pc_of := (\<lambda>_. Entry)(0 := Retry)\<rparr>)
      = demo_boot\<lparr>sh := ?v, pc_of := (\<lambda>_. Entry)(0 := Redo), loc := demo_tls(0 := (demo_tls 0)\<lparr>target := 0\<rparr>)\<rparr>"
    by (simp add: run_thread_def demo_boot_def retry_step_def fetch_target_def node_exhausted_def
        node_object_def Let_def vec)
  obtain s where a: "acquire spec_cfg (\<lambda>d m. Inr m) 0 ?v ((demo_tls 0)\<lparr>target := 0\<rparr>) () = Inr (Some 0, s, ())"
    by (simp add: acquire_def Let_def upd_status_def take_object_def)
  have "pc_of (run_thread spec_cfg 0 (demo_boot\<lparr>sh := ?v, pc_of := (\<lambda>_. Entry)(0 := Redo),
          loc := demo_tls(0 := (demo_tls 0)\<lparr>target := 0\<rparr>)\<rparr>)) 0 = Roll 0
      \<and> target (loc (run_thread spec_cfg 0 (demo_boot\<lparr>sh := ?v, pc_of := (\<lambda>_. Entry)(0 := Redo),
          loc := demo_tls(0 := (demo_tls 0)\<lparr>target := 0\<rparr>)\<rparr>)) 0) = 0"
    using a no_end by (simp add: run_thread_def demo_boot_def redo_step_def)
  then show ?thesis unfolding demo_system_def 1 2 3 .
qed

theorem object_exclusive_witness: "\<not> holds demo_system 1 0"
proof -
  have "holds demo_system 0 0" using demo_system_at by (simp add: holds_def)
  then show ?thesis
    using object_exclusive [OF demo_system_reachable, of 0 1 0] by auto
qed

text \<open>The slot of object 1 is popped by a worker whose target it is.\<close>

definition demo_popper :: tls where
  "demo_popper = (demo_tls 0)\<lparr>target := 1\<rparr>"

lemma demo_epoch_clock: "clock_at demo_cfg 0 demo_epoch" "current_index demo_epoch = 0"
  by (simp_all add: clock_at_def NUM_SLOTS_def demo_epoch_def shared_defs demo_start_def initial_shared_def dmul_def)

lemma demo_epoch_queued: "ev \<in># queued demo_cfg demo_epoch \<longleftrightarrow> ev = demo_sent"
  by (auto simp: in_queued)

lemma demo_pop:
  "pop_step spec_cfg demo_epoch demo_popper =
     Inr (Returned (Some demo_sent), pop_head spec_cfg 1 demo_sent [] demo_epoch demo_popper, demo_popper)"
  by (simp add: pop_step_def demo_popper_def demo_tls_def initial_tls_def)

theorem pop_step_correct_witness:
  "current_time (speculation (pop_head spec_cfg 1 demo_sent [] demo_epoch demo_popper) 1) = 3 / 4
   \<and> causal demo_cfg (pop_head spec_cfg 1 demo_sent [] demo_epoch demo_popper)"
proof -
  have "target demo_popper = 1" "my_index demo_popper = 0"
    by (simp_all add: demo_popper_def demo_tls_def initial_tls_def)
  then show ?thesis
    using pop_step_correct [OF demo_pop, of 0] demo_epoch_clock demo_epoch_wf demo_epoch_causal
    by (simp add: horizon_def demo_epoch_queued exact_slot_def)
qed

definition demo_hit :: shared where
  "demo_hit = upd_status 1 (raise_violation (1 / 4)) demo_epoch"

lemma demo_hit_acquire:
  "\<exists>s'. acquire spec_cfg (\<lambda>d m. Inr m) 1 demo_hit demo_popper () = Inr (Some (1 / 4), s', ())"
  by (simp add: acquire_def demo_hit_def Let_def upd_status_def take_object_def raise_violation_def)

theorem acquire_correct_witness:
  "\<exists>s'. acquire spec_cfg (\<lambda>d m. Inr m) 1 demo_hit demo_popper () = Inr (Some (1 / 4), s', ())
     \<and> causal demo_cfg s' \<and> \<not> standing_rollback (speculation s' 1)"
proof -
  obtain s' where a: "acquire spec_cfg (\<lambda>d m. Inr m) 1 demo_hit demo_popper () = Inr (Some (1 / 4), s', ())"
    using demo_hit_acquire by blast
  have step: "status_step demo_epoch demo_hit" unfolding demo_hit_def by (rule status_step_upd) simp
  have q: "queued demo_cfg demo_hit = queued demo_cfg demo_epoch"
    by (rule queued_cong) (simp add: status_step_fields [OF step])
  have "causal spec_cfg demo_hit" using status_step_causal [OF step demo_epoch_causal] by simp
  moreover have "\<forall>ev \<in># queued spec_cfg demo_hit. current_min_limit demo_hit \<le> ev_time ev"
    using status_step_fields(5) [OF step] by (simp add: q demo_epoch_queued)
  ultimately show ?thesis using acquire_correct [OF a] a by auto
qed

end
