(* ===== verification/Stubs.thy ===== *)
theory Stubs
  imports Extract
begin

text \<open>
  The interface the simulation models call: \<open>ScheduleNewEvent\<close> and \<open>GetEvent\<close> of \<open>stubs/stubs.c\<close>, and the
  random numbers of \<open>random/random.c\<close>. The result of \<open>malloc\<close> is an argument: \<open>None\<close> for a null
  pointer, or the address of the new event.
\<close>

section \<open>Random numbers\<close>

text \<open>\<open>Random\<close> updates two 32-bit seeds by multiplication with carry and returns a double.\<close>

definition next_seed :: "32 word \<Rightarrow> 32 word \<Rightarrow> 32 word" where
  "next_seed k s = k * (s AND 0xFFFF) + drop_bit 16 s"

definition Random :: "config \<Rightarrow> 32 word \<Rightarrow> 32 word \<Rightarrow> real \<times> 32 word \<times> 32 word" where
  "Random cfg seed1 seed2 =
     (let s1 = next_seed 36969 seed1;
          s2 = next_seed 18000 seed2;
          u = push_bit 16 s1 + drop_bit 16 s1 + s2
      in (dmul cfg (dadd cfg (real (unat u)) 1) epsilon, s1, s2))"

definition Expent :: "config \<Rightarrow> real \<Rightarrow> 32 word \<Rightarrow> 32 word \<Rightarrow> (real \<times> 32 word \<times> 32 word) outcome" where
  "Expent cfg mean seed1 seed2 =
     (if mean < 0 then Inl Exit_Failure
      else let (r, s1, s2) = Random cfg seed1 seed2 in
        Inr (dmul cfg mean (ddiv cfg 1 (dmul cfg 3 (dsub cfg (rnd cfg (101 / 100)) r))), s1, s2))"

text \<open>The arithmetic of a double: relative error below \<open>2^-52\<close>, and the sign is kept.\<close>

definition close_rounding :: "config \<Rightarrow> bool" where
  "close_rounding cfg \<longleftrightarrow> (\<forall>x \<ge> 0. \<bar>rnd cfg x - x\<bar> \<le> x / 2 ^ 52)"

lemma close_rounding_bounds:
  assumes "close_rounding cfg" and "0 \<le> x"
  shows "x * (1 - 1 / 2 ^ 52) \<le> rnd cfg x" and "rnd cfg x \<le> x * (1 + 1 / 2 ^ 52)"
proof -
  have "\<bar>rnd cfg x - x\<bar> \<le> x / 2 ^ 52" using assms unfolding close_rounding_def by blast
  then have "x - x / 2 ^ 52 \<le> rnd cfg x" "rnd cfg x \<le> x + x / 2 ^ 52" by linarith+
  then show "x * (1 - 1 / 2 ^ 52) \<le> rnd cfg x" "rnd cfg x \<le> x * (1 + 1 / 2 ^ 52)"
    by (simp_all add: right_diff_distrib distrib_left)
qed

lemma random_upper:
  assumes r: "close_rounding cfg"
  shows "0 < fst (Random cfg s1 s2) \<and> fst (Random cfg s1 s2) \<le> 1 - 1 / 2 ^ 32"
proof -
  define u where "u = real (unat (push_bit 16 (next_seed 36969 s1) + drop_bit 16 (next_seed 36969 s1) + next_seed 18000 s2))"
  have "real (unat w) \<le> 2 ^ 32 - 1" for w :: "32 word"
  proof -
    have "unat w < 2 ^ 32" using unsigned_less [of w] by simp
    then have "real (unat w + 1) \<le> real (2 ^ 32)" by (intro of_nat_mono) simp
    then show ?thesis by simp
  qed
  then have u: "0 \<le> u" "u \<le> 2 ^ 32 - 1" by (simp_all only: u_def of_nat_0_le_iff)
  let ?v = "rnd cfg (u + 1)"
  have v: "(u + 1) * (1 - 1 / 2 ^ 52) \<le> ?v" "?v \<le> (u + 1) * (1 + 1 / 2 ^ 52)"
    using close_rounding_bounds [OF r, of "u + 1"] u by simp_all
  have "0 < (u + 1) * (1 - 1 / 2 ^ 52)" using u by (intro mult_pos_pos) simp_all
  then have vpos: "0 < ?v" using v(1) by linarith
  have "(u + 1) * (1 + 1 / 2 ^ 52) \<le> 2 ^ 32 * (1 + 1 / 2 ^ 52)" using u by (intro mult_right_mono) simp_all
  then have vmax: "?v \<le> 2 ^ 32 * (1 + 1 / 2 ^ 52)" using v(2) by linarith
  let ?w = "?v * epsilon"
  have wpos: "0 < ?w" using vpos epsilon_pos by simp
  have wmax: "?w \<le> 2 ^ 32 * (1 + 1 / 2 ^ 52) * epsilon" using vmax epsilon_pos by (intro mult_right_mono) simp_all
  have f: "fst (Random cfg s1 s2) = rnd cfg ?w"
    by (simp add: Random_def Let_def dmul_def dadd_def u_def)
  have "?w * (1 - 1 / 2 ^ 52) \<le> rnd cfg ?w" "rnd cfg ?w \<le> ?w * (1 + 1 / 2 ^ 52)"
    using close_rounding_bounds [OF r, of ?w] wpos by simp_all
  moreover have "0 < ?w * (1 - 1 / 2 ^ 52)" by (rule mult_pos_pos [OF wpos]) simp
  moreover have "?w * (1 + 1 / 2 ^ 52) \<le> 2 ^ 32 * (1 + 1 / 2 ^ 52) * epsilon * (1 + 1 / 2 ^ 52)"
    by (rule mult_right_mono [OF wmax]) simp
  moreover have "2 ^ 32 * (1 + 1 / 2 ^ 52) * epsilon * (1 + 1 / 2 ^ 52) \<le> 1 - 1 / (2 ^ 32 :: real)"
    by (simp add: epsilon_def)
  ultimately show ?thesis unfolding f by linarith
qed

lemma random_range:
  assumes r: "close_rounding cfg"
  shows "0 < fst (Random cfg s1 s2) \<and> fst (Random cfg s1 s2) < 1"
proof -
  have "1 - 1 / 2 ^ 32 < (1 :: real)" by simp
  then show ?thesis using random_upper [OF r, of s1 s2] by linarith
qed

text \<open>
  On every pair of seeds \<open>Random\<close> returns a double strictly between 0 and 1, rounding of
  the two floating point operations included.
\<close>

theorem Random_in_unit_interval:
  assumes "close_rounding cfg"
  shows "0 < fst (Random cfg s1 s2) \<and> fst (Random cfg s1 s2) < 1"
  by (rule random_range [OF assms])

text \<open>
  \<open>Expent\<close> stops the program exactly on a negative mean; otherwise its result lies, up to
  rounding, between a quarter of the mean and 35 times the mean: it never returns a delay of zero for a
  positive mean and its tail is bounded.
\<close>

theorem Expent_bounds:
  assumes "close_rounding cfg" and "0 \<le> mean"
  shows "\<exists>x s1' s2'. Expent cfg mean s1 s2 = Inr (x, s1', s2') \<and> mean / 4 \<le> x \<and> x \<le> 35 * mean"
proof -
  obtain r t1 t2 where R: "Random cfg s1 s2 = (r, t1, t2)" by (metis prod_cases3)
  with random_range [OF assms(1), of s1 s2] have r: "0 < r" "r < 1" by simp_all
  let ?k = "1 - 1 / (2::real) ^ 52" and ?l = "1 + 1 / (2::real) ^ 52"
  note c = close_rounding_bounds [OF assms(1)]
  define a where "a = rnd cfg (101 / 100)"
  have a: "101 / 100 * ?k \<le> a" "a \<le> 101 / 100 * ?l" using c [of "101 / 100"] by (simp_all add: a_def)
  have ar: "0 \<le> a - r" "a - r \<le> 102 / 100" "99 / 10000 \<le> a - r" using a r by simp_all
  define b where "b = rnd cfg (a - r)"
  have b: "(a - r) * ?k \<le> b" "b \<le> (a - r) * ?l" using c [OF ar(1)] by (simp_all add: b_def)
  have b': "98 / 10000 \<le> b" "b \<le> 103 / 100" using b ar by simp_all
  define d where "d = rnd cfg (3 * b)"
  have d: "3 * b * ?k \<le> d" "d \<le> 3 * b * ?l" using c [of "3 * b"] b' by (simp_all add: d_def)
  have d': "294 / 10001 \<le> d" "d \<le> 31 / 10" using d b' by simp_all
  define e where "e = rnd cfg (1 / d)"
  have inv: "1 / d \<le> 10001 / 294" "10 / 31 \<le> 1 / d" using d' by (simp_all add: field_simps)
  have e: "1 / d * ?k \<le> e" "e \<le> 1 / d * ?l" using c [of "1 / d"] d' by (simp_all add: e_def)
  have e': "e \<le> 3402 / 100" "32 / 100 \<le> e" using e inv by simp_all
  define x where "x = rnd cfg (mean * e)"
  have x: "mean * e * ?k \<le> x" "x \<le> mean * e * ?l" using c [of "mean * e"] assms(2) e' by (simp_all add: x_def)
  have res: "Expent cfg mean s1 s2 = Inr (x, t1, t2)"
    using assms(2) R by (simp add: Expent_def x_def e_def d_def b_def a_def dmul_def ddiv_def dsub_def)
  have "mean * (32 / 100) \<le> mean * e" "mean * e \<le> mean * (3402 / 100)"
    using e' assms(2) by (intro mult_left_mono; simp)+
  then have "mean / 4 \<le> x \<and> x \<le> 35 * mean" using x assms(2) by simp
  with res show ?thesis by blast
qed

section \<open>Scheduling and getting events\<close>

text \<open>
  The event \<open>ScheduleNewEvent\<close> builds at address \<open>a\<close>. The send time is not set here (the speculation
  queue sets it), and the payload array is set up to \<open>size\<close>; neither is read before it is set.
\<close>

definition new_event :: "nat \<Rightarrow> int \<Rightarrow> real \<Rightarrow> int \<Rightarrow> byte list \<Rightarrow> int \<Rightarrow> event" where
  "new_event a dst ts type body sz =
     \<lparr>ev_addr = a,
      ev_e = \<lparr>destination = dst, timestamp = ts, send_time = 0, event_type = type,
              payload = take (nat sz) body, event_size = sz\<rparr>,
      ev_q = \<lparr>q_destination = dst, q_timestamp = ts, q_send_time = 0\<rparr>\<rparr>"

lemma new_event_simps [simp]:
  "ev_time (new_event a dst ts type body sz) = ts" "ev_dest (new_event a dst ts type body sz) = dst"
  by (simp_all add: new_event_def)

text \<open>\<open>body\<close> is \<open>None\<close> for a null pointer; copying from an array shorter than \<open>size\<close> is undefined.\<close>

definition ScheduleNewEvent ::
  "config \<Rightarrow> nat option \<Rightarrow> bool \<Rightarrow> int \<Rightarrow> real \<Rightarrow> int \<Rightarrow> byte list option \<Rightarrow> int \<Rightarrow> shared \<Rightarrow> tls
   \<Rightarrow> (int \<times> shared \<times> tls) outcome" where
  "ScheduleNewEvent cfg p node dst ts type body sz s t =
     (if sz > MAX_EVENT_SIZE then Inr (-1, s, t)
      else if sz < 0 then Inr (-1, s, t)
      else if sz > 0 \<and> body = None then Inr (-1, s, t)
      else if SPECULATION cfg \<and> \<not> valid_object cfg (current t) then Inl Undefined
      else if SPECULATION cfg \<and> filter_message s (nat (current t)) \<ge> cur_time t then Inr (0, s, t)
      else case p of
        None \<Rightarrow> Inr (-1, s, t)
      | Some a \<Rightarrow>
          let bytes = (case body of None \<Rightarrow> [] | Some b \<Rightarrow> b); ev = new_event a dst ts type bytes sz in
          if length bytes < nat sz then Inl Undefined
          else if SPECULATION cfg then
            (if cur_time t = STARTUP_TIME then queue_insert cfg ev s t
             else speculation_queue_insert cfg node ev s t)
          else queue_insert cfg ev s t)"

text \<open>What \<open>GetEvent\<close> writes through its pointers, and its result.\<close>

record got_event =
  got_destination :: int
  got_timestamp :: real
  got_type :: int
  got_body :: "byte list"
  got_size :: int

definition GetEvent :: "event option \<Rightarrow> int \<times> got_event option" where
  "GetEvent q =
     (case q of
        None \<Rightarrow> (-1, None)
      | Some ev \<Rightarrow> (0, Some \<lparr>got_destination = destination (ev_e ev), got_timestamp = timestamp (ev_e ev),
          got_type = event_type (ev_e ev), got_body = take (nat (event_size (ev_e ev))) (payload (ev_e ev)),
          got_size = event_size (ev_e ev)\<rparr>))"

text \<open>
  Replaying is silent: while an object is at or before the time its filter stands at, its
  sends with a legal body return 0 and change nothing, whatever the memory allocator does.
\<close>

theorem coasting_forward_is_silent:
  assumes "SPECULATION cfg" and "valid_object cfg (current t)" and "cur_time t \<le> filter_message s (nat (current t))"
    and "0 \<le> sz" and "sz \<le> MAX_EVENT_SIZE" and "sz > 0 \<longrightarrow> body \<noteq> None"
  shows "ScheduleNewEvent cfg p node dst ts type body sz s t = Inr (0, s, t)"
  using assms by (auto simp: ScheduleNewEvent_def)

lemma schedule_inserts:
  assumes "ScheduleNewEvent cfg (Some a) node dst ts type (Some body) sz s t = Inr (0, s', t')"
    and "\<not> SPECULATION cfg \<or> cur_time t = STARTUP_TIME \<and> filter_message s (nat (current t)) < cur_time t"
  shows "queue_insert cfg (new_event a dst ts type body sz) s t = Inr (0, s', t')
    \<and> 0 \<le> sz \<and> nat sz \<le> length body"
  using assms by (auto simp: ScheduleNewEvent_def Let_def split: if_splits)

text \<open>
  Property C36. What is scheduled comes out again: a committed event (any event of the conservative
  build, an event of the start-up in the speculative one) is queued once, and getting it yields the
  destination, timestamp, type, size and body it was scheduled with.
\<close>

theorem schedule_get_roundtrip:
  assumes "ScheduleNewEvent cfg (Some a) node dst ts type (Some body) sz s t = Inr (0, s', t')"
    and "\<not> SPECULATION cfg \<or> cur_time t = STARTUP_TIME \<and> filter_message s (nat (current t)) < cur_time t"
    and "queue_wf cfg s"
  shows "\<exists>ev. queued cfg s' + mset (fallback_queue t') = add_mset ev (queued cfg s + mset (fallback_queue t))
    \<and> queue_wf cfg s' \<and> ev_addr ev = a
    \<and> GetEvent (Some ev) = (0, Some \<lparr>got_destination = dst, got_timestamp = ts, got_type = type,
          got_body = take (nat sz) body, got_size = sz\<rparr>)"
proof -
  let ?ev = "new_event a dst ts type body sz"
  from schedule_inserts [OF assms(1,2)] have q: "queue_insert cfg ?ev s t = Inr (0, s', t')" and "nat sz \<le> length body"
    by simp_all
  from queue_insert_correct_lemma [OF q assms(3)]
  have "queued cfg s' + mset (fallback_queue t') = add_mset ?ev (queued cfg s + mset (fallback_queue t)) \<and> queue_wf cfg s'"
    by (auto split: if_splits)
  moreover have "GetEvent (Some ?ev) = (0, Some \<lparr>got_destination = dst, got_timestamp = ts, got_type = type,
          got_body = take (nat sz) body, got_size = sz\<rparr>)" "ev_addr ?ev = a"
    by (simp_all add: GetEvent_def new_event_def min_def)
  ultimately show ?thesis by blast
qed

section \<open>Concrete calls\<close>

text \<open>Exact arithmetic satisfies the rounding hypothesis.\<close>

definition exact_cfg :: config where
  "exact_cfg = demo_cfg\<lparr>rnd := (\<lambda>x. x)\<rparr>"

lemma exact_cfg_close: "close_rounding exact_cfg"
  by (simp add: close_rounding_def exact_cfg_def)

theorem Random_in_unit_interval_witness: "fst (Random exact_cfg 1 0) < 1"
  using Random_in_unit_interval [OF exact_cfg_close, of 1 0] by simp

theorem Expent_bounds_witness: "\<exists>x s1' s2'. Expent exact_cfg 2 1 0 = Inr (x, s1', s2') \<and> 1 / 2 \<le> x \<and> x \<le> 70"
  using Expent_bounds [OF exact_cfg_close, of 2 1 0] by simp

theorem coasting_forward_is_silent_witness:
  "ScheduleNewEvent spec_cfg None False 2 1 1 None 0 (demo_epoch\<lparr>filter_message := (\<lambda>_. 1)\<rparr>) demo_thread
   = Inr (0, demo_epoch\<lparr>filter_message := (\<lambda>_. 1)\<rparr>, demo_thread)"
  by (rule coasting_forward_is_silent)
    (simp_all add: demo_thread_def initial_tls_def valid_object_def MAX_EVENT_SIZE_def)

lemma demo_schedule:
  "\<exists>s' t'. ScheduleNewEvent demo_cfg (Some 40) False 0 (1 / 2) 7 (Some [1, 2, 3]) 2 demo_start demo_worker = Inr (0, s', t')"
  using demo_start_clock
  by (simp add: ScheduleNewEvent_def MAX_EVENT_SIZE_def queue_insert_def clock_at_def NUM_SLOTS_def slot_insert_def
      valid_object_def)

theorem schedule_get_roundtrip_witness:
  "\<exists>s' t' ev. ScheduleNewEvent demo_cfg (Some 40) False 0 (1 / 2) 7 (Some [1, 2, 3]) 2 demo_start demo_worker = Inr (0, s', t')
     \<and> GetEvent (Some ev) = (0, Some \<lparr>got_destination = 0, got_timestamp = 1 / 2, got_type = 7, got_body = [1, 2], got_size = 2\<rparr>)
     \<and> ev_addr ev = 40"
proof -
  obtain s' t' where st: "ScheduleNewEvent demo_cfg (Some 40) False 0 (1 / 2) 7 (Some [1, 2, 3]) 2 demo_start demo_worker
      = Inr (0, s', t')" using demo_schedule by blast
  with schedule_get_roundtrip [OF st _ demo_start_wf] show ?thesis by fastforce
qed

end
