(* ===== verification/Snapshot.thy ===== *)
theory Snapshot
  imports Prelude
begin

text \<open>
  The contract every checkpoint backend of the runtime fulfils, as a locale: a state, what of it a
  checkpoint protects, marking a checkpoint, instrumented writes, and the restoration. The backends
  (free stacks of the allocator, chunk copies, grid copies, page versions) interpret it in their own
  theories; what the engine relies on is proved here once.
\<close>

text \<open>A sequence of writes, each legal where it is made.\<close>

primrec legal_run :: "('w \<Rightarrow> 'm \<Rightarrow> bool) \<Rightarrow> ('w \<Rightarrow> 'm \<Rightarrow> 'm) \<Rightarrow> 'w list \<Rightarrow> 'm \<Rightarrow> bool" where
  "legal_run legal put [] m = True"
| "legal_run legal put (w # ws) m = (legal w m \<and> legal_run legal put ws (put w m))"

locale snapshot_backend =
  fixes usable :: "'m \<Rightarrow> bool"
    and view :: "'m \<Rightarrow> 'v"
    and mark :: "'m \<Rightarrow> 'm"
    and legal :: "'w \<Rightarrow> 'm \<Rightarrow> bool"
    and put :: "'w \<Rightarrow> 'm \<Rightarrow> 'm"
    and restore :: "'m \<Rightarrow> 'm"
    and keeps :: "'v \<Rightarrow> 'm \<Rightarrow> bool"
  assumes keeps_mark: "usable m \<Longrightarrow> keeps (view m) (mark m)"
    and keeps_put: "keeps v m \<Longrightarrow> legal w m \<Longrightarrow> keeps v (put w m)"
    and keeps_restore: "keeps v m \<Longrightarrow> keeps v (restore m)"
    and view_restore: "keeps v m \<Longrightarrow> view (restore m) = v"
begin

lemma keeps_run: "keeps v m \<Longrightarrow> legal_run legal put ws m \<Longrightarrow> keeps v (fold put ws m)"
  by (induction ws arbitrary: m) (simp_all add: keeps_put)

lemma rollback_undoes:
  "usable m \<Longrightarrow> legal_run legal put ws (mark m) \<Longrightarrow> view (restore (fold put ws (mark m))) = view m"
  by (rule view_restore) (rule keeps_run [OF keeps_mark])

text \<open>The checkpoint survives a rollback: the object can be rolled back again.\<close>

lemma rollback_twice:
  assumes "usable m" and "legal_run legal put ws (mark m)"
    and "legal_run legal put us (restore (fold put ws (mark m)))"
  shows "view (restore (fold put us (restore (fold put ws (mark m))))) = view m"
  by (rule view_restore) (intro keeps_run keeps_restore keeps_mark assms)

end

section \<open>Copies of equal blocks\<close>

text \<open>
  The copies the backends make are loops over equal blocks of which some are selected. \<open>copy_cells\<close> is
  one such loop in the order of the blocks; the nested loops of the sources are brought to it.
\<close>

definition copy_cells :: "(nat \<Rightarrow> bool) \<Rightarrow> nat \<Rightarrow> nat \<Rightarrow> nat \<Rightarrow> nat \<Rightarrow> memory \<Rightarrow> memory" where
  "copy_cells sel cs dst src n mem =
     fold (\<lambda>c mem. if sel c then memcpy mem (dst + c * cs) (src + c * cs) cs else mem) [0..<n] mem"

lemma copy_cells_at:
  assumes "src + n * cs \<le> dst \<or> dst + n * cs \<le> src" and "0 < cs"
  shows "copy_cells sel cs dst src n mem a =
    (if dst \<le> a \<and> a < dst + n * cs \<and> sel ((a - dst) div cs) then mem (src + (a - dst)) else mem a)"
  using assms(1)
proof (induction n arbitrary: a)
  case 0
  show ?case by (auto simp: copy_cells_def)
next
  case (Suc n)
  then have IH: "copy_cells sel cs dst src n mem x =
    (if dst \<le> x \<and> x < dst + n * cs \<and> sel ((x - dst) div cs) then mem (src + (x - dst)) else mem x)" for x
    by auto
  let ?m = "copy_cells sel cs dst src n mem"
  have unf: "copy_cells sel cs dst src (Suc n) mem = (if sel n then memcpy ?m (dst + n * cs) (src + n * cs) cs else ?m)"
    by (simp add: copy_cells_def)
  show ?case
  proof (cases "dst + n * cs \<le> a \<and> a < dst + n * cs + cs")
    case True
    then have d: "(a - dst) div cs = n" using assms(2) by (intro div_nat_eqI) (auto simp: algebra_simps)
    have "?m (src + n * cs + (a - (dst + n * cs))) = mem (src + (a - dst))"
      using True Suc.prems by (auto simp: IH)
    then show ?thesis using True d by (auto simp: unf memcpy_def IH)
  next
    case False
    moreover have "?m a = (if dst \<le> a \<and> a < dst + Suc n * cs \<and> sel ((a - dst) div cs) then mem (src + (a - dst)) else mem a)"
      using False by (auto simp: IH)
    ultimately show ?thesis by (auto simp: unf memcpy_def)
  qed
qed

text \<open>Loops over blocks of \<open>w\<close> indices.\<close>

lemma fold_blocks:
  "fold (\<lambda>j. fold (\<lambda>k. f (j * w + k)) [0..<w]) [0..<n] = fold f [0..<n * w]"
proof (induction n)
  case (Suc n)
  have "[0..<Suc n * w] = [0..<n * w] @ [n * w..<n * w + w]"
    using upt_add_eq_append [of 0 "n * w" w] by (simp add: add.commute)
  also have "[n * w..<n * w + w] = map (\<lambda>k. n * w + k) [0..<w]" by (rule nth_equalityI) auto
  finally have "[0..<Suc n * w] = [0..<n * w] @ map (\<lambda>k. n * w + k) [0..<w]" .
  then show ?case using Suc by (simp add: fold_map comp_def)
qed simp

text \<open>Little-endian reads of \<open>n\<close> bytes.\<close>

fun load_le :: "memory \<Rightarrow> nat \<Rightarrow> nat \<Rightarrow> 'a::len word" where
  "load_le m a 0 = 0"
| "load_le m a (Suc n) = ucast (m a) OR push_bit 8 (load_le m (Suc a) n)"

lemma bit_load_le:
  "bit (load_le m a n :: 'a::len word) j \<longleftrightarrow> j < LENGTH('a) \<and> j < 8 * n \<and> bit (m (a + j div 8)) (j mod 8)"
proof (induction n arbitrary: a j)
  case (Suc n)
  have lt: "bit (m x) k \<Longrightarrow> k < 8" for x k by (drule bit_imp_le_length) simp
  show ?case
  proof (cases "j < 8")
    case True
    then show ?thesis using Suc lt by (auto simp: bit_or_iff bit_push_bit_iff bit_ucast_iff)
  next
    case False
    moreover have "j < 8 * Suc n \<longleftrightarrow> j - 8 < 8 * n" using False by (simp add: less_diff_conv2 not_less add.commute)
    moreover have "j < LENGTH('a) \<Longrightarrow> j - 8 < LENGTH('a)" by simp
    moreover have "(j - 8) div 8 = j div 8 - 1" "(j - 8) mod 8 = j mod 8" "j div 8 \<noteq> 0"
      using False by (simp_all add: le_mod_geq le_div_geq)
    ultimately show ?thesis using Suc lt [of a j] by (auto simp: bit_or_iff bit_push_bit_iff bit_ucast_iff)
  qed
qed simp

end
