(* ===== verification/Allocator.thy ===== *)
theory Allocator
  imports Snapshot
begin

text \<open>
  The chunk allocator of \<open>memory/memory.c\<close>, for one simulation object: eight areas of chunks of 32 to
  4096 bytes, each with a stack of free addresses; the wrapped \<open>malloc\<close> and \<open>free\<close>; the checkpoint of the
  stacks; and the copies of chunks the two chunk-based backends make. Addresses are numbers; the
  results of the library's \<open>malloc\<close>, \<open>mmap\<close> and \<open>mbind\<close> are arguments.
\<close>

section \<open>Layout\<close>

definition MIN_CHUNK_SIZE :: nat where "MIN_CHUNK_SIZE = 32"
definition MAX_CHUNK_SIZE :: nat where "MAX_CHUNK_SIZE = 4096"
definition MAX_MEMORY :: nat where "MAX_MEMORY = 2097152"
definition MEM_NODES :: nat where "MEM_NODES = 2"
definition SEGMENTS :: nat where "SEGMENTS = MAX_MEMORY div 8"
definition SEGMENT_PAGES :: nat where "SEGMENT_PAGES = SEGMENTS div 4096"
definition NUM_AREAS :: nat where "NUM_AREAS = (MAX_MEMORY div 4096) div SEGMENT_PAGES"

lemmas layout_defs = MIN_CHUNK_SIZE_def MAX_CHUNK_SIZE_def MAX_MEMORY_def MEM_NODES_def SEGMENTS_def
  SEGMENT_PAGES_def NUM_AREAS_def

text \<open>Area \<open>i\<close> holds chunks of \<open>MIN_CHUNK_SIZE << i\<close> bytes.\<close>

definition chunk_bytes :: "nat \<Rightarrow> nat" where
  "chunk_bytes i = MIN_CHUNK_SIZE * 2 ^ i"

lemma layout_values: "NUM_AREAS = 8" "SEGMENT_PAGES * 4096 = 262144" "MAX_MEMORY = 2097152"
  by (simp_all add: layout_defs)

lemma chunk_bytes_pos [simp]: "0 < chunk_bytes i"
  by (simp add: chunk_bytes_def MIN_CHUNK_SIZE_def)

text \<open>The build: no checkpoint copies, the grid, the chunk copies on first write, the copies of all used chunks.\<close>

datatype backend = PLAIN | GRID_CKPT | CHUNK_BASED_SAVE | CHUNK_FULL

record area =
  addresses :: "nat \<Rightarrow> nat"
  top_elem :: int
  area_size :: nat
  area_base :: nat
  bitmap :: "nat \<Rightarrow> byte"
  bitmap_ckpt :: "nat \<Rightarrow> byte"
  addresses_ckpt :: "nat \<Rightarrow> nat"
  top_elem_ckpt :: int

record obj_memory =
  obj_base :: nat
  areas :: "nat \<Rightarrow> area"
  bytes :: memory

definition set_area :: "nat \<Rightarrow> (area \<Rightarrow> area) \<Rightarrow> obj_memory \<Rightarrow> obj_memory" where
  "set_area i f m = m\<lparr>areas := (areas m)(i := f (areas m i))\<rparr>"

section \<open>Set-up\<close>

text \<open>The model is of the speculative builds, whose areas also have the checkpoint fields.\<close>

text \<open>
  The array of areas of every object (\<open>got i\<close>: the \<open>malloc\<close> for object \<open>i\<close> succeeds) and the base
  pointers, \<open>None\<close> until the object is set up.
\<close>

fun base_init_loop :: "(nat \<Rightarrow> bool) \<Rightarrow> nat list \<Rightarrow> (nat \<Rightarrow> nat option) \<Rightarrow> (nat \<Rightarrow> nat option) outcome" where
  "base_init_loop got [] bases = Inr bases"
| "base_init_loop got (i # is) bases =
     (if \<not> got i then Inl Exit_Failure else base_init_loop got is (bases(i := None)))"

definition allocators_base_init :: "nat \<Rightarrow> (nat \<Rightarrow> bool) \<Rightarrow> (nat \<Rightarrow> nat option) \<Rightarrow> (nat \<Rightarrow> nat option) outcome" where
  "allocators_base_init objects got bases = base_init_loop got [0..<objects] bases"

definition stride :: "backend \<Rightarrow> nat" where
  "stride k = (case k of PLAIN \<Rightarrow> 1 | GRID_CKPT \<Rightarrow> 3 | _ \<Rightarrow> 2)"

definition object_address :: "backend \<Rightarrow> nat \<Rightarrow> nat" where
  "object_address k current = 8 * (1024 * MAX_MEMORY) + current * (stride k * MAX_MEMORY * MEM_NODES)"

text \<open>\<open>got i n\<close>: the \<open>n\<close>-th \<open>malloc\<close> for area \<open>i\<close> succeeds (addresses, their checkpoint, the two bitmaps).\<close>

definition mallocs_ok :: "backend \<Rightarrow> (nat \<Rightarrow> nat \<Rightarrow> bool) \<Rightarrow> nat \<Rightarrow> bool" where
  "mallocs_ok k got i \<longleftrightarrow> got i 0 \<and> got i 1 \<and> (k \<in> {CHUNK_BASED_SAVE, CHUNK_FULL} \<longrightarrow> got i 2)
     \<and> (k = CHUNK_FULL \<longrightarrow> got i 3)"

definition new_area :: "backend \<Rightarrow> nat \<Rightarrow> nat \<Rightarrow> area \<Rightarrow> area" where
  "new_area k i limit a = a\<lparr>
     addresses := (\<lambda>j. limit + j * chunk_bytes i), top_elem := 0,
     area_size := (SEGMENT_PAGES * 4096) div chunk_bytes i, area_base := limit,
     bitmap := (if k \<in> {CHUNK_BASED_SAVE, CHUNK_FULL} then (\<lambda>_. 0) else bitmap a), top_elem_ckpt := 0\<rparr>"

fun setup_areas :: "backend \<Rightarrow> (nat \<Rightarrow> nat \<Rightarrow> bool) \<Rightarrow> nat list \<Rightarrow> nat \<Rightarrow> obj_memory \<Rightarrow> obj_memory outcome" where
  "setup_areas k got [] limit m = Inr m"
| "setup_areas k got (i # is) limit m =
     (if \<not> mallocs_ok k got i then Inl Exit_Failure
      else setup_areas k got is (limit + ((SEGMENT_PAGES * 4096) div chunk_bytes i) * chunk_bytes i)
             (set_area i (new_area k i limit) m))"

definition object_allocator_setup ::
  "backend \<Rightarrow> bool \<Rightarrow> bool \<Rightarrow> (nat \<Rightarrow> nat \<Rightarrow> bool) \<Rightarrow> nat \<Rightarrow> obj_memory \<Rightarrow> obj_memory outcome" where
  "object_allocator_setup k mapped bound got current m =
     (if \<not> mapped then Inl Exit_Failure
      else if \<not> bound then Inl Exit_Failure
      else let b = object_address k current in
        setup_areas k got [0..<NUM_AREAS] b (m\<lparr>obj_base := b, bytes := (bytes m)(b := 0x66)\<rparr>))"

section \<open>Allocation\<close>

text \<open>
  The search for a size class. A request larger than the largest chunk leaves the loop with the index
  of the last class.
\<close>

fun class_loop :: "nat \<Rightarrow> nat list \<Rightarrow> nat \<Rightarrow> nat" where
  "class_loop sz [] index = index"
| "class_loop sz (i # is) index = (if sz \<le> chunk_bytes i then i else class_loop sz is i)"

definition size_class :: "nat \<Rightarrow> nat" where
  "size_class sz = class_loop sz [0..<8] 0"

function find_area :: "obj_memory \<Rightarrow> nat \<Rightarrow> nat outcome" where
  "find_area m index =
     (if index \<ge> NUM_AREAS then Inl Exit_Failure
      else if top_elem (areas m index) = int (area_size (areas m index)) then find_area m (index + 1)
      else Inr index)"
  by pat_completeness auto
termination by (relation "measure (\<lambda>(m, index). NUM_AREAS - index)") auto

declare find_area.simps [simp del]

text \<open>Where the bit of a chunk is: byte \<open>chunk >> 3\<close>, bit \<open>chunk & 7\<close>.\<close>

definition mark_chunk :: "nat \<Rightarrow> area \<Rightarrow> area" where
  "mark_chunk c a = a\<lparr>bitmap := (bitmap a)(c div 8 := set_bit8 (bitmap a (c div 8)) (c mod 8))\<rparr>"

definition unmark_chunk :: "nat \<Rightarrow> area \<Rightarrow> area" where
  "unmark_chunk c a = a\<lparr>bitmap := (bitmap a)(c div 8 := clear_bit8 (bitmap a (c div 8)) (c mod 8))\<rparr>"

definition chunk_number :: "obj_memory \<Rightarrow> nat \<Rightarrow> nat \<Rightarrow> nat" where
  "chunk_number m index p = (p - area_base (areas m index)) div chunk_bytes index"

definition wrap_malloc :: "backend \<Rightarrow> nat \<Rightarrow> obj_memory \<Rightarrow> (nat option \<times> obj_memory) outcome" where
  "wrap_malloc k sz m =
     (if sz = 0 then Inr (None, m)
      else and_then (find_area m (size_class sz)) (\<lambda>index.
        let a = areas m index; p = addresses a (nat (top_elem a)) in
        if top_elem a < 0 \<or> int (area_size a) < top_elem a then Inl Undefined
        else
          let m1 = set_area index (top_elem_update (\<lambda>t. t + 1)) m in
          Inr (Some p, if k = CHUNK_FULL then set_area index (mark_chunk (chunk_number m1 index p)) m1 else m1)))"

definition area_index :: "obj_memory \<Rightarrow> nat \<Rightarrow> nat" where
  "area_index m p = ((p - obj_base m) div 4096) div SEGMENT_PAGES"

definition wrap_free :: "backend \<Rightarrow> nat \<Rightarrow> obj_memory \<Rightarrow> obj_memory outcome" where
  "wrap_free k p m =
     (if p < obj_base m \<or> obj_base m + MAX_MEMORY \<le> p then Inl Exit_Failure
      else
        let index = area_index m p; t = top_elem (areas m index) - 1 in
        if t < 0 \<or> int (area_size (areas m index)) \<le> t then Inl Undefined
        else
          let m1 = set_area index (\<lambda>a. a\<lparr>top_elem := t, addresses := (addresses a)(nat t := p)\<rparr>) m in
          Inr (if k = CHUNK_FULL then set_area index (unmark_chunk (chunk_number m1 index p)) m1 else m1))"

section \<open>Checkpoint of the free stacks\<close>

definition copy_from :: "int \<Rightarrow> nat \<Rightarrow> (nat \<Rightarrow> nat) \<Rightarrow> (nat \<Rightarrow> nat) \<Rightarrow> nat \<Rightarrow> nat" where
  "copy_from t n src dst = (\<lambda>j. if t \<le> int j \<and> j < n then src j else dst j)"

definition save_area :: "backend \<Rightarrow> area \<Rightarrow> area" where
  "save_area k a = a\<lparr>top_elem_ckpt := top_elem a,
     addresses_ckpt := copy_from (top_elem a) (area_size a) (addresses a) (addresses_ckpt a),
     bitmap := (if k = CHUNK_BASED_SAVE then (\<lambda>j. if j < area_size a then 0 else bitmap a j) else bitmap a)\<rparr>"

definition load_area :: "area \<Rightarrow> area" where
  "load_area a = a\<lparr>top_elem := top_elem_ckpt a,
     addresses := copy_from (top_elem_ckpt a) (area_size a) (addresses_ckpt a) (addresses a)\<rparr>"

definition set_allocator_ckpt :: "backend \<Rightarrow> obj_memory \<Rightarrow> obj_memory" where
  "set_allocator_ckpt k m = fold (\<lambda>i. set_area i (save_area k)) [0..<8] m"

definition restore_allocator :: "obj_memory \<Rightarrow> obj_memory" where
  "restore_allocator m = fold (\<lambda>i. set_area i load_area) [0..<8] m"

section \<open>Copies of chunks\<close>

text \<open>The shadow of a chunk lies \<open>MAX_MEMORY\<close> above it.\<close>

definition ckpt_chunk :: "nat \<Rightarrow> obj_memory \<Rightarrow> obj_memory outcome" where
  "ckpt_chunk p m =
     (if p < obj_base m \<or> obj_base m + MAX_MEMORY \<le> p then Inl Exit_Failure
      else
        let index = area_index m p; c = chunk_number m index p; here = area_base (areas m index) + c * chunk_bytes index in
        if bit_is_set (bitmap (areas m index) (c div 8)) (c mod 8) then Inr m
        else Inr (set_area index (mark_chunk c)
                   (m\<lparr>bytes := memcpy (bytes m) (here + MAX_MEMORY) here (chunk_bytes index)\<rparr>)))"

text \<open>
  The two inner loops over the bytes of a bitmap and the bits of a byte; \<open>shift\<close> is what is added to the
  destination and to the source address.
\<close>

definition copy_bits :: "nat \<Rightarrow> nat \<Rightarrow> nat \<Rightarrow> nat \<Rightarrow> byte \<Rightarrow> nat \<Rightarrow> memory \<Rightarrow> memory" where
  "copy_bits b0 cs dshift sshift b j mem =
     (if b = 0 then mem
      else fold (\<lambda>k mem. if bit_is_set b k
             then memcpy mem (b0 + (j * 8 + k) * cs + dshift) (b0 + (j * 8 + k) * cs + sshift) cs else mem) [0..<8] mem)"

definition copy_marked :: "nat \<Rightarrow> nat \<Rightarrow> nat \<Rightarrow> nat \<Rightarrow> (nat \<Rightarrow> byte) \<Rightarrow> nat \<Rightarrow> memory \<Rightarrow> memory" where
  "copy_marked b0 cs dshift sshift bm n mem = fold (\<lambda>j. copy_bits b0 cs dshift sshift (bm j) j) [0..<n] mem"

definition restore_chunks_save :: "obj_memory \<Rightarrow> obj_memory" where
  "restore_chunks_save m = fold (\<lambda>i m. let a = areas m i in
     set_area i (\<lambda>a. a\<lparr>bitmap := (\<lambda>j. if j < area_size a then 0 else bitmap a j)\<rparr>)
       (m\<lparr>bytes := copy_marked (area_base a) (chunk_bytes i) 0 MAX_MEMORY (bitmap a) (area_size a) (bytes m)\<rparr>)) [0..<8] m"

definition set_used_chunks_ckpt :: "obj_memory \<Rightarrow> obj_memory" where
  "set_used_chunks_ckpt m = fold (\<lambda>i m. let a = areas m i in
     (set_area i (\<lambda>a. a\<lparr>bitmap_ckpt := (\<lambda>j. if j < area_size a then bitmap a j else bitmap_ckpt a j)\<rparr>) m)
       \<lparr>bytes := copy_marked (area_base a) (chunk_bytes i) MAX_MEMORY 0 (bitmap a) (area_size a) (bytes m)\<rparr>) [0..<8] m"

definition restore_chunks_full :: "obj_memory \<Rightarrow> obj_memory" where
  "restore_chunks_full m = fold (\<lambda>i m. let a = areas m i in
     set_area i (\<lambda>a. a\<lparr>bitmap := (\<lambda>j. if j < area_size a then bitmap_ckpt a j else bitmap a j)\<rparr>)
       (m\<lparr>bytes := copy_marked (area_base a) (chunk_bytes i) 0 MAX_MEMORY (bitmap_ckpt a) (area_size a) (bytes m)\<rparr>)) [0..<8] m"

section \<open>Well-formed allocators\<close>

definition free_list :: "area \<Rightarrow> nat list" where
  "free_list a = map (addresses a) [nat (top_elem a)..<area_size a]"

definition chunk_starts :: "nat \<Rightarrow> nat \<Rightarrow> nat set" where
  "chunk_starts b i = (\<lambda>c. b + i * 262144 + c * chunk_bytes i) ` {..<262144 div chunk_bytes i}"

definition area_wf :: "nat \<Rightarrow> nat \<Rightarrow> area \<Rightarrow> bool" where
  "area_wf b i a \<longleftrightarrow> area_size a = 262144 div chunk_bytes i \<and> area_base a = b + i * 262144
     \<and> 0 \<le> top_elem a \<and> top_elem a \<le> int (area_size a)
     \<and> distinct (free_list a) \<and> set (free_list a) \<subseteq> chunk_starts b i"

definition mem_wf :: "obj_memory \<Rightarrow> bool" where
  "mem_wf m \<longleftrightarrow> (\<forall>i < 8. area_wf (obj_base m) i (areas m i))"

lemma chunk_bytes_power: "chunk_bytes i = 2 ^ (5 + i)"
  by (simp add: chunk_bytes_def MIN_CHUNK_SIZE_def power_add)

lemma chunk_bytes_values:
  assumes "i < 8"
  shows "chunk_bytes i dvd 262144" and "chunk_bytes i \<le> 4096"
proof -
  have "(2::nat) ^ (5 + i) dvd 2 ^ 18" using assms by (intro le_imp_power_dvd) simp
  then show "chunk_bytes i dvd 262144" by (simp add: chunk_bytes_power)
  have "(2::nat) ^ (5 + i) \<le> 2 ^ 12" using assms by (intro power_increasing) simp_all
  then show "chunk_bytes i \<le> 4096" by (simp add: chunk_bytes_power)
qed

lemma chunk_bytes_fill: "i < 8 \<Longrightarrow> (262144 div chunk_bytes i) * chunk_bytes i = 262144"
  using chunk_bytes_values(1) by simp

lemma chunk_inside:
  assumes "c < 262144 div chunk_bytes i" and "i < 8"
  shows "c * chunk_bytes i + chunk_bytes i \<le> 262144"
proof -
  have "Suc c * chunk_bytes i \<le> (262144 div chunk_bytes i) * chunk_bytes i" using assms(1) by (intro mult_right_mono) auto
  then show ?thesis using chunk_bytes_fill [OF assms(2)] by simp
qed

lemma chunk_startsE:
  assumes "p \<in> chunk_starts b i" and "i < 8"
  obtains c where "c < 262144 div chunk_bytes i" and "p = b + i * 262144 + c * chunk_bytes i"
    and "p + chunk_bytes i \<le> b + (i + 1) * 262144" and "b \<le> p" and "p + chunk_bytes i \<le> b + MAX_MEMORY"
proof -
  from assms(1) obtain c where c: "c < 262144 div chunk_bytes i" "p = b + i * 262144 + c * chunk_bytes i"
    by (auto simp: chunk_starts_def)
  with chunk_inside [OF c(1) assms(2)] assms(2) show thesis by (intro that [OF c]) (auto simp: layout_values)
qed

lemma area_index_chunk:
  assumes "p \<in> chunk_starts (obj_base m) i" and "i < 8"
  shows "area_index m p = i"
proof -
  from chunk_startsE [OF assms] obtain c where p: "p = obj_base m + i * 262144 + c * chunk_bytes i"
    and lim: "p + chunk_bytes i \<le> obj_base m + (i + 1) * 262144" by metis
  have pg: "SEGMENT_PAGES = 64" by (simp add: layout_defs)
  have "c * chunk_bytes i + chunk_bytes i \<le> 262144" using p lim by simp
  then have "c * chunk_bytes i < 262144" using chunk_bytes_pos [of i] by linarith
  then have "(i * 262144 + c * chunk_bytes i) div 262144 = i" by simp
  then show ?thesis using p by (simp add: area_index_def pg div_mult2_eq [symmetric])
qed

lemma chunk_number_chunk:
  "area_base (areas m i) = b + i * 262144 \<Longrightarrow> chunk_number m i (b + i * 262144 + c * chunk_bytes i) = c"
  by (simp add: chunk_number_def)

lemma free_list_Cons:
  assumes "0 \<le> top_elem a" and "top_elem a < int (area_size a)"
  shows "free_list a = addresses a (nat (top_elem a)) # free_list (a\<lparr>top_elem := top_elem a + 1\<rparr>)"
proof -
  have "nat (top_elem a) < area_size a" "nat (top_elem a + 1) = Suc (nat (top_elem a))" using assms by simp_all
  then show ?thesis by (simp add: free_list_def upt_conv_Cons)
qed

lemma free_list_push:
  assumes "0 \<le> t" and "t < int (area_size a)" and "top_elem a = t + 1"
  shows "free_list (a\<lparr>top_elem := t, addresses := (addresses a)(nat t := p)\<rparr>) = p # free_list a"
proof -
  have "nat t < area_size a" "nat (t + 1) = Suc (nat t)" using assms by simp_all
  then show ?thesis using assms(3) by (simp add: free_list_def upt_conv_Cons)
qed

lemma free_list_bitmaps [simp]:
  "free_list (mark_chunk c a) = free_list a" "free_list (unmark_chunk c a) = free_list a"
  "free_list (a\<lparr>bitmap := x\<rparr>) = free_list a" "free_list (a\<lparr>bitmap_ckpt := x\<rparr>) = free_list a"
  by (simp_all add: free_list_def mark_chunk_def unmark_chunk_def)

lemma area_wf_bitmaps [simp]:
  "area_wf b i (mark_chunk c a) = area_wf b i a" "area_wf b i (unmark_chunk c a) = area_wf b i a"
  "area_wf b i (a\<lparr>bitmap := x\<rparr>) = area_wf b i a" "area_wf b i (a\<lparr>bitmap_ckpt := x\<rparr>) = area_wf b i a"
  by (simp_all add: area_wf_def) (simp_all add: mark_chunk_def unmark_chunk_def)

lemma set_area_simps [simp]:
  "areas (set_area i f m) j = (if j = i then f (areas m i) else areas m j)" "obj_base (set_area i f m) = obj_base m"
  "bytes (set_area i f m) = bytes m"
  by (simp_all add: set_area_def)

text \<open>All free chunks of the object; the areas do not overlap, so they are distinct.\<close>

definition free_chunks :: "obj_memory \<Rightarrow> nat set" where
  "free_chunks m = (\<Union>i < 8. set (free_list (areas m i)))"

lemma chunk_starts_disjoint:
  assumes "i < 8" and "j < 8" and "i \<noteq> j"
  shows "chunk_starts b i \<inter> chunk_starts b j = {}"
proof -
  have False if "p \<in> chunk_starts b i" "p \<in> chunk_starts b j" for p
  proof -
    let ?m = "\<lparr>obj_base = b, areas = undefined, bytes = undefined\<rparr>"
    from that assms area_index_chunk [of p ?m i] area_index_chunk [of p ?m j] show False by simp
  qed
  then show ?thesis by blast
qed

lemma free_in_starts: "mem_wf m \<Longrightarrow> i < 8 \<Longrightarrow> p \<in> set (free_list (areas m i)) \<Longrightarrow> p \<in> chunk_starts (obj_base m) i"
  by (auto simp: mem_wf_def area_wf_def)

lemma free_chunks_split:
  assumes "mem_wf m" and "i < 8" and "p \<in> chunk_starts (obj_base m) i"
  shows "p \<in> free_chunks m \<longleftrightarrow> p \<in> set (free_list (areas m i))"
proof
  assume "p \<in> free_chunks m"
  then obtain j where j: "j < 8" "p \<in> set (free_list (areas m j))" by (auto simp: free_chunks_def)
  with free_in_starts [OF assms(1) j] assms chunk_starts_disjoint [of i j] show "p \<in> set (free_list (areas m i))"
    by (cases "i = j") auto
qed (use assms(2) in \<open>auto simp: free_chunks_def\<close>)

section \<open>Allocation is correct\<close>

lemma find_area_Inr:
  "find_area m index = Inr i \<Longrightarrow> index \<le> i \<and> i < NUM_AREAS \<and> top_elem (areas m i) \<noteq> int (area_size (areas m i))"
proof (induction m index rule: find_area.induct)
  case (1 m index)
  from "1.prems" have r: "(if index \<ge> NUM_AREAS then Inl Exit_Failure
      else if top_elem (areas m index) = int (area_size (areas m index)) then find_area m (index + 1)
      else Inr index) = Inr i" by (simp add: find_area.simps [of m index])
  then show ?case using "1.IH" by (fastforce split: if_splits)
qed

lemma size_class_fits:
  assumes "sz \<le> 4096"
  shows "size_class sz < 8 \<and> sz \<le> chunk_bytes (size_class sz)"
proof -
  have up: "[0..<8] = [0, 1, 2, 3, 4, 5, 6, 7::nat]" by (simp add: upt_rec)
  show ?thesis using assms by (simp add: size_class_def up chunk_bytes_power)
qed

lemma chunk_bytes_mono: "i \<le> j \<Longrightarrow> chunk_bytes i \<le> chunk_bytes j"
  by (simp add: chunk_bytes_power power_increasing)

text \<open>Taking the top of the stack of one area.\<close>

lemma malloc_area:
  assumes wf: "mem_wf m" and i: "i < 8" and top: "top_elem (areas m i) \<noteq> int (area_size (areas m i))"
  defines "p \<equiv> addresses (areas m i) (nat (top_elem (areas m i)))"
    and "m1 \<equiv> set_area i (top_elem_update (\<lambda>t. t + 1)) m"
  shows "mem_wf m1" and "p \<in> chunk_starts (obj_base m) i" and "p \<in> free_chunks m"
    and "free_chunks m1 = free_chunks m - {p}"
proof -
  have a: "area_wf (obj_base m) i (areas m i)" using wf i by (simp add: mem_wf_def)
  then have t: "0 \<le> top_elem (areas m i)" "top_elem (areas m i) < int (area_size (areas m i))"
    using top by (auto simp: area_wf_def)
  have upd: "areas m1 i = (areas m i)\<lparr>top_elem := top_elem (areas m i) + 1\<rparr>" by (simp add: m1_def)
  have fl: "free_list (areas m i) = p # free_list (areas m1 i)"
    unfolding upd p_def by (rule free_list_Cons [OF t])
  then have p: "p \<in> set (free_list (areas m i))" "p \<notin> set (free_list (areas m1 i))"
    using a by (auto simp: area_wf_def)
  show start: "p \<in> chunk_starts (obj_base m) i" using a p(1) by (auto simp: area_wf_def)
  have "area_wf (obj_base m) i (areas m1 i)" using a fl t unfolding area_wf_def upd by auto
  then show wf1: "mem_wf m1" using wf by (simp add: mem_wf_def m1_def)
  show "p \<in> free_chunks m" using p i by (auto simp: free_chunks_def)
  have other: "free_list (areas m1 j) = free_list (areas m j)" if "j \<noteq> i" for j using that by (simp add: m1_def)
  have b: "obj_base m1 = obj_base m" by (simp add: m1_def)
  have "x \<in> free_chunks m1 \<longleftrightarrow> x \<in> free_chunks m - {p}" for x
  proof (cases "x \<in> chunk_starts (obj_base m) i")
    case True
    then show ?thesis
      using free_chunks_split [OF wf i] free_chunks_split [OF wf1 i] b fl p(2) by auto
  next
    case False
    then have "x \<in> free_chunks n \<longleftrightarrow> (\<exists>j < 8. j \<noteq> i \<and> x \<in> set (free_list (areas n j)))"
      if "mem_wf n" "obj_base n = obj_base m" for n
      using free_in_starts [OF that(1) i] that(2) by (auto simp: free_chunks_def)
    with wf wf1 b other start False show ?thesis by auto
  qed
  then show "free_chunks m1 = free_chunks m - {p}" by blast
qed

lemma free_chunks_cong:
  "(\<And>i. i < 8 \<Longrightarrow> free_list (areas m i) = free_list (areas n i)) \<Longrightarrow> free_chunks m = free_chunks n"
  by (simp add: free_chunks_def)

lemma wrap_malloc_Inr:
  assumes "wrap_malloc k sz m = Inr (Some p, m')" and "mem_wf m"
  obtains i m1 where "0 < sz" and "size_class sz \<le> i" and "i < 8"
    and "top_elem (areas m i) \<noteq> int (area_size (areas m i))"
    and "p = addresses (areas m i) (nat (top_elem (areas m i)))"
    and "m1 = set_area i (top_elem_update (\<lambda>t. t + 1)) m"
    and "m' = (if k = CHUNK_FULL then set_area i (mark_chunk (chunk_number m1 i p)) m1 else m1)"
proof -
  from assms(1) obtain i where i: "find_area m (size_class sz) = Inr i" "0 < sz"
    by (auto simp: wrap_malloc_def and_then_eq_Inr split: if_splits)
  from find_area_Inr [OF i(1)] have f: "size_class sz \<le> i" "i < 8" "top_elem (areas m i) \<noteq> int (area_size (areas m i))"
    by (simp_all add: layout_values)
  with assms(2) have "0 \<le> top_elem (areas m i)" "top_elem (areas m i) \<le> int (area_size (areas m i))"
    by (auto simp: mem_wf_def area_wf_def)
  then have "p = addresses (areas m i) (nat (top_elem (areas m i)))"
    "m' = (if k = CHUNK_FULL then set_area i (mark_chunk (chunk_number (set_area i (top_elem_update (\<lambda>t. t + 1)) m) i p))
        (set_area i (top_elem_update (\<lambda>t. t + 1)) m) else set_area i (top_elem_update (\<lambda>t. t + 1)) m)"
    using assms(1) i by (auto simp: wrap_malloc_def Let_def)
  then show thesis by (intro that [OF i(2) f(1,2,3) _ refl]) simp_all
qed

section \<open>A fresh allocator\<close>

lemma setup_areas_Inr:
  assumes "setup_areas k got [i..<n] (b + i * 262144) m = Inr m'" and "n \<le> 8"
  shows "obj_base m' = obj_base m \<and> bytes m' = bytes m
    \<and> (\<forall>j. areas m' j = (if i \<le> j \<and> j < n then new_area k j (b + j * 262144) (areas m j) else areas m j))"
  using assms(1)
proof (induction "n - i" arbitrary: i m)
  case 0
  then show ?case by auto
next
  case (Suc d)
  then have i: "i < n" by simp
  then have upt: "[i..<n] = i # [Suc i..<n]" by (rule upt_conv_Cons)
  have fill: "(262144 div chunk_bytes i) * chunk_bytes i = 262144" using chunk_bytes_fill i assms(2) by simp
  have "setup_areas k got [Suc i..<n] (b + Suc i * 262144) (set_area i (new_area k i (b + i * 262144)) m) = Inr m'"
    using Suc.prems unfolding upt by (simp add: layout_values fill add.assoc split: if_splits) (simp add: add.commute)
  from Suc.hyps(1) [OF _ this] Suc.hyps(2) show ?case by auto
qed

lemma new_area_wf:
  assumes "i < 8"
  shows "area_wf b i (new_area k i (b + i * 262144) a)"
    and "set (free_list (new_area k i (b + i * 262144) a)) = chunk_starts b i"
proof -
  have fl: "free_list (new_area k i (b + i * 262144) a) =
      map (\<lambda>c. b + i * 262144 + c * chunk_bytes i) [0..<262144 div chunk_bytes i]"
    by (simp add: free_list_def new_area_def layout_values)
  show s: "set (free_list (new_area k i (b + i * 262144) a)) = chunk_starts b i"
    unfolding fl by (auto simp: chunk_starts_def)
  have "distinct (free_list (new_area k i (b + i * 262144) a))"
    unfolding fl using chunk_bytes_pos [of i] by (simp add: distinct_map inj_on_def)
  with s show "area_wf b i (new_area k i (b + i * 262144) a)"
    unfolding area_wf_def by (auto simp: new_area_def layout_values)
qed

lemma object_allocator_setup_lemma:
  assumes "object_allocator_setup k mapped bound got current m = Inr m'"
  shows "mem_wf m' \<and> obj_base m' = object_address k current
    \<and> free_chunks m' = (\<Union>i < 8. chunk_starts (object_address k current) i)"
proof -
  let ?b = "object_address k current"
  from assms have "setup_areas k got [0..<8] (?b + 0 * 262144) (m\<lparr>obj_base := ?b, bytes := (bytes m)(?b := 0x66)\<rparr>) = Inr m'"
    by (auto simp: object_allocator_setup_def Let_def layout_values split: if_splits)
  from setup_areas_Inr [OF this] have b: "obj_base m' = ?b"
    and a: "\<And>i. i < 8 \<Longrightarrow> areas m' i = new_area k i (?b + i * 262144) (areas m i)" by auto
  have "mem_wf m'" unfolding mem_wf_def b using a new_area_wf(1) by simp
  moreover have "free_chunks m' = (\<Union>i < 8. chunk_starts ?b i)"
    unfolding free_chunks_def by (rule SUP_cong) (use a new_area_wf(2) in auto)
  ultimately show ?thesis using b by simp
qed

text \<open>An allocator to evaluate the properties on: object 1, just set up.\<close>

definition demo_memory :: "backend \<Rightarrow> obj_memory" where
  "demo_memory k = (case object_allocator_setup k True True (\<lambda>_ _. True) 1
       \<lparr>obj_base = 0, areas = (\<lambda>_. \<lparr>addresses = (\<lambda>_. 0), top_elem = 0, area_size = 0, area_base = 0, bitmap = (\<lambda>_. 0),
          bitmap_ckpt = (\<lambda>_. 0), addresses_ckpt = (\<lambda>_. 0), top_elem_ckpt = 0\<rparr>), bytes = (\<lambda>_. 0)\<rparr>
     of Inr m \<Rightarrow> m)"

lemma setup_areas_runs: "(\<And>i. i \<in> set is \<Longrightarrow> mallocs_ok k got i) \<Longrightarrow> \<exists>m'. setup_areas k got is limit m = Inr m'"
  by (induction "is" arbitrary: limit m) auto

lemma demo_memory_setup:
  "object_allocator_setup k True True (\<lambda>_ _. True) 1
       \<lparr>obj_base = 0, areas = (\<lambda>_. \<lparr>addresses = (\<lambda>_. 0), top_elem = 0, area_size = 0, area_base = 0, bitmap = (\<lambda>_. 0),
          bitmap_ckpt = (\<lambda>_. 0), addresses_ckpt = (\<lambda>_. 0), top_elem_ckpt = 0\<rparr>), bytes = (\<lambda>_. 0)\<rparr> = Inr (demo_memory k)"
  (is "?s = _")
proof -
  have "\<exists>m'. ?s = Inr m'"
    unfolding object_allocator_setup_def Let_def
    by (simp only: not_True_eq_False if_False) (rule setup_areas_runs, simp add: mallocs_ok_def)
  then obtain m' where m': "?s = Inr m'" by (elim exE)
  show ?thesis unfolding demo_memory_def m' by simp
qed

lemmas demo_memory_facts = object_allocator_setup_lemma [OF demo_memory_setup]

lemma demo_areas:
  "i < 8 \<Longrightarrow> top_elem (areas (demo_memory k) i) = 0 \<and> area_size (areas (demo_memory k) i) = 262144 div chunk_bytes i
    \<and> addresses (areas (demo_memory k) i) 0 = object_address k 1 + i * 262144"
proof -
  assume i: "i < 8"
  have "setup_areas k (\<lambda>_ _. True) [0..<8] (object_address k 1 + 0 * 262144)
     \<lparr>obj_base = object_address k 1, areas = (\<lambda>_. \<lparr>addresses = (\<lambda>_. 0), top_elem = 0, area_size = 0, area_base = 0, bitmap = (\<lambda>_. 0),
          bitmap_ckpt = (\<lambda>_. 0), addresses_ckpt = (\<lambda>_. 0), top_elem_ckpt = 0\<rparr>), bytes = (\<lambda>_. 0)(object_address k 1 := 0x66)\<rparr> = Inr (demo_memory k)"
    using demo_memory_setup [of k] by (simp add: object_allocator_setup_def Let_def layout_values)
  from setup_areas_Inr [OF this] i show ?thesis by (simp add: new_area_def layout_values)
qed

text \<open>
  The set-up of an object's allocator, when no library call fails, leaves a well-formed
  allocator in which every chunk of every area is free.
\<close>

theorem object_allocator_setup_correct:
  assumes "object_allocator_setup k mapped bound got current m = Inr m'"
  shows "mem_wf m' \<and> obj_base m' = object_address k current
    \<and> free_chunks m' = (\<Union>i < 8. chunk_starts (object_address k current) i)"
  by (rule object_allocator_setup_lemma [OF assms])

theorem object_allocator_setup_correct_witness:
  "mem_wf (demo_memory CHUNK_FULL) \<and> obj_base (demo_memory CHUNK_FULL) = object_address CHUNK_FULL 1
    \<and> free_chunks (demo_memory CHUNK_FULL) = (\<Union>i < 8. chunk_starts (object_address CHUNK_FULL 1) i)"
  by (rule object_allocator_setup_correct [OF demo_memory_setup])

lemma wrap_malloc_lemma:
  assumes "wrap_malloc k sz m = Inr (Some p, m')" and "mem_wf m"
  shows "mem_wf m' \<and> p \<in> free_chunks m \<and> free_chunks m' = free_chunks m - {p}
    \<and> (\<exists>i < 8. p \<in> chunk_starts (obj_base m) i \<and> obj_base m \<le> p \<and> p + chunk_bytes i \<le> obj_base m + MAX_MEMORY
         \<and> (sz \<le> 4096 \<longrightarrow> sz \<le> chunk_bytes i))"
  using assms
proof (rule wrap_malloc_Inr)
  fix i m1
  assume i: "size_class sz \<le> i" "i < 8" and top: "top_elem (areas m i) \<noteq> int (area_size (areas m i))"
    and p: "p = addresses (areas m i) (nat (top_elem (areas m i)))"
    and m1: "m1 = set_area i (top_elem_update (\<lambda>t. t + 1)) m"
    and m': "m' = (if k = CHUNK_FULL then set_area i (mark_chunk (chunk_number m1 i p)) m1 else m1)"
  note f = malloc_area [OF assms(2) i(2) top, folded p m1]
  have "mem_wf m'" using f(1) m' by (simp add: mem_wf_def)
  moreover have "free_chunks m' = free_chunks m1" by (rule free_chunks_cong) (simp add: m')
  moreover have "sz \<le> chunk_bytes i" if "sz \<le> 4096"
    using size_class_fits [OF that] chunk_bytes_mono [OF i(1)] by linarith
  moreover obtain c where "obj_base m \<le> p" "p + chunk_bytes i \<le> obj_base m + MAX_MEMORY"
    using chunk_startsE [OF f(2) i(2)] by metis
  ultimately show ?thesis using f i(2) by blast
qed

lemma demo_alloc_steps:
  "size_class 100 = 2" "find_area (demo_memory k) 2 = Inr 2" "262144 div chunk_bytes 2 = 2048"
proof -
  have up: "[0..<8] = [0, 1, 2, 3, 4, 5, 6, 7::nat]" by (simp add: upt_rec)
  show "size_class 100 = 2" by (simp add: size_class_def up chunk_bytes_power)
  show "262144 div chunk_bytes 2 = 2048" by (simp add: chunk_bytes_power)
  then show "find_area (demo_memory k) 2 = Inr 2"
    using demo_areas [of 2 k] by (subst find_area.simps) (simp add: layout_values)
qed

lemma demo_alloc:
  "\<exists>m'. wrap_malloc k 100 (demo_memory k) = Inr (Some (object_address k 1 + 524288), m')"
  using demo_areas [of 2 k] by (simp add: wrap_malloc_def demo_alloc_steps Let_def)

text \<open>
  Property C26. An allocation hands out a chunk that was free, takes it (and nothing else) off the free
  chunks, stays inside the object's memory, and the chunk is large enough for every request of up to
  4096 bytes.
\<close>

theorem wrap_malloc_correct:
  assumes "wrap_malloc k sz m = Inr (Some p, m')" and "mem_wf m"
  shows "mem_wf m' \<and> p \<in> free_chunks m \<and> free_chunks m' = free_chunks m - {p}
    \<and> (\<exists>i < 8. p \<in> chunk_starts (obj_base m) i \<and> obj_base m \<le> p \<and> p + chunk_bytes i \<le> obj_base m + MAX_MEMORY
         \<and> (sz \<le> 4096 \<longrightarrow> sz \<le> chunk_bytes i))"
  by (rule wrap_malloc_lemma [OF assms])

theorem wrap_malloc_correct_witness:
  "\<exists>m'. wrap_malloc CHUNK_FULL 100 (demo_memory CHUNK_FULL) = Inr (Some (object_address CHUNK_FULL 1 + 524288), m')
     \<and> mem_wf m' \<and> free_chunks m' = free_chunks (demo_memory CHUNK_FULL) - {object_address CHUNK_FULL 1 + 524288}"
proof -
  obtain m' where m': "wrap_malloc CHUNK_FULL 100 (demo_memory CHUNK_FULL) = Inr (Some (object_address CHUNK_FULL 1 + 524288), m')"
    using demo_alloc [of CHUNK_FULL] by blast
  from wrap_malloc_correct [OF this] demo_memory_facts [of CHUNK_FULL] m' show ?thesis by blast
qed

text \<open>
  Requests above 4096 bytes are not refused: with a free chunk in the last area they are
  answered with a chunk of 4096 bytes, shorter than what was asked for.
\<close>

theorem wrap_malloc_oversized:
  assumes "4096 < sz" and "mem_wf m" and "top_elem (areas m 7) < int (area_size (areas m 7))"
  shows "\<exists>p m'. wrap_malloc k sz m = Inr (Some p, m') \<and> p \<in> chunk_starts (obj_base m) 7 \<and> chunk_bytes 7 < sz"
proof -
  have up: "[0..<8] = [0, 1, 2, 3, 4, 5, 6, 7::nat]" by (simp add: upt_rec)
  have "size_class sz = 7" using assms(1) by (simp add: size_class_def up chunk_bytes_power)
  moreover have "find_area m 7 = Inr 7"
    using assms(3) by (subst find_area.simps) (simp add: layout_values)
  moreover have "0 \<le> top_elem (areas m 7)" using assms(2) by (simp add: mem_wf_def area_wf_def)
  ultimately have "\<exists>m'. wrap_malloc k sz m = Inr (Some (addresses (areas m 7) (nat (top_elem (areas m 7)))), m')"
    using assms(1,3) by (auto simp: wrap_malloc_def Let_def)
  moreover have "addresses (areas m 7) (nat (top_elem (areas m 7))) \<in> chunk_starts (obj_base m) 7"
    using malloc_area(2) [OF assms(2), of 7] assms(3) by simp
  ultimately show ?thesis using assms(1) by (auto simp: chunk_bytes_power)
qed

theorem wrap_malloc_oversized_witness:
  "\<exists>p m'. wrap_malloc PLAIN 5000 (demo_memory PLAIN) = Inr (Some p, m') \<and> p \<in> chunk_starts (obj_base (demo_memory PLAIN)) 7
     \<and> chunk_bytes 7 < 5000"
  by (rule wrap_malloc_oversized) (use demo_memory_facts [of PLAIN] demo_areas [of 7 PLAIN] in \<open>simp_all add: chunk_bytes_power\<close>)

text \<open>
  Property C25. Freeing an allocated chunk puts it, and nothing else, back on the free chunks and keeps
  the allocator well-formed.
\<close>

theorem wrap_free_correct:
  assumes "mem_wf m" and "i < 8" and "p \<in> chunk_starts (obj_base m) i" and "p \<notin> free_chunks m"
  shows "\<exists>m'. wrap_free k p m = Inr m' \<and> mem_wf m' \<and> free_chunks m' = insert p (free_chunks m)"
proof -
  let ?a = "areas m i"
  have a: "area_wf (obj_base m) i ?a" using assms(1,2) by (simp add: mem_wf_def)
  have nf: "p \<notin> set (free_list ?a)" using assms free_chunks_split by blast
  from chunk_startsE [OF assms(3,2)] obtain c where range: "obj_base m \<le> p" "p + chunk_bytes i \<le> obj_base m + MAX_MEMORY"
    by metis
  have idx: "area_index m p = i" by (rule area_index_chunk [OF assms(3,2)])
  let ?t = "top_elem ?a - 1"
  have pos: "0 < top_elem ?a"
  proof (rule ccontr)
    assume "\<not> 0 < top_elem ?a"
    with a have "top_elem ?a = 0" by (auto simp: area_wf_def)
    then have len: "length (free_list ?a) = area_size ?a" by (simp add: free_list_def)
    have "card (chunk_starts (obj_base m) i) \<le> area_size ?a"
      using a card_image_le [of "{..<262144 div chunk_bytes i}"] by (simp add: chunk_starts_def area_wf_def)
    moreover have "card (set (free_list ?a)) = area_size ?a" using a len distinct_card by (metis area_wf_def)
    ultimately have "set (free_list ?a) = chunk_starts (obj_base m) i"
      using a card_seteq [of "chunk_starts (obj_base m) i" "set (free_list ?a)"]
      by (simp add: area_wf_def chunk_starts_def)
    with nf assms(3) show False by simp
  qed
  have t: "0 \<le> ?t" "?t < int (area_size ?a)" using pos a by (auto simp: area_wf_def)
  let ?f = "\<lambda>a. a\<lparr>top_elem := ?t, addresses := (addresses a)(nat ?t := p)\<rparr>"
  let ?m1 = "set_area i ?f m"
  have fl: "free_list (areas ?m1 i) = p # free_list ?a"
    using free_list_push [OF t, of p] by simp
  have "area_wf (obj_base m) i (areas ?m1 i)"
    using a fl nf t assms(3) unfolding area_wf_def by auto
  then have wf1: "mem_wf ?m1" using assms(1) by (simp add: mem_wf_def)
  have "free_chunks ?m1 = insert p (free_chunks m)"
  proof -
    have "(\<Union>j < 8. set (free_list (areas ?m1 j))) = (\<Union>j < 8. (if j = i then {p} else {}) \<union> set (free_list (areas m j)))"
      by (rule SUP_cong) (use fl in auto)
    then show ?thesis using assms(2) by (auto simp: free_chunks_def split: if_splits)
  qed
  let ?m2 = "if k = CHUNK_FULL then set_area i (unmark_chunk (chunk_number ?m1 i p)) ?m1 else ?m1"
  have "p < obj_base m + MAX_MEMORY" using range chunk_bytes_pos [of i] by linarith
  then have "wrap_free k p m = Inr ?m2"
    using range(1) t by (simp add: wrap_free_def idx Let_def)
  moreover have "mem_wf ?m2" using wf1 by (auto simp: mem_wf_def)
  moreover have "free_chunks ?m2 = free_chunks ?m1" by (rule free_chunks_cong) simp
  moreover note \<open>free_chunks ?m1 = insert p (free_chunks m)\<close>
  ultimately show ?thesis by (intro exI [of _ ?m2]) (simp only: simp_thms)
qed

theorem wrap_free_correct_witness:
  "\<exists>m' m''. wrap_malloc CHUNK_FULL 100 (demo_memory CHUNK_FULL) = Inr (Some (object_address CHUNK_FULL 1 + 524288), m')
     \<and> wrap_free CHUNK_FULL (object_address CHUNK_FULL 1 + 524288) m' = Inr m'' \<and> mem_wf m''
     \<and> free_chunks m'' = insert (object_address CHUNK_FULL 1 + 524288) (free_chunks m')"
proof -
  let ?p = "object_address CHUNK_FULL 1 + 524288"
  obtain m' where m': "wrap_malloc CHUNK_FULL 100 (demo_memory CHUNK_FULL) = Inr (Some ?p, m')"
    using demo_alloc [of CHUNK_FULL] by blast
  note f = wrap_malloc_lemma [OF m' conjunct1 [OF demo_memory_facts]]
  have "obj_base m' = object_address CHUNK_FULL 1"
    using m' demo_memory_facts [of CHUNK_FULL] by (auto simp: wrap_malloc_def and_then_eq_Inr Let_def split: if_splits)
  then have "?p \<in> chunk_starts (obj_base m') 2" by (auto simp: chunk_starts_def chunk_bytes_power intro: image_eqI [of _ _ 0])
  from wrap_free_correct [OF _ _ this] f m' show ?thesis by fastforce
qed

section \<open>Rolling back the free stacks\<close>

datatype alloc_op = Malloc nat | Free nat

definition alloc_run :: "backend \<Rightarrow> alloc_op \<Rightarrow> obj_memory \<Rightarrow> obj_memory outcome" where
  "alloc_run k w m = (case w of
     Malloc sz \<Rightarrow> and_then (wrap_malloc k sz m) (\<lambda>(p, m'). Inr m')
   | Free p \<Rightarrow> wrap_free k p m)"

definition alloc_put :: "backend \<Rightarrow> alloc_op \<Rightarrow> obj_memory \<Rightarrow> obj_memory" where
  "alloc_put k w m = (case alloc_run k w m of Inl x \<Rightarrow> m | Inr m' \<Rightarrow> m')"

definition alloc_view :: "obj_memory \<Rightarrow> nat list list" where
  "alloc_view m = map (\<lambda>i. free_list (areas m i)) [0..<8]"

definition alloc_keeps :: "nat list list \<Rightarrow> obj_memory \<Rightarrow> bool" where
  "alloc_keeps v m \<longleftrightarrow> v = map (\<lambda>i. map (addresses_ckpt (areas m i)) [nat (top_elem_ckpt (areas m i))..<area_size (areas m i)]) [0..<8]"

lemma fold_set_area:
  "areas (fold (\<lambda>i. set_area i f) [0..<n] m) j = (if j < n then f (areas m j) else areas m j)"
  by (induction n) auto

lemma map_copy_from:
  "map (copy_from t n src dst) [nat t..<n] = map src [nat t..<n]"
  by (auto simp: copy_from_def)

lemma alloc_run_ckpt:
  assumes "alloc_run k w m = Inr m'"
  shows "addresses_ckpt (areas m' i) = addresses_ckpt (areas m i) \<and> top_elem_ckpt (areas m' i) = top_elem_ckpt (areas m i)
    \<and> area_size (areas m' i) = area_size (areas m i)"
  using assms
  by (cases w) (auto simp: alloc_run_def and_then_eq_Inr wrap_malloc_def wrap_free_def Let_def mark_chunk_def
      unmark_chunk_def split: if_splits)

interpretation free_stacks: snapshot_backend "\<lambda>m. True" alloc_view "set_allocator_ckpt k"
  "\<lambda>w m. \<exists>m'. alloc_run k w m = Inr m'" "alloc_put k" restore_allocator alloc_keeps for k
proof unfold_locales
  show "alloc_keeps (alloc_view m) (set_allocator_ckpt k m)" for m
    by (simp add: alloc_keeps_def alloc_view_def set_allocator_ckpt_def fold_set_area save_area_def map_copy_from
        free_list_def cong: map_cong)
  show "alloc_keeps v (alloc_put k w m)" if "alloc_keeps v m" "\<exists>m'. alloc_run k w m = Inr m'" for v m w
    using that alloc_run_ckpt by (auto simp: alloc_keeps_def alloc_put_def)
  show "alloc_keeps v (restore_allocator m)" if "alloc_keeps v m" for v m
    using that by (simp add: alloc_keeps_def restore_allocator_def fold_set_area load_area_def cong: map_cong)
  show "alloc_view (restore_allocator m) = v" if "alloc_keeps v m" for v m
    using that by (simp add: alloc_keeps_def alloc_view_def restore_allocator_def fold_set_area load_area_def
        free_list_def map_copy_from cong: map_cong)
qed

text \<open>
  Whatever an object allocates and frees after a checkpoint, restoring its allocator gives
  back exactly the free stacks it had at the checkpoint, in the same order.
\<close>

theorem restore_allocator_correct:
  assumes "legal_run (\<lambda>w m. \<exists>m'. alloc_run k w m = Inr m') (alloc_put k) ws (set_allocator_ckpt k m)"
  shows "alloc_view (restore_allocator (fold (alloc_put k) ws (set_allocator_ckpt k m))) = alloc_view m"
  by (rule free_stacks.rollback_undoes [OF TrueI assms])

theorem restore_allocator_correct_witness:
  "alloc_view (restore_allocator (fold (alloc_put CHUNK_FULL) [Malloc 100] (set_allocator_ckpt CHUNK_FULL (demo_memory CHUNK_FULL))))
     = alloc_view (demo_memory CHUNK_FULL)"
proof (rule restore_allocator_correct)
  let ?m = "set_allocator_ckpt CHUNK_FULL (demo_memory CHUNK_FULL)"
  have a: "areas ?m i = save_area CHUNK_FULL (areas (demo_memory CHUNK_FULL) i)" if "i < 8" for i
    using that by (simp add: set_allocator_ckpt_def fold_set_area)
  have "find_area ?m 2 = Inr 2" using demo_areas [of 2 CHUNK_FULL]
    by (subst find_area.simps) (simp add: layout_values a save_area_def chunk_bytes_power)
  then have "\<exists>m'. alloc_run CHUNK_FULL (Malloc 100) ?m = Inr m'"
    using demo_areas [of 2 CHUNK_FULL] by (simp add: alloc_run_def wrap_malloc_def demo_alloc_steps Let_def a save_area_def)
  then show "legal_run (\<lambda>w m. \<exists>m'. alloc_run CHUNK_FULL w m = Inr m') (alloc_put CHUNK_FULL) [Malloc 100] ?m" by simp
qed

end
