(* ===== verification/Chunk_Ckpt.thy ===== *)
theory Chunk_Ckpt
  imports Allocator
begin

text \<open>
  The two chunk backends: the seeds and the object-level checkpoint of \<open>chunk_ckpt/chunk_ckpt.c\<close>, over
  the chunk copies of \<open>memory/memory.c\<close> and the instrumentation hook of \<open>MVM_CHUNK/patches/patches.c\<close>.
  \<open>CHUNK_BASED_SAVE\<close> copies a chunk to its shadow at the first store after a checkpoint; \<open>CHUNK_FULL\<close>
  copies every used chunk when the checkpoint is set.
\<close>

section \<open>An object\<close>

text \<open>The object's memory, its two seeds and their saved values, and the area the \<open>DEBUG\<close> build compares with.\<close>

record ckpt_object =
  om :: obj_memory
  seed1 :: "32 word"
  seed2 :: "32 word"
  saved_seed1 :: "32 word"
  saved_seed2 :: "32 word"
  shadow_area :: "(nat \<Rightarrow> byte) option"

definition save_seeds :: "ckpt_object \<Rightarrow> ckpt_object" where
  "save_seeds x = x\<lparr>saved_seed1 := seed1 x, saved_seed2 := seed2 x\<rparr>"

definition restore_seeds :: "ckpt_object \<Rightarrow> ckpt_object" where
  "restore_seeds x = x\<lparr>seed1 := saved_seed1 x, seed2 := saved_seed2 x\<rparr>"

definition memcmp_equal :: "(nat \<Rightarrow> byte) \<Rightarrow> (nat \<Rightarrow> byte) \<Rightarrow> nat \<Rightarrow> nat \<Rightarrow> bool" where
  "memcmp_equal f g from n = list_all (\<lambda>i. f i = g i) [from..<from + n]"

definition area_of :: "obj_memory \<Rightarrow> nat \<Rightarrow> byte" where
  "area_of m offset = bytes m (obj_base m + offset)"

definition area_view :: "obj_memory \<Rightarrow> nat \<Rightarrow> byte" where
  "area_view m = (\<lambda>x. if x < MAX_MEMORY then area_of m x else 0)"

definition verify_restored_area :: "(nat \<Rightarrow> byte) \<Rightarrow> (nat \<Rightarrow> byte) \<Rightarrow> unit outcome" where
  "verify_restored_area f g =
     (if list_all (\<lambda>k. memcmp_equal f g (32 * k) 32) [0..<MAX_MEMORY div 32] then Inr () else Inl Exit_Failure)"

text \<open>The shadow area of the debug build: mapped once (\<open>mapped\<close>: \<open>mmap\<close> succeeds), then filled.\<close>

definition fill_shadow :: "bool \<Rightarrow> ckpt_object \<Rightarrow> ckpt_object outcome" where
  "fill_shadow mapped x =
     (if shadow_area x = None \<and> \<not> mapped then Inl Exit_Failure
      else let x1 = x\<lparr>shadow_area := Some (area_view (om x))\<rparr> in
        if memcmp_equal (the (shadow_area x1)) (area_of (om x1)) 0 MAX_MEMORY then Inr x1 else Inl Exit_Failure)"

text \<open>Comparing with a shadow area that was never mapped reads through a null pointer.\<close>

definition check_shadow :: "ckpt_object \<Rightarrow> ckpt_object outcome" where
  "check_shadow x =
     (case shadow_area x of
        None \<Rightarrow> Inl Undefined
      | Some sa \<Rightarrow>
          if memcmp_equal sa (area_of (om x)) 0 MAX_MEMORY then Inr x
          else and_then (verify_restored_area (area_of (om x)) sa) (\<lambda>_. Inl Exit_Failure))"

definition chunk_set_ckpt :: "bool \<Rightarrow> backend \<Rightarrow> bool \<Rightarrow> ckpt_object \<Rightarrow> ckpt_object outcome" where
  "chunk_set_ckpt debug k mapped x =
     (let x1 = save_seeds x; x2 = x1\<lparr>om := set_allocator_ckpt k (om x1)\<rparr> in
      and_then (if debug then fill_shadow mapped x2 else Inr x2)
        (\<lambda>x3. Inr (if k = CHUNK_FULL then x3\<lparr>om := set_used_chunks_ckpt (om x3)\<rparr> else x3)))"

definition chunk_restore_object :: "bool \<Rightarrow> backend \<Rightarrow> ckpt_object \<Rightarrow> ckpt_object outcome" where
  "chunk_restore_object debug k x =
     (let x1 = x\<lparr>om := restore_allocator (om x)\<rparr>;
          x2 = x1\<lparr>om := (if k = CHUNK_FULL then restore_chunks_full (om x1) else restore_chunks_save (om x1))\<rparr>;
          x3 = restore_seeds x2 in
      if debug then check_shadow x3 else Inr x3)"

section \<open>Geometry of the chunks\<close>

definition geometry :: "obj_memory \<Rightarrow> bool" where
  "geometry m \<longleftrightarrow> (\<forall>i < 8. area_base (areas m i) = obj_base m + i * 262144
     \<and> area_size (areas m i) = 262144 div chunk_bytes i)"

text \<open>Area and chunk of an offset into the object's memory.\<close>

definition chunk_in :: "nat \<Rightarrow> nat" where
  "chunk_in x = (x mod 262144) div chunk_bytes (x div 262144)"

definition picked :: "(nat \<Rightarrow> byte) \<Rightarrow> nat \<Rightarrow> bool" where
  "picked bm c \<longleftrightarrow> bit (bm (c div 8)) (c mod 8)"

definition clean_bits :: "nat \<Rightarrow> (nat \<Rightarrow> byte) \<Rightarrow> bool" where
  "clean_bits i bm \<longleftrightarrow> (\<forall>c. 262144 div chunk_bytes i \<le> c \<longrightarrow> c < 262144 div chunk_bytes i * 8 \<longrightarrow> \<not> picked bm c)"

lemma mem_wf_geometry: "mem_wf m \<Longrightarrow> geometry m"
  by (auto simp: mem_wf_def area_wf_def geometry_def)

lemma copy_bits_fold:
  "copy_bits b0 cs d s b j =
     fold (\<lambda>k mem. if bit b k then memcpy mem (b0 + (j * 8 + k) * cs + d) (b0 + (j * 8 + k) * cs + s) cs else mem) [0..<8]"
proof (cases "b = 0")
  case True
  then have "fold (\<lambda>k mem. if bit b k then memcpy mem (b0 + (j * 8 + k) * cs + d) (b0 + (j * 8 + k) * cs + s) cs else mem)
      [0..<8] mem = mem" for mem :: memory
    by (simp add: fold_invariant [where P = "\<lambda>x. x = mem" and Q = "\<lambda>_. True"])
  then show ?thesis using True by (auto simp: copy_bits_def)
qed (simp add: copy_bits_def bitmap_simps fun_eq_iff)

lemma copy_marked_cells:
  "copy_marked b0 cs d s bm n = copy_cells (picked bm) cs (b0 + d) (b0 + s) (n * 8)"
proof -
  let ?f = "\<lambda>c mem. if picked bm c then memcpy mem (b0 + d + c * cs) (b0 + s + c * cs) cs else mem"
  have e: "copy_marked b0 cs d s bm n mem = fold (\<lambda>j. fold (\<lambda>k. ?f (j * 8 + k)) [0..<8]) [0..<n] mem" for mem
    unfolding copy_marked_def copy_bits_fold
    by (rule fold_cong, rule refl, rule refl, rule ext, rule fold_cong, rule refl, rule refl)
      (auto simp: picked_def add_ac)
  show ?thesis by (rule ext) (simp only: e fold_blocks [of ?f] copy_cells_def)
qed

definition shift_pair :: "nat \<Rightarrow> nat \<Rightarrow> bool" where
  "shift_pair d s \<longleftrightarrow> d = 0 \<and> s = MAX_MEMORY \<or> d = MAX_MEMORY \<and> s = 0"

text \<open>What copying the marked chunks of area \<open>i\<close> does to one byte.\<close>

lemma area_copy:
  assumes i: "i < 8" and sh: "shift_pair d s" and cl: "clean_bits i bm"
  shows "copy_marked (b + i * 262144) (chunk_bytes i) d s bm (262144 div chunk_bytes i) mem a =
    (if b + d \<le> a \<and> a < b + d + MAX_MEMORY \<and> (a - (b + d)) div 262144 = i \<and> picked bm (chunk_in (a - (b + d)))
     then mem (b + s + (a - (b + d))) else mem a)"
proof -
  let ?cs = "chunk_bytes i" and ?n = "262144 div chunk_bytes i"
  have tot: "?n * 8 * ?cs = MAX_MEMORY" using chunk_bytes_fill [OF i] by (simp add: layout_values mult.commute mult.left_commute)
  have at: "copy_marked (b + i * 262144) ?cs d s bm ?n mem a =
    (if b + i * 262144 + d \<le> a \<and> a < b + i * 262144 + d + MAX_MEMORY \<and> picked bm ((a - (b + i * 262144 + d)) div ?cs)
     then mem (b + i * 262144 + s + (a - (b + i * 262144 + d))) else mem a)"
    unfolding copy_marked_cells using sh
    by (subst copy_cells_at) (auto simp: tot shift_pair_def)
  show ?thesis
  proof (cases "b + i * 262144 + d \<le> a \<and> a < b + i * 262144 + d + 262144")
    case True
    define x where "x = a - (b + d)"
    have x: "i * 262144 \<le> x" "x < i * 262144 + 262144" "a = b + d + x" using True by (auto simp: x_def)
    then have "x div 262144 = i" by (intro div_nat_eqI) auto
    moreover have "x mod 262144 = x - i * 262144" using \<open>x div 262144 = i\<close> by (metis minus_div_mult_eq_mod)
    ultimately have "(a - (b + i * 262144 + d)) div ?cs = chunk_in x" using x by (simp add: chunk_in_def)
    moreover have "x < MAX_MEMORY" using x i by (simp add: layout_values)
    ultimately show ?thesis using x \<open>x div 262144 = i\<close> unfolding at by (auto simp: layout_values add.assoc)
  next
    case False
    have no: "\<not> picked bm ((a - (b + i * 262144 + d)) div ?cs)"
      if "b + i * 262144 + d \<le> a" "a < b + i * 262144 + d + MAX_MEMORY"
    proof -
      let ?c = "(a - (b + i * 262144 + d)) div ?cs"
      have "262144 \<le> a - (b + i * 262144 + d)" using False that by linarith
      then have "?n \<le> ?c" by (rule div_le_mono)
      moreover have "?c < ?n * 8" using that tot by (intro div_less_iff_less_mult [THEN iffD2]) auto
      ultimately show ?thesis using cl by (simp add: clean_bits_def)
    qed
    have "\<not> (b + d \<le> a \<and> a < b + d + MAX_MEMORY \<and> (a - (b + d)) div 262144 = i)"
    proof
      assume h: "b + d \<le> a \<and> a < b + d + MAX_MEMORY \<and> (a - (b + d)) div 262144 = i"
      then have "i * 262144 \<le> a - (b + d)" "a - (b + d) < i * 262144 + 262144"
        using div_mult_mod_eq [of "a - (b + d)" 262144] mod_less_divisor [of 262144 "a - (b + d)"] by linarith+
      with False h show False by linarith
    qed
    with no show ?thesis unfolding at by auto
  qed
qed

text \<open>What the loop over the areas does: every marked byte of the destination gets its source byte.\<close>

definition marked :: "(area \<Rightarrow> nat \<Rightarrow> byte) \<Rightarrow> obj_memory \<Rightarrow> nat \<Rightarrow> bool" where
  "marked sel m x \<longleftrightarrow> picked (sel (areas m (x div 262144))) (chunk_in x)"

definition copy_loop :: "(area \<Rightarrow> area) \<Rightarrow> (area \<Rightarrow> nat \<Rightarrow> byte) \<Rightarrow> nat \<Rightarrow> nat \<Rightarrow> nat \<Rightarrow> obj_memory \<Rightarrow> obj_memory" where
  "copy_loop f sel d s n m = fold (\<lambda>i m. let a = areas m i in set_area i f
       (m\<lparr>bytes := copy_marked (area_base a) (chunk_bytes i) d s (sel a) (area_size a) (bytes m)\<rparr>)) [0..<n] m"

lemma copy_loop_Suc:
  "copy_loop f sel d s (Suc n) m = (let R = copy_loop f sel d s n m; a = areas R n in set_area n f
       (R\<lparr>bytes := copy_marked (area_base a) (chunk_bytes n) d s (sel a) (area_size a) (bytes R)\<rparr>))"
  unfolding copy_loop_def Let_def by simp

lemma copy_areas:
  fixes f :: "area \<Rightarrow> area" and sel :: "area \<Rightarrow> nat \<Rightarrow> byte"
  assumes "geometry m" and sh: "shift_pair d s" and "n \<le> 8" and "\<forall>i < n. clean_bits i (sel (areas m i))"
  defines "R \<equiv> copy_loop f sel d s n m"
    and "b \<equiv> obj_base m"
  shows "obj_base R = b" and "areas R j = (if j < n then f (areas m j) else areas m j)"
    and "bytes R a = (if b + d \<le> a \<and> a < b + d + MAX_MEMORY \<and> (a - (b + d)) div 262144 < n \<and> marked sel m (a - (b + d))
       then bytes m (b + s + (a - (b + d))) else bytes m a)"
proof -
  have "obj_base R = b \<and> (\<forall>j. areas R j = (if j < n then f (areas m j) else areas m j))
    \<and> (\<forall>a. bytes R a = (if b + d \<le> a \<and> a < b + d + MAX_MEMORY \<and> (a - (b + d)) div 262144 < n \<and> marked sel m (a - (b + d))
       then bytes m (b + s + (a - (b + d))) else bytes m a))"
    using assms(3,4) unfolding R_def
  proof (induction n)
    case 0
    then show ?case by (simp add: b_def copy_loop_def)
  next
    case (Suc n)
    let ?R = "copy_loop f sel d s n m"
    from Suc have IH: "obj_base ?R = b" "\<And>j. areas ?R j = (if j < n then f (areas m j) else areas m j)"
      "\<And>a. bytes ?R a = (if b + d \<le> a \<and> a < b + d + MAX_MEMORY \<and> (a - (b + d)) div 262144 < n \<and> marked sel m (a - (b + d))
       then bytes m (b + s + (a - (b + d))) else bytes m a)" by auto
    have n: "n < 8" "clean_bits n (sel (areas m n))" using Suc.prems by auto
    have g: "area_base (areas m n) = b + n * 262144" "area_size (areas m n) = 262144 div chunk_bytes n"
      using assms(1) n by (simp_all add: geometry_def b_def)
    have src: "bytes ?R (b + s + x) = bytes m (b + s + x)" if "x < MAX_MEMORY" for x
      using sh that by (auto simp: IH shift_pair_def)
    have "bytes (copy_loop f sel d s (Suc n) m) a
      = (if b + d \<le> a \<and> a < b + d + MAX_MEMORY \<and> (a - (b + d)) div 262144 < Suc n \<and> marked sel m (a - (b + d))
       then bytes m (b + s + (a - (b + d))) else bytes m a)" for a
    proof -
      define x where "x = a - (b + d)"
      have xs: "bytes ?R (b + s + x) = bytes m (b + s + x)" if "b + d \<le> a" "a < b + d + MAX_MEMORY"
        using that by (intro src) (simp add: x_def)
      show ?thesis
        using area_copy [OF n(1) sh n(2), of b "bytes ?R" a] xs IH(3) [of a]
        by (auto simp: copy_loop_Suc Let_def IH(2) g x_def [symmetric] less_Suc_eq marked_def)
    qed
    then show ?case using IH by (auto simp: copy_loop_Suc Let_def less_Suc_eq)
  qed
  then show "obj_base R = b" "areas R j = (if j < n then f (areas m j) else areas m j)"
    "bytes R a = (if b + d \<le> a \<and> a < b + d + MAX_MEMORY \<and> (a - (b + d)) div 262144 < n \<and> marked sel m (a - (b + d))
       then bytes m (b + s + (a - (b + d))) else bytes m a)" by auto
qed

lemma offset_area: "x < MAX_MEMORY \<Longrightarrow> x div 262144 < 8"
  by (simp add: layout_values div_less_iff_less_mult)

definition cleared :: "(nat \<Rightarrow> byte) \<Rightarrow> nat \<Rightarrow> nat \<Rightarrow> byte" where
  "cleared bm n = (\<lambda>j. if j < n then 0 else bm j)"

lemma restore_chunks_save_effect:
  assumes "geometry m" and "\<forall>i < 8. clean_bits i (bitmap (areas m i))"
  shows "obj_base (restore_chunks_save m) = obj_base m"
    and "areas (restore_chunks_save m) j = (if j < 8 then bitmap_update (\<lambda>bm. cleared bm (area_size (areas m j))) (areas m j) else areas m j)"
    and "bytes (restore_chunks_save m) a = (if obj_base m \<le> a \<and> a < obj_base m + MAX_MEMORY \<and> marked bitmap m (a - obj_base m)
       then bytes m (a + MAX_MEMORY) else bytes m a)"
proof -
  have r: "restore_chunks_save m = copy_loop (\<lambda>a. a\<lparr>bitmap := (\<lambda>j. if j < area_size a then 0 else bitmap a j)\<rparr>)
      bitmap 0 MAX_MEMORY 8 m"
    by (simp add: restore_chunks_save_def copy_loop_def)
  note c = copy_areas [OF assms(1) _ order_refl assms(2), of 0 MAX_MEMORY
      "\<lambda>a. a\<lparr>bitmap := (\<lambda>j. if j < area_size a then 0 else bitmap a j)\<rparr>", folded r]
  show "obj_base (restore_chunks_save m) = obj_base m" by (rule c) (simp add: shift_pair_def)
  show "areas (restore_chunks_save m) j = (if j < 8 then bitmap_update (\<lambda>bm. cleared bm (area_size (areas m j))) (areas m j) else areas m j)"
    by (subst c) (simp_all add: shift_pair_def cleared_def)
  show "bytes (restore_chunks_save m) a = (if obj_base m \<le> a \<and> a < obj_base m + MAX_MEMORY \<and> marked bitmap m (a - obj_base m)
       then bytes m (a + MAX_MEMORY) else bytes m a)"
    by (subst c) (auto simp: shift_pair_def offset_area add.commute)
qed

section \<open>The copies on first write\<close>

lemma chunk_coords:
  assumes "x < MAX_MEMORY"
  defines "i \<equiv> x div 262144" and "c \<equiv> chunk_in x"
  shows "i < 8" and "c < 262144 div chunk_bytes i" and "c * chunk_bytes i + chunk_bytes i \<le> 262144"
    and "i * 262144 + c * chunk_bytes i \<le> x" and "x < i * 262144 + c * chunk_bytes i + chunk_bytes i"
proof -
  show i: "i < 8" using assms offset_area by blast
  have "x mod 262144 < 262144 div chunk_bytes i * chunk_bytes i" by (simp add: chunk_bytes_fill [OF i])
  then show c: "c < 262144 div chunk_bytes i" unfolding c_def chunk_in_def i_def [symmetric]
    by (simp add: div_less_iff_less_mult)
  then show "c * chunk_bytes i + chunk_bytes i \<le> 262144" by (rule chunk_inside [OF _ i])
  have "x = i * 262144 + x mod 262144" by (simp add: i_def)
  moreover have "x mod 262144 = c * chunk_bytes i + (x mod 262144) mod chunk_bytes i"
    by (simp add: c_def chunk_in_def i_def)
  moreover have "(x mod 262144) mod chunk_bytes i < chunk_bytes i" by simp
  ultimately show "i * 262144 + c * chunk_bytes i \<le> x" "x < i * 262144 + c * chunk_bytes i + chunk_bytes i"
    by linarith+
qed

lemma chunk_coordsI:
  assumes "i * 262144 + c * chunk_bytes i \<le> x" and "x < i * 262144 + c * chunk_bytes i + chunk_bytes i"
    and "c * chunk_bytes i + chunk_bytes i \<le> 262144"
  shows "x div 262144 = i \<and> chunk_in x = c"
proof -
  have "i * 262144 \<le> x" "x < i * 262144 + 262144" using assms by linarith+
  then have d: "x div 262144 = i" by (intro div_nat_eqI) auto
  then have m: "x mod 262144 = x - i * 262144" by (metis minus_div_mult_eq_mod)
  have "(x - i * 262144) div chunk_bytes i = c" using assms by (intro div_nat_eqI) (auto simp: algebra_simps)
  then show ?thesis by (simp add: d m chunk_in_def)
qed

text \<open>The bytes \<open>v\<close> of the object at the last checkpoint can be read off its memory and its shadow.\<close>

definition save_keeps :: "(nat \<Rightarrow> byte) \<Rightarrow> obj_memory \<Rightarrow> bool" where
  "save_keeps v m \<longleftrightarrow> geometry m \<and> (\<forall>i < 8. clean_bits i (bitmap (areas m i)))
     \<and> (\<forall>x < MAX_MEMORY. v x = (if marked bitmap m x then bytes m (obj_base m + MAX_MEMORY + x) else bytes m (obj_base m + x)))
     \<and> (\<forall>x \<ge> MAX_MEMORY. v x = 0)"

text \<open>Two memories that agree but for their stacks.\<close>

definition same_chunks :: "obj_memory \<Rightarrow> obj_memory \<Rightarrow> bool" where
  "same_chunks m n \<longleftrightarrow> obj_base m = obj_base n \<and> bytes m = bytes n \<and> (\<forall>i. area_base (areas m i) = area_base (areas n i)
     \<and> area_size (areas m i) = area_size (areas n i) \<and> bitmap_ckpt (areas m i) = bitmap_ckpt (areas n i))"

lemma same_chunks_geometry: "same_chunks m n \<Longrightarrow> geometry m = geometry n"
  by (simp add: same_chunks_def geometry_def)

lemma save_keeps_cong:
  assumes "same_chunks m n" and "\<And>i. bitmap (areas m i) = bitmap (areas n i)"
  shows "save_keeps v m = save_keeps v n"
  using assms same_chunks_geometry [OF assms(1)] by (simp add: save_keeps_def marked_def same_chunks_def)

lemma save_keeps_mark:
  assumes "geometry m"
  shows "save_keeps (area_view m) (set_allocator_ckpt CHUNK_BASED_SAVE m)"
proof -
  let ?n = "set_allocator_ckpt CHUNK_BASED_SAVE m"
  have f: "obj_base ?n = obj_base m" "bytes ?n = bytes m"
    by (simp_all add: set_allocator_ckpt_def fold_invariant [where P = "\<lambda>x. obj_base x = obj_base m" and Q = "\<lambda>_. True"]
        fold_invariant [where P = "\<lambda>x. bytes x = bytes m" and Q = "\<lambda>_. True"])
  have a: "areas ?n i = (if i < 8 then save_area CHUNK_BASED_SAVE (areas m i) else areas m i)" for i
    by (simp add: set_allocator_ckpt_def fold_set_area)
  have g: "geometry ?n" using assms by (simp add: geometry_def a f save_area_def)
  have none: "\<not> picked (bitmap (areas ?n i)) c" if "i < 8" "c < 262144 div chunk_bytes i * 8" for i c
    using that assms by (auto simp: picked_def a save_area_def geometry_def div_less_iff_less_mult)
  have "\<not> marked bitmap ?n x" if "x < MAX_MEMORY" for x
    using chunk_coords [OF that] none [of "x div 262144" "chunk_in x"] by (simp add: marked_def)
  then show ?thesis using g none by (auto simp: save_keeps_def clean_bits_def area_view_def area_of_def f)
qed

lemma save_keeps_restore:
  assumes "save_keeps v m"
  shows "save_keeps v (restore_chunks_save m)" and "area_view (restore_chunks_save m) = v"
proof -
  let ?r = "restore_chunks_save m"
  note k = assms [unfolded save_keeps_def]
  note e = restore_chunks_save_effect [OF conjunct1 [OF k]]
  have cl: "\<forall>i < 8. clean_bits i (bitmap (areas m i))" using k by blast
  note e = e [OF cl]
  have g: "area_size (areas m i) = 262144 div chunk_bytes i" if "i < 8" for i
    using k that by (auto simp: geometry_def)
  have none: "\<not> picked (bitmap (areas ?r i)) c" if "i < 8" "c < 262144 div chunk_bytes i * 8" for i c
    using that by (auto simp: picked_def e g cleared_def div_less_iff_less_mult)
  have nm: "\<not> marked bitmap ?r x" if "x < MAX_MEMORY" for x
    using chunk_coords [OF that] none [of "x div 262144" "chunk_in x"] by (simp add: marked_def)
  have byt: "bytes ?r (obj_base m + x) = v x" if "x < MAX_MEMORY" for x
    using k that by (auto simp: e add_ac)
  show "area_view ?r = v" using byt k by (auto simp: area_view_def area_of_def e fun_eq_iff)
  have "geometry ?r" using k by (simp add: geometry_def e)
  then show "save_keeps v ?r" using nm none byt k by (auto simp: save_keeps_def clean_bits_def e)
qed

text \<open>A store of \<open>n\<close> bytes at \<open>p\<close> that stays in one chunk.\<close>

definition within_chunk :: "obj_memory \<Rightarrow> nat \<Rightarrow> nat \<Rightarrow> bool" where
  "within_chunk m p n \<longleftrightarrow> obj_base m \<le> p \<and> p < obj_base m + MAX_MEMORY
     \<and> (p - obj_base m) mod 262144 mod chunk_bytes ((p - obj_base m) div 262144) + n
         \<le> chunk_bytes ((p - obj_base m) div 262144)"

lemma within_chunk_coords:
  assumes "within_chunk m p n"
  defines "i \<equiv> (p - obj_base m) div 262144" and "c \<equiv> chunk_in (p - obj_base m)"
  shows "obj_base m + i * 262144 + c * chunk_bytes i \<le> p"
    and "p + n \<le> obj_base m + i * 262144 + c * chunk_bytes i + chunk_bytes i"
proof -
  let ?x = "p - obj_base m"
  have p: "p = obj_base m + ?x" using assms by (simp add: within_chunk_def)
  have lim: "(?x mod 262144) mod chunk_bytes i + n \<le> chunk_bytes i" using assms by (simp add: within_chunk_def i_def)
  have "?x = i * 262144 + ?x mod 262144" by (simp add: i_def)
  moreover have "?x mod 262144 = c * chunk_bytes i + (?x mod 262144) mod chunk_bytes i"
    by (simp add: c_def chunk_in_def i_def)
  ultimately show "obj_base m + i * 262144 + c * chunk_bytes i \<le> p"
    "p + n \<le> obj_base m + i * 262144 + c * chunk_bytes i + chunk_bytes i"
    using p lim by linarith+
qed

lemma picked_mark [simp]: "picked (bitmap (mark_chunk c a)) k \<longleftrightarrow> k = c \<or> picked (bitmap a) k"
proof -
  have "k div 8 = c div 8 \<and> k mod 8 = c mod 8 \<longleftrightarrow> k = c" by (metis div_mult_mod_eq)
  then show ?thesis by (auto simp: picked_def mark_chunk_def bitmap_simps)
qed

lemma mark_chunk_fields [simp]:
  "area_base (mark_chunk c a) = area_base a" "area_size (mark_chunk c a) = area_size a"
  "bitmap_ckpt (mark_chunk c a) = bitmap_ckpt a" "addresses_ckpt (mark_chunk c a) = addresses_ckpt a"
  "top_elem_ckpt (mark_chunk c a) = top_elem_ckpt a" "top_elem (mark_chunk c a) = top_elem a"
  "addresses (mark_chunk c a) = addresses a"
  by (simp_all add: mark_chunk_def)

lemma area_index_div: "obj_base m \<le> p \<Longrightarrow> area_index m p = (p - obj_base m) div 262144"
  by (simp add: area_index_def layout_defs div_mult2_eq [symmetric])

lemma chunk_number_in:
  assumes "geometry m" and "obj_base m \<le> p" and "p < obj_base m + MAX_MEMORY"
  shows "chunk_number m (area_index m p) p = chunk_in (p - obj_base m)"
proof -
  let ?x = "p - obj_base m"
  have i: "?x div 262144 < 8" using assms by (intro offset_area) simp
  have "p - (obj_base m + ?x div 262144 * 262144) = ?x mod 262144"
    by (metis diff_diff_left minus_div_mult_eq_mod)
  then show ?thesis using assms(1,2) i by (simp add: chunk_number_def area_index_div geometry_def chunk_in_def)
qed

text \<open>The hook of a store, then the store.\<close>

definition save_store :: "nat \<Rightarrow> byte list \<Rightarrow> obj_memory \<Rightarrow> obj_memory outcome" where
  "save_store p bs m = and_then (ckpt_chunk p m) (\<lambda>m1. Inr (m1\<lparr>bytes := store_bytes (bytes m1) p bs\<rparr>))"

lemma save_keeps_store:
  assumes k: "save_keeps v m" and w: "within_chunk m p (length bs)"
  shows "\<exists>n. save_store p bs m = Inr n \<and> save_keeps v n
    \<and> (\<forall>i. free_list (areas n i) = free_list (areas m i) \<and> area_size (areas n i) = area_size (areas m i)
         \<and> addresses_ckpt (areas n i) = addresses_ckpt (areas m i) \<and> top_elem_ckpt (areas n i) = top_elem_ckpt (areas m i))"
proof -
  let ?b = "obj_base m" and ?x = "p - obj_base m"
  define i where "i = ?x div 262144"
  define c where "c = chunk_in ?x"
  have g: "geometry m" using k by (simp add: save_keeps_def)
  have p: "?b \<le> p" "p < ?b + MAX_MEMORY" using w by (simp_all add: within_chunk_def)
  have x: "?x < MAX_MEMORY" using p by simp
  have i: "i < 8" using offset_area [OF x] by (simp add: i_def)
  have cs: "c < 262144 div chunk_bytes i" "c * chunk_bytes i + chunk_bytes i \<le> 262144"
    using chunk_coords [OF x] by (simp_all add: i_def c_def)
  have rng: "?b + i * 262144 + c * chunk_bytes i \<le> p" "p + length bs \<le> ?b + i * 262144 + c * chunk_bytes i + chunk_bytes i"
    using within_chunk_coords [OF w] by (simp_all add: i_def c_def)
  have idx: "area_index m p = i" "chunk_number m i p = c"
    using chunk_number_in [OF g p] area_index_div [OF p(1)] by (simp_all add: i_def c_def)
  have base: "area_base (areas m i) = ?b + i * 262144" using g i by (simp add: geometry_def)
  define here where "here = ?b + i * 262144 + c * chunk_bytes i"
  define mk where "mk = picked (bitmap (areas m i)) c"
  define m1 where "m1 = (if mk then m else set_area i (mark_chunk c)
       (m\<lparr>bytes := memcpy (bytes m) (here + MAX_MEMORY) here (chunk_bytes i)\<rparr>))"
  have run: "ckpt_chunk p m = Inr m1"
    using p by (simp add: ckpt_chunk_def idx Let_def base m1_def here_def mk_def picked_def bitmap_simps add_ac)
  define n where "n = m1\<lparr>bytes := store_bytes (bytes m1) p bs\<rparr>"
  have ns: "save_store p bs m = Inr n" by (simp add: save_store_def run n_def)
  have f: "obj_base n = ?b" "area_base (areas n j) = area_base (areas m j)" "area_size (areas n j) = area_size (areas m j)"
    "addresses_ckpt (areas n j) = addresses_ckpt (areas m j)" "top_elem_ckpt (areas n j) = top_elem_ckpt (areas m j)"
    "free_list (areas n j) = free_list (areas m j)" for j
    by (simp_all add: n_def m1_def)
  have pk: "picked (bitmap (areas n j)) y \<longleftrightarrow> j = i \<and> y = c \<or> picked (bitmap (areas m j)) y" for j y
    by (auto simp: n_def m1_def mk_def)
  have same: "y div 262144 = i \<and> chunk_in y = c \<longleftrightarrow> here \<le> ?b + y \<and> ?b + y < here + chunk_bytes i" if "y < MAX_MEMORY" for y
  proof
    assume "y div 262144 = i \<and> chunk_in y = c"
    with chunk_coords(4,5) [OF that] show "here \<le> ?b + y \<and> ?b + y < here + chunk_bytes i" by (auto simp: here_def)
  next
    assume "here \<le> ?b + y \<and> ?b + y < here + chunk_bytes i"
    then show "y div 262144 = i \<and> chunk_in y = c" by (intro chunk_coordsI [OF _ _ cs(2)]) (auto simp: here_def)
  qed
  have here_max: "here + chunk_bytes i \<le> ?b + MAX_MEMORY" using cs(2) i by (simp add: here_def layout_values)
  have vs: "v y = (if marked bitmap m y then bytes m (?b + MAX_MEMORY + y) else bytes m (?b + y))" if "y < MAX_MEMORY" for y
    using k that by (simp add: save_keeps_def)
  have mkn: "marked bitmap n y \<longleftrightarrow> y div 262144 = i \<and> chunk_in y = c \<or> marked bitmap m y" for y
    by (auto simp: marked_def pk)
  have sh: "bytes n (?b + MAX_MEMORY + y) = bytes m1 (?b + MAX_MEMORY + y)" if "y < MAX_MEMORY" for y
    using rng here_max by (simp add: n_def here_def mem_simps)
  have vn: "v y = (if marked bitmap n y then bytes n (?b + MAX_MEMORY + y) else bytes n (?b + y))" if y: "y < MAX_MEMORY" for y
  proof (cases "y div 262144 = i \<and> chunk_in y = c")
    case True
    then have "marked bitmap m y \<longleftrightarrow> mk" by (simp add: marked_def mk_def)
    moreover have "bytes m1 (?b + MAX_MEMORY + y) = (if mk then bytes m (?b + MAX_MEMORY + y) else bytes m (?b + y))"
      using same [OF y] True by (simp add: m1_def memcpy_def)
    ultimately show ?thesis using True vs [OF y] sh [OF y] by (simp add: mkn)
  next
    case False
    have "bytes m1 (?b + MAX_MEMORY + y) = bytes m (?b + MAX_MEMORY + y)"
      using False same [OF y] by (auto simp: m1_def memcpy_def)
    moreover have "bytes n (?b + y) = bytes m1 (?b + y)"
      using False same [OF y] rng by (auto simp: n_def store_bytes_def here_def)
    moreover have "bytes m1 (?b + y) = bytes m (?b + y)"
      using y here_def by (auto simp: m1_def memcpy_def)
    ultimately show ?thesis using False vs [OF y] sh [OF y] by (auto simp: mkn)
  qed
  have "geometry n" using g by (simp add: geometry_def f)
  moreover have "clean_bits j (bitmap (areas n j))" if "j < 8" for j
    using k that cs(1) by (auto simp: save_keeps_def clean_bits_def pk)
  moreover have "\<forall>y \<ge> MAX_MEMORY. v y = 0" using k by (simp add: save_keeps_def)
  ultimately have "save_keeps v n" unfolding save_keeps_def f(1) using vn by blast
  with ns f show ?thesis by auto
qed

section \<open>The copies of all used chunks\<close>

text \<open>Which bytes belong to used chunks, and what they hold.\<close>

definition full_view :: "obj_memory \<Rightarrow> (nat \<Rightarrow> bool) \<times> (nat \<Rightarrow> byte)" where
  "full_view m = (\<lambda>x. x < MAX_MEMORY \<and> marked bitmap m x,
     \<lambda>x. if x < MAX_MEMORY \<and> marked bitmap m x then area_of m x else 0)"

definition full_keeps :: "(nat \<Rightarrow> bool) \<times> (nat \<Rightarrow> byte) \<Rightarrow> obj_memory \<Rightarrow> bool" where
  "full_keeps v m \<longleftrightarrow> geometry m \<and> (\<forall>i < 8. clean_bits i (bitmap_ckpt (areas m i)))
     \<and> (\<forall>x. fst v x = (x < MAX_MEMORY \<and> marked bitmap_ckpt m x))
     \<and> (\<forall>x. snd v x = (if fst v x then bytes m (obj_base m + MAX_MEMORY + x) else 0))"

lemma full_keeps_cong:
  assumes "same_chunks m n"
  shows "full_keeps v m = full_keeps v n"
  using assms same_chunks_geometry [OF assms] by (simp add: full_keeps_def marked_def same_chunks_def)

lemma picked_prefix:
  "c < n * 8 \<Longrightarrow> picked (\<lambda>j. if j < n then f j else g j) c = picked f c"
  by (simp add: picked_def div_less_iff_less_mult)

lemma marked_prefix:
  assumes "x < MAX_MEMORY" and "\<And>i. i < 8 \<Longrightarrow> sel (areas n i) = (\<lambda>j. if j < 262144 div chunk_bytes i then sel' (areas m i) j else g i j)"
  shows "marked sel n x = marked sel' m x"
  using chunk_coords(1,2) [OF assms(1)] assms(2)
  by (simp add: marked_def picked_prefix)

lemma set_area_bytes: "(set_area i f m)\<lparr>bytes := mem\<rparr> = set_area i f (m\<lparr>bytes := mem\<rparr>)"
  by (cases m) (simp add: set_area_def)

lemma full_keeps_mark:
  assumes "geometry m" and "\<forall>i < 8. clean_bits i (bitmap (areas m i))"
  shows "full_keeps (full_view m) (set_used_chunks_ckpt m)"
    and "addresses_ckpt (areas (set_used_chunks_ckpt m) i) = addresses_ckpt (areas m i)
      \<and> top_elem_ckpt (areas (set_used_chunks_ckpt m) i) = top_elem_ckpt (areas m i)
      \<and> area_size (areas (set_used_chunks_ckpt m) i) = area_size (areas m i)"
proof -
  let ?f = "\<lambda>a. a\<lparr>bitmap_ckpt := (\<lambda>j. if j < area_size a then bitmap a j else bitmap_ckpt a j)\<rparr>"
  let ?n = "set_used_chunks_ckpt m"
  have r: "?n = copy_loop ?f bitmap MAX_MEMORY 0 8 m"
    by (simp only: set_used_chunks_ckpt_def copy_loop_def set_area_bytes Let_def)
  note c = copy_areas [OF assms(1) _ order_refl assms(2), of MAX_MEMORY 0 ?f, folded r]
  have f: "obj_base ?n = obj_base m" "areas ?n j = (if j < 8 then ?f (areas m j) else areas m j)" for j
    by (subst c; simp add: shift_pair_def)+
  have byt: "bytes ?n (obj_base m + MAX_MEMORY + x) = (if marked bitmap m x then bytes m (obj_base m + x) else
      bytes m (obj_base m + MAX_MEMORY + x))" if "x < MAX_MEMORY" for x
    using that offset_area [OF that] by (subst c) (auto simp: shift_pair_def)
  have g: "area_size (areas m i) = 262144 div chunk_bytes i" if "i < 8" for i using assms(1) that by (simp add: geometry_def)
  have mk: "marked bitmap_ckpt ?n x = marked bitmap m x" if "x < MAX_MEMORY" for x
    using that by (rule marked_prefix) (simp add: f g)
  have "geometry ?n" using assms(1) by (simp add: geometry_def f)
  moreover have "clean_bits i (bitmap_ckpt (areas ?n i))" if "i < 8" for i
    using assms(2) that by (auto simp: clean_bits_def f g picked_prefix)
  ultimately show "full_keeps (full_view m) ?n"
    using mk byt by (auto simp: full_keeps_def full_view_def f area_of_def)
  show "addresses_ckpt (areas ?n i) = addresses_ckpt (areas m i) \<and> top_elem_ckpt (areas ?n i) = top_elem_ckpt (areas m i)
      \<and> area_size (areas ?n i) = area_size (areas m i)"
    by (simp add: f)
qed

lemma full_keeps_store:
  assumes "full_keeps v m" and "obj_base m \<le> p" and "p + length bs \<le> obj_base m + MAX_MEMORY"
  shows "full_keeps v (m\<lparr>bytes := store_bytes (bytes m) p bs\<rparr>)"
  using assms by (auto simp: full_keeps_def geometry_def marked_def mem_simps)

lemma full_keeps_restore:
  assumes "full_keeps v m"
  shows "full_keeps v (restore_chunks_full m)" and "full_view (restore_chunks_full m) = v"
    and "addresses_ckpt (areas (restore_chunks_full m) i) = addresses_ckpt (areas m i)
      \<and> top_elem_ckpt (areas (restore_chunks_full m) i) = top_elem_ckpt (areas m i)
      \<and> area_size (areas (restore_chunks_full m) i) = area_size (areas m i)
      \<and> free_list (areas (restore_chunks_full m) i) = free_list (areas m i)"
proof -
  let ?f = "\<lambda>a. a\<lparr>bitmap := (\<lambda>j. if j < area_size a then bitmap_ckpt a j else bitmap a j)\<rparr>"
  let ?n = "restore_chunks_full m"
  have k: "geometry m" "\<forall>i < 8. clean_bits i (bitmap_ckpt (areas m i))"
    and v: "\<And>x. fst v x = (x < MAX_MEMORY \<and> marked bitmap_ckpt m x)"
      "\<And>x. snd v x = (if fst v x then bytes m (obj_base m + MAX_MEMORY + x) else 0)"
    using assms by (auto simp: full_keeps_def)
  have r: "?n = copy_loop ?f bitmap_ckpt 0 MAX_MEMORY 8 m"
    by (simp add: restore_chunks_full_def copy_loop_def)
  note c = copy_areas [OF k(1) _ order_refl k(2), of 0 MAX_MEMORY ?f, folded r]
  have f: "obj_base ?n = obj_base m" "areas ?n j = (if j < 8 then ?f (areas m j) else areas m j)" for j
    by (subst c; simp add: shift_pair_def)+
  have byt: "bytes ?n (obj_base m + x) = (if marked bitmap_ckpt m x then bytes m (obj_base m + MAX_MEMORY + x) else
      bytes m (obj_base m + x))" "bytes ?n (obj_base m + MAX_MEMORY + x) = bytes m (obj_base m + MAX_MEMORY + x)"
    if "x < MAX_MEMORY" for x
    using that offset_area [OF that] by (subst c; auto simp: shift_pair_def)+
  have g: "area_size (areas m i) = 262144 div chunk_bytes i" if "i < 8" for i using k(1) that by (simp add: geometry_def)
  have mk: "marked bitmap ?n x = marked bitmap_ckpt m x" if "x < MAX_MEMORY" for x
    using that by (rule marked_prefix) (simp add: f g)
  have mk2: "marked bitmap_ckpt ?n x = marked bitmap_ckpt m x" for x by (simp add: marked_def f)
  have "geometry ?n" using k(1) by (simp add: geometry_def f)
  moreover have "clean_bits i (bitmap_ckpt (areas ?n i))" if "i < 8" for i using k(2) that by (simp add: f)
  ultimately show "full_keeps v ?n" using v byt(2) mk2 by (auto simp: full_keeps_def f)
  show "full_view ?n = v"
    using v byt mk by (intro prod_eqI ext) (auto simp: full_view_def area_of_def f)
  show "addresses_ckpt (areas ?n i) = addresses_ckpt (areas m i) \<and> top_elem_ckpt (areas ?n i) = top_elem_ckpt (areas m i)
      \<and> area_size (areas ?n i) = area_size (areas m i) \<and> free_list (areas ?n i) = free_list (areas m i)"
    by (simp add: f)
qed

section \<open>Rolling back an object\<close>

text \<open>
  What an object does between a checkpoint and a rollback: instrumented stores, allocations, and draws of
  random numbers (which leave new seeds).
\<close>

datatype obj_op = Store nat "byte list" | Alloc alloc_op | Draw "32 word" "32 word"

definition obj_run :: "backend \<Rightarrow> obj_op \<Rightarrow> ckpt_object \<Rightarrow> ckpt_object outcome" where
  "obj_run k w x = (case w of
     Store p bs \<Rightarrow>
       (if k = CHUNK_BASED_SAVE then and_then (save_store p bs (om x)) (\<lambda>m. Inr (x\<lparr>om := m\<rparr>))
        else Inr (x\<lparr>om := (om x)\<lparr>bytes := store_bytes (bytes (om x)) p bs\<rparr>\<rparr>))
   | Alloc a \<Rightarrow> and_then (alloc_run k a (om x)) (\<lambda>m. Inr (x\<lparr>om := m\<rparr>))
   | Draw s1 s2 \<Rightarrow> Inr (x\<lparr>seed1 := s1, seed2 := s2\<rparr>))"

definition obj_legal :: "backend \<Rightarrow> obj_op \<Rightarrow> ckpt_object \<Rightarrow> bool" where
  "obj_legal k w x = (case w of
     Store p bs \<Rightarrow> if k = CHUNK_BASED_SAVE then within_chunk (om x) p (length bs)
                  else obj_base (om x) \<le> p \<and> p + length bs \<le> obj_base (om x) + MAX_MEMORY
   | Alloc a \<Rightarrow> (case alloc_run k a (om x) of Inl e \<Rightarrow> False | Inr m \<Rightarrow> True)
   | Draw s1 s2 \<Rightarrow> True)"

definition obj_put :: "backend \<Rightarrow> obj_op \<Rightarrow> ckpt_object \<Rightarrow> ckpt_object" where
  "obj_put k w x = (case obj_run k w x of Inl e \<Rightarrow> x | Inr y \<Rightarrow> y)"

text \<open>What of the memory a backend protects: all of it, or the chunks in use.\<close>

definition chunk_view :: "backend \<Rightarrow> obj_memory \<Rightarrow> (nat \<Rightarrow> bool) \<times> (nat \<Rightarrow> byte)" where
  "chunk_view k m = (if k = CHUNK_FULL then full_view m else (\<lambda>_. True, area_view m))"

definition object_view ::
  "backend \<Rightarrow> ckpt_object \<Rightarrow> nat list list \<times> ((nat \<Rightarrow> bool) \<times> (nat \<Rightarrow> byte)) \<times> 32 word \<times> 32 word" where
  "object_view k x = (alloc_view (om x), chunk_view k (om x), seed1 x, seed2 x)"

definition chunk_keeps :: "backend \<Rightarrow> (nat \<Rightarrow> bool) \<times> (nat \<Rightarrow> byte) \<Rightarrow> obj_memory \<Rightarrow> bool" where
  "chunk_keeps k v m \<longleftrightarrow> (if k = CHUNK_FULL then full_keeps v m else fst v = (\<lambda>_. True) \<and> save_keeps (snd v) m)"

definition object_keeps ::
  "bool \<Rightarrow> backend \<Rightarrow> nat list list \<times> ((nat \<Rightarrow> bool) \<times> (nat \<Rightarrow> byte)) \<times> 32 word \<times> 32 word \<Rightarrow> ckpt_object \<Rightarrow> bool" where
  "object_keeps debug k v x \<longleftrightarrow> (case v of (stacks, mem, s1, s2) \<Rightarrow>
     k \<in> {CHUNK_BASED_SAVE, CHUNK_FULL} \<and> alloc_keeps stacks (om x) \<and> chunk_keeps k mem (om x) \<and> saved_seed1 x = s1 \<and> saved_seed2 x = s2
     \<and> (debug \<longrightarrow> k \<noteq> CHUNK_FULL \<and> shadow_area x = Some (snd mem)))"

text \<open>
  A checkpoint can be taken of an object with its areas in place; the debug build compares all of the
  memory, so it fits the backend that protects all of it.
\<close>

definition chunk_usable :: "bool \<Rightarrow> backend \<Rightarrow> bool \<Rightarrow> ckpt_object \<Rightarrow> bool" where
  "chunk_usable debug k mapped x \<longleftrightarrow> k \<in> {CHUNK_BASED_SAVE, CHUNK_FULL} \<and> geometry (om x)
     \<and> (k = CHUNK_FULL \<longrightarrow> \<not> debug \<and> (\<forall>i < 8. clean_bits i (bitmap (areas (om x) i))))
     \<and> (debug \<longrightarrow> mapped \<or> shadow_area x \<noteq> None)"

definition chunk_mark :: "bool \<Rightarrow> backend \<Rightarrow> bool \<Rightarrow> ckpt_object \<Rightarrow> ckpt_object" where
  "chunk_mark debug k mapped x = (case chunk_set_ckpt debug k mapped x of Inl e \<Rightarrow> x | Inr y \<Rightarrow> y)"

definition chunk_reset :: "bool \<Rightarrow> backend \<Rightarrow> ckpt_object \<Rightarrow> ckpt_object" where
  "chunk_reset debug k x = (case chunk_restore_object debug k x of Inl e \<Rightarrow> x | Inr y \<Rightarrow> y)"

lemma alloc_run_chunks:
  assumes "alloc_run k w m = Inr m'"
  shows "same_chunks m' m" and "k \<noteq> CHUNK_FULL \<Longrightarrow> bitmap (areas m' i) = bitmap (areas m i)"
  using assms
  by (cases w; auto simp: alloc_run_def and_then_eq_Inr wrap_malloc_def wrap_free_def Let_def mark_chunk_def
      unmark_chunk_def same_chunks_def split: if_splits)+

lemma set_allocator_ckpt_fields:
  "obj_base (set_allocator_ckpt k m) = obj_base m" "bytes (set_allocator_ckpt k m) = bytes m"
  "areas (set_allocator_ckpt k m) i = (if i < 8 then save_area k (areas m i) else areas m i)"
  by (simp_all add: set_allocator_ckpt_def fold_set_area fold_invariant [where P = "\<lambda>x. obj_base x = obj_base m" and Q = "\<lambda>_. True"]
        fold_invariant [where P = "\<lambda>x. bytes x = bytes m" and Q = "\<lambda>_. True"])

lemma restore_allocator_fields:
  "obj_base (restore_allocator m) = obj_base m" "bytes (restore_allocator m) = bytes m"
  "areas (restore_allocator m) i = (if i < 8 then load_area (areas m i) else areas m i)"
  by (simp_all add: restore_allocator_def fold_set_area fold_invariant [where P = "\<lambda>x. obj_base x = obj_base m" and Q = "\<lambda>_. True"]
        fold_invariant [where P = "\<lambda>x. bytes x = bytes m" and Q = "\<lambda>_. True"])

lemma restore_allocator_chunks:
  "same_chunks (restore_allocator m) m" "bitmap (areas (restore_allocator m) i) = bitmap (areas m i)"
  by (simp_all add: same_chunks_def restore_allocator_fields load_area_def)

lemma set_allocator_full_chunks:
  "same_chunks (set_allocator_ckpt CHUNK_FULL m) m" "bitmap (areas (set_allocator_ckpt CHUNK_FULL m) i) = bitmap (areas m i)"
  by (simp_all add: same_chunks_def set_allocator_ckpt_fields save_area_def)

text \<open>The stacks depend only on the fields the chunk copies leave alone.\<close>

lemma alloc_keeps_cong:
  assumes "\<And>i. addresses_ckpt (areas m i) = addresses_ckpt (areas n i) \<and> top_elem_ckpt (areas m i) = top_elem_ckpt (areas n i)
      \<and> area_size (areas m i) = area_size (areas n i)"
  shows "alloc_keeps v m = alloc_keeps v n"
  using assms by (simp add: alloc_keeps_def)

lemma alloc_view_cong: "(\<And>i. free_list (areas m i) = free_list (areas n i)) \<Longrightarrow> alloc_view m = alloc_view n"
  by (simp add: alloc_view_def)

lemma memcmp_equal_refl: "(\<And>i. i < n \<Longrightarrow> f i = g i) \<Longrightarrow> memcmp_equal f g 0 n"
  by (simp add: memcmp_equal_def list_all_iff)

lemma chunk_set_ckpt_keeps:
  assumes u: "chunk_usable debug k mapped x"
  shows "\<exists>y. chunk_set_ckpt debug k mapped x = Inr y \<and> object_keeps debug k (object_view k x) y"
proof -
  let ?m = "set_allocator_ckpt k (om x)"
  have stacks: "alloc_keeps (alloc_view (om x)) ?m" by (rule free_stacks.keeps_mark) simp
  show ?thesis
  proof (cases "k = CHUNK_FULL")
    case True
    have u': "geometry ?m" "\<forall>i < 8. clean_bits i (bitmap (areas ?m i))" "\<not> debug"
      using u True same_chunks_geometry [OF set_allocator_full_chunks(1)] set_allocator_full_chunks(2)
      by (simp_all add: chunk_usable_def)
    have "full_view ?m = full_view (om x)"
      using True
      by (simp add: full_view_def marked_def area_of_def set_allocator_full_chunks(2) set_allocator_ckpt_fields(1,2) cong: if_cong)
    then have "full_keeps (full_view (om x)) (set_used_chunks_ckpt ?m)" using full_keeps_mark(1) [OF u'(1,2)] by simp
    moreover have "alloc_keeps (alloc_view (om x)) (set_used_chunks_ckpt ?m)"
      using stacks full_keeps_mark(2) [OF u'(1,2)] alloc_keeps_cong [of "set_used_chunks_ckpt ?m" ?m] by simp
    ultimately show ?thesis using True u'(3)
      by (simp add: chunk_set_ckpt_def save_seeds_def Let_def object_keeps_def object_view_def chunk_keeps_def chunk_view_def)
  next
    case False
    then have k: "k = CHUNK_BASED_SAVE" using u by (auto simp: chunk_usable_def)
    have sv: "save_keeps (area_view (om x)) ?m" using u k by (simp add: chunk_usable_def save_keeps_mark)
    define y where "y = save_seeds x\<lparr>om := ?m\<rparr>"
    have omy: "om y = ?m" by (simp add: y_def save_seeds_def)
    have av: "area_view ?m = area_view (om x)"
      by (simp add: area_view_def area_of_def set_allocator_ckpt_fields cong: if_cong)
    have "fill_shadow mapped y = Inr (y\<lparr>shadow_area := Some (area_view (om x))\<rparr>)" if debug
    proof -
      have "memcmp_equal (area_view (om x)) (area_of ?m) 0 MAX_MEMORY"
        unfolding av [symmetric] by (rule memcmp_equal_refl) (simp add: area_view_def)
      moreover have "\<not> (shadow_area y = None \<and> \<not> mapped)" using u that by (auto simp: chunk_usable_def y_def save_seeds_def)
      ultimately show ?thesis by (simp add: fill_shadow_def Let_def omy av)
    qed
    then have "chunk_set_ckpt debug k mapped x = Inr (if debug then y\<lparr>shadow_area := Some (area_view (om x))\<rparr> else y)"
      using k by (simp add: chunk_set_ckpt_def Let_def y_def [symmetric] save_seeds_def y_def)
    then show ?thesis using stacks sv k
      by (auto simp: object_keeps_def object_view_def chunk_keeps_def chunk_view_def y_def save_seeds_def)
  qed
qed

lemma save_store_alloc:
  assumes "save_keeps v m" and "within_chunk m p (length bs)" and "save_store p bs m = Inr n"
  shows "save_keeps v n" and "alloc_keeps st n = alloc_keeps st m"
  using save_keeps_store [OF assms(1,2)] assms(3) by (auto intro!: alloc_keeps_cong)

lemma obj_put_keeps:
  assumes keeps: "object_keeps debug k v x" and legal: "obj_legal k w x"
  shows "\<exists>y. obj_run k w x = Inr y \<and> object_keeps debug k v y"
proof -
  obtain st mem s1 s2 where v: "v = (st, mem, s1, s2)" by (metis prod_cases4)
  have kp: "alloc_keeps st (om x)" "chunk_keeps k mem (om x)" using keeps by (simp_all add: object_keeps_def v)
  show ?thesis
  proof (cases w)
    case (Store p bs)
    show ?thesis
    proof (cases "k = CHUNK_BASED_SAVE")
      case True
      then have h: "save_keeps (snd mem) (om x)" "within_chunk (om x) p (length bs)"
        using kp legal by (simp_all add: chunk_keeps_def obj_legal_def Store)
      then obtain n where n: "save_store p bs (om x) = Inr n" using save_keeps_store by blast
      from save_store_alloc [OF h n] show ?thesis using keeps True n kp
        by (auto simp: obj_run_def Store object_keeps_def v chunk_keeps_def)
    next
      case False
      then have full: "k = CHUNK_FULL" using keeps by (simp add: object_keeps_def v)
      let ?n = "(om x)\<lparr>bytes := store_bytes (bytes (om x)) p bs\<rparr>"
      have "chunk_keeps k mem ?n"
        using kp(2) legal full full_keeps_store [of mem "om x" p bs] by (simp add: chunk_keeps_def obj_legal_def Store)
      moreover have "alloc_keeps st ?n" using kp(1) by (simp add: alloc_keeps_def)
      ultimately show ?thesis using keeps False by (auto simp: obj_run_def Store object_keeps_def v)
    qed
  next
    case (Alloc a)
    then obtain n where n: "alloc_run k a (om x) = Inr n" using legal by (auto simp: obj_legal_def split: sum.splits)
    have "alloc_keeps st n" using free_stacks.keeps_put [of st "om x" k a] kp(1) n by (auto simp: alloc_put_def)
    moreover have "chunk_keeps k mem n"
      using kp(2) full_keeps_cong [OF alloc_run_chunks(1) [OF n]] save_keeps_cong [OF alloc_run_chunks(1,2) [OF n]]
      by (auto simp: chunk_keeps_def split: if_splits)
    ultimately show ?thesis using keeps n by (auto simp: obj_run_def Alloc object_keeps_def v)
  next
    case (Draw t1 t2)
    then show ?thesis using keeps by (auto simp: obj_run_def object_keeps_def v)
  qed
qed

lemma free_list_bitmap_update [simp]: "free_list (bitmap_update f a) = free_list a"
  by (simp add: free_list_def)

lemma chunk_restore_keeps:
  assumes keeps: "object_keeps debug k v x"
  shows "\<exists>y. chunk_restore_object debug k x = Inr y \<and> object_keeps debug k v y \<and> object_view k y = v"
proof -
  obtain st mem s1 s2 where v: "v = (st, mem, s1, s2)" by (metis prod_cases4)
  let ?m = "restore_allocator (om x)"
  define n where "n = (if k = CHUNK_FULL then restore_chunks_full ?m else restore_chunks_save ?m)"
  have kp: "alloc_keeps st (om x)" "chunk_keeps k mem (om x)" "k \<in> {CHUNK_BASED_SAVE, CHUNK_FULL}"
    using keeps by (simp_all add: object_keeps_def v)
  have a: "alloc_keeps st ?m" "alloc_view ?m = st"
    using kp(1) free_stacks.keeps_restore free_stacks.view_restore by blast+
  have c: "chunk_keeps k mem ?m"
    using kp(2) full_keeps_cong [OF restore_allocator_chunks(1)] save_keeps_cong [OF restore_allocator_chunks]
    by (simp add: chunk_keeps_def)
  have n: "alloc_keeps st n \<and> alloc_view n = st \<and> chunk_keeps k mem n \<and> chunk_view k n = mem"
  proof (cases "k = CHUNK_FULL")
    case True
    then have f: "full_keeps mem ?m" using c by (simp add: chunk_keeps_def)
    note r = full_keeps_restore [OF f]
    have "alloc_keeps st n" using a(1) alloc_keeps_cong [of n ?m] r(3) True by (simp add: n_def)
    moreover have "alloc_view n = st" using a(2) alloc_view_cong [of n ?m] r(3) True by (simp add: n_def)
    ultimately show ?thesis using r(1,2) True by (simp add: n_def chunk_keeps_def chunk_view_def)
  next
    case False
    then have f: "save_keeps (snd mem) ?m" "fst mem = (\<lambda>_. True)" using c by (simp_all add: chunk_keeps_def)
    have e: "areas n i = (if i < 8 then bitmap_update (\<lambda>bm. cleared bm (area_size (areas ?m i))) (areas ?m i) else areas ?m i)" for i
      using False restore_chunks_save_effect(2) f(1) by (simp add: n_def save_keeps_def)
    have "alloc_keeps st n" using a(1) alloc_keeps_cong [of n ?m] e by simp
    moreover have "alloc_view n = st" using a(2) alloc_view_cong [of n ?m] e by simp
    ultimately show ?thesis using save_keeps_restore [OF f(1)] f(2) False
      by (simp add: n_def chunk_keeps_def chunk_view_def prod_eq_iff)
  qed
  define y where "y = x\<lparr>om := n, seed1 := s1, seed2 := s2\<rparr>"
  have omy: "om y = n" by (simp add: y_def)
  have y: "chunk_restore_object debug k x = (if debug then check_shadow y else Inr y)"
    using keeps by (simp add: chunk_restore_object_def Let_def restore_seeds_def y_def n_def object_keeps_def v)
  have "check_shadow y = Inr y" if debug
  proof -
    have sa: "shadow_area y = Some (snd mem)" using keeps that by (simp add: object_keeps_def v y_def)
    have "memcmp_equal (snd mem) (area_of n) 0 MAX_MEMORY"
    proof -
      have "snd mem = area_view n" using n keeps that by (auto simp: chunk_view_def object_keeps_def v)
      then show ?thesis by (intro memcmp_equal_refl) (simp add: area_view_def)
    qed
    then show ?thesis by (simp add: check_shadow_def sa omy)
  qed
  moreover have "object_keeps debug k v y" "object_view k y = v"
    using n keeps by (simp_all add: object_keeps_def v y_def object_view_def)
  ultimately show ?thesis using y by auto
qed

interpretation chunk_object: snapshot_backend "chunk_usable debug k mapped" "object_view k"
  "chunk_mark debug k mapped" "obj_legal k" "obj_put k" "chunk_reset debug k" "object_keeps debug k"
  for debug k mapped
proof unfold_locales
  show "object_keeps debug k (object_view k x) (chunk_mark debug k mapped x)" if "chunk_usable debug k mapped x" for x
    using chunk_set_ckpt_keeps [OF that] by (auto simp: chunk_mark_def)
  show "object_keeps debug k v (obj_put k w x)" if "object_keeps debug k v x" "obj_legal k w x" for v x w
    using obj_put_keeps [OF that] by (auto simp: obj_put_def)
  show "object_keeps debug k v (chunk_reset debug k x)" if "object_keeps debug k v x" for v x
    using chunk_restore_keeps [OF that] by (auto simp: chunk_reset_def)
  show "object_view k (chunk_reset debug k x) = v" if "object_keeps debug k v x" for v x
    using chunk_restore_keeps [OF that] by (auto simp: chunk_reset_def)
qed

text \<open>
  Property C8. Whatever an object stores (inside its chunks), allocates, frees and draws after a chunk
  checkpoint, restoring it gives back all memory the backend protects, the free stacks in their order, and
  both seeds; the comparison of the debug build does not fail.
\<close>

theorem chunk_rollback_correct:
  assumes "chunk_usable debug k mapped x" and "chunk_set_ckpt debug k mapped x = Inr y"
    and "legal_run (obj_legal k) (obj_put k) ws y"
  shows "\<exists>z. chunk_restore_object debug k (fold (obj_put k) ws y) = Inr z \<and> object_view k z = object_view k x"
proof -
  have y: "chunk_mark debug k mapped x = y" using assms(2) by (simp add: chunk_mark_def)
  have "object_keeps debug k (object_view k x) (fold (obj_put k) ws y)"
    using chunk_object.keeps_run [OF chunk_object.keeps_mark [OF assms(1)]] assms(3) by (simp add: y)
  from chunk_restore_keeps [OF this] show ?thesis by blast
qed

text \<open>
  With \<open>CHUNK_FULL\<close> the comparison of the debug build stops the program as soon as a byte
  outside the chunks used at the checkpoint has changed, although no such byte is protected.
\<close>

theorem chunk_full_debug_check:
  assumes "full_keeps v (om x)" and "shadow_area x = Some sa"
    and "y < MAX_MEMORY" and "\<not> fst v y" and "area_of (om x) y \<noteq> sa y"
  shows "chunk_restore_object True CHUNK_FULL x = Inl Exit_Failure"
proof -
  let ?m = "restore_allocator (om x)" and ?n = "restore_chunks_full (restore_allocator (om x))"
  have f: "full_keeps v ?m" using assms(1) full_keeps_cong [OF restore_allocator_chunks(1)] by simp
  have kf: "geometry ?m" "\<forall>i < 8. clean_bits i (bitmap_ckpt (areas ?m i))" "\<not> marked bitmap_ckpt ?m y"
    using f assms(3,4) by (auto simp: full_keeps_def)
  let ?f = "\<lambda>a. a\<lparr>bitmap := (\<lambda>j. if j < area_size a then bitmap_ckpt a j else bitmap a j)\<rparr>"
  have r: "?n = copy_loop ?f bitmap_ckpt 0 MAX_MEMORY 8 ?m"
    by (simp add: restore_chunks_full_def copy_loop_def)
  note c = copy_areas [OF kf(1) _ order_refl kf(2), of 0 MAX_MEMORY ?f, folded r]
  have "obj_base ?n = obj_base (om x)" by (subst c) (simp_all add: shift_pair_def restore_allocator_fields)
  moreover have "bytes ?n (obj_base (om x) + y) = bytes (om x) (obj_base (om x) + y)"
    using assms(3) kf(3) by (subst c) (simp_all add: shift_pair_def restore_allocator_fields)
  ultimately have "sa y \<noteq> area_of ?n y" using assms(5) by (simp add: area_of_def)
  then have "\<not> memcmp_equal sa (area_of ?n) 0 MAX_MEMORY"
    using assms(3) by (auto simp: memcmp_equal_def list_all_iff intro!: bexI [of _ y])
  then show ?thesis using assms(2)
    by (simp add: chunk_restore_object_def Let_def restore_seeds_def check_shadow_def verify_restored_area_def)
qed

section \<open>Concrete objects\<close>

definition demo_object :: "backend \<Rightarrow> ckpt_object" where
  "demo_object k = \<lparr>om = demo_memory k, seed1 = 7, seed2 = 9, saved_seed1 = 0, saved_seed2 = 0, shadow_area = None\<rparr>"

lemma demo_object_usable: "chunk_usable True CHUNK_BASED_SAVE True (demo_object CHUNK_BASED_SAVE)"
  using demo_memory_facts [of CHUNK_BASED_SAVE] by (simp add: chunk_usable_def demo_object_def mem_wf_geometry)

theorem chunk_rollback_correct_witness:
  "\<exists>y z. chunk_set_ckpt True CHUNK_BASED_SAVE True (demo_object CHUNK_BASED_SAVE) = Inr y
     \<and> chunk_restore_object True CHUNK_BASED_SAVE
         (fold (obj_put CHUNK_BASED_SAVE) [Store (object_address CHUNK_BASED_SAVE 1 + 3) [1, 2], Draw 5 6] y) = Inr z
     \<and> object_view CHUNK_BASED_SAVE z = object_view CHUNK_BASED_SAVE (demo_object CHUNK_BASED_SAVE)"
proof -
  obtain y where y: "chunk_set_ckpt True CHUNK_BASED_SAVE True (demo_object CHUNK_BASED_SAVE) = Inr y"
    using chunk_set_ckpt_keeps [OF demo_object_usable] by blast
  then have "obj_base (om y) = object_address CHUNK_BASED_SAVE 1"
    using demo_memory_facts [of CHUNK_BASED_SAVE]
    by (auto simp: chunk_set_ckpt_def Let_def fill_shadow_def save_seeds_def set_allocator_ckpt_fields demo_object_def split: if_splits)
  then have "obj_legal CHUNK_BASED_SAVE (Store (object_address CHUNK_BASED_SAVE 1 + 3) [1, 2]) y"
    by (simp add: obj_legal_def within_chunk_def layout_values chunk_bytes_power)
  then have "legal_run (obj_legal CHUNK_BASED_SAVE) (obj_put CHUNK_BASED_SAVE)
      [Store (object_address CHUNK_BASED_SAVE 1 + 3) [1, 2], Draw 5 6] y"
    by (simp add: obj_legal_def)
  from chunk_rollback_correct [OF demo_object_usable y this] y show ?thesis by blast
qed

definition demo_full :: ckpt_object where
  "demo_full = \<lparr>om = \<lparr>obj_base = 0, areas = (\<lambda>i. new_area CHUNK_FULL i (i * 262144)
       \<lparr>addresses = (\<lambda>_. 0), top_elem = 0, area_size = 0, area_base = 0, bitmap = (\<lambda>_. 0), bitmap_ckpt = (\<lambda>_. 0),
        addresses_ckpt = (\<lambda>_. 0), top_elem_ckpt = 0\<rparr>), bytes = (\<lambda>a. if a = 5 then 1 else 0)\<rparr>,
     seed1 = 7, seed2 = 9, saved_seed1 = 0, saved_seed2 = 0, shadow_area = Some (\<lambda>_. 0)\<rparr>"

theorem chunk_full_debug_check_witness: "chunk_restore_object True CHUNK_FULL demo_full = Inl Exit_Failure"
proof (rule chunk_full_debug_check)
  have none: "bitmap_ckpt (areas (om demo_full) i) = (\<lambda>_. 0)" for i by (simp add: demo_full_def new_area_def)
  show "full_keeps (\<lambda>_. False, \<lambda>_. 0) (om demo_full)"
    by (simp add: full_keeps_def marked_def none picked_def clean_bits_def)
      (simp add: demo_full_def geometry_def new_area_def layout_values)
  show "shadow_area demo_full = Some (\<lambda>_. 0)" by (simp add: demo_full_def)
  show "5 < MAX_MEMORY" by (simp add: layout_values)
  show "area_of (om demo_full) 5 \<noteq> 0" by (simp add: demo_full_def area_of_def)
qed simp_all

end
