(* ===== verification/Grid_Ckpt.thy ===== *)
theory Grid_Ckpt
  imports Chunk_Ckpt
begin

text \<open>
  The two grid backends: \<open>grid_ckpt/grid_ckpt.c\<close> over the two \<open>_ckpt_setup.c\<close> and the store hooks of the
  two \<open>_asm_patches.S\<close>. An object's area is cut into cells of \<open>MOD\<close> bytes, one bit each in a bitmap behind
  two areas. \<open>COW\<close> (\<open>MVM_GRID_CKPT\<close>) copies a cell to the second area at its first store after a
  checkpoint; \<open>BITMAP_SET\<close> (\<open>MVM_GRID_CKPT_BS\<close>) copies the whole area when the checkpoint is set and only
  marks cells at a store.
\<close>

section \<open>Set-up and restoration of an area\<close>

datatype grid = COW | BITMAP_SET

definition ALLOCATOR_AREA_SIZE :: nat where "ALLOCATOR_AREA_SIZE = 0x200000"

text \<open>\<open>BITMAP_SIZE\<close> of the two headers, and the bound of the loop of \<open>_restore_area\<close>.\<close>

definition BITMAP_SIZE :: "grid \<Rightarrow> nat \<Rightarrow> nat" where
  "BITMAP_SIZE g MOD = (ALLOCATOR_AREA_SIZE div MOD) div 8 + (if g = BITMAP_SET then 1 else 0)"

definition restore_bound :: "grid \<Rightarrow> nat \<Rightarrow> nat" where
  "restore_bound g MOD = (case g of COW \<Rightarrow> BITMAP_SIZE g MOD | BITMAP_SET \<Rightarrow> BITMAP_SIZE g MOD - 1)"

definition set_ckpt_area :: "grid \<Rightarrow> nat \<Rightarrow> nat \<Rightarrow> memory \<Rightarrow> memory" where
  "set_ckpt_area g MOD area mem =
     (let mem1 = (case g of COW \<Rightarrow> mem
                  | BITMAP_SET \<Rightarrow> memcpy mem (area + ALLOCATOR_AREA_SIZE) area ALLOCATOR_AREA_SIZE)
      in memset mem1 (area + 2 * ALLOCATOR_AREA_SIZE) 0 (BITMAP_SIZE g MOD))"

text \<open>The three nested loops: eight bytes of the bitmap, two bytes of them, sixteen bits.\<close>

definition restore_bits :: "nat \<Rightarrow> nat \<Rightarrow> nat \<Rightarrow> 16 word \<Rightarrow> memory \<Rightarrow> memory" where
  "restore_bits MOD area pos current_word mem = fold (\<lambda>k mem.
     if (drop_bit k current_word) AND 1 = 1
     then let target_offset = (pos * 8 + k) * MOD in
       memcpy mem (area + target_offset) (area + ALLOCATOR_AREA_SIZE + target_offset) MOD
     else mem) [0..<16] mem"

definition restore_words :: "nat \<Rightarrow> nat \<Rightarrow> nat \<Rightarrow> memory \<Rightarrow> memory" where
  "restore_words MOD area offset mem = fold (\<lambda>j mem.
     let i = 2 * j; current_word = load_le mem (area + 2 * ALLOCATOR_AREA_SIZE + offset + i) 2 in
     if current_word = 0 then mem else restore_bits MOD area (offset + i) current_word mem) [0..<4] mem"

definition restore_area :: "grid \<Rightarrow> nat \<Rightarrow> nat \<Rightarrow> memory \<Rightarrow> memory" where
  "restore_area g MOD area mem =
     memset (fold (\<lambda>j mem. let offset = 8 * j in
        if (load_le mem (area + 2 * ALLOCATOR_AREA_SIZE + offset) 8 :: 64 word) = 0 then mem
        else restore_words MOD area offset mem) [0..<(restore_bound g MOD + 7) div 8] mem)
      (area + 2 * ALLOCATOR_AREA_SIZE) 0 (BITMAP_SIZE g MOD)"

section \<open>The store hooks\<close>

text \<open>
  \<open>bts\<close> on the 16-bit word of a cell: the cell's bit is the bit \<open>c mod 8\<close> of byte \<open>c div 8\<close> of the bitmap.
\<close>

definition cell_bit :: "nat \<Rightarrow> memory \<Rightarrow> nat \<Rightarrow> bool" where
  "cell_bit area mem c = bit_is_set (mem (area + 2 * ALLOCATOR_AREA_SIZE + c div 8)) (c mod 8)"

definition set_cell_bit :: "nat \<Rightarrow> nat \<Rightarrow> memory \<Rightarrow> memory" where
  "set_cell_bit area c mem = (let a = area + 2 * ALLOCATOR_AREA_SIZE + c div 8 in mem(a := set_bit8 (mem a) (c mod 8)))"

definition save_cell :: "nat \<Rightarrow> nat \<Rightarrow> nat \<Rightarrow> memory \<Rightarrow> memory" where
  "save_cell MOD area c mem =
     (if cell_bit area mem c then mem
      else memcpy (set_cell_bit area c mem) (area + ALLOCATOR_AREA_SIZE + c * MOD) (area + c * MOD) MOD)"

text \<open>
  The code before a store at \<open>p\<close>: an aligned address saves its cell, any other saves its cell and the
  next one. The comparison that skips the next cell is with the area size less 8 for every \<open>MOD\<close>; behind
  the last cell the address wraps to the first one.
\<close>

definition cow_hook :: "nat \<Rightarrow> nat \<Rightarrow> memory \<Rightarrow> memory" where
  "cow_hook MOD p mem =
     (let area = p - p mod ALLOCATOR_AREA_SIZE; x = p mod ALLOCATOR_AREA_SIZE in
      if p mod MOD = 0 then save_cell MOD area (x div MOD) mem
      else let c = x div MOD; mem1 = save_cell MOD area c mem in
        if c * MOD = ALLOCATOR_AREA_SIZE - 8 then mem1
        else save_cell MOD area ((c * MOD + MOD) mod ALLOCATOR_AREA_SIZE div MOD) mem1)"

text \<open>The other hook sets one bit, or two with a 16-bit \<open>or\<close> of \<open>3 << (c & 7)\<close>, without looking.\<close>

definition set_hook :: "nat \<Rightarrow> nat \<Rightarrow> memory \<Rightarrow> memory" where
  "set_hook MOD p mem =
     (let area = p - p mod ALLOCATOR_AREA_SIZE; c = p mod ALLOCATOR_AREA_SIZE div MOD in
      if p mod MOD = 0 then set_cell_bit area c mem
      else set_cell_bit area (c + 1) (set_cell_bit area c mem))"

definition grid_hook :: "grid \<Rightarrow> nat \<Rightarrow> nat \<Rightarrow> memory \<Rightarrow> memory" where
  "grid_hook g MOD p mem = (case g of COW \<Rightarrow> cow_hook MOD p mem | BITMAP_SET \<Rightarrow> set_hook MOD p mem)"

section \<open>Objects\<close>

definition grid_verify_restored_area :: "nat \<Rightarrow> (nat \<Rightarrow> byte) \<Rightarrow> (nat \<Rightarrow> byte) \<Rightarrow> int" where
  "grid_verify_restored_area MOD f g =
     (if list_all (\<lambda>k. memcmp_equal f g (MOD * k) MOD) [0..<(ALLOCATOR_AREA_SIZE + MOD - 1) div MOD] then 0 else -1)"

definition grid_check_shadow :: "nat \<Rightarrow> ckpt_object \<Rightarrow> ckpt_object outcome" where
  "grid_check_shadow MOD x =
     (case shadow_area x of
        None \<Rightarrow> Inl Undefined
      | Some sa \<Rightarrow>
          if memcmp_equal sa (area_of (om x)) 0 MAX_MEMORY then Inr x
          else let r = grid_verify_restored_area MOD (area_of (om x)) sa in Inl Exit_Failure)"

definition on_bytes :: "(memory \<Rightarrow> memory) \<Rightarrow> ckpt_object \<Rightarrow> ckpt_object" where
  "on_bytes f x = x\<lparr>om := (om x)\<lparr>bytes := f (bytes (om x))\<rparr>\<rparr>"

definition grid_set_ckpt :: "bool \<Rightarrow> grid \<Rightarrow> nat \<Rightarrow> bool \<Rightarrow> nat \<Rightarrow> ckpt_object \<Rightarrow> ckpt_object outcome" where
  "grid_set_ckpt debug g MOD mapped object x =
     (let x1 = save_seeds x; x2 = x1\<lparr>om := set_allocator_ckpt GRID_CKPT (om x1)\<rparr>;
          area = object_address GRID_CKPT object in
      and_then (if debug then fill_shadow mapped x2 else Inr x2)
        (\<lambda>x3. Inr (on_bytes (set_ckpt_area g MOD area) x3)))"

definition grid_restore_object :: "bool \<Rightarrow> grid \<Rightarrow> nat \<Rightarrow> nat \<Rightarrow> ckpt_object \<Rightarrow> ckpt_object outcome" where
  "grid_restore_object debug g MOD object x =
     (let area = object_address GRID_CKPT object;
          x1 = x\<lparr>om := restore_allocator (om x)\<rparr>;
          x2 = on_bytes (restore_area g MOD area) x1;
          x3 = restore_seeds x2 in
      if debug then grid_check_shadow MOD x3 else Inr x3)"

section \<open>What the loops of the restoration do\<close>

lemma area_size_eq: "ALLOCATOR_AREA_SIZE = MAX_MEMORY"
  by (simp add: ALLOCATOR_AREA_SIZE_def layout_values)

definition cells :: "nat \<Rightarrow> nat" where
  "cells MOD = ALLOCATOR_AREA_SIZE div MOD"

text \<open>Two folds agree when their steps agree on the memories that occur.\<close>

lemma fold_agree:
  assumes "\<And>x m. x \<in> set xs \<Longrightarrow> P m \<Longrightarrow> f x m = g x m \<and> P (g x m)" and "P m"
  shows "fold f xs m = fold g xs m \<and> P (fold g xs m)"
  using assms by (induction xs arbitrary: m) auto

definition same_bitmap :: "nat \<Rightarrow> memory \<Rightarrow> memory \<Rightarrow> bool" where
  "same_bitmap area mem0 mem \<longleftrightarrow> (\<forall>a \<ge> area + 2 * ALLOCATOR_AREA_SIZE. mem a = mem0 a)"

definition copy_cell :: "nat \<Rightarrow> nat \<Rightarrow> memory \<Rightarrow> nat \<Rightarrow> memory \<Rightarrow> memory" where
  "copy_cell MOD area mem0 c mem = (if cell_bit area mem0 c
     then memcpy mem (area + c * MOD) (area + ALLOCATOR_AREA_SIZE + c * MOD) MOD else mem)"

lemma copy_cell_bitmap:
  assumes "same_bitmap area mem0 mem" and "c < cells MOD"
  shows "same_bitmap area mem0 (copy_cell MOD area mem0 c mem)"
proof -
  have "Suc c * MOD \<le> cells MOD * MOD" using assms(2) by (intro mult_right_mono) auto
  also have "\<dots> \<le> ALLOCATOR_AREA_SIZE" by (simp add: cells_def)
  finally have "area + c * MOD + MOD \<le> area + 2 * ALLOCATOR_AREA_SIZE" by simp
  then show ?thesis using assms(1) by (auto simp: same_bitmap_def copy_cell_def mem_simps)
qed

lemma and_one_bit: "(drop_bit k (w::16 word)) AND 1 = 1 \<longleftrightarrow> bit w k"
proof -
  have "(drop_bit k w) AND 1 = (if bit w k then 1 else 0)"
    by (simp add: and_one_eq bit_iff_odd_drop_bit mod_2_eq_odd)
  then show ?thesis by simp
qed

lemma bitmap_word:
  assumes "same_bitmap area mem0 mem" and "k < 16"
  shows "bit (load_le mem (area + 2 * ALLOCATOR_AREA_SIZE + pos) 2 :: 16 word) k \<longleftrightarrow> cell_bit area mem0 (pos * 8 + k)"
  using assms by (simp add: bit_load_le same_bitmap_def cell_bit_def bitmap_simps add.assoc)

lemma restore_bits_cells:
  assumes "same_bitmap area mem0 mem" and "(pos + 2) * 8 \<le> cells MOD"
  shows "restore_bits MOD area pos (load_le mem (area + 2 * ALLOCATOR_AREA_SIZE + pos) 2) mem =
      fold (\<lambda>k. copy_cell MOD area mem0 (pos * 8 + k)) [0..<16] mem
    \<and> same_bitmap area mem0 (fold (\<lambda>k. copy_cell MOD area mem0 (pos * 8 + k)) [0..<16] mem)"
  unfolding restore_bits_def
proof (rule fold_agree [where P = "same_bitmap area mem0", OF _ assms(1)], intro conjI)
  fix k m assume k: "k \<in> set [0..<16]" and m: "same_bitmap area mem0 m"
  show "(if (drop_bit k (load_le mem (area + 2 * ALLOCATOR_AREA_SIZE + pos) 2 :: 16 word)) AND 1 = 1
      then let target_offset = (pos * 8 + k) * MOD in memcpy m (area + target_offset) (area + ALLOCATOR_AREA_SIZE + target_offset) MOD
      else m) = copy_cell MOD area mem0 (pos * 8 + k) m"
    using k bitmap_word [OF assms(1)] by (simp add: and_one_bit copy_cell_def Let_def)
  show "same_bitmap area mem0 (copy_cell MOD area mem0 (pos * 8 + k) m)"
    using k assms(2) by (intro copy_cell_bitmap [OF m]) auto
qed

text \<open>Skipping a word without bits skips nothing.\<close>

lemma no_cells:
  assumes "\<And>k. k < n \<Longrightarrow> \<not> cell_bit area mem0 (c + k)"
  shows "fold (\<lambda>k. copy_cell MOD area mem0 (c + k)) [0..<n] mem = mem"
  using assms by (induction n) (simp_all add: copy_cell_def)

lemma restore_words_cells:
  assumes "same_bitmap area mem0 mem" and "(offset + 8) * 8 \<le> cells MOD"
  shows "restore_words MOD area offset mem =
      fold (\<lambda>j. fold (\<lambda>k. copy_cell MOD area mem0 ((offset + 2 * j) * 8 + k)) [0..<16]) [0..<4] mem
    \<and> same_bitmap area mem0 (fold (\<lambda>j. fold (\<lambda>k. copy_cell MOD area mem0 ((offset + 2 * j) * 8 + k)) [0..<16]) [0..<4] mem)"
  unfolding restore_words_def
proof (rule fold_agree [where P = "same_bitmap area mem0", OF _ assms(1)])
  fix j m assume j: "j \<in> set [0..<4]" and m: "same_bitmap area mem0 m"
  let ?pos = "offset + 2 * j" and ?w = "load_le m (area + 2 * ALLOCATOR_AREA_SIZE + (offset + 2 * j)) 2 :: 16 word"
  have b: "(?pos + 2) * 8 \<le> cells MOD" using j assms(2) by auto
  have "?w = 0 \<Longrightarrow> fold (\<lambda>k. copy_cell MOD area mem0 (?pos * 8 + k)) [0..<16] m = m"
    using bitmap_word [OF m, of _ ?pos] by (intro no_cells) auto
  with restore_bits_cells [OF m b] m
  show "(let i = 2 * j; current_word = load_le m (area + 2 * ALLOCATOR_AREA_SIZE + offset + i) 2 in
      if current_word = 0 then m else restore_bits MOD area (offset + i) current_word m) =
      fold (\<lambda>k. copy_cell MOD area mem0 (?pos * 8 + k)) [0..<16] m
    \<and> same_bitmap area mem0 (fold (\<lambda>k. copy_cell MOD area mem0 (?pos * 8 + k)) [0..<16] m)"
    by (auto simp: Let_def add.assoc)
qed

text \<open>
  The cells fill the area and every eight bytes of the bitmap are used: this holds for all sizes the
  headers of the first backend allow, and for powers of two up to 32768 bytes.
\<close>

definition good_mod :: "nat \<Rightarrow> bool" where
  "good_mod MOD \<longleftrightarrow> 0 < MOD \<and> 64 * MOD dvd ALLOCATOR_AREA_SIZE"

lemma good_mod_power: "k \<le> 15 \<Longrightarrow> good_mod (2 ^ k)"
proof -
  assume "k \<le> 15"
  then have "(2::nat) ^ (6 + k) dvd 2 ^ 21" by (intro le_imp_power_dvd) simp
  then show ?thesis by (simp add: good_mod_def ALLOCATOR_AREA_SIZE_def power_add)
qed

lemma good_mod_cells:
  assumes "good_mod MOD"
  obtains n where "cells MOD = 64 * n" and "cells MOD * MOD = ALLOCATOR_AREA_SIZE" and "0 < MOD"
    and "restore_bound g MOD = 8 * n" and "BITMAP_SIZE g MOD = 8 * n + (if g = BITMAP_SET then 1 else 0)"
proof -
  from assms obtain n where n: "ALLOCATOR_AREA_SIZE = 64 * MOD * n" "0 < MOD" by (auto simp: good_mod_def elim: dvdE)
  have "cells MOD = MOD * (64 * n) div MOD" unfolding cells_def n(1) by (simp only: mult.commute mult.left_commute)
  then have c: "cells MOD = 64 * n" using n(2) by simp
  then have "(ALLOCATOR_AREA_SIZE div MOD) div 8 = 8 * n" by (simp add: cells_def)
  moreover have "cells MOD * MOD = ALLOCATOR_AREA_SIZE" unfolding c n(1) by (simp add: mult.commute)
  ultimately show thesis using n c by (intro that [of n]) (auto simp: restore_bound_def BITMAP_SIZE_def split: grid.splits)
qed

lemma restore_area_cells:
  assumes "good_mod MOD"
  shows "restore_area g MOD area mem =
    memset (copy_cells (cell_bit area mem) MOD area (area + ALLOCATOR_AREA_SIZE) (cells MOD) mem)
      (area + 2 * ALLOCATOR_AREA_SIZE) 0 (BITMAP_SIZE g MOD)"
proof -
  obtain n where n: "cells MOD = 64 * n" "restore_bound g MOD = 8 * n" using good_mod_cells [OF assms, of g] by metis
  let ?c = "copy_cell MOD area mem"
  let ?s = "\<lambda>q. fold (\<lambda>j. fold (\<lambda>k. ?c ((8 * q + 2 * j) * 8 + k)) [0..<16]) [0..<4]"
  have "fold (\<lambda>j m. let offset = 8 * j in
        if (load_le m (area + 2 * ALLOCATOR_AREA_SIZE + offset) 8 :: 64 word) = 0 then m
        else restore_words MOD area offset m) [0..<n] mem = fold ?s [0..<n] mem
      \<and> same_bitmap area mem (fold ?s [0..<n] mem)"
  proof (rule fold_agree [where P = "same_bitmap area mem"])
    show "same_bitmap area mem mem" by (simp add: same_bitmap_def)
    fix j m assume j: "j \<in> set [0..<n]" and m: "same_bitmap area mem m"
    let ?w = "load_le m (area + 2 * ALLOCATOR_AREA_SIZE + 8 * j) 8 :: 64 word"
    have b: "(8 * j + 8) * 8 \<le> cells MOD" using j n by auto
    have bits: "bit ?w k \<longleftrightarrow> cell_bit area mem (8 * j * 8 + k)" if "k < 64" for k
    proof -
      have "(8 * j * 8 + k) div 8 = 8 * j + k div 8" "(8 * j * 8 + k) mod 8 = k mod 8"
        using div_mult_self3 [of 8 "8 * j" k] mod_mult_self3 [of "8 * j" 8 k] by (simp_all del: mult.assoc mod_mult_self3 div_mult_self3)
      then show ?thesis using m that by (simp only: bit_load_le cell_bit_def bitmap_simps) (simp add: bit_load_le same_bitmap_def add.assoc)
    qed
    have none: "\<not> cell_bit area mem ((8 * j + 2 * i) * 8 + k)" if "?w = 0" "i < 4" "k < 16" for i k
      using bits [of "i * 16 + k"] that by (simp add: algebra_simps)
    have "?s j m = m" if "?w = 0"
    proof -
      have "fold (\<lambda>k. ?c ((8 * j + 2 * i) * 8 + k)) [0..<16] = (\<lambda>m. m)" if "i \<in> set [0..<4]" for i
        using none [OF \<open>?w = 0\<close>] that by (intro ext no_cells) simp
      then have "?s j m = fold (\<lambda>i m. m) [0..<4] m" by (intro fold_cong refl) auto
      then show ?thesis by (simp add: fold_invariant [where P = "\<lambda>x. x = m" and Q = "\<lambda>_. True"])
    qed
    with restore_words_cells [OF m b] m
    show "(let offset = 8 * j in if (load_le m (area + 2 * ALLOCATOR_AREA_SIZE + offset) 8 :: 64 word) = 0 then m
        else restore_words MOD area offset m) = ?s j m \<and> same_bitmap area mem (?s j m)"
      by (auto simp: Let_def)
  qed
  moreover have "?s = (\<lambda>q. fold (\<lambda>j. fold (\<lambda>k. ?c ((q * 4 + j) * 16 + k)) [0..<16]) [0..<4])"
    by (simp add: algebra_simps)
  moreover have "fold (\<lambda>q. fold (\<lambda>j. fold (\<lambda>k. ?c ((q * 4 + j) * 16 + k)) [0..<16]) [0..<4]) [0..<n] = fold ?c [0..<n * 4 * 16]"
    unfolding fold_blocks [of "\<lambda>j. fold (\<lambda>k. ?c (j * 16 + k)) [0..<16]"] fold_blocks [of ?c] ..
  moreover have "fold ?c [0..<cells MOD] mem = copy_cells (cell_bit area mem) MOD area (area + ALLOCATOR_AREA_SIZE) (cells MOD) mem"
    by (simp add: copy_cells_def copy_cell_def [abs_def])
  ultimately show ?thesis using n by (simp add: restore_area_def mult.commute)
qed

lemma restore_area_at:
  assumes "good_mod MOD"
  shows "x < ALLOCATOR_AREA_SIZE \<Longrightarrow> restore_area g MOD area mem (area + x) =
      (if cell_bit area mem (x div MOD) then mem (area + ALLOCATOR_AREA_SIZE + x) else mem (area + x))"
    and "x < ALLOCATOR_AREA_SIZE \<Longrightarrow> restore_area g MOD area mem (area + ALLOCATOR_AREA_SIZE + x) = mem (area + ALLOCATOR_AREA_SIZE + x)"
    and "c < cells MOD \<Longrightarrow> \<not> cell_bit area (restore_area g MOD area mem) c"
proof -
  obtain n where n: "cells MOD = 64 * n" "cells MOD * MOD = ALLOCATOR_AREA_SIZE" "0 < MOD"
    "BITMAP_SIZE g MOD = 8 * n + (if g = BITMAP_SET then 1 else 0)" using good_mod_cells [OF assms, of g] by metis
  note c = copy_cells_at [of "area + ALLOCATOR_AREA_SIZE" "cells MOD" MOD area, OF _ n(3)]
  show "restore_area g MOD area mem (area + x) =
      (if cell_bit area mem (x div MOD) then mem (area + ALLOCATOR_AREA_SIZE + x) else mem (area + x))"
    if "x < ALLOCATOR_AREA_SIZE" using that by (simp add: restore_area_cells [OF assms] mem_simps c n(2))
  show "restore_area g MOD area mem (area + ALLOCATOR_AREA_SIZE + x) = mem (area + ALLOCATOR_AREA_SIZE + x)"
    if "x < ALLOCATOR_AREA_SIZE" using that by (simp add: restore_area_cells [OF assms] mem_simps c n(2))
  show "\<not> cell_bit area (restore_area g MOD area mem) c" if "c < cells MOD"
    using that n(1,4) by (simp add: restore_area_cells [OF assms] cell_bit_def mem_simps bitmap_simps div_less_iff_less_mult)
qed

section \<open>What a backend keeps\<close>

definition grid_keeps :: "grid \<Rightarrow> nat \<Rightarrow> nat \<Rightarrow> (nat \<Rightarrow> byte) \<Rightarrow> memory \<Rightarrow> bool" where
  "grid_keeps g MOD area v mem \<longleftrightarrow> good_mod MOD
     \<and> (\<forall>x < ALLOCATOR_AREA_SIZE. v x = (if cell_bit area mem (x div MOD) then mem (area + ALLOCATOR_AREA_SIZE + x) else mem (area + x)))
     \<and> (g = BITMAP_SET \<longrightarrow> (\<forall>x < ALLOCATOR_AREA_SIZE. v x = mem (area + ALLOCATOR_AREA_SIZE + x)))
     \<and> (\<forall>x \<ge> ALLOCATOR_AREA_SIZE. v x = 0)"

definition grid_view :: "nat \<Rightarrow> memory \<Rightarrow> nat \<Rightarrow> byte" where
  "grid_view area mem = (\<lambda>x. if x < ALLOCATOR_AREA_SIZE then mem (area + x) else 0)"

lemma cell_below:
  assumes "good_mod MOD" and "x < ALLOCATOR_AREA_SIZE"
  shows "x div MOD < cells MOD" and "x div MOD * MOD \<le> x" and "x < x div MOD * MOD + MOD"
    and "x div MOD * MOD + MOD \<le> ALLOCATOR_AREA_SIZE"
proof -
  have m: "cells MOD * MOD = ALLOCATOR_AREA_SIZE" "0 < MOD" using good_mod_cells [OF assms(1)] by metis+
  then show c: "x div MOD < cells MOD" using assms(2) by (simp add: div_less_iff_less_mult)
  show "x div MOD * MOD \<le> x" by simp
  show "x < x div MOD * MOD + MOD" using m(2) by (metis add.commute div_mult_mod_eq mod_less_divisor nat_add_left_cancel_less)
  have "Suc (x div MOD) * MOD \<le> cells MOD * MOD" using c by (intro mult_right_mono) auto
  then show "x div MOD * MOD + MOD \<le> ALLOCATOR_AREA_SIZE" using m(1) by simp
qed

lemma grid_keeps_mark:
  assumes "good_mod MOD"
  shows "grid_keeps g MOD area (grid_view area mem) (set_ckpt_area g MOD area mem)"
proof -
  obtain n where n: "cells MOD = 64 * n" "BITMAP_SIZE g MOD = 8 * n + (if g = BITMAP_SET then 1 else 0)"
    using good_mod_cells [OF assms, of g] by metis
  have "\<not> cell_bit area (set_ckpt_area g MOD area mem) (x div MOD)" if "x < ALLOCATOR_AREA_SIZE" for x
    using cell_below(1) [OF assms that] n
    by (simp add: set_ckpt_area_def Let_def cell_bit_def mem_simps bitmap_simps div_less_iff_less_mult)
  then show ?thesis using assms
    by (auto simp: grid_keeps_def grid_view_def set_ckpt_area_def mem_simps split: grid.splits)
qed

lemma grid_keeps_restore:
  assumes "grid_keeps g MOD area v mem"
  shows "grid_keeps g MOD area v (restore_area g MOD area mem)" and "grid_view area (restore_area g MOD area mem) = v"
proof -
  have m: "good_mod MOD" using assms by (simp add: grid_keeps_def)
  note r = restore_area_at [OF m, where g = g and area = area and mem = mem]
  have eq: "restore_area g MOD area mem (area + x) = v x" if "x < ALLOCATOR_AREA_SIZE" for x
    using assms that r(1) [OF that] by (auto simp: grid_keeps_def)
  show "grid_view area (restore_area g MOD area mem) = v"
    using eq assms by (auto simp: grid_view_def grid_keeps_def fun_eq_iff)
  show "grid_keeps g MOD area v (restore_area g MOD area mem)"
    using eq r(2) r(3) cell_below(1) [OF m] assms by (auto simp: grid_keeps_def)
qed

section \<open>The hooks protect what is stored\<close>

lemma set_cell_bit_facts [simp]:
  "cell_bit area (set_cell_bit area c mem) k \<longleftrightarrow> k = c \<or> cell_bit area mem k"
  "x < 2 * ALLOCATOR_AREA_SIZE \<Longrightarrow> set_cell_bit area c mem (area + x) = mem (area + x)"
proof -
  have "k div 8 = c div 8 \<and> k mod 8 = c mod 8 \<longleftrightarrow> k = c" by (metis div_mult_mod_eq)
  then show "cell_bit area (set_cell_bit area c mem) k \<longleftrightarrow> k = c \<or> cell_bit area mem k"
    by (auto simp: cell_bit_def set_cell_bit_def Let_def bitmap_simps)
qed (simp add: set_cell_bit_def Let_def)

lemma save_cell_facts:
  assumes m: "good_mod MOD" and c: "c < cells MOD"
  shows "cell_bit area (save_cell MOD area c mem) k \<longleftrightarrow> k = c \<or> cell_bit area mem k"
    and "x < ALLOCATOR_AREA_SIZE \<Longrightarrow> save_cell MOD area c mem (area + x) = mem (area + x)"
    and "x < ALLOCATOR_AREA_SIZE \<Longrightarrow> save_cell MOD area c mem (area + ALLOCATOR_AREA_SIZE + x) =
      (if x div MOD = c \<and> \<not> cell_bit area mem c then mem (area + x) else mem (area + ALLOCATOR_AREA_SIZE + x))"
proof -
  have mm: "cells MOD * MOD = ALLOCATOR_AREA_SIZE" "0 < MOD" using good_mod_cells [OF m] by metis+
  have "Suc c * MOD \<le> cells MOD * MOD" using c by (intro mult_right_mono) auto
  then have lim: "c * MOD + MOD \<le> ALLOCATOR_AREA_SIZE" using mm by simp
  show "cell_bit area (save_cell MOD area c mem) k \<longleftrightarrow> k = c \<or> cell_bit area mem k"
  proof (cases "cell_bit area mem c")
    case False
    have "cell_bit area (memcpy (set_cell_bit area c mem) (area + ALLOCATOR_AREA_SIZE + c * MOD) (area + c * MOD) MOD) k
      = cell_bit area (set_cell_bit area c mem) k"
      using lim by (simp add: cell_bit_def mem_simps)
    with False show ?thesis by (simp add: save_cell_def)
  qed (auto simp: save_cell_def)
  show "save_cell MOD area c mem (area + x) = mem (area + x)" if "x < ALLOCATOR_AREA_SIZE"
    using that by (simp add: save_cell_def mem_simps)
  show "save_cell MOD area c mem (area + ALLOCATOR_AREA_SIZE + x) =
      (if x div MOD = c \<and> \<not> cell_bit area mem c then mem (area + x) else mem (area + ALLOCATOR_AREA_SIZE + x))"
    if x: "x < ALLOCATOR_AREA_SIZE"
  proof -
    have "x div MOD = c \<longleftrightarrow> c * MOD \<le> x \<and> x < c * MOD + MOD"
      using cell_below(2,3) [OF m x] mm(2) by (auto intro!: div_nat_eqI simp: algebra_simps)
    moreover have "set_cell_bit area c mem (area + ALLOCATOR_AREA_SIZE + x) = mem (area + ALLOCATOR_AREA_SIZE + x)"
      using set_cell_bit_facts(2) [of "ALLOCATOR_AREA_SIZE + x"] x by (simp add: add.assoc)
    ultimately show ?thesis using x by (auto simp: save_cell_def memcpy_def)
  qed
qed

lemma save_cell_keeps:
  assumes k: "grid_keeps COW MOD area v mem" and c: "c < cells MOD"
  shows "grid_keeps COW MOD area v (save_cell MOD area c mem)"
proof -
  have m: "good_mod MOD" using k by (simp add: grid_keeps_def)
  note f = save_cell_facts [OF m c, where area = area and mem = mem]
  show ?thesis using k by (auto simp: grid_keeps_def f)
qed

lemma set_cell_bit_keeps:
  assumes k: "grid_keeps BITMAP_SET MOD area v mem"
  shows "grid_keeps BITMAP_SET MOD area v (set_cell_bit area c mem)"
proof -
  have "set_cell_bit area c mem (area + ALLOCATOR_AREA_SIZE + x) = mem (area + ALLOCATOR_AREA_SIZE + x)"
    if "x < ALLOCATOR_AREA_SIZE" for x
    using set_cell_bit_facts(2) [of "ALLOCATOR_AREA_SIZE + x"] that by (simp add: add.assoc)
  then show ?thesis using k by (auto simp: grid_keeps_def)
qed

text \<open>A store of \<open>n\<close> bytes at \<open>p\<close> in the area, of at most the size of a cell.\<close>

definition within_area :: "nat \<Rightarrow> nat \<Rightarrow> nat \<Rightarrow> nat \<Rightarrow> bool" where
  "within_area MOD area p n \<longleftrightarrow> area \<le> p \<and> p < area + ALLOCATOR_AREA_SIZE \<and> p + n \<le> area + ALLOCATOR_AREA_SIZE \<and> n \<le> MOD"

text \<open>The area is aligned; the first hook skips the cell behind the last one only for \<open>MOD \<ge> 8\<close>.\<close>

definition grid_fit :: "grid \<Rightarrow> nat \<Rightarrow> nat \<Rightarrow> bool" where
  "grid_fit g MOD area \<longleftrightarrow> good_mod MOD \<and> ALLOCATOR_AREA_SIZE dvd area \<and> (g = COW \<longrightarrow> 8 \<le> MOD)"

lemma hook_address:
  assumes "grid_fit g MOD area" and "area \<le> p" and "p < area + ALLOCATOR_AREA_SIZE"
  shows "p mod ALLOCATOR_AREA_SIZE = p - area" and "p - p mod ALLOCATOR_AREA_SIZE = area" and "p mod MOD = (p - area) mod MOD"
proof -
  from assms(1) obtain q where q: "area = ALLOCATOR_AREA_SIZE * q" by (auto simp: grid_fit_def elim: dvdE)
  have p: "p = area + (p - area)" "p - area < ALLOCATOR_AREA_SIZE" using assms by simp_all
  then show e: "p mod ALLOCATOR_AREA_SIZE = p - area" using q by (metis mod_less mod_mult_self4)
  show "p - p mod ALLOCATOR_AREA_SIZE = area" using assms by (simp add: e)
  have "MOD dvd ALLOCATOR_AREA_SIZE" using assms(1) by (auto simp: grid_fit_def good_mod_def elim: dvd_mult_right)
  then have "MOD dvd area" using q by simp
  then show "p mod MOD = (p - area) mod MOD" using p(1) by (metis mod_add_left_eq mod_0 add_0 dvd_imp_mod_0)
qed

lemma touched_cells:
  fixes x y n MOD :: nat
  assumes "y \<le> x" and "x < y + n" and "n \<le> MOD"
  shows "y mod MOD = 0 \<Longrightarrow> x div MOD = y div MOD" and "x div MOD = y div MOD \<or> x div MOD = y div MOD + 1"
proof -
  have M: "0 < MOD" using assms by linarith
  have y: "y = y div MOD * MOD + y mod MOD" "y mod MOD < MOD" using M by simp_all
  have "x < y div MOD * MOD + MOD + MOD" using assms y by linarith
  also have "\<dots> = (y div MOD + 2) * MOD" by (simp add: algebra_simps)
  finally have "x < (y div MOD + 2) * MOD" .
  then have "x div MOD < y div MOD + 2" using M by (simp add: div_less_iff_less_mult)
  moreover have "y div MOD \<le> x div MOD" using assms(1) by (rule div_le_mono)
  ultimately show "x div MOD = y div MOD \<or> x div MOD = y div MOD + 1" by linarith
  show "x div MOD = y div MOD" if "y mod MOD = 0"
    using assms y that by (intro div_nat_eqI) (simp_all add: algebra_simps)
qed

lemma cow_hook_protects:
  assumes k: "grid_keeps COW MOD area v mem" and fit: "grid_fit COW MOD area" and w: "within_area MOD area p n"
  shows "grid_keeps COW MOD area v (cow_hook MOD p mem)
    \<and> (\<forall>x. p \<le> area + x \<longrightarrow> area + x < p + n \<longrightarrow> cell_bit area (cow_hook MOD p mem) (x div MOD))"
proof -
  let ?y = "p - area" let ?c = "?y div MOD"
  have m: "good_mod MOD" "8 \<le> MOD" using fit by (simp_all add: grid_fit_def)
  have mm: "cells MOD * MOD = ALLOCATOR_AREA_SIZE" "0 < MOD" using good_mod_cells [OF m(1)] by metis+
  have y: "?y < ALLOCATOR_AREA_SIZE" "p = area + ?y" "?y + n \<le> ALLOCATOR_AREA_SIZE" "n \<le> MOD"
    using w by (simp_all add: within_area_def) linarith+
  note a = hook_address [OF fit, of p]
  have c: "?c < cells MOD" by (rule cell_below(1) [OF m(1) y(1)])
  define mem1 where "mem1 = save_cell MOD area ?c mem"
  have k1: "grid_keeps COW MOD area v mem1" unfolding mem1_def by (rule save_cell_keeps [OF k c])
  have b1: "cell_bit area mem1 ?c" by (simp add: mem1_def save_cell_facts [OF m(1) c])
  note t = touched_cells [of ?y _ n MOD, OF _ _ y(4)]
  have xs: "?y \<le> x \<and> x < ?y + n" if "p \<le> area + x" "area + x < p + n" for x using that y by linarith
  show ?thesis
  proof (cases "?y mod MOD = 0")
    case True
    then have "cow_hook MOD p mem = mem1" using w a by (simp add: cow_hook_def within_area_def mem1_def)
    moreover have "cell_bit area mem1 (x div MOD)" if "p \<le> area + x" "area + x < p + n" for x
      using t(1) [OF conjunct1 [OF xs [OF that]] conjunct2 [OF xs [OF that]] True] b1 by (simp only:)
    ultimately show ?thesis using k1 by simp
  next
    case False
    define c2 where "c2 = (?c * MOD + MOD) mod ALLOCATOR_AREA_SIZE div MOD"
    have h: "cow_hook MOD p mem = (if ?c * MOD = ALLOCATOR_AREA_SIZE - 8 then mem1 else save_cell MOD area c2 mem1)"
      using w a False by (simp add: cow_hook_def within_area_def mem1_def c2_def Let_def)
    have c2: "c2 < cells MOD"
      unfolding c2_def by (rule cell_below(1) [OF m(1)]) (simp add: ALLOCATOR_AREA_SIZE_def)
    have next_cell: "c2 = ?c + 1" "?c * MOD \<noteq> ALLOCATOR_AREA_SIZE - 8" if "?c + 1 < cells MOD"
    proof -
      have "Suc (?c + 1) * MOD \<le> cells MOD * MOD" using that by (intro mult_right_mono) auto
      then have lt: "?c * MOD + 2 * MOD \<le> ALLOCATOR_AREA_SIZE" using mm by simp
      then have "(?c * MOD + MOD) mod ALLOCATOR_AREA_SIZE = (?c + 1) * MOD" using mm(2) by simp
      then show "c2 = ?c + 1" unfolding c2_def using mm(2) by simp
      show "?c * MOD \<noteq> ALLOCATOR_AREA_SIZE - 8" using lt m(2) by linarith
    qed
    have inside: "x div MOD < cells MOD" if "x < ?y + n" for x
      using that y(3) by (intro cell_below(1) [OF m(1)]) linarith
    have "cell_bit area (cow_hook MOD p mem) (x div MOD)" if x: "?y \<le> x" "x < ?y + n" for x
      using t(2) [OF x] next_cell inside [OF x(2)] b1 by (auto simp: h save_cell_facts [OF m(1) c2])
    moreover have "grid_keeps COW MOD area v (cow_hook MOD p mem)"
      unfolding h using k1 save_cell_keeps [OF k1 c2] by simp
    ultimately show ?thesis using xs by blast
  qed
qed

lemma set_hook_protects:
  assumes k: "grid_keeps BITMAP_SET MOD area v mem" and fit: "grid_fit BITMAP_SET MOD area" and w: "within_area MOD area p n"
  shows "grid_keeps BITMAP_SET MOD area v (set_hook MOD p mem)
    \<and> (\<forall>x. p \<le> area + x \<longrightarrow> area + x < p + n \<longrightarrow> cell_bit area (set_hook MOD p mem) (x div MOD))"
proof -
  let ?y = "p - area"
  have y: "p = area + ?y" "n \<le> MOD" using w by (simp_all add: within_area_def)
  note a = hook_address [OF fit, of p]
  note t = touched_cells [of ?y _ n MOD, OF _ _ y(2)]
  have xs: "?y \<le> x \<and> x < ?y + n" if "p \<le> area + x" "area + x < p + n" for x using that y by linarith
  have h: "set_hook MOD p mem = (if ?y mod MOD = 0 then set_cell_bit area (?y div MOD) mem
      else set_cell_bit area (?y div MOD + 1) (set_cell_bit area (?y div MOD) mem))"
    using w a by (simp add: set_hook_def within_area_def Let_def)
  have "cell_bit area (set_hook MOD p mem) (x div MOD)" if x: "?y \<le> x" "x < ?y + n" for x
    using t [OF x] by (auto simp: h)
  moreover have "grid_keeps BITMAP_SET MOD area v (set_hook MOD p mem)" unfolding h using k set_cell_bit_keeps by simp
  ultimately show ?thesis using xs by blast
qed

text \<open>The hook, then the store.\<close>

lemma grid_store_keeps:
  assumes k: "grid_keeps g MOD area v mem" and fit: "grid_fit g MOD area" and w: "within_area MOD area p (length bs)"
  shows "grid_keeps g MOD area v (store_bytes (grid_hook g MOD p mem) p bs)"
proof -
  let ?m = "grid_hook g MOD p mem" let ?n = "store_bytes ?m p bs"
  have h: "grid_keeps g MOD area v ?m"
    "\<And>x. p \<le> area + x \<Longrightarrow> area + x < p + length bs \<Longrightarrow> cell_bit area ?m (x div MOD)"
    using cow_hook_protects [of MOD area v mem p "length bs"] set_hook_protects [of MOD area v mem p "length bs"] k fit w
    by (cases g; auto simp: grid_hook_def)+
  have lim: "p + length bs \<le> area + ALLOCATOR_AREA_SIZE" using w by (simp add: within_area_def)
  have bits: "cell_bit area ?n c = cell_bit area ?m c" for c using lim by (simp add: cell_bit_def mem_simps)
  have sh: "?n (area + ALLOCATOR_AREA_SIZE + x) = ?m (area + ALLOCATOR_AREA_SIZE + x)" for x using lim by (simp add: mem_simps)
  have low: "?n (area + x) = ?m (area + x)" if "\<not> cell_bit area ?m (x div MOD)" for x
    using h(2) [of x] that by (auto simp: store_bytes_def)
  show ?thesis using h(1) sh unfolding grid_keeps_def bits by (auto simp: low)
qed

section \<open>Rolling back an object\<close>

definition grid_run :: "grid \<Rightarrow> nat \<Rightarrow> obj_op \<Rightarrow> ckpt_object \<Rightarrow> ckpt_object outcome" where
  "grid_run g MOD w x = (case w of
     Store p bs \<Rightarrow> Inr (on_bytes (\<lambda>mem. store_bytes (grid_hook g MOD p mem) p bs) x)
   | Alloc a \<Rightarrow> and_then (alloc_run GRID_CKPT a (om x)) (\<lambda>m. Inr (x\<lparr>om := m\<rparr>))
   | Draw s1 s2 \<Rightarrow> Inr (x\<lparr>seed1 := s1, seed2 := s2\<rparr>))"

definition grid_legal :: "nat \<Rightarrow> nat \<Rightarrow> obj_op \<Rightarrow> ckpt_object \<Rightarrow> bool" where
  "grid_legal MOD object w x = (case w of
     Store p bs \<Rightarrow> within_area MOD (object_address GRID_CKPT object) p (length bs)
   | Alloc a \<Rightarrow> (case alloc_run GRID_CKPT a (om x) of Inl e \<Rightarrow> False | Inr m \<Rightarrow> True)
   | Draw s1 s2 \<Rightarrow> True)"

definition grid_put :: "grid \<Rightarrow> nat \<Rightarrow> obj_op \<Rightarrow> ckpt_object \<Rightarrow> ckpt_object" where
  "grid_put g MOD w x = (case grid_run g MOD w x of Inl e \<Rightarrow> x | Inr y \<Rightarrow> y)"

definition grid_object_view :: "nat \<Rightarrow> ckpt_object \<Rightarrow> nat list list \<times> (nat \<Rightarrow> byte) \<times> 32 word \<times> 32 word" where
  "grid_object_view object x =
     (alloc_view (om x), grid_view (object_address GRID_CKPT object) (bytes (om x)), seed1 x, seed2 x)"

definition grid_object_keeps ::
  "bool \<Rightarrow> grid \<Rightarrow> nat \<Rightarrow> nat \<Rightarrow> nat list list \<times> (nat \<Rightarrow> byte) \<times> 32 word \<times> 32 word \<Rightarrow> ckpt_object \<Rightarrow> bool" where
  "grid_object_keeps debug g MOD object v x \<longleftrightarrow> (case v of (stacks, mem, s1, s2) \<Rightarrow>
     alloc_keeps stacks (om x) \<and> grid_keeps g MOD (object_address GRID_CKPT object) mem (bytes (om x))
     \<and> grid_fit g MOD (object_address GRID_CKPT object) \<and> obj_base (om x) = object_address GRID_CKPT object
     \<and> saved_seed1 x = s1 \<and> saved_seed2 x = s2 \<and> (debug \<longrightarrow> shadow_area x = Some mem))"

definition grid_usable :: "bool \<Rightarrow> grid \<Rightarrow> nat \<Rightarrow> bool \<Rightarrow> nat \<Rightarrow> ckpt_object \<Rightarrow> bool" where
  "grid_usable debug g MOD mapped object x \<longleftrightarrow> good_mod MOD \<and> (g = COW \<longrightarrow> 8 \<le> MOD)
     \<and> obj_base (om x) = object_address GRID_CKPT object \<and> (debug \<longrightarrow> mapped \<or> shadow_area x \<noteq> None)"

definition grid_mark :: "bool \<Rightarrow> grid \<Rightarrow> nat \<Rightarrow> bool \<Rightarrow> nat \<Rightarrow> ckpt_object \<Rightarrow> ckpt_object" where
  "grid_mark debug g MOD mapped object x = (case grid_set_ckpt debug g MOD mapped object x of Inl e \<Rightarrow> x | Inr y \<Rightarrow> y)"

definition grid_reset :: "bool \<Rightarrow> grid \<Rightarrow> nat \<Rightarrow> nat \<Rightarrow> ckpt_object \<Rightarrow> ckpt_object" where
  "grid_reset debug g MOD object x = (case grid_restore_object debug g MOD object x of Inl e \<Rightarrow> x | Inr y \<Rightarrow> y)"

lemma object_address_aligned: "ALLOCATOR_AREA_SIZE dvd object_address GRID_CKPT object"
  by (simp add: object_address_def ALLOCATOR_AREA_SIZE_def layout_defs stride_def)

lemma grid_fitI: "good_mod MOD \<Longrightarrow> (g = COW \<Longrightarrow> 8 \<le> MOD) \<Longrightarrow> grid_fit g MOD (object_address GRID_CKPT object)"
  by (simp add: grid_fit_def object_address_aligned)

lemma grid_view_area: "grid_view (obj_base m) (bytes m) = area_view m"
  by (simp add: grid_view_def area_view_def area_of_def area_size_eq cong: if_cong)

lemma alloc_keeps_bytes [simp]: "alloc_keeps st (m\<lparr>bytes := x\<rparr>) = alloc_keeps st m" "alloc_view (m\<lparr>bytes := x\<rparr>) = alloc_view m"
  by (simp_all add: alloc_keeps_def alloc_view_def)

lemma grid_set_ckpt_keeps:
  assumes u: "grid_usable debug g MOD mapped object x"
  shows "\<exists>y. grid_set_ckpt debug g MOD mapped object x = Inr y \<and> grid_object_keeps debug g MOD object (grid_object_view object x) y"
proof -
  let ?a = "object_address GRID_CKPT object" and ?m = "set_allocator_ckpt GRID_CKPT (om x)"
  define y where "y = save_seeds x\<lparr>om := ?m\<rparr>"
  have omy: "om y = ?m" "seed1 y = seed1 x" by (simp_all add: y_def save_seeds_def)
  have base: "obj_base (om x) = ?a" using u by (simp add: grid_usable_def)
  have av: "area_view ?m = area_view (om x)"
    by (simp add: area_view_def area_of_def set_allocator_ckpt_fields cong: if_cong)
  have "fill_shadow mapped y = Inr (y\<lparr>shadow_area := Some (area_view (om x))\<rparr>)" if debug
  proof -
    have "memcmp_equal (area_view (om x)) (area_of ?m) 0 MAX_MEMORY"
      unfolding av [symmetric] by (rule memcmp_equal_refl) (simp add: area_view_def)
    moreover have "\<not> (shadow_area y = None \<and> \<not> mapped)" using u that by (auto simp: grid_usable_def y_def save_seeds_def)
    ultimately show ?thesis by (simp add: fill_shadow_def Let_def omy av)
  qed
  then have run: "grid_set_ckpt debug g MOD mapped object x = Inr (on_bytes (set_ckpt_area g MOD ?a)
      (if debug then y\<lparr>shadow_area := Some (area_view (om x))\<rparr> else y))"
    by (simp add: grid_set_ckpt_def Let_def y_def [symmetric] save_seeds_def y_def)
  have "alloc_keeps (alloc_view (om x)) ?m" by (rule free_stacks.keeps_mark) simp
  moreover have "grid_keeps g MOD ?a (grid_view ?a (bytes (om x))) (set_ckpt_area g MOD ?a (bytes ?m))"
    using u grid_keeps_mark [of MOD g ?a "bytes (om x)"] by (simp add: grid_usable_def set_allocator_ckpt_fields)
  moreover have "grid_fit g MOD ?a" using u by (intro grid_fitI) (auto simp: grid_usable_def)
  moreover have "area_view (om x) = grid_view ?a (bytes (om x))" using grid_view_area [of "om x"] base by simp
  ultimately show ?thesis unfolding run using base
    by (auto simp: grid_object_keeps_def grid_object_view_def on_bytes_def y_def save_seeds_def set_allocator_ckpt_fields)
qed

lemma grid_put_keeps:
  assumes keeps: "grid_object_keeps debug g MOD object v x" and legal: "grid_legal MOD object w x"
  shows "\<exists>y. grid_run g MOD w x = Inr y \<and> grid_object_keeps debug g MOD object v y"
proof -
  obtain st mem s1 s2 where v: "v = (st, mem, s1, s2)" by (metis prod_cases4)
  show ?thesis
  proof (cases w)
    case (Store p bs)
    have "grid_keeps g MOD (object_address GRID_CKPT object) mem (store_bytes (grid_hook g MOD p (bytes (om x))) p bs)"
      using keeps legal by (intro grid_store_keeps) (simp_all add: grid_object_keeps_def v grid_legal_def Store)
    then show ?thesis using keeps by (auto simp: grid_run_def Store grid_object_keeps_def v on_bytes_def)
  next
    case (Alloc a)
    then obtain n where n: "alloc_run GRID_CKPT a (om x) = Inr n" using legal by (auto simp: grid_legal_def split: sum.splits)
    have "alloc_keeps st n" using free_stacks.keeps_put [of st "om x" GRID_CKPT a] keeps n
      by (auto simp: alloc_put_def grid_object_keeps_def v)
    then show ?thesis using keeps n alloc_run_chunks(1) [OF n]
      by (auto simp: grid_run_def Alloc grid_object_keeps_def v same_chunks_def)
  next
    case (Draw t1 t2)
    then show ?thesis using keeps by (auto simp: grid_run_def grid_object_keeps_def v)
  qed
qed

lemma grid_restore_keeps:
  assumes keeps: "grid_object_keeps debug g MOD object v x"
  shows "\<exists>y. grid_restore_object debug g MOD object x = Inr y \<and> grid_object_keeps debug g MOD object v y \<and> grid_object_view object y = v"
proof -
  obtain st mem s1 s2 where v: "v = (st, mem, s1, s2)" by (metis prod_cases4)
  let ?a = "object_address GRID_CKPT object" and ?m = "restore_allocator (om x)"
  define n where "n = ?m\<lparr>bytes := restore_area g MOD ?a (bytes ?m)\<rparr>"
  have kp: "alloc_keeps st (om x)" "grid_keeps g MOD ?a mem (bytes (om x))" "obj_base (om x) = ?a"
    using keeps by (simp_all add: grid_object_keeps_def v)
  have a: "alloc_keeps st ?m" "alloc_view ?m = st"
    using kp(1) free_stacks.keeps_restore free_stacks.view_restore by blast+
  have g: "grid_keeps g MOD ?a mem (bytes n)" "grid_view ?a (bytes n) = mem"
    using grid_keeps_restore [OF kp(2)] by (simp_all add: n_def restore_allocator_fields)
  have base: "obj_base n = ?a" using kp(3) by (simp add: n_def restore_allocator_fields)
  define y where "y = x\<lparr>om := n, seed1 := s1, seed2 := s2\<rparr>"
  have omy: "om y = n" by (simp add: y_def)
  have run: "grid_restore_object debug g MOD object x = (if debug then grid_check_shadow MOD y else Inr y)"
    using keeps by (simp add: grid_restore_object_def Let_def restore_seeds_def y_def n_def on_bytes_def grid_object_keeps_def v)
  have "grid_check_shadow MOD y = Inr y" if debug
  proof -
    have sa: "shadow_area y = Some mem" using keeps that by (simp add: grid_object_keeps_def v y_def)
    have "mem = area_view n" using g(2) grid_view_area [of n] base by simp
    then have "memcmp_equal mem (area_of n) 0 MAX_MEMORY" by (intro memcmp_equal_refl) (simp add: area_view_def)
    then show ?thesis by (simp add: grid_check_shadow_def sa omy)
  qed
  moreover have "grid_object_keeps debug g MOD object v y" "grid_object_view object y = v"
    using g a base keeps by (simp_all add: grid_object_keeps_def v y_def grid_object_view_def n_def)
  ultimately show ?thesis using run by auto
qed

interpretation grid_object: snapshot_backend "grid_usable debug g MOD mapped object" "grid_object_view object"
  "grid_mark debug g MOD mapped object" "grid_legal MOD object" "grid_put g MOD" "grid_reset debug g MOD object"
  "grid_object_keeps debug g MOD object"
  for debug g MOD mapped object
proof unfold_locales
  show "grid_object_keeps debug g MOD object (grid_object_view object x) (grid_mark debug g MOD mapped object x)"
    if "grid_usable debug g MOD mapped object x" for x
    using grid_set_ckpt_keeps [OF that] by (auto simp: grid_mark_def)
  show "grid_object_keeps debug g MOD object v (grid_put g MOD w x)"
    if "grid_object_keeps debug g MOD object v x" "grid_legal MOD object w x" for v x w
    using grid_put_keeps [OF that] by (auto simp: grid_put_def)
  show "grid_object_keeps debug g MOD object v (grid_reset debug g MOD object x)" if "grid_object_keeps debug g MOD object v x" for v x
    using grid_restore_keeps [OF that] by (auto simp: grid_reset_def)
  show "grid_object_view object (grid_reset debug g MOD object x) = v" if "grid_object_keeps debug g MOD object v x" for v x
    using grid_restore_keeps [OF that] by (auto simp: grid_reset_def)
qed

text \<open>
  Property C7. Whatever an object stores in its area (in pieces of at most \<open>MOD\<close> bytes, at any
  alignment), allocates, frees and draws after a grid checkpoint, restoring it gives back its whole area,
  its free stacks and both seeds, in both grid backends; the comparison of the debug build does not fail.
\<close>

theorem grid_rollback_correct:
  assumes "grid_usable debug g MOD mapped object x" and "grid_set_ckpt debug g MOD mapped object x = Inr y"
    and "legal_run (grid_legal MOD object) (grid_put g MOD) ws y"
  shows "\<exists>z. grid_restore_object debug g MOD object (fold (grid_put g MOD) ws y) = Inr z
    \<and> grid_object_view object z = grid_object_view object x"
proof -
  have y: "grid_mark debug g MOD mapped object x = y" using assms(2) by (simp add: grid_mark_def)
  have "grid_object_keeps debug g MOD object (grid_object_view object x) (fold (grid_put g MOD) ws y)"
    using grid_object.keeps_run [OF grid_object.keeps_mark [OF assms(1)]] assms(3) by (simp add: y)
  from grid_restore_keeps [OF this] show ?thesis by blast
qed

lemma demo_grid_usable: "grid_usable True COW 16 True 1 (demo_object GRID_CKPT)"
  using demo_memory_facts [of GRID_CKPT] good_mod_power [of 4] by (simp add: grid_usable_def demo_object_def)

theorem grid_rollback_correct_witness:
  "\<exists>y z. grid_set_ckpt True COW 16 True 1 (demo_object GRID_CKPT) = Inr y
     \<and> grid_restore_object True COW 16 1
         (fold (grid_put COW 16) [Store (object_address GRID_CKPT 1 + 13) [1, 2, 3, 4], Draw 5 6] y) = Inr z
     \<and> grid_object_view 1 z = grid_object_view 1 (demo_object GRID_CKPT)"
proof -
  obtain y where y: "grid_set_ckpt True COW 16 True 1 (demo_object GRID_CKPT) = Inr y"
    using grid_set_ckpt_keeps [OF demo_grid_usable] by blast
  have "legal_run (grid_legal 16 1) (grid_put COW 16) [Store (object_address GRID_CKPT 1 + 13) [1, 2, 3, 4], Draw 5 6] y"
    by (simp add: grid_legal_def within_area_def ALLOCATOR_AREA_SIZE_def)
  from grid_rollback_correct [OF demo_grid_usable y this] y show ?thesis by blast
qed

end
