(* ===== verification/Instruction.thy ===== *)
theory Instruction
  imports Snapshot
begin

text \<open>
  The records of \<open>include/elf_parse.h\<close> of the instrumentation, and the address of a memory operand as the
  hooks compute it from the saved registers. A \<open>long\<close> and a pointer are 64-bit words.
\<close>

record target_address =
  displacement :: "64 word"
  base_index :: int
  scale_index :: int
  scale :: "64 word"

record instruction_record =
  record_index :: int
  function_name :: string
  address :: "64 word"
  isize :: nat
  indirect_jump :: char
  middle_buffer :: "64 word"
  type :: char
  rip_relative :: char
  effective_operand_address :: "64 word"
  whole :: string
  opcode :: string
  source :: string
  dest :: string
  data_size :: int
  instrumentation_instructions :: int
  target :: target_address

text \<open>
  The snapshot of the registers the assembly preamble pushes: fifteen registers, register \<open>k\<close> (counted
  from 1) at offset \<open>8 * (k - 1)\<close>. Any other index is outside of it.
\<close>

type_synonym registers = "nat \<Rightarrow> 64 word"

definition SAVED_REGISTERS :: int where "SAVED_REGISTERS = 15"

definition read_reg :: "registers \<Rightarrow> int \<Rightarrow> 64 word outcome" where
  "read_reg regs k = (if 1 \<le> k \<and> k \<le> SAVED_REGISTERS then Inr (regs (nat (k - 1))) else Inl Undefined)"

definition write_reg :: "registers \<Rightarrow> int \<Rightarrow> 64 word \<Rightarrow> registers outcome" where
  "write_reg regs k v = (if 1 \<le> k \<and> k \<le> SAVED_REGISTERS then Inr (regs(nat (k - 1) := v)) else Inl Undefined)"

text \<open>The hook of \<open>MVM_CHUNK\<close> reads the base register unconditionally.\<close>

definition chunk_operand_address :: "instruction_record \<Rightarrow> registers \<Rightarrow> 64 word outcome" where
  "chunk_operand_address ins regs =
     (if effective_operand_address ins \<noteq> 0 then Inr (effective_operand_address ins)
      else let t = target ins in
        and_then (read_reg regs (base_index t)) (\<lambda>A.
        and_then (if scale_index t \<noteq> 0 then read_reg regs (scale_index t) else Inr 0) (\<lambda>B.
          Inr (displacement t + A + B * scale t))))"

definition compute_effective_address :: "instruction_record \<Rightarrow> registers \<Rightarrow> 64 word outcome" where
  "compute_effective_address ins regs =
     (if effective_operand_address ins \<noteq> 0 then Inr (effective_operand_address ins)
      else let t = target ins in
        and_then (if base_index t \<noteq> 0 then read_reg regs (base_index t) else Inr 0) (\<lambda>base_reg_value.
        and_then (if scale_index t \<noteq> 0 then read_reg regs (scale_index t) else Inr 0) (\<lambda>index_reg_value.
          Inr (displacement t + base_reg_value + index_reg_value * scale t))))"

text \<open>
  Moving the operand: the base register gets the difference of the two addresses. The result tells
  whether the operand was moved (1) or cannot be (0).
\<close>

definition rewrite_base_reg_for_ea ::
  "instruction_record \<Rightarrow> registers \<Rightarrow> 64 word \<Rightarrow> 64 word \<Rightarrow> (int \<times> registers) outcome" where
  "rewrite_base_reg_for_ea ins regs ea ea_prime =
     (let t = target ins; delta = ea_prime - ea in
      if rip_relative ins = CHR ''y'' then Inr (0, regs)
      else if base_index t = 0 then Inr (0, regs)
      else if scale_index t \<noteq> 0 then Inr (0, regs)
      else if delta = 0 then Inr (1, regs)
      else and_then (read_reg regs (base_index t)) (\<lambda>base_val.
           and_then (write_reg regs (base_index t) (base_val + delta)) (\<lambda>regs'. Inr (1, regs'))))"

text \<open>After a move, the original instruction addresses the new place.\<close>

lemma rewrite_moves:
  assumes "rewrite_base_reg_for_ea ins regs ea ea' = Inr (1, regs')" and "compute_effective_address ins regs = Inr ea"
    and "effective_operand_address ins = 0"
  shows "compute_effective_address ins regs' = Inr ea'"
  using assms
  by (auto simp: rewrite_base_reg_for_ea_def compute_effective_address_def Let_def and_then_eq_Inr read_reg_def
      write_reg_def split: if_splits)

lemma rewrite_results:
  "rewrite_base_reg_for_ea ins regs ea ea' = Inr (r, regs') \<Longrightarrow> r = 0 \<and> regs' = regs \<or> r = 1"
  by (auto simp: rewrite_base_reg_for_ea_def Let_def and_then_eq_Inr split: if_splits)

end
