(* ===== verification/Mmap_Mv.thy ===== *)
theory Mmap_Mv
  imports Instruction Allocator
begin

text \<open>
  The multi-version backend of \<open>MVM_MMAP_MULTIVERSIONING/patches/patches.c\<close> in its three builds: the base
  build, which opens a second copy of a page at its first store of an epoch and redirects accesses to it;
  \<open>MMAP_MV_STORE\<close>, which saves the page instead and leaves it in place; and \<open>MMAP_MV_STORE_GRID\<close>, which
  saves only the touched cells of it. Memory is flat; the pages \<open>posix_memalign\<close> returns are an argument:
  \<open>alloc a\<close> is the answer for the page of address \<open>a\<close>.
\<close>

section \<open>State\<close>

datatype mv = BASE | STORE | STORE_GRID

text \<open>\<open>MVMM_PAGE_SIZE\<close> and \<open>MVMM_GRID_SIZE\<close>.\<close>

record mv_config =
  PAGE_SIZE :: nat
  GRID_SIZE :: nat

definition UINT64_MAX :: "64 word" where "UINT64_MAX = -1"

record page_state =
  last_ts_seen :: "64 word"
  last_touched_ts :: "64 word"
  cur_slot :: nat
  slot_ts :: "nat \<Rightarrow> 64 word"
  slots :: "nat \<Rightarrow> nat option"

text \<open>A list of touched pages is its prefix in use; \<open>npages\<close> entries are allocated for it.\<close>

record region =
  rbase :: nat
  rlen :: nat
  npages :: nat
  pages :: "nat \<Rightarrow> page_state"
  grid_cells_per_page :: nat
  grid_bitmap_bytes :: nat
  grid_curr :: "nat \<Rightarrow> byte"
  touched_curr :: "nat list"
  touched_curr_ts :: "64 word"
  touched_prev :: "nat list"
  touched_prev_ts :: "64 word"

definition set_page :: "nat \<Rightarrow> (page_state \<Rightarrow> page_state) \<Rightarrow> region \<Rightarrow> region" where
  "set_page i f r = r\<lparr>pages := (pages r)(i := f (pages r i))\<rparr>"

text \<open>
  The list of regions is newest first; a pointer to a region is its number, counted from the oldest, so
  that it survives registrations. \<open>cached\<close> is the calling thread's.
\<close>

record mvmm =
  memory_of :: memory
  regions :: "region list"
  epoch_round :: "64 word"
  ckpt_counter :: "64 word"
  object_base :: "nat \<Rightarrow> nat option"

definition region_at :: "region list \<Rightarrow> nat \<Rightarrow> region" where
  "region_at rs n = rev rs ! n"

definition set_region :: "nat \<Rightarrow> region \<Rightarrow> mvmm \<Rightarrow> mvmm" where
  "set_region n r s = s\<lparr>regions := rev ((rev (regions s))[n := r])\<rparr>"

section \<open>Looking up regions\<close>

definition region_contains :: "region \<Rightarrow> nat \<Rightarrow> bool" where
  "region_contains r a \<longleftrightarrow> rbase r \<le> a \<and> a < rbase r + rlen r"

fun find_region :: "region list \<Rightarrow> nat \<Rightarrow> nat option" where
  "find_region [] a = None"
| "find_region (r # rs) a = (if region_contains r a then Some (length rs) else find_region rs a)"

definition find_region_cached :: "region list \<Rightarrow> nat option \<Rightarrow> nat \<Rightarrow> nat option \<times> nat option" where
  "find_region_cached rs cached a =
     (case cached of
        Some n \<Rightarrow> if region_contains (region_at rs n) a then (Some n, cached)
                  else let f = find_region rs a in (f, f)
      | None \<Rightarrow> let f = find_region rs a in (f, f))"

definition find_region_for_object :: "nat \<Rightarrow> mvmm \<Rightarrow> int \<Rightarrow> nat option" where
  "find_region_for_object objects s object =
     (if object < 0 \<or> object \<ge> int objects then None
      else case object_base s (nat object) of None \<Rightarrow> None | Some b \<Rightarrow> find_region (regions s) b)"

section \<open>Saving pages and cells\<close>

definition grid_cell_size :: "mv_config \<Rightarrow> nat \<Rightarrow> nat" where
  "grid_cell_size cfg cell_idx =
     (let start = cell_idx * GRID_SIZE cfg in
      if start \<ge> PAGE_SIZE cfg then 0
      else if start + GRID_SIZE cfg > PAGE_SIZE cfg then PAGE_SIZE cfg - start else GRID_SIZE cfg)"

definition grid_index :: "region \<Rightarrow> nat \<Rightarrow> nat \<Rightarrow> nat" where
  "grid_index r page_idx cell_idx = page_idx * grid_bitmap_bytes r + cell_idx div 8"

definition grid_cell_is_set :: "region \<Rightarrow> nat \<Rightarrow> nat \<Rightarrow> bool" where
  "grid_cell_is_set r page_idx cell_idx = bit_is_set (grid_curr r (grid_index r page_idx cell_idx)) (cell_idx mod 8)"

definition grid_cell_set :: "region \<Rightarrow> nat \<Rightarrow> nat \<Rightarrow> region" where
  "grid_cell_set r page_idx cell_idx =
     (let k = grid_index r page_idx cell_idx in
      r\<lparr>grid_curr := (grid_curr r)(k := set_bit8 (grid_curr r k) (cell_idx mod 8))\<rparr>)"

definition rotate_touched :: "mv \<Rightarrow> region \<Rightarrow> 64 word \<Rightarrow> region" where
  "rotate_touched v r ts =
     (if touched_curr_ts r = ts then r
      else
        let r1 = (if v = STORE_GRID then r
                  else r\<lparr>touched_prev := touched_curr r, touched_prev_ts := touched_curr_ts r\<rparr>)
        in r1\<lparr>touched_curr := [], touched_curr_ts := ts\<rparr>)"

definition note_page_touch :: "mv \<Rightarrow> region \<Rightarrow> nat \<Rightarrow> 64 word \<Rightarrow> region outcome" where
  "note_page_touch v r page_idx ts =
     (let r1 = rotate_touched v r ts in
      if last_touched_ts (pages r1 page_idx) = ts then Inr r1
      else if length (touched_curr r1) \<ge> npages r1 then Inl Undefined
      else Inr ((set_page page_idx (last_touched_ts_update (\<lambda>_. ts)) r1)\<lparr>touched_curr := touched_curr r1 @ [page_idx]\<rparr>))"

text \<open>The result tells whether the page has its second slot.\<close>

definition prepare_snapshot_slot ::
  "mv \<Rightarrow> (nat \<Rightarrow> nat option) \<Rightarrow> region \<Rightarrow> nat \<Rightarrow> nat \<Rightarrow> 64 word \<Rightarrow> (bool \<times> region) outcome" where
  "prepare_snapshot_slot v alloc r page_base page_idx ts =
     and_then (note_page_touch v r page_idx ts) (\<lambda>r1.
       let (ok, r2) =
         (if slots (pages r1 page_idx) 1 = None then
            (case alloc page_base of
               None \<Rightarrow> (False, r1)
             | Some p \<Rightarrow> (True, set_page page_idx (\<lambda>ps. ps\<lparr>slots := (slots ps)(1 := Some p)\<rparr>) r1))
          else (True, r1))
       in if \<not> ok then Inr (False, r2)
          else if v = STORE_GRID \<and> slot_ts (pages r2 page_idx) 1 \<noteq> ts then
            let k = page_idx * grid_bitmap_bytes r2 in
            Inr (True, (set_page page_idx (\<lambda>ps. ps\<lparr>slot_ts := (slot_ts ps)(1 := ts)\<rparr>) r2)
              \<lparr>grid_curr := (\<lambda>j. if k \<le> j \<and> j < k + grid_bitmap_bytes r2 then 0 else grid_curr r2 j)\<rparr>)
          else Inr (True, r2))"

definition snapshot_cell :: "mv_config \<Rightarrow> nat \<Rightarrow> nat \<Rightarrow> region \<times> memory \<Rightarrow> region \<times> memory" where
  "snapshot_cell cfg page_idx cell_idx = (\<lambda>(r, mem).
     if grid_cell_is_set r page_idx cell_idx then (r, mem)
     else let cell_off = cell_idx * GRID_SIZE cfg; cell_len = grid_cell_size cfg cell_idx in
       if cell_len = 0 then (r, mem)
       else (grid_cell_set r page_idx cell_idx,
             memcpy mem (the (slots (pages r page_idx) 1) + cell_off) (the (slots (pages r page_idx) 0) + cell_off) cell_len))"

definition snapshot_page_cells ::
  "mv_config \<Rightarrow> (nat \<Rightarrow> nat option) \<Rightarrow> nat \<Rightarrow> nat \<Rightarrow> nat \<Rightarrow> nat \<Rightarrow> 64 word \<Rightarrow> region \<times> memory
   \<Rightarrow> (bool \<times> region \<times> memory) outcome" where
  "snapshot_page_cells cfg alloc page_base page_idx page_off_start page_off_end ts = (\<lambda>(r, mem).
     if page_off_start \<ge> page_off_end then Inr (True, r, mem)
     else and_then (prepare_snapshot_slot STORE_GRID alloc r page_base page_idx ts) (\<lambda>(ok, r1).
       if \<not> ok then Inr (False, r1, mem)
       else
         let first_cell = page_off_start div GRID_SIZE cfg; last_cell = (page_off_end - 1) div GRID_SIZE cfg;
             (r2, mem2) = fold (snapshot_cell cfg page_idx) [first_cell..<last_cell + 1] (r1, mem)
         in Inr (True, set_page page_idx (last_ts_seen_update (\<lambda>_. ts)) r2, mem2)))"

definition snapshot_page ::
  "mv \<Rightarrow> mv_config \<Rightarrow> (nat \<Rightarrow> nat option) \<Rightarrow> nat \<Rightarrow> nat \<Rightarrow> 64 word \<Rightarrow> region \<times> memory
   \<Rightarrow> (bool \<times> region \<times> memory) outcome" where
  "snapshot_page v cfg alloc page_base page_idx ts = (\<lambda>(r, mem).
     if v = STORE_GRID then snapshot_page_cells cfg alloc page_base page_idx 0 (PAGE_SIZE cfg) ts (r, mem)
     else and_then (prepare_snapshot_slot v alloc r page_base page_idx ts) (\<lambda>(ok, r1).
       let ps = pages r1 page_idx in
       if \<not> ok then Inr (False, r1, mem)
       else if slot_ts ps 1 = ts then Inr (True, r1, mem)
       else Inr (True, set_page page_idx (\<lambda>ps. ps\<lparr>slot_ts := (slot_ts ps)(1 := ts), last_ts_seen := ts\<rparr>) r1,
                 memcpy mem (the (slots ps 1)) (the (slots ps 0)) (PAGE_SIZE cfg))))"

text \<open>
  The page of an address in a region, or \<open>None\<close> when its number is not below \<open>npages\<close> (an address below
  the region's base gives a number near \<open>2^64\<close>).
\<close>

definition page_mask :: "mv_config \<Rightarrow> 64 word" where
  "page_mask cfg = of_nat (PAGE_SIZE cfg) - 1"

definition page_base_of :: "mv_config \<Rightarrow> nat \<Rightarrow> nat" where
  "page_base_of cfg a = unat (of_nat a AND NOT (page_mask cfg))"

definition page_of :: "mv_config \<Rightarrow> region \<Rightarrow> nat \<Rightarrow> nat option" where
  "page_of cfg r a =
     (let page_base = page_base_of cfg a; page_idx = (page_base - rbase r) div PAGE_SIZE cfg in
      if page_base < rbase r \<or> npages r \<le> page_idx then None else Some page_idx)"

text \<open>The part of a range that lies in the page of \<open>cur\<close>; the boolean tells the loop to go on.\<close>

definition snapshot_piece ::
  "mv \<Rightarrow> mv_config \<Rightarrow> (nat \<Rightarrow> nat option) \<Rightarrow> 64 word \<Rightarrow> nat \<Rightarrow> nat \<Rightarrow> nat option \<times> mvmm \<Rightarrow> (bool \<times> nat option \<times> mvmm) outcome" where
  "snapshot_piece v cfg alloc ts cur next = (\<lambda>(cached, s).
     let page_base = page_base_of cfg cur;
         (found, cached1) = find_region_cached (regions s) cached cur in
     case found of
       None \<Rightarrow> Inr (True, cached1, s)
     | Some n \<Rightarrow>
         let r = region_at (regions s) n in
         (case page_of cfg r cur of
            None \<Rightarrow> Inr (True, cached1, s)
          | Some page_idx \<Rightarrow>
              and_then (if v = STORE_GRID
                        then snapshot_page_cells cfg alloc page_base page_idx (cur - page_base) (next - page_base) ts (r, memory_of s)
                        else snapshot_page v cfg alloc page_base page_idx ts (r, memory_of s))
                (\<lambda>(ok, r1, mem1). Inr (ok, cached1, set_region n r1 s\<lparr>memory_of := mem1\<rparr>))))"

text \<open>The start of the next page wraps around to 0 in the last page of the address space.\<close>

definition next_page :: "mv_config \<Rightarrow> nat \<Rightarrow> nat \<Rightarrow> nat" where
  "next_page cfg cur final =
     (let next = (page_base_of cfg cur + PAGE_SIZE cfg) mod 2 ^ 64 in if next \<le> cur \<or> final < next then final else next)"

function snapshot_pieces ::
  "mv \<Rightarrow> mv_config \<Rightarrow> (nat \<Rightarrow> nat option) \<Rightarrow> 64 word \<Rightarrow> nat \<Rightarrow> nat \<Rightarrow> nat option \<times> mvmm \<Rightarrow> (nat option \<times> mvmm) outcome" where
  "snapshot_pieces v cfg alloc ts cur final st =
     (if cur < final then
        and_then (snapshot_piece v cfg alloc ts cur (next_page cfg cur final) st) (\<lambda>(ok, st1).
          if ok then snapshot_pieces v cfg alloc ts (next_page cfg cur final) final st1 else Inr st1)
      else Inr st)"
  by pat_completeness auto
termination
  by (relation "measure (\<lambda>(v, cfg, alloc, ts, cur, final, st). final - cur)") (auto simp: next_page_def Let_def)

declare snapshot_pieces.simps [simp del]

definition snapshot_range ::
  "mv \<Rightarrow> mv_config \<Rightarrow> (nat \<Rightarrow> nat option) \<Rightarrow> nat \<Rightarrow> nat \<Rightarrow> nat option \<times> mvmm \<Rightarrow> (nat option \<times> mvmm) outcome" where
  "snapshot_range v cfg alloc dst n st =
     (let final = (dst + n) mod 2 ^ 64 in
      if n = 0 \<or> final \<le> dst then Inr st
      else snapshot_pieces v cfg alloc (epoch_round (snd st)) dst final st)"

section \<open>Redirecting accesses\<close>

definition current_page_ptr :: "region \<Rightarrow> nat \<Rightarrow> nat option" where
  "current_page_ptr r page_idx = slots (pages r page_idx) (cur_slot (pages r page_idx))"

text \<open>
  The first store of an epoch in the base build: the other slot gets a copy of the current one and takes
  its place. The boolean is false when the code gives up (no page, no current slot).
\<close>

definition open_version ::
  "mv_config \<Rightarrow> (nat \<Rightarrow> nat option) \<Rightarrow> nat \<Rightarrow> nat \<Rightarrow> 64 word \<Rightarrow> region \<times> memory \<Rightarrow> bool \<times> region \<times> memory" where
  "open_version cfg alloc page_base page_idx ts = (\<lambda>(r, mem).
     if last_ts_seen (pages r page_idx) = ts then (True, r, mem)
     else
       let r1 = set_page page_idx (last_ts_seen_update (\<lambda>_. ts)) r;
           cur = cur_slot (pages r1 page_idx); next = 1 - cur in
       case (case slots (pages r1 page_idx) next of Some p \<Rightarrow> Some p | None \<Rightarrow> alloc page_base) of
         None \<Rightarrow> (False, r1, mem)
       | Some dst \<Rightarrow>
           let r2 = set_page page_idx (\<lambda>ps. ps\<lparr>slots := (slots ps)(next := Some dst)\<rparr>) r1 in
           (case slots (pages r2 page_idx) cur of
              None \<Rightarrow> (False, r2, mem)
            | Some src \<Rightarrow>
                (True, set_page page_idx (\<lambda>ps. ps\<lparr>slot_ts := (slot_ts ps)(next := ts), cur_slot := next\<rparr>) r2,
                 memcpy mem dst src (PAGE_SIZE cfg))))"

definition translate_ea ::
  "mv \<Rightarrow> mv_config \<Rightarrow> (nat \<Rightarrow> nat option) \<Rightarrow> nat option \<Rightarrow> nat \<Rightarrow> bool \<Rightarrow> mvmm \<Rightarrow> (nat \<times> mvmm) outcome" where
  "translate_ea v cfg alloc found ea is_store s =
     (case found of
        None \<Rightarrow> Inr (ea, s)
      | Some n \<Rightarrow>
          let r = region_at (regions s) n; page_base = page_base_of cfg ea; ts = epoch_round s in
          (case page_of cfg r ea of
             None \<Rightarrow> Inr (ea, s)
           | Some page_idx \<Rightarrow>
               if v \<noteq> BASE then
                 (if \<not> is_store then Inr (ea, s)
                  else and_then (snapshot_page v cfg alloc page_base page_idx ts (r, memory_of s))
                         (\<lambda>(ok, r1, mem1). Inr (ea, set_region n r1 s\<lparr>memory_of := mem1\<rparr>)))
               else if is_store then
                 and_then (note_page_touch v r page_idx ts) (\<lambda>r1.
                   let (ok, r2, mem2) = open_version cfg alloc page_base page_idx ts (r1, memory_of s);
                       s2 = set_region n r2 s\<lparr>memory_of := mem2\<rparr> in
                   if \<not> ok then Inr (ea, s2)
                   else case current_page_ptr r2 page_idx of
                          None \<Rightarrow> Inr (ea, s2)
                        | Some curp \<Rightarrow> Inr (curp + (ea - page_base), s2))
               else
                 (case current_page_ptr r page_idx of
                    None \<Rightarrow> Inr (ea, s)
                  | Some curp \<Rightarrow> Inr (curp + (ea - page_base), s))))"

definition is_cross_page :: "mv_config \<Rightarrow> nat \<Rightarrow> nat \<Rightarrow> bool" where
  "is_cross_page cfg ea sz \<longleftrightarrow> PAGE_SIZE cfg < unat (of_nat ea AND page_mask cfg) + sz"

text \<open>\<open>(size_t)ins->data_size\<close>.\<close>

definition access_size :: "instruction_record \<Rightarrow> nat" where
  "access_size ins = nat (data_size ins mod 2 ^ 64)"

definition the_patch ::
  "mv \<Rightarrow> mv_config \<Rightarrow> (nat \<Rightarrow> nat option) \<Rightarrow> instruction_record option \<Rightarrow> registers \<Rightarrow> nat option \<times> mvmm
   \<Rightarrow> (registers \<times> nat option \<times> mvmm) outcome" where
  "the_patch v cfg alloc mem regs = (\<lambda>(cached, s).
     case mem of
       None \<Rightarrow> Inr (regs, cached, s)
     | Some ins \<Rightarrow>
         if (if v = BASE then type ins \<noteq> CHR ''s'' \<and> type ins \<noteq> CHR ''l'' else type ins \<noteq> CHR ''s'') then Inr (regs, cached, s)
         else and_then (compute_effective_address ins regs) (\<lambda>w.
           if w = 0 then Inr (regs, cached, s)
           else
             let ea = unat w; (found, cached1) = find_region_cached (regions s) cached ea; sz = access_size ins in
             if found = None then Inr (regs, cached1, s)
             else if v \<noteq> BASE then
               and_then (snapshot_range v cfg alloc ea (if sz = 0 then 1 else sz) (cached1, s)) (\<lambda>(cached2, s2).
                 Inr (regs, cached2, s2))
             else if sz \<noteq> 0 \<and> is_cross_page cfg ea sz then Inr (regs, cached1, s)
             else and_then (translate_ea v cfg alloc found ea (type ins = CHR ''s'') s) (\<lambda>(ea_prime, s2).
                  and_then (rewrite_base_reg_for_ea ins regs w (of_nat ea_prime)) (\<lambda>(moved, regs2).
                    Inr (regs2, cached1, s2)))))"

fun memcpy_loop ::
  "mv \<Rightarrow> mv_config \<Rightarrow> (nat \<Rightarrow> nat option) \<Rightarrow> nat option \<Rightarrow> nat option \<Rightarrow> nat \<Rightarrow> nat \<Rightarrow> nat list \<Rightarrow> mvmm \<Rightarrow> mvmm outcome" where
  "memcpy_loop v cfg alloc dst_r src_r dst src [] s = Inr s"
| "memcpy_loop v cfg alloc dst_r src_r dst src (i # is) s =
     and_then (translate_ea v cfg alloc src_r (src + i) False s) (\<lambda>(cur_src, s1).
     and_then (translate_ea v cfg alloc dst_r (dst + i) True s1) (\<lambda>(cur_dst, s2).
       memcpy_loop v cfg alloc dst_r src_r dst src is
         (s2\<lparr>memory_of := (memory_of s2)(cur_dst := memory_of s2 cur_src)\<rparr>)))"

definition mmap_mv_memcpy ::
  "mv \<Rightarrow> mv_config \<Rightarrow> (nat \<Rightarrow> nat option) \<Rightarrow> nat \<Rightarrow> nat \<Rightarrow> nat \<Rightarrow> nat option \<times> mvmm \<Rightarrow> (nat option \<times> mvmm) outcome" where
  "mmap_mv_memcpy v cfg alloc dst src n = (\<lambda>(cached, s).
     if v \<noteq> BASE then
       and_then (snapshot_range v cfg alloc dst n (cached, s)) (\<lambda>(cached1, s1).
         Inr (cached1, s1\<lparr>memory_of := memcpy (memory_of s1) dst src n\<rparr>))
     else
       let (dst_r, cached1) = find_region_cached (regions s) cached dst;
           (src_r, cached2) = find_region_cached (regions s) cached1 src in
       if dst_r = None \<and> src_r = None then Inr (cached2, s\<lparr>memory_of := memcpy (memory_of s) dst src n\<rparr>)
       else and_then (memcpy_loop v cfg alloc dst_r src_r dst src [0..<n] s) (\<lambda>s1. Inr (cached2, s1)))"

section \<open>Registering regions\<close>

definition MAP_FAILED :: nat where "MAP_FAILED = 2 ^ 64 - 1"

text \<open>\<open>got k\<close>: the \<open>k\<close>-th \<open>calloc\<close> succeeds (node, pages, bitmaps, the two lists).\<close>

definition new_page :: "mv_config \<Rightarrow> nat \<Rightarrow> nat \<Rightarrow> page_state" where
  "new_page cfg b i = \<lparr>last_ts_seen = UINT64_MAX, last_touched_ts = UINT64_MAX, cur_slot = 0,
     slot_ts = (\<lambda>_. UINT64_MAX), slots = (\<lambda>k. if k = 0 then Some (b + i * PAGE_SIZE cfg) else None)\<rparr>"

definition new_region :: "mv_config \<Rightarrow> nat \<Rightarrow> nat \<Rightarrow> region" where
  "new_region cfg b n =
     (let cells = (PAGE_SIZE cfg + GRID_SIZE cfg - 1) div GRID_SIZE cfg in
      \<lparr>rbase = b, rlen = n, npages = (n + PAGE_SIZE cfg - 1) div PAGE_SIZE cfg, pages = new_page cfg b,
       grid_cells_per_page = cells, grid_bitmap_bytes = (cells + 7) div 8, grid_curr = (\<lambda>_. 0),
       touched_curr = [], touched_curr_ts = UINT64_MAX, touched_prev = [], touched_prev_ts = UINT64_MAX\<rparr>)"

definition region_register :: "mv \<Rightarrow> mv_config \<Rightarrow> (nat \<Rightarrow> bool) \<Rightarrow> nat \<Rightarrow> nat \<Rightarrow> mvmm \<Rightarrow> mvmm outcome" where
  "region_register v cfg got b n s =
     (if b = MAP_FAILED \<or> b = 0 \<or> n = 0 then Inr s
      else if \<not> got 0 then Inl Aborted
      else if \<not> got 1 then Inl Aborted
      else if v = STORE_GRID \<and> \<not> got 2 then Inl Aborted
      else if \<not> got 3 \<or> v \<noteq> STORE_GRID \<and> \<not> got 4 then Inl Aborted
      else Inr (s\<lparr>regions := new_region cfg b n # regions s\<rparr>))"

definition wrap_mmap :: "mv \<Rightarrow> mv_config \<Rightarrow> (nat \<Rightarrow> bool) \<Rightarrow> nat \<Rightarrow> nat \<Rightarrow> mvmm \<Rightarrow> (nat \<times> mvmm) outcome" where
  "wrap_mmap v cfg got p n s =
     (if p \<noteq> MAP_FAILED then and_then (region_register v cfg got p n s) (\<lambda>s1. Inr (p, s1)) else Inr (p, s))"

section \<open>Rolling back\<close>

definition undo_cell :: "mv_config \<Rightarrow> region \<Rightarrow> nat \<Rightarrow> nat \<Rightarrow> memory \<Rightarrow> memory" where
  "undo_cell cfg r page_idx cell_idx mem =
     (let cell_off = cell_idx * GRID_SIZE cfg; cell_len = grid_cell_size cfg cell_idx in
      if \<not> grid_cell_is_set r page_idx cell_idx then mem
      else if cell_len = 0 then mem
      else memcpy mem (the (slots (pages r page_idx) 0) + cell_off) (the (slots (pages r page_idx) 1) + cell_off) cell_len)"

definition undo_page_cells :: "mv_config \<Rightarrow> 64 word \<Rightarrow> nat \<Rightarrow> region \<times> memory \<Rightarrow> region \<times> memory" where
  "undo_page_cells cfg target_ts page_idx = (\<lambda>(r, mem).
     let ps = pages r page_idx in
     if page_idx \<ge> npages r then (r, mem)
     else if slots ps 1 = None then (r, mem)
     else if slot_ts ps 1 = UINT64_MAX \<or> slot_ts ps 1 \<le> target_ts then (r, mem)
     else (set_page page_idx (last_ts_seen_update (\<lambda>_. UINT64_MAX)) r,
           fold (undo_cell cfg r page_idx) [0..<grid_cells_per_page r] mem))"

definition undo_page_copy :: "mv_config \<Rightarrow> 64 word \<Rightarrow> nat \<Rightarrow> region \<times> memory \<Rightarrow> region \<times> memory" where
  "undo_page_copy cfg target_ts page_idx = (\<lambda>(r, mem).
     let ps = pages r page_idx in
     if page_idx \<ge> npages r then (r, mem)
     else if slots ps 1 = None then (r, mem)
     else if slot_ts ps 1 = UINT64_MAX \<or> slot_ts ps 1 \<le> target_ts then (r, mem)
     else (set_page page_idx (last_ts_seen_update (\<lambda>_. UINT64_MAX)) r,
           memcpy mem (the (slots ps 0)) (the (slots ps 1)) (PAGE_SIZE cfg)))"

text \<open>The base build: the newest slot that is not newer than the target becomes current.\<close>

definition best_slot :: "page_state \<Rightarrow> 64 word \<Rightarrow> nat option" where
  "best_slot ps target_ts =
     (let slot0_ts = slot_ts ps 0; slot1_ts = slot_ts ps 1;
          ok0 = (slot0_ts \<noteq> UINT64_MAX \<and> slot0_ts \<le> target_ts);
          best0 = (if ok0 then Some 0 else None); best_ts = (if ok0 then slot0_ts else 0) in
      if slot1_ts \<noteq> UINT64_MAX \<and> slot1_ts \<le> target_ts \<and> (best0 = None \<or> best_ts \<le> slot1_ts) then Some 1 else best0)"

definition undo_page_version :: "64 word \<Rightarrow> nat \<Rightarrow> region \<Rightarrow> region" where
  "undo_page_version target_ts page_idx r =
     (let ps = pages r page_idx;
          expire = (\<lambda>k ts. if ts \<noteq> UINT64_MAX \<and> target_ts < ts then UINT64_MAX else ts) in
      if page_idx \<ge> npages r then r
      else case best_slot ps target_ts of
             None \<Rightarrow> r
           | Some best \<Rightarrow> set_page page_idx (\<lambda>ps. ps\<lparr>cur_slot := best, last_ts_seen := UINT64_MAX,
                 slot_ts := (slot_ts ps)(0 := expire (0::nat) (slot_ts ps 0), 1 := expire 1 (slot_ts ps 1))\<rparr>) r)"

text \<open>The lists to go through, with their timestamps.\<close>

definition rollback_candidates :: "region \<Rightarrow> 64 word \<Rightarrow> (nat \<times> 64 word) list" where
  "rollback_candidates r target_ts =
     (if touched_curr_ts r \<noteq> UINT64_MAX \<and> target_ts < touched_curr_ts r then [(length (touched_curr r), touched_curr_ts r)] else [])
   @ (if touched_prev_ts r \<noteq> UINT64_MAX \<and> target_ts < touched_prev_ts r then [(length (touched_prev r), touched_prev_ts r)] else [])"

definition rollback_lists :: "region \<Rightarrow> 64 word \<Rightarrow> nat list" where
  "rollback_lists r target_ts = concat (map (\<lambda>(count, ts).
     take count (if ts = touched_curr_ts r then touched_curr r else touched_prev r)) (rollback_candidates r target_ts))"

definition region_rollback :: "mv \<Rightarrow> mv_config \<Rightarrow> 64 word \<Rightarrow> region \<times> memory \<Rightarrow> region \<times> memory" where
  "region_rollback v cfg target_ts = (\<lambda>(r, mem).
     case v of
       STORE_GRID \<Rightarrow>
         (if touched_curr_ts r = UINT64_MAX \<or> touched_curr_ts r \<le> target_ts then (r, mem)
          else fold (undo_page_cells cfg target_ts) (touched_curr r) (r, mem))
     | STORE \<Rightarrow> fold (undo_page_copy cfg target_ts) (rollback_lists r target_ts) (r, mem)
     | BASE \<Rightarrow> (fold (undo_page_version target_ts) (rollback_lists r target_ts) r, mem))"

definition rollback_region :: "mv \<Rightarrow> mv_config \<Rightarrow> nat option \<Rightarrow> 64 word \<Rightarrow> mvmm \<Rightarrow> mvmm" where
  "rollback_region v cfg found target_ts s =
     (case found of
        None \<Rightarrow> s
      | Some n \<Rightarrow> let (r, mem) = region_rollback v cfg target_ts (region_at (regions s) n, memory_of s) in
          set_region n r s\<lparr>memory_of := mem\<rparr>)"

section \<open>The checkpoint interface\<close>

definition count_ckpt :: "nat \<Rightarrow> mvmm \<Rightarrow> mvmm" where
  "count_ckpt objects s =
     (let c = ckpt_counter s + 1 in
      if c = of_nat objects then s\<lparr>ckpt_counter := 0, epoch_round := epoch_round s + 1\<rparr> else s\<lparr>ckpt_counter := c\<rparr>)"

text \<open>The allocators of the objects are those of \<open>memory.c\<close>, in the build without copies.\<close>

definition mv_set_ckpt :: "nat \<Rightarrow> nat \<Rightarrow> (nat \<Rightarrow> obj_memory) \<times> mvmm \<Rightarrow> (nat \<Rightarrow> obj_memory) \<times> mvmm" where
  "mv_set_ckpt objects object = (\<lambda>(allocators, s).
     (allocators(object := set_allocator_ckpt PLAIN (allocators object)), count_ckpt objects s))"

definition rollback_target :: "64 word \<Rightarrow> 64 word" where
  "rollback_target ts_now = (if 1 \<le> ts_now then ts_now - 1 else 0)"

definition mv_restore_object ::
  "mv \<Rightarrow> mv_config \<Rightarrow> nat \<Rightarrow> int \<Rightarrow> (nat \<Rightarrow> obj_memory) \<times> mvmm \<Rightarrow> (nat \<Rightarrow> obj_memory) \<times> mvmm" where
  "mv_restore_object v cfg objects object = (\<lambda>(allocators, s).
     let found = find_region_for_object objects s object;
         target_ts = rollback_target (epoch_round s) in
     (allocators(nat object := restore_allocator (allocators (nat object))),
      rollback_region v cfg found target_ts s))"

section \<open>Page sizes\<close>

text \<open>
  The masks of the code and \<open>posix_memalign\<close> are for powers of two; then the mask takes an address to the
  start of its page.
\<close>

definition page_size_ok :: "mv_config \<Rightarrow> bool" where
  "page_size_ok cfg \<longleftrightarrow> (\<exists>p < 64. PAGE_SIZE cfg = 2 ^ p)"

lemma and_not_mask: "w AND NOT (mask p) = push_bit p (drop_bit p (w :: 64 word))"
  by (rule bit_word_eqI) (auto simp: bit_simps)

lemma page_base_of_mod:
  assumes "page_size_ok cfg" and "a < 2 ^ 64"
  shows "page_base_of cfg a = a - a mod PAGE_SIZE cfg"
proof -
  obtain p where p: "p < 64" "PAGE_SIZE cfg = 2 ^ p" using assms(1) by (auto simp: page_size_ok_def)
  have "page_mask cfg = mask p" by (simp add: page_mask_def p(2) mask_eq_exp_minus_1)
  then have b: "page_base_of cfg a = unat (push_bit p (drop_bit p (of_nat a :: 64 word)))"
    by (simp add: page_base_of_def and_not_mask)
  have u: "unat (of_nat a :: 64 word) = a" using assms(2) by (simp add: unsigned_of_nat take_bit_nat_eq_self)
  have "a div 2 ^ p * 2 ^ p \<le> a" by simp
  then have "a div 2 ^ p * 2 ^ p < 2 ^ 64" using assms(2) by linarith
  moreover have d: "unat (drop_bit p (of_nat a :: 64 word)) = a div 2 ^ p"
    unfolding drop_bit_eq_div [where 'a = nat, symmetric] by (simp only: unat_drop_bit_eq u)
  have "unat (push_bit p (drop_bit p (of_nat a :: 64 word))) = take_bit 64 (push_bit p (unat (drop_bit p (of_nat a :: 64 word))))"
    by (simp only: unsigned_push_bit_eq) simp
  ultimately have "unat (push_bit p (drop_bit p (of_nat a :: 64 word))) = a div 2 ^ p * 2 ^ p"
    unfolding d push_bit_eq_mult by (simp add: take_bit_nat_eq_self)
  then show ?thesis by (simp add: b p(2) minus_mod_eq_div_mult)
qed

lemma page_size_pos: "page_size_ok cfg \<Longrightarrow> 0 < PAGE_SIZE cfg"
  by (auto simp: page_size_ok_def)

end
