(* ===== verification/Mmap_Mv_Store.thy ===== *)
theory Mmap_Mv_Store
  imports Mmap_Mv
begin

text \<open>
  The two builds of the multi-version backend that save before a store: what is saved, that every
  instrumented store saves what it overwrites, and that a rollback brings the region back.
\<close>

section \<open>Epochs\<close>

text \<open>A timestamp that is unset or of an epoch up to \<open>ts\<close>.\<close>

definition older :: "64 word \<Rightarrow> 64 word \<Rightarrow> bool" where
  "older t ts \<longleftrightarrow> t = UINT64_MAX \<or> t \<le> ts"

lemma next_epoch:
  assumes "ts < UINT64_MAX - 1"
  shows "ts < ts + 1" and "ts + 1 \<noteq> UINT64_MAX"
proof -
  have e: "UINT64_MAX - 1 = 18446744073709551614" by (simp add: UINT64_MAX_def)
  have "unat ts < 18446744073709551614" using assms unfolding e word_less_nat_alt by simp
  then have "unat (ts + 1) = unat ts + 1" by (simp add: unat_word_ariths)
  then show "ts < ts + 1" by (simp add: word_less_nat_alt)
  show "ts + 1 \<noteq> UINT64_MAX" using assms by (metis add_diff_cancel_right' less_irrefl)
qed

lemma older_next:
  assumes "older t ts" and "ts < UINT64_MAX - 1"
  shows "t \<noteq> ts + 1" and "older t (ts + 1)"
  using assms(1) next_epoch [OF assms(2)] by (auto simp: older_def)

lemma older_refl [simp]: "older ts ts"
  by (simp add: older_def)

lemma target_hit:
  assumes "1 \<le> ts" and "older t ts"
  shows "t \<noteq> UINT64_MAX \<and> ts - 1 < t \<longleftrightarrow> t \<noteq> UINT64_MAX \<and> t = ts"
proof -
  have "ts - 1 < t \<longleftrightarrow> t = ts" if "t \<le> ts"
    using that assms(1) by (simp add: word_less_nat_alt word_le_nat_alt unat_sub)
      (metis Suc_pred le_antisym less_eq_Suc_le not_less_eq_eq unsigned_word_eqI)
  then show ?thesis using assms(2) by (auto simp: older_def)
qed

declare One_nat_def [simp del]

section \<open>Well-formed regions\<close>

definition page_range :: "mv_config \<Rightarrow> nat \<Rightarrow> nat set" where
  "page_range cfg p = {p..<p + PAGE_SIZE cfg}"

definition region_range :: "mv_config \<Rightarrow> region \<Rightarrow> nat set" where
  "region_range cfg r = {rbase r..<rbase r + npages r * PAGE_SIZE cfg}"

text \<open>The pages in place, the second slots apart from them and from each other.\<close>

definition slots_wf :: "mv_config \<Rightarrow> region \<Rightarrow> bool" where
  "slots_wf cfg r \<longleftrightarrow> (\<forall>i < npages r. slots (pages r i) 0 = Some (rbase r + i * PAGE_SIZE cfg))
     \<and> (\<forall>i < npages r. \<forall>p. slots (pages r i) 1 = Some p \<longrightarrow> page_range cfg p \<inter> region_range cfg r = {})
     \<and> (\<forall>i < npages r. \<forall>j < npages r. \<forall>p q. i \<noteq> j \<longrightarrow> slots (pages r i) 1 = Some p \<longrightarrow> slots (pages r j) 1 = Some q \<longrightarrow>
          page_range cfg p \<inter> page_range cfg q = {})"

definition touched_wf :: "region \<Rightarrow> 64 word \<Rightarrow> bool" where
  "touched_wf r ts \<longleftrightarrow> distinct (touched_curr r) \<and> set (touched_curr r) \<subseteq> {..<npages r}
     \<and> (touched_curr_ts r = ts \<longrightarrow> (\<forall>i < npages r. last_touched_ts (pages r i) = ts \<longleftrightarrow> i \<in> set (touched_curr r)))
     \<and> (touched_curr_ts r \<noteq> ts \<longrightarrow> (\<forall>i < npages r. last_touched_ts (pages r i) \<noteq> ts))
     \<and> older (touched_curr_ts r) ts
     \<and> (\<forall>i < npages r. older (last_touched_ts (pages r i)) ts \<and> older (slot_ts (pages r i) 1) ts)
     \<and> (\<forall>i < npages r. slot_ts (pages r i) 1 = ts \<longrightarrow> slots (pages r i) 1 \<noteq> None \<and> last_touched_ts (pages r i) = ts)"

definition shape_wf :: "mv_config \<Rightarrow> region \<Rightarrow> bool" where
  "shape_wf cfg r \<longleftrightarrow> 0 < PAGE_SIZE cfg \<and> page_size_ok cfg \<and> 0 < GRID_SIZE cfg \<and> rbase r mod PAGE_SIZE cfg = 0
     \<and> rlen r \<le> npages r * PAGE_SIZE cfg
     \<and> grid_cells_per_page r = (PAGE_SIZE cfg + GRID_SIZE cfg - 1) div GRID_SIZE cfg
     \<and> grid_bitmap_bytes r = (grid_cells_per_page r + 7) div 8"

text \<open>The offsets whose content is saved in the epoch, and what they held when it began.\<close>

definition saved :: "mv \<Rightarrow> mv_config \<Rightarrow> region \<Rightarrow> 64 word \<Rightarrow> nat \<Rightarrow> bool" where
  "saved v cfg r ts x \<longleftrightarrow> slot_ts (pages r (x div PAGE_SIZE cfg)) 1 = ts
     \<and> (v = STORE_GRID \<longrightarrow> grid_cell_is_set r (x div PAGE_SIZE cfg) (x mod PAGE_SIZE cfg div GRID_SIZE cfg))"

definition old_byte :: "mv \<Rightarrow> mv_config \<Rightarrow> region \<Rightarrow> memory \<Rightarrow> 64 word \<Rightarrow> nat \<Rightarrow> byte" where
  "old_byte v cfg r mem ts x =
     (if saved v cfg r ts x then mem (the (slots (pages r (x div PAGE_SIZE cfg)) 1) + x mod PAGE_SIZE cfg)
      else mem (rbase r + x))"

definition region_keeps :: "mv \<Rightarrow> mv_config \<Rightarrow> (nat \<Rightarrow> byte) \<Rightarrow> 64 word \<Rightarrow> region \<times> memory \<Rightarrow> bool" where
  "region_keeps v cfg w ts = (\<lambda>(r, mem). v \<noteq> BASE \<and> ts \<noteq> UINT64_MAX \<and> shape_wf cfg r \<and> slots_wf cfg r \<and> touched_wf r ts
     \<and> (\<forall>x < npages r * PAGE_SIZE cfg. w x = old_byte v cfg r mem ts x) \<and> (\<forall>x \<ge> npages r * PAGE_SIZE cfg. w x = 0))"

lemma set_page_simps [simp]:
  "pages (set_page i f r) j = (if j = i then f (pages r i) else pages r j)"
  "rbase (set_page i f r) = rbase r" "rlen (set_page i f r) = rlen r" "npages (set_page i f r) = npages r"
  "grid_cells_per_page (set_page i f r) = grid_cells_per_page r" "grid_bitmap_bytes (set_page i f r) = grid_bitmap_bytes r"
  "grid_curr (set_page i f r) = grid_curr r" "touched_curr (set_page i f r) = touched_curr r"
  "touched_curr_ts (set_page i f r) = touched_curr_ts r" "touched_prev (set_page i f r) = touched_prev r"
  "touched_prev_ts (set_page i f r) = touched_prev_ts r"
  by (simp_all add: set_page_def)

lemma offset_page:
  fixes x n P :: nat
  assumes "x < n * P"
  shows "x div P < n"
proof -
  have "0 < P" using assms by (cases P) auto
  then show ?thesis using assms by (simp add: div_less_iff_less_mult)
qed

lemma block_of:
  fixes i j k b :: nat
  assumes "k < b"
  shows "i * b \<le> j * b + k \<and> j * b + k < i * b + b \<longleftrightarrow> j = i"
proof
  assume h: "i * b \<le> j * b + k \<and> j * b + k < i * b + b"
  then have "(j * b + k) div b = i" by (intro div_nat_eqI) (auto simp: mult.commute)
  moreover have "(j * b + k) div b = j" using assms by (intro div_nat_eqI) (auto simp: mult.commute)
  ultimately show "j = i" by simp
qed (use assms in auto)

text \<open>Fields that later steps leave alone.\<close>

definition same_shape :: "region \<Rightarrow> region \<Rightarrow> bool" where
  "same_shape r' r \<longleftrightarrow> rbase r' = rbase r \<and> rlen r' = rlen r \<and> npages r' = npages r
     \<and> grid_cells_per_page r' = grid_cells_per_page r \<and> grid_bitmap_bytes r' = grid_bitmap_bytes r"

lemma same_shape_refl [simp]: "same_shape r r" by (simp add: same_shape_def)
lemma same_shape_trans: "same_shape r1 r2 \<Longrightarrow> same_shape r2 r3 \<Longrightarrow> same_shape r1 r3" by (simp add: same_shape_def)

lemma same_shape_sym: "same_shape r' r \<Longrightarrow> same_shape r r'" by (simp add: same_shape_def)

text \<open>What is saved depends on the slots and the bitmap only.\<close>

definition same_slots :: "region \<Rightarrow> region \<Rightarrow> bool" where
  "same_slots r' r \<longleftrightarrow> same_shape r' r \<and> grid_curr r' = grid_curr r
     \<and> (\<forall>j. slots (pages r' j) = slots (pages r j) \<and> slot_ts (pages r' j) = slot_ts (pages r j))"

lemma same_slots_trans: "same_slots r1 r2 \<Longrightarrow> same_slots r2 r3 \<Longrightarrow> same_slots r1 r3"
  by (simp add: same_slots_def same_shape_def)

lemma grid_cell_is_set_cong: "same_slots r' r \<Longrightarrow> grid_cell_is_set r' i c = grid_cell_is_set r i c"
  by (simp add: same_slots_def same_shape_def grid_cell_is_set_def grid_index_def)

lemma old_byte_cong: "same_slots r' r \<Longrightarrow> old_byte v cfg r' mem ts x = old_byte v cfg r mem ts x"
  using grid_cell_is_set_cong [of r' r] by (auto simp: same_slots_def same_shape_def old_byte_def saved_def)

lemma region_keeps_cong:
  assumes "region_keeps v cfg w ts (r, mem)" and "same_slots r' r" and "touched_wf r' ts"
  shows "region_keeps v cfg w ts (r', mem)"
proof -
  have s: "same_shape r' r" "\<And>j. slots (pages r' j) = slots (pages r j)" using assms(2) by (simp_all add: same_slots_def)
  have "shape_wf cfg r'" "slots_wf cfg r'"
    using assms(1) s by (simp_all add: region_keeps_def shape_wf_def slots_wf_def region_range_def same_shape_def)
  then show ?thesis using assms s(1) old_byte_cong [OF assms(2)] by (simp add: region_keeps_def same_shape_def)
qed

section \<open>Noting a touch\<close>

lemma note_page_touch_keeps:
  assumes k: "region_keeps v cfg w ts (r, mem)" and i: "i < npages r"
  shows "\<exists>r'. note_page_touch v r i ts = Inr r' \<and> region_keeps v cfg w ts (r', mem) \<and> same_slots r' r
    \<and> last_touched_ts (pages r' i) = ts"
proof -
  define r1 where "r1 = rotate_touched v r ts"
  have t: "touched_wf r ts" using k by (simp add: region_keeps_def)
  have f: "same_slots r1 r" "touched_curr_ts r1 = ts" "npages r1 = npages r"
    by (simp_all add: r1_def rotate_touched_def Let_def same_slots_def same_shape_def)
  have t1: "touched_wf r1 ts"
    using t by (auto simp: r1_def touched_wf_def rotate_touched_def Let_def)
  have k1: "region_keeps v cfg w ts (r1, mem)" by (rule region_keeps_cong [OF k f(1) t1])
  show ?thesis
  proof (cases "last_touched_ts (pages r1 i) = ts")
    case True
    then have "note_page_touch v r i ts = Inr r1" by (simp add: note_page_touch_def r1_def [symmetric] Let_def)
    then show ?thesis using k1 f True by auto
  next
    case False
    have notin: "i \<notin> set (touched_curr r1)" using t1 f i False by (auto simp: touched_wf_def)
    have "card (insert i (set (touched_curr r1))) \<le> card {..<npages r1}"
      using t1 i f by (intro card_mono) (auto simp: touched_wf_def)
    then have len: "length (touched_curr r1) < npages r1"
      using notin t1 by (simp add: touched_wf_def distinct_card)
    define r2 where "r2 = (set_page i (last_touched_ts_update (\<lambda>_. ts)) r1)\<lparr>touched_curr := touched_curr r1 @ [i]\<rparr>"
    have run: "note_page_touch v r i ts = Inr r2"
      using False len by (simp add: note_page_touch_def r1_def [symmetric] Let_def r2_def)
    have g: "same_slots r2 r1" "last_touched_ts (pages r2 i) = ts" by (simp_all add: r2_def same_slots_def same_shape_def)
    have "touched_wf r2 ts"
      using t1 i notin f by (auto simp: touched_wf_def r2_def)
    then have "region_keeps v cfg w ts (r2, mem)" by (rule region_keeps_cong [OF k1 g(1)])
    then show ?thesis using run f g same_slots_trans by blast
  qed
qed

section \<open>Preparing the second slot\<close>

text \<open>A page of memory apart from the region and from all second slots.\<close>

definition fresh_page :: "mv_config \<Rightarrow> region \<Rightarrow> nat \<Rightarrow> bool" where
  "fresh_page cfg r q \<longleftrightarrow> page_range cfg q \<inter> region_range cfg r = {}
     \<and> (\<forall>i < npages r. \<forall>p. slots (pages r i) 1 = Some p \<longrightarrow> page_range cfg q \<inter> page_range cfg p = {})"

text \<open>Steps that add at most the second slot of page \<open>i\<close>.\<close>

definition slots_from :: "region \<Rightarrow> region \<Rightarrow> nat \<Rightarrow> nat option \<Rightarrow> bool" where
  "slots_from r' r i a \<longleftrightarrow> same_shape r' r
     \<and> (\<forall>j. slots (pages r' j) = slots (pages r j)
           \<or> j = i \<and> slots (pages r' j) 1 = a \<and> slots (pages r j) 1 = None \<and> slots (pages r' j) 0 = slots (pages r j) 0)"

lemma add_slot_keeps:
  assumes k: "region_keeps v cfg w ts (r, mem)" and i: "i < npages r" and none: "slots (pages r i) 1 = None"
    and q: "fresh_page cfg r q" and touched: "last_touched_ts (pages r i) = ts"
  defines "r' \<equiv> set_page i (\<lambda>ps. ps\<lparr>slots := (slots ps)(1 := Some q)\<rparr>) r"
  shows "region_keeps v cfg w ts (r', mem)"
proof -
  have nts: "slot_ts (pages r i) 1 \<noteq> ts" using k i none by (auto simp: region_keeps_def touched_wf_def)
  have wf: "slots_wf cfg r" using k by (simp add: region_keeps_def)
  have s: "slots (pages r' j) 0 = slots (pages r j) 0" "slots (pages r' j) 1 = (if j = i then Some q else slots (pages r j) 1)" for j
    by (simp_all add: r'_def)
  have rr: "region_range cfg r' = region_range cfg r" "npages r' = npages r" "rbase r' = rbase r"
    by (simp_all add: r'_def region_range_def)
  have "slots_wf cfg r'" unfolding slots_wf_def rr
  proof (intro conjI allI impI)
    fix j p assume "j < npages r" "slots (pages r' j) 1 = Some p"
    then show "page_range cfg p \<inter> region_range cfg r = {}"
      using wf q by (cases "j = i") (simp_all add: s slots_wf_def fresh_page_def)
  next
    fix j l p p' assume h: "j < npages r" "l < npages r" "j \<noteq> l" "slots (pages r' j) 1 = Some p" "slots (pages r' l) 1 = Some p'"
    then show "page_range cfg p \<inter> page_range cfg p' = {}"
      using wf q by (cases "j = i"; cases "l = i"; simp add: s slots_wf_def fresh_page_def; blast)
  qed (use wf in \<open>simp add: s slots_wf_def\<close>)
  moreover have "touched_wf r' ts" using k by (auto simp: region_keeps_def touched_wf_def r'_def)
  moreover have "old_byte v cfg r' mem ts x = old_byte v cfg r mem ts x" for x
    using nts by (auto simp: old_byte_def saved_def r'_def grid_cell_is_set_def grid_index_def)
  ultimately show ?thesis using k by (simp add: region_keeps_def shape_wf_def r'_def)
qed

lemma grid_index_bound:
  assumes "shape_wf cfg r" and "c < grid_cells_per_page r"
  shows "c div 8 < grid_bitmap_bytes r"
  using assms by (simp add: shape_wf_def)

lemma offset_cell:
  assumes "shape_wf cfg r"
  shows "x mod PAGE_SIZE cfg div GRID_SIZE cfg < grid_cells_per_page r"
proof -
  have P: "0 < PAGE_SIZE cfg" "0 < GRID_SIZE cfg" using assms by (simp_all add: shape_wf_def)
  let ?P = "PAGE_SIZE cfg" and ?G = "GRID_SIZE cfg"
  have "x mod ?P < ?P" using P by simp
  moreover have "?P \<le> (?P + ?G - 1) div ?G * ?G"
  proof -
    have "(?P + ?G - 1) div ?G * ?G + (?P + ?G - 1) mod ?G = ?P + ?G - 1" by simp
    moreover have "(?P + ?G - 1) mod ?G < ?G" using P by simp
    ultimately show ?thesis using P by linarith
  qed
  ultimately have "x mod ?P < (?P + ?G - 1) div ?G * ?G" by linarith
  then show ?thesis using P assms by (simp add: shape_wf_def div_less_iff_less_mult)
qed

lemma clear_bits_keeps:
  assumes k: "region_keeps STORE_GRID cfg w ts (r, mem)" and i: "i < npages r" and some: "slots (pages r i) 1 \<noteq> None"
    and touched: "last_touched_ts (pages r i) = ts" and nts: "slot_ts (pages r i) 1 \<noteq> ts"
  defines "b \<equiv> grid_bitmap_bytes r"
  defines "r' \<equiv> (set_page i (\<lambda>ps. ps\<lparr>slot_ts := (slot_ts ps)(1 := ts)\<rparr>) r)
      \<lparr>grid_curr := (\<lambda>j. if i * b \<le> j \<and> j < i * b + b then 0 else grid_curr r j)\<rparr>"
  shows "region_keeps STORE_GRID cfg w ts (r', mem)"
proof -
  have sh: "shape_wf cfg r" using k by (simp add: region_keeps_def)
  have "old_byte STORE_GRID cfg r' mem ts x = old_byte STORE_GRID cfg r mem ts x" for x
  proof -
    let ?j = "x div PAGE_SIZE cfg" and ?c = "x mod PAGE_SIZE cfg div GRID_SIZE cfg"
    have c: "?c div 8 < b" using grid_index_bound [OF sh offset_cell [OF sh]] by (simp add: b_def)
    show ?thesis
    proof (cases "?j = i")
      case True
      then have "\<not> saved STORE_GRID cfg r' ts x" using c
        by (simp add: saved_def r'_def grid_cell_is_set_def grid_index_def bitmap_simps b_def)
      moreover have "\<not> saved STORE_GRID cfg r ts x" using True nts by (simp add: saved_def)
      ultimately show ?thesis by (simp add: old_byte_def r'_def)
    next
      case False
      have "\<not> (i * b \<le> ?j * b + ?c div 8 \<and> ?j * b + ?c div 8 < i * b + b)"
        using False by (simp only: block_of [OF c] not_False_eq_True)
      then have "saved STORE_GRID cfg r' ts x = saved STORE_GRID cfg r ts x" using False
        by (auto simp: saved_def r'_def grid_cell_is_set_def grid_index_def b_def)
      then show ?thesis using False by (simp add: old_byte_def r'_def)
    qed
  qed
  moreover have "touched_wf r' ts"
  proof -
    have t: "touched_wf r ts" using k by (simp add: region_keeps_def)
    have f: "touched_curr r' = touched_curr r" "touched_curr_ts r' = touched_curr_ts r" "npages r' = npages r"
      "last_touched_ts (pages r' j) = last_touched_ts (pages r j)" "slots (pages r' j) = slots (pages r j)"
      "slot_ts (pages r' j) 1 = (if j = i then ts else slot_ts (pages r j) 1)" for j
      by (simp_all add: r'_def)
    show ?thesis using t some touched unfolding touched_wf_def f by simp
  qed
  moreover have "slots_wf cfg r'" using k by (simp add: region_keeps_def slots_wf_def r'_def region_range_def)
  ultimately show ?thesis using k by (simp add: region_keeps_def shape_wf_def r'_def)
qed

lemma prepare_keeps:
  assumes k: "region_keeps v cfg w ts (r, mem)" and i: "i < npages r"
    and al: "slots (pages r i) 1 = None \<longrightarrow> (\<exists>q. alloc pb = Some q \<and> fresh_page cfg r q)"
  shows "\<exists>r'. prepare_snapshot_slot v alloc r pb i ts = Inr (True, r') \<and> region_keeps v cfg w ts (r', mem)
    \<and> slots_from r' r i (alloc pb) \<and> slots (pages r' i) 1 \<noteq> None \<and> last_touched_ts (pages r' i) = ts
    \<and> (v = STORE_GRID \<longrightarrow> slot_ts (pages r' i) 1 = ts)
    \<and> (\<forall>x. saved v cfg r ts x \<longrightarrow> saved v cfg r' ts x)"
proof -
  obtain r1 where n: "note_page_touch v r i ts = Inr r1" "region_keeps v cfg w ts (r1, mem)" "same_slots r1 r"
    "last_touched_ts (pages r1 i) = ts" using note_page_touch_keeps [OF k i] by blast
  have f1: "npages r1 = npages r" "slots (pages r1 j) = slots (pages r j)" "same_shape r1 r" for j
    using n(3) by (simp_all add: same_slots_def same_shape_def)
  have fresh1: "fresh_page cfg r1 x = fresh_page cfg r x" for x
    using f1 by (simp add: fresh_page_def region_range_def same_shape_def)
  define r2 where "r2 = (if slots (pages r1 i) 1 = None then set_page i (\<lambda>ps. ps\<lparr>slots := (slots ps)(1 := alloc pb)\<rparr>) r1 else r1)"
  have k2: "region_keeps v cfg w ts (r2, mem)"
  proof (cases "slots (pages r1 i) 1 = None")
    case True
    then obtain q where "alloc pb = Some q" "fresh_page cfg r1 q" using al f1 fresh1 by auto
    then show ?thesis using add_slot_keeps [OF n(2) _ True _ n(4)] f1 i True by (simp add: r2_def)
  next
    case False
    then have "r2 = r1" unfolding r2_def by (rule if_not_P)
    then show ?thesis using n(2) by simp
  qed
  have s2: "slots (pages r2 i) 1 \<noteq> None" "last_touched_ts (pages r2 i) = ts" "npages r2 = npages r" "slots_from r2 r i (alloc pb)"
    using al n(4) f1 by (auto simp: r2_def slots_from_def same_shape_def)
  have sv2: "saved v cfg r2 ts x = saved v cfg r ts x" for x
    using n(3) by (auto simp: saved_def r2_def same_slots_def same_shape_def grid_cell_is_set_def grid_index_def)
  have step: "(if slots (pages r1 i) 1 = None then
      (case alloc pb of None \<Rightarrow> (False, r1) | Some p \<Rightarrow> (True, set_page i (\<lambda>ps. ps\<lparr>slots := (slots ps)(1 := Some p)\<rparr>) r1))
      else (True, r1)) = (True, r2)"
    using al f1 by (auto simp: r2_def)
  show ?thesis
  proof (cases "v = STORE_GRID \<and> slot_ts (pages r2 i) 1 \<noteq> ts")
    case True
    define r3 where "r3 = (set_page i (\<lambda>ps. ps\<lparr>slot_ts := (slot_ts ps)(1 := ts)\<rparr>) r2)
      \<lparr>grid_curr := (\<lambda>j. if i * grid_bitmap_bytes r2 \<le> j \<and> j < i * grid_bitmap_bytes r2 + grid_bitmap_bytes r2 then 0
         else grid_curr r2 j)\<rparr>"
    have run: "prepare_snapshot_slot v alloc r pb i ts = Inr (True, r3)"
      unfolding prepare_snapshot_slot_def n(1) and_then_Inr step using True by (simp add: Let_def r3_def)
    have k3: "region_keeps v cfg w ts (r3, mem)"
      using clear_bits_keeps [of cfg w ts r2 mem i] k2 s2 i True by (simp add: r3_def)
    have sh: "shape_wf cfg r2" using k2 by (simp add: region_keeps_def)
    have "saved v cfg r3 ts x" if sx: "saved v cfg r2 ts x" for x
    proof -
      have x: "x div PAGE_SIZE cfg \<noteq> i" using sx True by (auto simp: saved_def)
      let ?j = "x div PAGE_SIZE cfg" and ?c = "x mod PAGE_SIZE cfg div GRID_SIZE cfg" and ?b = "grid_bitmap_bytes r2"
      have c: "?c div 8 < ?b" using grid_index_bound [OF sh offset_cell [OF sh]] .
      have "\<not> (i * ?b \<le> ?j * ?b + ?c div 8 \<and> ?j * ?b + ?c div 8 < i * ?b + ?b)"
        using x by (simp only: block_of [OF c] not_False_eq_True)
      then show ?thesis using x sx by (auto simp: saved_def r3_def grid_cell_is_set_def grid_index_def)
    qed
    moreover have "slots_from r3 r i (alloc pb)" using s2(4) by (auto simp: slots_from_def same_shape_def r3_def)
    ultimately show ?thesis using run k3 s2 sv2 by (auto simp: r3_def)
  next
    case False
    have run: "prepare_snapshot_slot v alloc r pb i ts = Inr (True, r2)"
      unfolding prepare_snapshot_slot_def n(1) and_then_Inr step using False by (auto simp: Let_def)
    then show ?thesis using k2 s2 sv2 False by auto
  qed
qed

lemma touched_wf_stamp:
  assumes "touched_wf r ts" and "slots (pages r i) 1 \<noteq> None" and "last_touched_ts (pages r i) = ts"
    and "touched_curr r' = touched_curr r" "touched_curr_ts r' = touched_curr_ts r" "npages r' = npages r"
    and "\<And>j. last_touched_ts (pages r' j) = last_touched_ts (pages r j)" and "\<And>j. slots (pages r' j) = slots (pages r j)"
    and "\<And>j. slot_ts (pages r' j) 1 = (if j = i then ts else slot_ts (pages r j) 1)"
  shows "touched_wf r' ts"
  using assms(1-3) unfolding touched_wf_def assms(4-9) by simp

section \<open>Saving bytes\<close>

lemma slot_addresses:
  assumes "slots_wf cfg r" and "0 < PAGE_SIZE cfg" and "i < npages r" and "slots (pages r i) 1 = Some p" and "o1 < PAGE_SIZE cfg"
  shows "x < npages r * PAGE_SIZE cfg \<Longrightarrow> rbase r + x \<noteq> p + o1"
    and "j < npages r \<Longrightarrow> slots (pages r j) 1 = Some q \<Longrightarrow> o2 < PAGE_SIZE cfg \<Longrightarrow> q + o2 = p + o1 \<Longrightarrow> j = i \<and> o2 = o1"
proof -
  have p: "p + o1 \<in> page_range cfg p" using assms(5) by (simp add: page_range_def)
  show "rbase r + x \<noteq> p + o1" if "x < npages r * PAGE_SIZE cfg"
  proof
    assume "rbase r + x = p + o1"
    then have "p + o1 \<in> region_range cfg r" using that by (simp add: region_range_def flip: \<open>rbase r + x = p + o1\<close>)
    moreover have "page_range cfg p \<inter> region_range cfg r = {}" using assms(1,3,4) unfolding slots_wf_def by blast
    ultimately show False using p by blast
  qed
  show "j = i \<and> o2 = o1" if h: "j < npages r" "slots (pages r j) 1 = Some q" "o2 < PAGE_SIZE cfg" "q + o2 = p + o1"
  proof (cases "j = i")
    case True
    then show ?thesis using h assms(4) by simp
  next
    case False
    have "q + o2 \<in> page_range cfg q" using h by (simp add: page_range_def)
    moreover have "page_range cfg q \<inter> page_range cfg p = {}"
      using assms(1,3,4) h(1,2) False unfolding slots_wf_def by blast
    ultimately show ?thesis using p h(4) by auto
  qed
qed

lemma save_keeps:
  assumes k: "region_keeps v cfg w ts (r, mem)" and i: "i < npages r" and p: "slots (pages r i) 1 = Some p"
    and sh: "same_shape r' r" and sl: "\<And>j. slots (pages r' j) = slots (pages r j)" and t: "touched_wf r' ts"
    and S: "S \<subseteq> {..<PAGE_SIZE cfg}" and new: "\<And>x. x div PAGE_SIZE cfg = i \<Longrightarrow> x mod PAGE_SIZE cfg \<in> S \<Longrightarrow> \<not> saved v cfg r ts x"
    and sv: "\<And>x. saved v cfg r' ts x \<longleftrightarrow> saved v cfg r ts x \<or> x div PAGE_SIZE cfg = i \<and> x mod PAGE_SIZE cfg \<in> S"
    and m: "\<And>a. mem' a = (if p \<le> a \<and> a - p \<in> S then mem (rbase r + i * PAGE_SIZE cfg + (a - p)) else mem a)"
  shows "region_keeps v cfg w ts (r', mem')"
proof -
  let ?P = "PAGE_SIZE cfg"
  have P: "0 < ?P" and wf: "slots_wf cfg r" and old: "\<And>x. x < npages r * ?P \<Longrightarrow> w x = old_byte v cfg r mem ts x"
    and tw: "touched_wf r ts"
    using k by (simp_all add: region_keeps_def shape_wf_def)
  have in_shadow: "p \<le> a \<and> a - p \<in> S \<longleftrightarrow> (\<exists>y \<in> S. a = p + y)" for a by force
  have "w x = old_byte v cfg r' mem' ts x" if x: "x < npages r * ?P" for x
  proof -
    let ?j = "x div ?P" and ?y = "x mod ?P"
    have j: "?j < npages r" by (rule offset_page [OF x])
    have y: "?y < ?P" using P by simp
    have real: "mem' (rbase r + x) = mem (rbase r + x)"
      using slot_addresses(1) [OF wf P i p _ x] S unfolding m in_shadow by fastforce
    show ?thesis
    proof (cases "saved v cfg r ts x")
      case True
      then have "slot_ts (pages r ?j) 1 = ts" by (simp add: saved_def)
      then obtain q where q: "slots (pages r ?j) 1 = Some q" using tw j by (auto simp: touched_wf_def)
      have "\<not> (\<exists>z \<in> S. q + ?y = p + z)"
      proof
        assume "\<exists>z \<in> S. q + ?y = p + z"
        then obtain z where z: "z \<in> S" "q + ?y = p + z" by blast
        with S have "?j = i \<and> ?y = z" by (intro slot_addresses(2) [OF wf P i p _ j q y]) auto
        with new [of x] z True show False by simp
      qed
      then have "mem' (q + ?y) = mem (q + ?y)" unfolding m in_shadow by simp
      then show ?thesis using old [OF x] True sv q sl by (simp add: old_byte_def)
    next
      case False
      show ?thesis
      proof (cases "?j = i \<and> ?y \<in> S")
        case True
        then have "mem' (p + ?y) = mem (rbase r + i * ?P + ?y)" by (simp add: m)
        also have "rbase r + i * ?P + ?y = rbase r + x" using True div_mult_mod_eq [of x ?P] by (simp add: add.assoc)
        finally show ?thesis using old [OF x] False True sv p sl by (simp add: old_byte_def)
      next
        case no: False
        then show ?thesis using old [OF x] False sv real sh by (auto simp: old_byte_def same_shape_def)
      qed
    qed
  qed
  moreover have "shape_wf cfg r'" "slots_wf cfg r'"
    using k sh sl by (simp_all add: region_keeps_def shape_wf_def slots_wf_def region_range_def same_shape_def)
  ultimately show ?thesis using k t sh by (simp add: region_keeps_def same_shape_def)
qed

section \<open>A whole page\<close>

lemma snapshot_page_keeps:
  assumes k: "region_keeps STORE cfg w ts (r, mem)" and i: "i < npages r"
    and al: "slots (pages r i) 1 = None \<longrightarrow> (\<exists>q. alloc pb = Some q \<and> fresh_page cfg r q)"
  shows "\<exists>r' mem'. snapshot_page STORE cfg alloc pb i ts (r, mem) = Inr (True, r', mem')
    \<and> region_keeps STORE cfg w ts (r', mem') \<and> slots_from r' r i (alloc pb)
    \<and> (\<forall>x. saved STORE cfg r ts x \<longrightarrow> saved STORE cfg r' ts x)
    \<and> (\<forall>x. x div PAGE_SIZE cfg = i \<longrightarrow> saved STORE cfg r' ts x)"
proof -
  let ?P = "PAGE_SIZE cfg"
  obtain r1 where r1: "prepare_snapshot_slot STORE alloc r pb i ts = Inr (True, r1)" "region_keeps STORE cfg w ts (r1, mem)"
    "slots_from r1 r i (alloc pb)" "slots (pages r1 i) 1 \<noteq> None" "last_touched_ts (pages r1 i) = ts"
    "\<And>x. saved STORE cfg r ts x \<Longrightarrow> saved STORE cfg r1 ts x"
    using prepare_keeps [where alloc = alloc and pb = pb, OF k i al] by (elim exE conjE) auto
  have n: "i < npages r1" "shape_wf cfg r1" using r1(2,3) i by (simp_all add: slots_from_def same_shape_def region_keeps_def)
  obtain p where p: "slots (pages r1 i) 1 = Some p" using r1(4) by blast
  have s0: "slots (pages r1 i) 0 = Some (rbase r1 + i * ?P)" using r1(2) n(1) by (simp add: region_keeps_def slots_wf_def)
  show ?thesis
  proof (cases "slot_ts (pages r1 i) 1 = ts")
    case True
    have "saved STORE cfg r1 ts x" if "saved STORE cfg r ts x \<or> x div ?P = i" for x
      using that r1(6) [of x] True by (cases "x div ?P = i") (simp_all add: saved_def)
    moreover have "snapshot_page STORE cfg alloc pb i ts (r, mem) = Inr (True, r1, mem)"
      using True by (simp add: snapshot_page_def r1(1) Let_def)
    ultimately show ?thesis using r1(2,3) by blast
  next
    case False
    define r2 where "r2 = set_page i (\<lambda>ps. ps\<lparr>slot_ts := (slot_ts ps)(1 := ts), last_ts_seen := ts\<rparr>) r1"
    have run: "snapshot_page STORE cfg alloc pb i ts (r, mem) = Inr (True, r2, memcpy mem p (rbase r1 + i * ?P) ?P)"
      using False p s0 by (simp add: snapshot_page_def r1(1) Let_def r2_def)
    have "region_keeps STORE cfg w ts (r2, memcpy mem p (rbase r1 + i * ?P) ?P)"
    proof (rule save_keeps [OF r1(2) n(1) p, where S = "{..<?P}"])
      show "same_shape r2 r1" "\<And>j. slots (pages r2 j) = slots (pages r1 j)" by (simp_all add: r2_def same_shape_def)
      have "touched_wf r1 ts" using r1(2) by (simp add: region_keeps_def)
      then show "touched_wf r2 ts" using r1(4,5) by (rule touched_wf_stamp) (simp_all add: r2_def)
      show "\<And>x. x div ?P = i \<Longrightarrow> \<not> saved STORE cfg r1 ts x" using False by (simp add: saved_def)
      show "\<And>x. saved STORE cfg r2 ts x \<longleftrightarrow> saved STORE cfg r1 ts x \<or> x div ?P = i \<and> x mod ?P \<in> {..<?P}"
        using n(2) by (auto simp: saved_def r2_def shape_wf_def)
      show "memcpy mem p (rbase r1 + i * ?P) ?P a = (if p \<le> a \<and> a - p \<in> {..<?P} then mem (rbase r1 + i * ?P + (a - p)) else mem a)" for a
        by (auto simp: memcpy_def)
    qed simp
    moreover have "saved STORE cfg r2 ts x" if "saved STORE cfg r ts x \<or> x div ?P = i" for x
      using that r1(6) [of x] by (auto simp: saved_def r2_def)
    moreover have "slots_from r2 r i (alloc pb)" using r1(3) by (auto simp: slots_from_def same_shape_def r2_def)
    ultimately show ?thesis using run by blast
  qed
qed

section \<open>Cells of a page\<close>

lemma grid_cell_is_set_set:
  assumes "shape_wf cfg r" and "c < grid_cells_per_page r" and "d < grid_cells_per_page r"
  shows "grid_cell_is_set (grid_cell_set r i c) j d \<longleftrightarrow> j = i \<and> d = c \<or> grid_cell_is_set r j d"
proof -
  let ?b = "grid_bitmap_bytes r"
  have lim: "c div 8 < ?b" "d div 8 < ?b" using grid_index_bound [OF assms(1)] assms(2,3) by simp_all
  have "j * ?b + d div 8 = i * ?b + c div 8 \<and> d mod 8 = c mod 8 \<longleftrightarrow> j = i \<and> d = c"
  proof
    assume h: "j * ?b + d div 8 = i * ?b + c div 8 \<and> d mod 8 = c mod 8"
    then have "j = i" using block_of [OF lim(2), of i j] lim(1) by (metis le_add1 nat_add_left_cancel_less)
    with h show "j = i \<and> d = c" by (metis add_left_cancel div_mult_mod_eq)
  qed auto
  then show ?thesis
    by (auto simp: grid_cell_is_set_def grid_cell_set_def grid_index_def Let_def bitmap_simps)
qed

lemma cell_offsets:
  assumes "0 < GRID_SIZE cfg" and "y < PAGE_SIZE cfg" and "c * GRID_SIZE cfg < PAGE_SIZE cfg"
  shows "y div GRID_SIZE cfg = c \<longleftrightarrow> y \<in> {c * GRID_SIZE cfg..<c * GRID_SIZE cfg + grid_cell_size cfg c}"
proof -
  let ?G = "GRID_SIZE cfg"
  have "y div ?G = c \<longleftrightarrow> c * ?G \<le> y \<and> y < c * ?G + ?G"
  proof
    assume "y div ?G = c"
    moreover have "y = y div ?G * ?G + y mod ?G" "y mod ?G < ?G" using assms(1) by simp_all
    ultimately show "c * ?G \<le> y \<and> y < c * ?G + ?G" by (metis le_add1 nat_add_left_cancel_less)
  next
    assume "c * ?G \<le> y \<and> y < c * ?G + ?G"
    then show "y div ?G = c" by (intro div_nat_eqI) (auto simp: mult.commute)
  qed
  then show ?thesis using assms by (auto simp: grid_cell_size_def Let_def)
qed

definition same_but_grid :: "region \<Rightarrow> region \<Rightarrow> bool" where
  "same_but_grid r' r \<longleftrightarrow> same_shape r' r \<and> pages r' = pages r \<and> touched_curr r' = touched_curr r
     \<and> touched_curr_ts r' = touched_curr_ts r"

lemma same_but_grid_trans: "same_but_grid r1 r2 \<Longrightarrow> same_but_grid r2 r3 \<Longrightarrow> same_but_grid r1 r3"
  by (simp add: same_but_grid_def same_shape_def)

lemma same_but_grid_touched: "same_but_grid r' r \<Longrightarrow> touched_wf r' ts = touched_wf r ts"
  by (simp add: same_but_grid_def same_shape_def touched_wf_def)

lemma snapshot_cell_keeps:
  assumes k: "region_keeps STORE_GRID cfg w ts (r, mem)" and i: "i < npages r" and p: "slots (pages r i) 1 = Some p"
    and ts: "slot_ts (pages r i) 1 = ts" and c: "c * GRID_SIZE cfg < PAGE_SIZE cfg"
  shows "\<exists>r' mem'. snapshot_cell cfg i c (r, mem) = (r', mem') \<and> region_keeps STORE_GRID cfg w ts (r', mem')
    \<and> same_but_grid r' r
    \<and> (\<forall>x. saved STORE_GRID cfg r' ts x \<longleftrightarrow> saved STORE_GRID cfg r ts x
           \<or> x div PAGE_SIZE cfg = i \<and> x mod PAGE_SIZE cfg div GRID_SIZE cfg = c)"
proof (cases "grid_cell_is_set r i c")
  case True
  then show ?thesis using k ts by (auto simp: snapshot_cell_def saved_def same_but_grid_def)
next
  case False
  let ?P = "PAGE_SIZE cfg" and ?G = "GRID_SIZE cfg" and ?S = "{c * GRID_SIZE cfg..<c * GRID_SIZE cfg + grid_cell_size cfg c}"
  let ?mem = "memcpy mem (p + c * ?G) (rbase r + i * ?P + c * ?G) (grid_cell_size cfg c)"
  have sh: "shape_wf cfg r" and G: "0 < ?G" and P: "0 < ?P" and tw: "touched_wf r ts"
    using k by (simp_all add: region_keeps_def shape_wf_def)
  have s0: "slots (pages r i) 0 = Some (rbase r + i * ?P)" using k i by (simp add: region_keeps_def slots_wf_def)
  have cc: "c < grid_cells_per_page r" using offset_cell [OF sh, of "c * ?G"] c G by simp
  have size: "grid_cell_size cfg c \<noteq> 0" using c G by (simp add: grid_cell_size_def Let_def)
  have run: "snapshot_cell cfg i c (r, mem) = (grid_cell_set r i c, ?mem)"
    using False size p s0 by (simp add: snapshot_cell_def Let_def)
  have f: "pages (grid_cell_set r i c) = pages r" "same_but_grid (grid_cell_set r i c) r"
    by (simp_all add: grid_cell_set_def Let_def same_but_grid_def same_shape_def)
  have S: "y \<in> ?S \<longleftrightarrow> y div ?G = c" if "y < ?P" for y using cell_offsets [OF G that c] by simp
  have xm: "x mod ?P < ?P" for x using P by simp
  have sub: "?S \<subseteq> {..<?P}" using c by (auto simp: grid_cell_size_def Let_def split: if_splits)
  have sv: "saved STORE_GRID cfg (grid_cell_set r i c) ts x \<longleftrightarrow> saved STORE_GRID cfg r ts x \<or> x div ?P = i \<and> x mod ?P div ?G = c" for x
    using grid_cell_is_set_set [OF sh cc offset_cell [OF sh], of i "x div ?P" x] ts by (auto simp: saved_def f)
  have "region_keeps STORE_GRID cfg w ts (grid_cell_set r i c, ?mem)"
  proof (rule save_keeps [OF k i p, where S = ?S])
    show "same_shape (grid_cell_set r i c) r" using f(2) by (simp add: same_but_grid_def)
    show "touched_wf (grid_cell_set r i c) ts" using tw same_but_grid_touched [OF f(2)] by simp
    show "\<not> saved STORE_GRID cfg r ts x" if "x div ?P = i" "x mod ?P \<in> ?S" for x
      using False that S [OF xm [of x]] by (simp add: saved_def)
    show "saved STORE_GRID cfg (grid_cell_set r i c) ts x \<longleftrightarrow> saved STORE_GRID cfg r ts x \<or> x div ?P = i \<and> x mod ?P \<in> ?S" for x
      using sv S [OF xm [of x]] by blast
    show "?mem a = (if p \<le> a \<and> a - p \<in> ?S then mem (rbase r + i * ?P + (a - p)) else mem a)" for a
      by (auto simp: memcpy_def intro!: arg_cong [where f = mem])
  qed (simp_all add: f sub)
  then show ?thesis using run sv f(2) by blast
qed

lemma snapshot_cells_keeps:
  assumes "region_keeps STORE_GRID cfg w ts (r, mem)" and "i < npages r" and "slots (pages r i) 1 = Some p"
    and "slot_ts (pages r i) 1 = ts" and "\<forall>c \<in> set cs. c * GRID_SIZE cfg < PAGE_SIZE cfg"
  shows "\<exists>r' mem'. fold (snapshot_cell cfg i) cs (r, mem) = (r', mem') \<and> region_keeps STORE_GRID cfg w ts (r', mem')
    \<and> same_but_grid r' r
    \<and> (\<forall>x. saved STORE_GRID cfg r' ts x \<longleftrightarrow> saved STORE_GRID cfg r ts x
           \<or> x div PAGE_SIZE cfg = i \<and> x mod PAGE_SIZE cfg div GRID_SIZE cfg \<in> set cs)"
  using assms
proof (induction cs arbitrary: r mem)
  case Nil
  then show ?case by (simp add: same_but_grid_def)
next
  case (Cons c cs)
  obtain r1 mem1 where 1: "snapshot_cell cfg i c (r, mem) = (r1, mem1)" "region_keeps STORE_GRID cfg w ts (r1, mem1)"
    "same_but_grid r1 r" "\<And>x. saved STORE_GRID cfg r1 ts x \<longleftrightarrow> saved STORE_GRID cfg r ts x
           \<or> x div PAGE_SIZE cfg = i \<and> x mod PAGE_SIZE cfg div GRID_SIZE cfg = c"
    using snapshot_cell_keeps [OF Cons.prems(1-4)] Cons.prems(5) by fastforce
  have "i < npages r1" "slots (pages r1 i) 1 = Some p" "slot_ts (pages r1 i) 1 = ts"
    using 1(3) Cons.prems by (simp_all add: same_but_grid_def same_shape_def)
  from Cons.IH [OF 1(2) this] Cons.prems(5) obtain r2 mem2 where
    2: "fold (snapshot_cell cfg i) cs (r1, mem1) = (r2, mem2)" "region_keeps STORE_GRID cfg w ts (r2, mem2)"
    "same_but_grid r2 r1" "\<And>x. saved STORE_GRID cfg r2 ts x \<longleftrightarrow> saved STORE_GRID cfg r1 ts x
           \<or> x div PAGE_SIZE cfg = i \<and> x mod PAGE_SIZE cfg div GRID_SIZE cfg \<in> set cs" by auto
  show ?case using 1 2 same_but_grid_trans [OF 2(3) 1(3)] by (intro exI [of _ r2] exI [of _ mem2]) auto
qed

lemma snapshot_page_cells_keeps:
  assumes k: "region_keeps STORE_GRID cfg w ts (r, mem)" and i: "i < npages r"
    and al: "slots (pages r i) 1 = None \<longrightarrow> (\<exists>q. alloc pb = Some q \<and> fresh_page cfg r q)"
    and se: "s < e" "e \<le> PAGE_SIZE cfg"
  shows "\<exists>r' mem'. snapshot_page_cells cfg alloc pb i s e ts (r, mem) = Inr (True, r', mem')
    \<and> region_keeps STORE_GRID cfg w ts (r', mem') \<and> slots_from r' r i (alloc pb)
    \<and> (\<forall>x. saved STORE_GRID cfg r ts x \<longrightarrow> saved STORE_GRID cfg r' ts x)
    \<and> (\<forall>x. x div PAGE_SIZE cfg = i \<longrightarrow> s \<le> x mod PAGE_SIZE cfg \<longrightarrow> x mod PAGE_SIZE cfg < e \<longrightarrow> saved STORE_GRID cfg r' ts x)"
proof -
  let ?P = "PAGE_SIZE cfg" and ?G = "GRID_SIZE cfg"
  obtain r1 where r1: "prepare_snapshot_slot STORE_GRID alloc r pb i ts = Inr (True, r1)" "region_keeps STORE_GRID cfg w ts (r1, mem)"
    "slots_from r1 r i (alloc pb)" "slots (pages r1 i) 1 \<noteq> None" "slot_ts (pages r1 i) 1 = ts"
    "\<And>x. saved STORE_GRID cfg r ts x \<Longrightarrow> saved STORE_GRID cfg r1 ts x"
    using prepare_keeps [where alloc = alloc and pb = pb, OF k i al] by (elim exE conjE) auto
  have n: "i < npages r1" using r1(3) i by (simp add: slots_from_def same_shape_def)
  have G: "0 < ?G" using k by (simp add: region_keeps_def shape_wf_def)
  obtain p where p: "slots (pages r1 i) 1 = Some p" using r1(4) by blast
  let ?cs = "[s div ?G..<(e - 1) div ?G + 1]"
  have "c * ?G < ?P" if "c \<in> set ?cs" for c
  proof -
    have "c * ?G \<le> (e - 1) div ?G * ?G" using that by (intro mult_right_mono) auto
    also have "\<dots> \<le> e - 1" by simp
    finally show ?thesis using se by linarith
  qed
  then obtain r2 mem2 where r2: "fold (snapshot_cell cfg i) ?cs (r1, mem) = (r2, mem2)"
    "region_keeps STORE_GRID cfg w ts (r2, mem2)" "same_but_grid r2 r1"
    "\<And>x. saved STORE_GRID cfg r2 ts x \<longleftrightarrow> saved STORE_GRID cfg r1 ts x \<or> x div ?P = i \<and> x mod ?P div ?G \<in> set ?cs"
    using snapshot_cells_keeps [OF r1(2) n p r1(5), of ?cs] by blast
  define r3 where "r3 = set_page i (last_ts_seen_update (\<lambda>_. ts)) r2"
  have run: "snapshot_page_cells cfg alloc pb i s e ts (r, mem) = Inr (True, r3, mem2)"
    using se r2(1) by (simp add: snapshot_page_cells_def r1(1) Let_def r3_def)
  have ss: "same_slots r3 r2" by (simp add: same_slots_def same_shape_def r3_def)
  have "touched_wf r2 ts" using r2(2) by (simp add: region_keeps_def)
  then have "touched_wf r3 ts" by (simp add: touched_wf_def r3_def)
  then have "region_keeps STORE_GRID cfg w ts (r3, mem2)" by (rule region_keeps_cong [OF r2(2) ss])
  moreover have sv: "saved STORE_GRID cfg r3 ts x = saved STORE_GRID cfg r2 ts x" for x
    using grid_cell_is_set_cong [OF ss] by (simp add: saved_def r3_def)
  have "saved STORE_GRID cfg r3 ts x" if "x div ?P = i" "s \<le> x mod ?P" "x mod ?P < e" for x
  proof -
    have "s div ?G \<le> x mod ?P div ?G" "x mod ?P div ?G \<le> (e - 1) div ?G" using that by (simp_all add: div_le_mono)
    then show ?thesis using that by (simp add: sv r2(4))
  qed
  moreover have "slots_from r3 r i (alloc pb)" using r1(3) r2(3)
    by (auto simp: slots_from_def same_but_grid_def same_shape_def r3_def)
  ultimately show ?thesis using run r1(6) sv r2(4) by blast
qed

section \<open>Rolling a region back\<close>

lemma undo_keeps:
  assumes k: "region_keeps v cfg w ts (r, mem)" and sl: "same_slots r' r" and t: "touched_wf r' ts"
    and m: "\<And>x. x < npages r * PAGE_SIZE cfg \<Longrightarrow> mem' (rbase r + x) = mem (rbase r + x) \<or> mem' (rbase r + x) = w x"
    and un: "\<And>x. x < npages r * PAGE_SIZE cfg \<Longrightarrow> \<not> saved v cfg r ts x \<Longrightarrow> mem' (rbase r + x) = mem (rbase r + x)"
    and out: "\<And>a. a \<notin> region_range cfg r \<Longrightarrow> mem' a = mem a"
  shows "region_keeps v cfg w ts (r', mem')"
proof -
  let ?P = "PAGE_SIZE cfg"
  have P: "0 < ?P" and wf: "slots_wf cfg r" and old: "\<And>x. x < npages r * ?P \<Longrightarrow> w x = old_byte v cfg r mem ts x"
    and tw: "touched_wf r ts" and fits: "\<forall>x \<ge> npages r * ?P. w x = 0"
    using k by (simp_all add: region_keeps_def shape_wf_def)
  have eq: "w x = old_byte v cfg r mem' ts x" if x: "x < npages r * ?P" for x
  proof (cases "saved v cfg r ts x")
    case True
    let ?j = "x div ?P" and ?y = "x mod ?P"
    have j: "?j < npages r" by (rule offset_page [OF x])
    have y: "?y < ?P" using P by simp
    have "slot_ts (pages r ?j) 1 = ts" using True by (simp add: saved_def)
    then obtain q where q: "slots (pages r ?j) 1 = Some q" using tw j by (auto simp: touched_wf_def)
    have "q + ?y \<notin> region_range cfg r"
    proof
      assume "q + ?y \<in> region_range cfg r"
      then have "rbase r + (q + ?y - rbase r) = q + ?y" "q + ?y - rbase r < npages r * ?P" by (auto simp: region_range_def)
      with slot_addresses(1) [OF wf P j q y] show False by metis
    qed
    then show ?thesis using old [OF x] True q out by (simp add: old_byte_def)
  next
    case False
    then show ?thesis using old [OF x] un [OF x] by (simp add: old_byte_def)
  qed
  have "region_keeps v cfg w ts (r, mem')" using k eq fits by (simp add: region_keeps_def)
  then show ?thesis by (rule region_keeps_cong [OF _ sl t])
qed

text \<open>What one page of the rollback has to do: bring back its saved bytes and write nothing else.\<close>

definition undoes :: "mv \<Rightarrow> mv_config \<Rightarrow> 64 word \<Rightarrow> (nat \<Rightarrow> byte) \<Rightarrow> nat \<Rightarrow> (region \<times> memory \<Rightarrow> region \<times> memory) \<Rightarrow> bool" where
  "undoes v cfg ts w i f \<longleftrightarrow> (\<forall>r mem. region_keeps v cfg w ts (r, mem) \<longrightarrow>
     (case f (r, mem) of (r', mem') \<Rightarrow> region_keeps v cfg w ts (r', mem') \<and> same_slots r' r
        \<and> touched_curr r' = touched_curr r \<and> touched_curr_ts r' = touched_curr_ts r
        \<and> (\<forall>x < npages r * PAGE_SIZE cfg. mem (rbase r + x) = w x \<or> saved v cfg r ts x \<and> x div PAGE_SIZE cfg = i
             \<longrightarrow> mem' (rbase r + x) = w x)))"

lemma saved_cong: "same_slots r' r \<Longrightarrow> saved v cfg r' ts x = saved v cfg r ts x"
  using grid_cell_is_set_cong [of r' r] by (simp add: same_slots_def saved_def)

lemma undoes_fold:
  assumes "\<And>i. i \<in> set js \<Longrightarrow> undoes v cfg ts w i (f i)" and "region_keeps v cfg w ts (r, mem)"
  shows "case fold f js (r, mem) of (r', mem') \<Rightarrow> region_keeps v cfg w ts (r', mem') \<and> same_slots r' r
    \<and> touched_curr r' = touched_curr r \<and> touched_curr_ts r' = touched_curr_ts r
    \<and> (\<forall>x < npages r * PAGE_SIZE cfg. mem (rbase r + x) = w x \<or> saved v cfg r ts x \<and> x div PAGE_SIZE cfg \<in> set js
             \<longrightarrow> mem' (rbase r + x) = w x)"
  using assms
proof (induction js arbitrary: r mem)
  case Nil
  then show ?case by (simp add: same_slots_def)
next
  case (Cons i js)
  obtain r1 mem1 where 1: "f i (r, mem) = (r1, mem1)" by (metis prod.exhaust)
  have u: "undoes v cfg ts w i (f i)" using Cons.prems(1) by simp
  from u [unfolded undoes_def, rule_format, OF Cons.prems(2)] 1 have
    u1: "region_keeps v cfg w ts (r1, mem1)" "same_slots r1 r" "touched_curr r1 = touched_curr r" "touched_curr_ts r1 = touched_curr_ts r"
    "\<And>x. x < npages r * PAGE_SIZE cfg \<Longrightarrow> mem (rbase r + x) = w x \<or> saved v cfg r ts x \<and> x div PAGE_SIZE cfg = i
             \<Longrightarrow> mem1 (rbase r + x) = w x" by auto
  obtain r2 mem2 where 2: "fold f js (r1, mem1) = (r2, mem2)" by (metis prod.exhaust)
  from Cons.IH [OF _ u1(1)] Cons.prems(1) 2 have
    u2: "region_keeps v cfg w ts (r2, mem2)" "same_slots r2 r1" "touched_curr r2 = touched_curr r1" "touched_curr_ts r2 = touched_curr_ts r1"
    "\<And>x. x < npages r1 * PAGE_SIZE cfg \<Longrightarrow> mem1 (rbase r1 + x) = w x \<or> saved v cfg r1 ts x \<and> x div PAGE_SIZE cfg \<in> set js
             \<Longrightarrow> mem2 (rbase r1 + x) = w x" by auto
  have sh: "npages r1 = npages r" "rbase r1 = rbase r" using u1(2) by (simp_all add: same_slots_def same_shape_def)
  have "mem2 (rbase r + x) = w x" if "x < npages r * PAGE_SIZE cfg"
    "mem (rbase r + x) = w x \<or> saved v cfg r ts x \<and> x div PAGE_SIZE cfg \<in> set (i # js)" for x
  proof (cases "mem1 (rbase r + x) = w x")
    case True
    then show ?thesis using u2(5) [of x] that(1) sh by simp
  next
    case False
    with u1(5) [OF that(1)] that(2) have "saved v cfg r ts x" "x div PAGE_SIZE cfg \<in> set js" by auto
    then show ?thesis using u2(5) [of x] that(1) sh saved_cong [OF u1(2), of v cfg ts x] by simp
  qed
  then show ?case using 1 2 u1 u2 same_slots_trans [OF u2(2) u1(2)] by simp
qed

lemma undoes_skip:
  assumes "\<And>r mem. region_keeps v cfg w ts (r, mem) \<Longrightarrow> i < npages r \<Longrightarrow> slot_ts (pages r i) 1 = ts \<Longrightarrow>
      case f (r, mem) of (r', mem') \<Rightarrow> region_keeps v cfg w ts (r', mem') \<and> same_slots r' r
        \<and> touched_curr r' = touched_curr r \<and> touched_curr_ts r' = touched_curr_ts r
        \<and> (\<forall>x < npages r * PAGE_SIZE cfg. mem (rbase r + x) = w x \<or> saved v cfg r ts x \<and> x div PAGE_SIZE cfg = i
             \<longrightarrow> mem' (rbase r + x) = w x)"
    and "\<And>r mem. region_keeps v cfg w ts (r, mem) \<Longrightarrow> \<not> (i < npages r \<and> slot_ts (pages r i) 1 = ts) \<Longrightarrow> f (r, mem) = (r, mem)"
  shows "undoes v cfg ts w i f"
  unfolding undoes_def
proof (intro allI impI)
  fix r mem assume k: "region_keeps v cfg w ts (r, mem)"
  show "case f (r, mem) of (r', mem') \<Rightarrow> region_keeps v cfg w ts (r', mem') \<and> same_slots r' r
        \<and> touched_curr r' = touched_curr r \<and> touched_curr_ts r' = touched_curr_ts r
        \<and> (\<forall>x < npages r * PAGE_SIZE cfg. mem (rbase r + x) = w x \<or> saved v cfg r ts x \<and> x div PAGE_SIZE cfg = i
             \<longrightarrow> mem' (rbase r + x) = w x)"
  proof (cases "i < npages r \<and> slot_ts (pages r i) 1 = ts")
    case True
    show ?thesis by (rule assms(1) [OF k conjunct1 [OF True] conjunct2 [OF True]])
  next
    case False
    have "\<not> saved v cfg r ts x" if "x < npages r * PAGE_SIZE cfg" "x div PAGE_SIZE cfg = i" for x
      using False offset_page [OF that(1)] that(2) by (auto simp: saved_def)
    then show ?thesis using assms(2) [OF k False] k by (auto simp: same_slots_def)
  qed
qed

text \<open>The conditions under which a page of a touched list is left alone.\<close>

lemma skip_page:
  assumes "1 \<le> ts" and "ts \<noteq> UINT64_MAX" and "touched_wf r ts" and "i < npages r"
  shows "slot_ts (pages r i) 1 = UINT64_MAX \<or> slot_ts (pages r i) 1 \<le> ts - 1 \<longleftrightarrow> slot_ts (pages r i) 1 \<noteq> ts"
  using assms target_hit [OF assms(1), of "slot_ts (pages r i) 1"]
  by (auto simp: touched_wf_def not_less [symmetric])

lemma forget_seen:
  assumes "region_keeps v cfg w ts (r, mem)"
  shows "same_slots (set_page i (last_ts_seen_update f) r) r" and "touched_wf (set_page i (last_ts_seen_update f) r) ts"
proof -
  show "same_slots (set_page i (last_ts_seen_update f) r) r" by (simp add: same_slots_def same_shape_def)
  have "touched_wf r ts" using assms by (simp add: region_keeps_def)
  then show "touched_wf (set_page i (last_ts_seen_update f) r) ts" by (simp add: touched_wf_def)
qed

lemma page_bytes:
  assumes k: "region_keeps v cfg w ts (r, mem)" and i: "i < npages r" and p: "slots (pages r i) 1 = Some p"
  shows "y < PAGE_SIZE cfg \<Longrightarrow> (i * PAGE_SIZE cfg + y) div PAGE_SIZE cfg = i \<and> (i * PAGE_SIZE cfg + y) mod PAGE_SIZE cfg = y
      \<and> i * PAGE_SIZE cfg + y < npages r * PAGE_SIZE cfg"
    and "y < PAGE_SIZE cfg \<Longrightarrow> p + y \<notin> region_range cfg r"
    and "slots (pages r i) 0 = Some (rbase r + i * PAGE_SIZE cfg)"
proof -
  let ?P = "PAGE_SIZE cfg"
  have P: "0 < ?P" and wf: "slots_wf cfg r" using k by (simp_all add: region_keeps_def shape_wf_def)
  show "(i * ?P + y) div ?P = i \<and> (i * ?P + y) mod ?P = y \<and> i * ?P + y < npages r * ?P" if "y < ?P"
  proof -
    have "Suc i * ?P \<le> npages r * ?P" using i by (intro mult_right_mono) auto
    then show ?thesis using that P by simp
  qed
  show "p + y \<notin> region_range cfg r" if "y < ?P"
  proof
    assume "p + y \<in> region_range cfg r"
    then have "rbase r + (p + y - rbase r) = p + y" "p + y - rbase r < npages r * ?P" by (auto simp: region_range_def)
    with slot_addresses(1) [OF wf P i p that] show False by metis
  qed
  show "slots (pages r i) 0 = Some (rbase r + i * ?P)" using wf i by (simp add: slots_wf_def)
qed

lemma undo_page_copy_undoes:
  assumes ts: "1 \<le> ts"
  shows "undoes STORE cfg ts w i (undo_page_copy cfg (ts - 1) i)"
proof (rule undoes_skip)
  fix r mem assume k: "region_keeps STORE cfg w ts (r, mem)" and i: "i < npages r" and st: "slot_ts (pages r i) 1 = ts"
  let ?P = "PAGE_SIZE cfg"
  have tw: "touched_wf r ts" and m: "ts \<noteq> UINT64_MAX" and P: "0 < ?P"
    and old: "\<And>x. x < npages r * ?P \<Longrightarrow> w x = old_byte STORE cfg r mem ts x"
    using k by (simp_all add: region_keeps_def shape_wf_def)
  obtain p where p: "slots (pages r i) 1 = Some p" using tw i st by (auto simp: touched_wf_def)
  note b = page_bytes [OF k i p]
  define mem' where "mem' = memcpy mem (rbase r + i * ?P) p ?P"
  define r' where "r' = set_page i (last_ts_seen_update (\<lambda>_. UINT64_MAX)) r"
  have run: "undo_page_copy cfg (ts - 1) i (r, mem) = (r', mem')"
    using skip_page [OF ts m tw i] i st p b(3) by (simp add: undo_page_copy_def Let_def mem'_def r'_def)
  have at: "mem' (rbase r + x) = (if x div ?P = i then w x else mem (rbase r + x))" if x: "x < npages r * ?P" for x
  proof (cases "x div ?P = i")
    case True
    then have e: "rbase r + x = rbase r + i * ?P + x mod ?P" using div_mult_mod_eq [of x ?P] by (simp add: add.assoc)
    have "mem' (rbase r + x) = mem (p + x mod ?P)" unfolding e using P by (simp add: mem'_def mem_simps)
    also have "\<dots> = w x" using old [OF x] True st p by (simp add: old_byte_def saved_def)
    finally show ?thesis using True by simp
  next
    case False
    have "\<not> (rbase r + i * ?P \<le> rbase r + x \<and> rbase r + x < rbase r + i * ?P + ?P)"
    proof
      assume "rbase r + i * ?P \<le> rbase r + x \<and> rbase r + x < rbase r + i * ?P + ?P"
      then have "x div ?P = i" by (intro div_nat_eqI) (auto simp: mult.commute)
      with False show False by simp
    qed
    then show ?thesis using False by (auto simp: mem'_def memcpy_def)
  qed
  have "Suc i * ?P \<le> npages r * ?P" using i by (intro mult_right_mono) auto
  then have out: "mem' a = mem a" if "a \<notin> region_range cfg r" for a
    using that by (auto simp: mem'_def memcpy_def region_range_def)
  have "region_keeps STORE cfg w ts (r', mem')"
    using at out st by (intro undo_keeps [OF k]) (auto simp: r'_def forget_seen [OF k] saved_def)
  then show "case undo_page_copy cfg (ts - 1) i (r, mem) of (r', mem') \<Rightarrow> region_keeps STORE cfg w ts (r', mem') \<and> same_slots r' r
        \<and> touched_curr r' = touched_curr r \<and> touched_curr_ts r' = touched_curr_ts r
        \<and> (\<forall>x < npages r * ?P. mem (rbase r + x) = w x \<or> saved STORE cfg r ts x \<and> x div ?P = i \<longrightarrow> mem' (rbase r + x) = w x)"
    using at forget_seen(1) [OF k] by (simp add: run r'_def)
next
  fix r mem assume k: "region_keeps STORE cfg w ts (r, mem)" and no: "\<not> (i < npages r \<and> slot_ts (pages r i) 1 = ts)"
  have "touched_wf r ts" "ts \<noteq> UINT64_MAX" using k by (simp_all add: region_keeps_def)
  then show "undo_page_copy cfg (ts - 1) i (r, mem) = (r, mem)"
    using no skip_page [OF ts, of r i] by (auto simp: undo_page_copy_def Let_def)
qed

lemma undo_cells_at:
  assumes k: "region_keeps STORE_GRID cfg w ts (r, mem)" and i: "i < npages r" and p: "slots (pages r i) 1 = Some p"
  shows "(\<forall>y < PAGE_SIZE cfg. fold (undo_cell cfg r i) [0..<n] mem (rbase r + i * PAGE_SIZE cfg + y) =
      (if y div GRID_SIZE cfg < n \<and> grid_cell_is_set r i (y div GRID_SIZE cfg) then mem (p + y)
       else mem (rbase r + i * PAGE_SIZE cfg + y)))
    \<and> (\<forall>a. \<not> (rbase r + i * PAGE_SIZE cfg \<le> a \<and> a < rbase r + i * PAGE_SIZE cfg + PAGE_SIZE cfg) \<longrightarrow>
         fold (undo_cell cfg r i) [0..<n] mem a = mem a)"
proof (induction n)
  case (Suc n)
  let ?P = "PAGE_SIZE cfg" and ?G = "GRID_SIZE cfg" and ?b = "rbase r + i * PAGE_SIZE cfg"
  let ?m = "fold (undo_cell cfg r i) [0..<n] mem"
  have G: "0 < ?G" and P: "0 < ?P" using k by (simp_all add: region_keeps_def shape_wf_def)
  note b = page_bytes [OF k i p]
  have shadow: "?m (p + y) = mem (p + y)" if "y < ?P" for y
  proof -
    have "\<not> (?b \<le> p + y \<and> p + y < ?b + ?P)"
    proof
      assume h: "?b \<le> p + y \<and> p + y < ?b + ?P"
      have "Suc i * ?P \<le> npages r * ?P" using i by (intro mult_right_mono) auto
      with h have "p + y \<in> region_range cfg r" by (auto simp: region_range_def)
      with b(2) [OF that] show False ..
    qed
    then show ?thesis using Suc by blast
  qed
  have unf: "fold (undo_cell cfg r i) [0..<Suc n] mem = undo_cell cfg r i n ?m" by simp
  show ?case
  proof (cases "grid_cell_is_set r i n \<and> n * ?G < ?P")
    case True
    then have sz: "grid_cell_size cfg n \<noteq> 0" "n * ?G + grid_cell_size cfg n \<le> ?P" using G
      by (auto simp: grid_cell_size_def Let_def)
    have u: "undo_cell cfg r i n ?m = memcpy ?m (?b + n * ?G) (p + n * ?G) (grid_cell_size cfg n)"
      using True sz p b(3) by (simp add: undo_cell_def Let_def)
    have "undo_cell cfg r i n ?m (?b + y) = (if y div ?G < Suc n \<and> grid_cell_is_set r i (y div ?G) then mem (p + y) else mem (?b + y))"
      if y: "y < ?P" for y
    proof (cases "y div ?G = n")
      case eq: True
      then have "y \<in> {n * ?G..<n * ?G + grid_cell_size cfg n}" using cell_offsets [OF G y] True by simp
      then have "undo_cell cfg r i n ?m (?b + y) = ?m (p + y)" by (auto simp: u memcpy_def)
      then show ?thesis using shadow [OF y] eq True by simp
    next
      case neq: False
      then have "y \<notin> {n * ?G..<n * ?G + grid_cell_size cfg n}" using cell_offsets [OF G y] True by simp
      then have "undo_cell cfg r i n ?m (?b + y) = ?m (?b + y)" by (auto simp: u memcpy_def)
      then show ?thesis using Suc y neq by (auto simp: less_Suc_eq)
    qed
    moreover have "undo_cell cfg r i n ?m a = mem a" if "\<not> (?b \<le> a \<and> a < ?b + ?P)" for a
    proof -
      have "undo_cell cfg r i n ?m a = ?m a" using that sz by (auto simp: u memcpy_def)
      then show ?thesis using Suc that by simp
    qed
    ultimately show ?thesis unfolding unf by blast
  next
    case False
    have "undo_cell cfg r i n ?m = ?m" using False by (auto simp: undo_cell_def Let_def grid_cell_size_def)
    moreover have "\<not> grid_cell_is_set r i n" if "y < ?P" "y div ?G = n" for y
    proof -
      have "y div ?G * ?G \<le> y" by simp
      then show ?thesis using False that by auto
    qed
    ultimately show ?thesis unfolding unf using Suc by (auto simp: less_Suc_eq)
  qed
qed simp

lemma undo_page_cells_undoes:
  assumes ts: "1 \<le> ts"
  shows "undoes STORE_GRID cfg ts w i (undo_page_cells cfg (ts - 1) i)"
proof (rule undoes_skip)
  fix r mem assume k: "region_keeps STORE_GRID cfg w ts (r, mem)" and i: "i < npages r" and st: "slot_ts (pages r i) 1 = ts"
  let ?P = "PAGE_SIZE cfg" and ?G = "GRID_SIZE cfg"
  have tw: "touched_wf r ts" and m: "ts \<noteq> UINT64_MAX" and P: "0 < ?P" and sh: "shape_wf cfg r"
    and old: "\<And>x. x < npages r * ?P \<Longrightarrow> w x = old_byte STORE_GRID cfg r mem ts x"
    using k by (simp_all add: region_keeps_def shape_wf_def)
  obtain p where p: "slots (pages r i) 1 = Some p" using tw i st by (auto simp: touched_wf_def)
  define mem' where "mem' = fold (undo_cell cfg r i) [0..<grid_cells_per_page r] mem"
  define r' where "r' = set_page i (last_ts_seen_update (\<lambda>_. UINT64_MAX)) r"
  note u = undo_cells_at [OF k i p, of "grid_cells_per_page r", folded mem'_def]
  have run: "undo_page_cells cfg (ts - 1) i (r, mem) = (r', mem')"
    using skip_page [OF ts m tw i] i st p by (simp add: undo_page_cells_def Let_def mem'_def r'_def)
  have at: "mem' (rbase r + x) = (if x div ?P = i \<and> saved STORE_GRID cfg r ts x then w x else mem (rbase r + x))"
    if x: "x < npages r * ?P" for x
  proof (cases "x div ?P = i")
    case True
    then have e: "rbase r + x = rbase r + i * ?P + x mod ?P" using div_mult_mod_eq [of x ?P] by (simp add: add.assoc)
    have "mem' (rbase r + x) = (if grid_cell_is_set r i (x mod ?P div ?G) then mem (p + x mod ?P) else mem (rbase r + x))"
      unfolding e using conjunct1 [OF u, rule_format, of "x mod ?P"] P offset_cell [OF sh, of x] by simp
    then show ?thesis using old [OF x] True st p by (auto simp: old_byte_def saved_def)
  next
    case False
    have "\<not> (rbase r + i * ?P \<le> rbase r + x \<and> rbase r + x < rbase r + i * ?P + ?P)"
    proof
      assume "rbase r + i * ?P \<le> rbase r + x \<and> rbase r + x < rbase r + i * ?P + ?P"
      then have "x div ?P = i" by (intro div_nat_eqI) (auto simp: mult.commute)
      with False show False by simp
    qed
    then show ?thesis using False u by simp
  qed
  have "Suc i * ?P \<le> npages r * ?P" using i by (intro mult_right_mono) auto
  then have out: "mem' a = mem a" if "a \<notin> region_range cfg r" for a
    using that by (intro conjunct2 [OF u, rule_format]) (auto simp: region_range_def)
  have "region_keeps STORE_GRID cfg w ts (r', mem')"
    using at out by (intro undo_keeps [OF k]) (auto simp: r'_def forget_seen [OF k])
  then show "case undo_page_cells cfg (ts - 1) i (r, mem) of (r', mem') \<Rightarrow> region_keeps STORE_GRID cfg w ts (r', mem') \<and> same_slots r' r
        \<and> touched_curr r' = touched_curr r \<and> touched_curr_ts r' = touched_curr_ts r
        \<and> (\<forall>x < npages r * ?P. mem (rbase r + x) = w x \<or> saved STORE_GRID cfg r ts x \<and> x div ?P = i \<longrightarrow> mem' (rbase r + x) = w x)"
    using at forget_seen(1) [OF k] by (simp add: run r'_def)
next
  fix r mem assume k: "region_keeps STORE_GRID cfg w ts (r, mem)" and no: "\<not> (i < npages r \<and> slot_ts (pages r i) 1 = ts)"
  have "touched_wf r ts" "ts \<noteq> UINT64_MAX" using k by (simp_all add: region_keeps_def)
  then show "undo_page_cells cfg (ts - 1) i (r, mem) = (r, mem)"
    using no skip_page [OF ts, of r i] by (auto simp: undo_page_cells_def Let_def)
qed

lemma touched_of_saved:
  assumes "touched_wf r ts" and "x < npages r * PAGE_SIZE cfg" and "saved v cfg r ts x"
  shows "touched_curr_ts r = ts" and "x div PAGE_SIZE cfg \<in> set (touched_curr r)"
proof -
  have i: "x div PAGE_SIZE cfg < npages r" by (rule offset_page [OF assms(2)])
  have "last_touched_ts (pages r (x div PAGE_SIZE cfg)) = ts" using assms(1,3) i by (simp add: touched_wf_def saved_def)
  then show "touched_curr_ts r = ts" "x div PAGE_SIZE cfg \<in> set (touched_curr r)"
    using assms(1) i unfolding touched_wf_def by blast+
qed

lemma region_rollback_correct:
  assumes k: "region_keeps v cfg w ts (r, mem)" and ts: "1 \<le> ts"
  shows "case region_rollback v cfg (ts - 1) (r, mem) of (r', mem') \<Rightarrow> region_keeps v cfg w ts (r', mem') \<and> same_slots r' r
    \<and> (\<forall>x < npages r * PAGE_SIZE cfg. mem' (rbase r + x) = w x)"
proof -
  have tw: "touched_wf r ts" and m: "ts \<noteq> UINT64_MAX" and v: "v \<noteq> BASE"
    and old: "\<And>x. x < npages r * PAGE_SIZE cfg \<Longrightarrow> w x = old_byte v cfg r mem ts x"
    using k by (simp_all add: region_keeps_def)
  have hit: "touched_curr_ts r \<noteq> UINT64_MAX \<and> ts - 1 < touched_curr_ts r \<longleftrightarrow> touched_curr_ts r = ts"
    using target_hit [OF ts, of "touched_curr_ts r"] tw m by (auto simp: touched_wf_def)
  have plain: "mem (rbase r + x) = w x" if "x < npages r * PAGE_SIZE cfg" "\<not> saved v cfg r ts x" for x
    using old [OF that(1)] that(2) by (simp add: old_byte_def)
  have all: "(\<forall>x < npages r * PAGE_SIZE cfg. mem (rbase r + x) = w x \<or> saved v cfg r ts x \<and> x div PAGE_SIZE cfg \<in> set js
             \<longrightarrow> mem' (rbase r + x) = w x) \<Longrightarrow> (touched_curr_ts r = ts \<longrightarrow> set (touched_curr r) \<subseteq> set js) \<Longrightarrow>
             \<forall>x < npages r * PAGE_SIZE cfg. mem' (rbase r + x) = w x" for mem' js
    using plain touched_of_saved [OF tw] by blast
  consider (grid) "v = STORE_GRID" | (store) "v = STORE" using v by (cases v) auto
  then show ?thesis
  proof cases
    case grid
    show ?thesis
    proof (cases "touched_curr_ts r = ts")
      case True
      obtain r' mem' where f: "fold (undo_page_cells cfg (ts - 1)) (touched_curr r) (r, mem) = (r', mem')" by (metis prod.exhaust)
      have "region_keeps v cfg w ts (r', mem')" "same_slots r' r" and
        b: "\<forall>x < npages r * PAGE_SIZE cfg. mem (rbase r + x) = w x \<or> saved v cfg r ts x \<and> x div PAGE_SIZE cfg \<in> set (touched_curr r)
             \<longrightarrow> mem' (rbase r + x) = w x"
        using undoes_fold [where f = "undo_page_cells cfg (ts - 1)" and js = "touched_curr r",
            OF undo_page_cells_undoes [OF ts] k [unfolded grid]] unfolding f grid by simp_all
      moreover have "\<forall>x < npages r * PAGE_SIZE cfg. mem' (rbase r + x) = w x" by (rule all [OF b]) simp
      moreover have "\<not> (touched_curr_ts r = UINT64_MAX \<or> touched_curr_ts r \<le> ts - 1)" using True hit by (simp add: not_le)
      ultimately show ?thesis using f grid by (simp add: region_rollback_def)
    next
      case False
      then have "touched_curr_ts r = UINT64_MAX \<or> touched_curr_ts r \<le> ts - 1" using hit by (simp add: not_less [symmetric])
      then have "region_rollback v cfg (ts - 1) (r, mem) = (r, mem)" using grid by (simp add: region_rollback_def)
      moreover have "\<forall>x < npages r * PAGE_SIZE cfg. mem (rbase r + x) = w x" by (rule all [of "[]"]) (use False in auto)
      ultimately show ?thesis using k by (simp add: same_slots_def)
    qed
  next
    case store
    obtain r' mem' where f: "fold (undo_page_copy cfg (ts - 1)) (rollback_lists r (ts - 1)) (r, mem) = (r', mem')"
      by (metis prod.exhaust)
    have "region_keeps v cfg w ts (r', mem')" "same_slots r' r" and
      b: "\<forall>x < npages r * PAGE_SIZE cfg. mem (rbase r + x) = w x
             \<or> saved v cfg r ts x \<and> x div PAGE_SIZE cfg \<in> set (rollback_lists r (ts - 1)) \<longrightarrow> mem' (rbase r + x) = w x"
      using undoes_fold [where f = "undo_page_copy cfg (ts - 1)" and js = "rollback_lists r (ts - 1)",
          OF undo_page_copy_undoes [OF ts] k [unfolded store]] unfolding f store by simp_all
    moreover have "set (touched_curr r) \<subseteq> set (rollback_lists r (ts - 1))" if "touched_curr_ts r = ts"
      using that hit by (simp add: rollback_lists_def rollback_candidates_def)
    then have "\<forall>x < npages r * PAGE_SIZE cfg. mem' (rbase r + x) = w x" by (intro all [OF b] impI)
    ultimately show ?thesis using f store by (simp add: region_rollback_def)
  qed
qed

end
