(* ===== verification/Mmap_Mv_Range.thy ===== *)
theory Mmap_Mv_Range
  imports Mmap_Mv_Store
begin

text \<open>
  Lookups of regions with and without the cache, the pieces a store range is cut into, and the rollback
  of a whole object in the two builds that save before a store.
\<close>

section \<open>Lookups\<close>

definition regions_apart :: "region list \<Rightarrow> bool" where
  "regions_apart rs \<longleftrightarrow> (\<forall>i < length rs. \<forall>j < length rs. i \<noteq> j \<longrightarrow>
     rbase (region_at rs i) + rlen (region_at rs i) \<le> rbase (region_at rs j)
     \<or> rbase (region_at rs j) + rlen (region_at rs j) \<le> rbase (region_at rs i))"

definition cached_ok :: "region list \<Rightarrow> nat option \<Rightarrow> bool" where
  "cached_ok rs cached \<longleftrightarrow> (case cached of None \<Rightarrow> True | Some n \<Rightarrow> n < length rs)"

lemma region_at_Cons: "n < length rs \<Longrightarrow> region_at (r # rs) n = region_at rs n" "region_at (r # rs) (length rs) = r"
  by (simp_all add: region_at_def nth_append)

lemma find_region_Some: "find_region rs a = Some n \<Longrightarrow> n < length rs \<and> region_contains (region_at rs n) a"
  by (induction rs) (auto simp: region_at_Cons split: if_splits)

lemma find_region_None: "find_region rs a = None \<longleftrightarrow> (\<forall>n < length rs. \<not> region_contains (region_at rs n) a)"
  by (induction rs) (auto simp: region_at_Cons less_Suc_eq)

lemma contains_unique:
  "regions_apart rs \<Longrightarrow> n < length rs \<Longrightarrow> m < length rs \<Longrightarrow> region_contains (region_at rs n) a \<Longrightarrow>
   region_contains (region_at rs m) a \<Longrightarrow> n = m"
  unfolding regions_apart_def region_contains_def by (meson le_less_trans not_less)

lemma find_region_unique:
  assumes "regions_apart rs" and "n < length rs" and "region_contains (region_at rs n) a"
  shows "find_region rs a = Some n"
proof -
  obtain m where m: "find_region rs a = Some m" using assms(2,3) find_region_None [of rs a] by fastforce
  then show ?thesis using find_region_Some [OF m] contains_unique [OF assms(1)] assms(2,3) by auto
qed

lemma find_region_cached_eq:
  assumes "regions_apart rs" and "cached_ok rs cached"
  shows "fst (find_region_cached rs cached a) = find_region rs a" and "cached_ok rs (snd (find_region_cached rs cached a))"
proof -
  show "fst (find_region_cached rs cached a) = find_region rs a"
    using assms find_region_unique by (auto simp: find_region_cached_def cached_ok_def Let_def split: option.splits)
  show "cached_ok rs (snd (find_region_cached rs cached a))"
    using assms(2) by (auto simp: find_region_cached_def cached_ok_def Let_def dest: find_region_Some split: option.splits)
qed

section \<open>Regions in place\<close>

lemma region_at_rev [simp]:
  "region_at (rev ((rev rs)[n := r])) m = (if m = n \<and> n < length rs then r else region_at rs m)"
  by (cases "n < length rs") (simp_all add: region_at_def list_update_beyond nth_list_update)

lemma set_region_simps [simp]:
  "memory_of (set_region n r s) = memory_of s" "epoch_round (set_region n r s) = epoch_round s"
  "ckpt_counter (set_region n r s) = ckpt_counter s" "object_base (set_region n r s) = object_base s"
  "length (regions (set_region n r s)) = length (regions s)"
  "region_at (regions (set_region n r s)) m = (if m = n \<and> n < length (regions s) then r else region_at (regions s) m)"
  by (simp_all add: set_region_def)

lemma regions_apart_set:
  assumes "regions_apart (regions s)" and "same_shape r (region_at (regions s) n)"
  shows "regions_apart (regions (set_region n r s))"
proof -
  have "rbase (region_at (regions (set_region n r s)) i) = rbase (region_at (regions s) i)
      \<and> rlen (region_at (regions (set_region n r s)) i) = rlen (region_at (regions s) i)" for i
    using assms(2) by (simp add: same_shape_def)
  then show ?thesis using assms(1) by (simp add: regions_apart_def)
qed

text \<open>
  The pages \<open>posix_memalign\<close> still has to return for a region: there is one for every page without a second
  slot, apart from the region, from its second slots and from the others.
\<close>

definition pages_apart :: "mv_config \<Rightarrow> (nat \<Rightarrow> nat option) \<Rightarrow> region \<Rightarrow> bool" where
  "pages_apart cfg alloc r \<longleftrightarrow> (\<forall>i < npages r. slots (pages r i) 1 = None \<longrightarrow>
     (\<exists>q. alloc (rbase r + i * PAGE_SIZE cfg) = Some q \<and> fresh_page cfg r q
        \<and> (\<forall>j < npages r. \<forall>q'. j \<noteq> i \<longrightarrow> slots (pages r j) 1 = None \<longrightarrow>
              alloc (rbase r + j * PAGE_SIZE cfg) = Some q' \<longrightarrow> page_range cfg q \<inter> page_range cfg q' = {})))"

lemma pages_apart_step:
  assumes a: "pages_apart cfg alloc r" and s: "slots_from r' r k (alloc (rbase r + k * PAGE_SIZE cfg))" and k: "k < npages r"
  shows "pages_apart cfg alloc r'"
  unfolding pages_apart_def
proof (intro allI impI)
  fix i assume i: "i < npages r'" "slots (pages r' i) 1 = None"
  have sh: "rbase r' = rbase r" "npages r' = npages r" "region_range cfg r' = region_range cfg r"
    using s by (simp_all add: slots_from_def same_shape_def region_range_def)
  have old: "slots (pages r j) 1 = None" if "slots (pages r' j) 1 = None" for j
    using s that unfolding slots_from_def by metis
  from a i sh old obtain q where q: "alloc (rbase r + i * PAGE_SIZE cfg) = Some q" "fresh_page cfg r q"
    "\<And>j q'. j < npages r \<Longrightarrow> j \<noteq> i \<Longrightarrow> slots (pages r j) 1 = None \<Longrightarrow> alloc (rbase r + j * PAGE_SIZE cfg) = Some q' \<Longrightarrow>
       page_range cfg q \<inter> page_range cfg q' = {}"
    unfolding pages_apart_def by auto
  have "page_range cfg q \<inter> page_range cfg p = {}" if j: "j < npages r" "slots (pages r' j) 1 = Some p" for j p
  proof (cases "slots (pages r' j) = slots (pages r j)")
    case True
    then show ?thesis using q(2) j by (simp add: fresh_page_def)
  next
    case False
    then have "j = k" "slots (pages r j) 1 = None" "alloc (rbase r + j * PAGE_SIZE cfg) = Some p"
      using s j(2) by (auto simp: slots_from_def)
    moreover have "j \<noteq> i" using i j by auto
    ultimately show ?thesis using q(3) j(1) by blast
  qed
  then have "fresh_page cfg r' q" using q(2) sh by (simp add: fresh_page_def)
  then show "\<exists>q. alloc (rbase r' + i * PAGE_SIZE cfg) = Some q \<and> fresh_page cfg r' q
      \<and> (\<forall>j < npages r'. \<forall>q'. j \<noteq> i \<longrightarrow> slots (pages r' j) 1 = None \<longrightarrow>
            alloc (rbase r' + j * PAGE_SIZE cfg) = Some q' \<longrightarrow> page_range cfg q \<inter> page_range cfg q' = {})"
    using q(1,3) sh old by auto
qed

section \<open>Pages of addresses\<close>

lemma page_in_region:
  fixes b a P :: nat
  assumes "b mod P = 0" and "b \<le> a" and "0 < P"
  shows "a - a mod P = b + (a - b) div P * P" and "a mod P = (a - b) mod P"
proof -
  obtain q where q: "b = q * P" using assms(1) by (auto simp: mod_eq_0_iff_dvd dvd_def mult.commute)
  obtain d where d: "a = b + d" using assms(2) le_Suc_ex by blast
  show m: "a mod P = (a - b) mod P" by (simp add: d q)
  have "d div P * P = d - d mod P" by (simp add: minus_mod_eq_div_mult)
  moreover have "d mod P \<le> d" by simp
  ultimately show "a - a mod P = b + (a - b) div P * P" using m by (simp add: d)
qed

lemma page_of_in_region:
  assumes "shape_wf cfg r" and "region_contains r a" and "a < 2 ^ 64"
  shows "page_of cfg r a = Some ((a - rbase r) div PAGE_SIZE cfg)"
    and "page_base_of cfg a = rbase r + (a - rbase r) div PAGE_SIZE cfg * PAGE_SIZE cfg"
    and "(a - rbase r) div PAGE_SIZE cfg < npages r"
proof -
  let ?P = "PAGE_SIZE cfg"
  have b: "rbase r mod ?P = 0" "rbase r \<le> a" "0 < ?P" and lt: "a - rbase r < npages r * ?P"
    using assms by (auto simp: shape_wf_def region_contains_def)
  have ok: "page_size_ok cfg" using assms(1) by (simp add: shape_wf_def)
  show base: "page_base_of cfg a = rbase r + (a - rbase r) div ?P * ?P"
    unfolding page_base_of_mod [OF ok assms(3)] by (rule page_in_region(1) [OF b])
  show n: "(a - rbase r) div ?P < npages r" by (rule offset_page [OF lt])
  show "page_of cfg r a = Some ((a - rbase r) div ?P)" unfolding page_of_def base using n b(3) by (simp add: Let_def)
qed

section \<open>Saving a range\<close>

text \<open>
  The object number \<open>k\<close> owns the region number \<open>n\<close>, \<open>w\<close> is what the region held when the epoch \<open>ts\<close> began.
\<close>

definition mv_keeps ::
  "mv \<Rightarrow> mv_config \<Rightarrow> (nat \<Rightarrow> nat option) \<Rightarrow> nat \<Rightarrow> nat \<Rightarrow> (nat \<Rightarrow> byte) \<Rightarrow> 64 word \<Rightarrow> mvmm \<Rightarrow> bool" where
  "mv_keeps v cfg alloc k n w ts s \<longleftrightarrow> n < length (regions s) \<and> regions_apart (regions s) \<and> epoch_round s = ts
     \<and> region_keeps v cfg w ts (region_at (regions s) n, memory_of s) \<and> pages_apart cfg alloc (region_at (regions s) n)
     \<and> (case object_base s k of None \<Rightarrow> False | Some b \<Rightarrow> region_contains (region_at (regions s) n) b)"

text \<open>What steps on the region add to what is saved.\<close>

definition saves_more :: "mv \<Rightarrow> mv_config \<Rightarrow> nat \<Rightarrow> 64 word \<Rightarrow> nat set \<Rightarrow> mvmm \<Rightarrow> mvmm \<Rightarrow> bool" where
  "saves_more v cfg n ts X s s' \<longleftrightarrow> same_shape (region_at (regions s') n) (region_at (regions s) n)
     \<and> (\<forall>x. saved v cfg (region_at (regions s) n) ts x \<or> x \<in> X \<longrightarrow> saved v cfg (region_at (regions s') n) ts x)"

lemma saves_more_trans:
  assumes "saves_more v cfg n ts X s s1" and "saves_more v cfg n ts Y s1 s2" and "Z \<subseteq> X \<union> Y"
  shows "saves_more v cfg n ts Z s s2"
proof -
  have "same_shape (region_at (regions s2) n) (region_at (regions s) n)"
    using assms(1,2) same_shape_trans unfolding saves_more_def by blast
  then show ?thesis using assms unfolding saves_more_def by blast
qed

lemma contains_cong: "same_shape r' r \<Longrightarrow> region_contains r' a = region_contains r a"
  by (simp add: region_contains_def same_shape_def)

lemma set_region_keeps:
  assumes k: "mv_keeps v cfg alloc k n w ts s" and r: "region_keeps v cfg w ts (r', mem')"
    and p: "pages_apart cfg alloc r'" and sh: "same_shape r' (region_at (regions s) n)"
  shows "mv_keeps v cfg alloc k n w ts (set_region n r' s\<lparr>memory_of := mem'\<rparr>)"
  using k r p regions_apart_set [of s r' n] sh contains_cong [OF sh]
  by (auto simp: mv_keeps_def split: option.splits)

lemma page_step_keeps:
  assumes k: "region_keeps v cfg w ts (r, mem)" and i: "i < npages r" and p: "pages_apart cfg alloc r"
    and se: "s < e" "e \<le> PAGE_SIZE cfg"
  shows "\<exists>r' mem'. (if v = STORE_GRID then snapshot_page_cells cfg alloc (rbase r + i * PAGE_SIZE cfg) i s e ts (r, mem)
      else snapshot_page v cfg alloc (rbase r + i * PAGE_SIZE cfg) i ts (r, mem)) = Inr (True, r', mem')
    \<and> region_keeps v cfg w ts (r', mem') \<and> same_shape r' r \<and> pages_apart cfg alloc r'
    \<and> (\<forall>x. saved v cfg r ts x \<or> x div PAGE_SIZE cfg = i \<and> s \<le> x mod PAGE_SIZE cfg \<and> x mod PAGE_SIZE cfg < e \<longrightarrow> saved v cfg r' ts x)"
proof -
  let ?pb = "rbase r + i * PAGE_SIZE cfg"
  have al: "slots (pages r i) 1 = None \<longrightarrow> (\<exists>q. alloc ?pb = Some q \<and> fresh_page cfg r q)"
    using p i unfolding pages_apart_def by blast
  have ps: "pages_apart cfg alloc r'" "same_shape r' r" if "slots_from r' r i (alloc ?pb)" for r'
    using pages_apart_step [OF p that i] that by (simp_all add: slots_from_def)
  have "v = STORE \<or> v = STORE_GRID" using k by (cases v) (auto simp: region_keeps_def)
  then show ?thesis
  proof
    assume v: "v = STORE"
    from snapshot_page_keeps [where pb = ?pb and alloc = alloc, OF k [unfolded v] i al] obtain r' mem' where
      "snapshot_page STORE cfg alloc ?pb i ts (r, mem) = Inr (True, r', mem')" "region_keeps STORE cfg w ts (r', mem')"
      "slots_from r' r i (alloc ?pb)" "\<forall>x. saved STORE cfg r ts x \<longrightarrow> saved STORE cfg r' ts x"
      "\<forall>x. x div PAGE_SIZE cfg = i \<longrightarrow> saved STORE cfg r' ts x" by blast
    then show ?thesis using ps v by (intro exI [of _ r'] exI [of _ mem']) simp
  next
    assume v: "v = STORE_GRID"
    from snapshot_page_cells_keeps [where pb = ?pb and alloc = alloc, OF k [unfolded v] i al se] obtain r' mem' where
      "snapshot_page_cells cfg alloc ?pb i s e ts (r, mem) = Inr (True, r', mem')" "region_keeps STORE_GRID cfg w ts (r', mem')"
      "slots_from r' r i (alloc ?pb)" "\<forall>x. saved STORE_GRID cfg r ts x \<longrightarrow> saved STORE_GRID cfg r' ts x"
      "\<forall>x. x div PAGE_SIZE cfg = i \<longrightarrow> s \<le> x mod PAGE_SIZE cfg \<longrightarrow> x mod PAGE_SIZE cfg < e \<longrightarrow> saved STORE_GRID cfg r' ts x"
      by blast
    then show ?thesis using ps v by (intro exI [of _ r'] exI [of _ mem']) simp
  qed
qed

lemma snapshot_piece_keeps:
  assumes k: "mv_keeps v cfg alloc k n w ts s" and c: "cached_ok (regions s) cached"
    and cur: "region_contains (region_at (regions s) n) cur" and nx: "cur < next" "next \<le> page_base_of cfg cur + PAGE_SIZE cfg"
    and small: "cur < 2 ^ 64"
  shows "\<exists>cached' s'. snapshot_piece v cfg alloc ts cur next (cached, s) = Inr (True, cached', s')
    \<and> mv_keeps v cfg alloc k n w ts s' \<and> cached_ok (regions s') cached'
    \<and> saves_more v cfg n ts {cur - rbase (region_at (regions s) n)..<next - rbase (region_at (regions s) n)} s s'"
proof -
  define r where "r = region_at (regions s) n"
  let ?P = "PAGE_SIZE cfg" let ?i = "(cur - rbase r) div ?P" and ?b = "page_base_of cfg cur"
  have rk: "region_keeps v cfg w ts (r, memory_of s)" "pages_apart cfg alloc r" "n < length (regions s)" "regions_apart (regions s)"
    using k by (simp_all add: mv_keeps_def r_def)
  have sh: "shape_wf cfg r" and P: "0 < ?P" using rk(1) by (simp_all add: region_keeps_def shape_wf_def)
  have ok: "page_size_ok cfg" using sh by (simp add: shape_wf_def)
  note pg = page_of_in_region [OF sh cur [folded r_def] small]
  obtain cached1 where f: "find_region_cached (regions s) cached cur = (Some n, cached1)" "cached_ok (regions s) cached1"
    using find_region_cached_eq [OF rk(4) c, of cur] find_region_unique [OF rk(4,3) cur]
    by (cases "find_region_cached (regions s) cached cur") auto
  have b: "?b \<le> cur" "rbase r \<le> cur"
    using cur by (simp_all add: page_base_of_mod [OF ok small] region_contains_def r_def)
  have "cur - ?b < next - ?b" "next - ?b \<le> ?P" using nx b by linarith+
  from page_step_keeps [OF rk(1) pg(3) rk(2) this] obtain r' mem' where
    run: "(if v = STORE_GRID then snapshot_page_cells cfg alloc ?b ?i (cur - ?b) (next - ?b) ts (r, memory_of s)
      else snapshot_page v cfg alloc ?b ?i ts (r, memory_of s)) = Inr (True, r', mem')"
    and res: "region_keeps v cfg w ts (r', mem')" "same_shape r' r" "pages_apart cfg alloc r'"
      "\<And>x. saved v cfg r ts x \<or> x div ?P = ?i \<and> cur - ?b \<le> x mod ?P \<and> x mod ?P < next - ?b \<Longrightarrow> saved v cfg r' ts x"
    unfolding pg(2) [symmetric] by blast
  define s' where "s' = set_region n r' s\<lparr>memory_of := mem'\<rparr>"
  have "snapshot_piece v cfg alloc ts cur next (cached, s) = Inr (True, cached1, s')"
    using run by (simp add: snapshot_piece_def f(1) Let_def r_def [symmetric] pg(1) s'_def)
  moreover have "mv_keeps v cfg alloc k n w ts s'"
    unfolding s'_def using set_region_keeps [OF k res(1,3)] res(2) by (simp add: r_def)
  moreover have "cached_ok (regions s') cached1" using f(2) by (auto simp: s'_def cached_ok_def split: option.splits)
  moreover have "saved v cfg r' ts x" if x: "cur - rbase r \<le> x" "x < next - rbase r" for x
  proof -
    have "x div ?P = ?i"
    proof (intro div_nat_eqI)
      have "?i * ?P \<le> cur - rbase r" by simp
      from order_trans [OF this x(1)] show "?P * ?i \<le> x" by (simp only: mult.commute)
      have "x < rbase r + ?i * ?P + ?P - rbase r" using x nx(2) unfolding pg(2) by linarith
      then show "x < ?P * Suc ?i" by (simp add: mult.commute)
    qed
    moreover have "x mod ?P = x - ?i * ?P" using calculation by (metis minus_div_mult_eq_mod)
    moreover have "cur - ?b \<le> x - ?i * ?P" "x - ?i * ?P < next - ?b" using x b nx unfolding pg(2) by linarith+
    ultimately show ?thesis by (intro res(4)) simp
  qed
  then have "saves_more v cfg n ts {cur - rbase r..<next - rbase r} s s'"
    using res(2,4) rk(3) by (auto simp: saves_more_def s'_def r_def)
  ultimately show ?thesis unfolding r_def by blast
qed

text \<open>
  The guard on \<open>next\<close> catches the page at the end of the address space, where the start of the next page wraps around.
\<close>

lemma next_page_min:
  assumes "cur < final" and "final < 2 ^ 64" and "page_size_ok cfg"
  shows "next_page cfg cur final = min final (page_base_of cfg cur + PAGE_SIZE cfg)"
    and "cur < page_base_of cfg cur + PAGE_SIZE cfg"
proof -
  let ?P = "PAGE_SIZE cfg" and ?b = "page_base_of cfg cur"
  have c: "cur < 2 ^ 64" using assms(1,2) by linarith
  obtain p where p: "p < 64" "?P = 2 ^ p" using assms(3) by (auto simp: page_size_ok_def)
  have "(2::nat) ^ p < 2 ^ 64" using p(1) by (intro power_strict_increasing) simp_all
  then have P: "0 < ?P" "?P < 2 ^ 64" using p(2) by simp_all
  have b: "?b = cur - cur mod ?P" by (rule page_base_of_mod [OF assms(3) c])
  show above: "cur < ?b + ?P" using mod_less_divisor [OF P(1), of cur] unfolding b by linarith
  show "next_page cfg cur final = min final (?b + ?P)"
  proof (cases "?b + ?P < 2 ^ 64")
    case True
    then have "(?b + ?P) mod 2 ^ 64 = ?b + ?P" by (rule mod_less)
    then show ?thesis using above by (simp add: next_page_def Let_def min_def)
  next
    case False
    have lower: "?b \<le> cur" unfolding b by simp
    have "(?b + ?P) mod 2 ^ 64 = ?b + ?P - 2 ^ 64"
      using False c lower P(2) by (intro mod_nat_eqI) (auto simp: algebra_simps)
    then have "(?b + ?P) mod 2 ^ 64 \<le> cur" using lower P(2) by linarith
    moreover have "final \<le> ?b + ?P" using False assms(2) by linarith
    ultimately show ?thesis by (simp add: next_page_def Let_def min_def)
  qed
qed

lemma next_page_bounds:
  assumes "cur < final" and "final < 2 ^ 64" and "page_size_ok cfg"
  shows "cur < next_page cfg cur final" and "next_page cfg cur final \<le> final"
    and "next_page cfg cur final \<le> page_base_of cfg cur + PAGE_SIZE cfg"
  using next_page_min [OF assms] assms(1) by simp_all

lemma snapshot_pieces_keeps:
  assumes "mv_keeps v cfg alloc k n w ts s" and "cached_ok (regions s) cached"
    and "rbase (region_at (regions s) n) \<le> cur" and "final \<le> rbase (region_at (regions s) n) + rlen (region_at (regions s) n)"
    and "final < 2 ^ 64"
  shows "\<exists>cached' s'. snapshot_pieces v cfg alloc ts cur final (cached, s) = Inr (cached', s')
    \<and> mv_keeps v cfg alloc k n w ts s' \<and> cached_ok (regions s') cached'
    \<and> saves_more v cfg n ts {cur - rbase (region_at (regions s) n)..<final - rbase (region_at (regions s) n)} s s'"
  using assms
proof (induction "final - cur" arbitrary: cur cached s rule: less_induct)
  case less
  let ?r = "region_at (regions s) n" and ?nx = "next_page cfg cur final"
  show ?case
  proof (cases "cur < final")
    case False
    then show ?thesis using less.prems
      by (auto simp: snapshot_pieces.simps saves_more_def)
  next
    case True
    have P: "page_size_ok cfg" using less.prems(1) by (simp add: mv_keeps_def region_keeps_def shape_wf_def)
    note nb = next_page_bounds [OF True less.prems(5) P]
    have small: "cur < 2 ^ 64" using True less.prems(5) by linarith
    have cur: "region_contains ?r cur" using less.prems True by (simp add: region_contains_def)
    obtain c1 s1 where 1: "snapshot_piece v cfg alloc ts cur ?nx (cached, s) = Inr (True, c1, s1)"
      "mv_keeps v cfg alloc k n w ts s1" "cached_ok (regions s1) c1"
      "saves_more v cfg n ts {cur - rbase ?r..<?nx - rbase ?r} s s1"
      using snapshot_piece_keeps [OF less.prems(1,2) cur nb(1,3) small] by blast
    have sh: "rbase (region_at (regions s1) n) = rbase ?r" "rlen (region_at (regions s1) n) = rlen ?r"
      using 1(4) by (simp_all add: saves_more_def same_shape_def)
    have "final - ?nx < final - cur" using nb True by linarith
    from less.hyps [OF this 1(2,3)] less.prems nb sh obtain c2 s2 where
      2: "snapshot_pieces v cfg alloc ts ?nx final (c1, s1) = Inr (c2, s2)"
      "mv_keeps v cfg alloc k n w ts s2" "cached_ok (regions s2) c2"
      "saves_more v cfg n ts {?nx - rbase ?r..<final - rbase ?r} s1 s2" by auto
    have "{cur - rbase ?r..<final - rbase ?r} \<subseteq> {cur - rbase ?r..<?nx - rbase ?r} \<union> {?nx - rbase ?r..<final - rbase ?r}"
      by auto
    from saves_more_trans [OF 1(4) 2(4) this] show ?thesis
      using 1(1) 2 True by (subst snapshot_pieces.simps) simp
  qed
qed

section \<open>Instrumented writes\<close>

lemma region_store_keeps:
  assumes k: "region_keeps v cfg w ts (r, mem)"
    and rng: "rbase r \<le> dst" "dst + n \<le> rbase r + rlen r"
    and sv: "\<And>x. dst - rbase r \<le> x \<Longrightarrow> x < dst + n - rbase r \<Longrightarrow> saved v cfg r ts x"
    and out: "\<And>a. \<not> (dst \<le> a \<and> a < dst + n) \<Longrightarrow> mem' a = mem a"
  shows "region_keeps v cfg w ts (r, mem')"
proof -
  let ?P = "PAGE_SIZE cfg"
  have P: "0 < ?P" "rlen r \<le> npages r * ?P" and wf: "slots_wf cfg r" and tw: "touched_wf r ts"
    using k by (simp_all add: region_keeps_def shape_wf_def)
  have "old_byte v cfg r mem' ts x = old_byte v cfg r mem ts x" if x: "x < npages r * ?P" for x
  proof (cases "saved v cfg r ts x")
    case True
    let ?j = "x div ?P" and ?y = "x mod ?P"
    have j: "?j < npages r" by (rule offset_page [OF x])
    then obtain q where q: "slots (pages r ?j) 1 = Some q" using True tw by (auto simp: saved_def touched_wf_def)
    have y: "?y < ?P" using P(1) by simp
    have "\<not> (dst \<le> q + ?y \<and> q + ?y < dst + n)"
    proof
      assume "dst \<le> q + ?y \<and> q + ?y < dst + n"
      then have "rbase r + (q + ?y - rbase r) = q + ?y" "q + ?y - rbase r < npages r * ?P" using rng P(2) by linarith+
      with slot_addresses(1) [OF wf P(1) j q y] show False by metis
    qed
    then show ?thesis using True q out by (simp add: old_byte_def)
  next
    case False
    then have "\<not> (dst - rbase r \<le> x \<and> x < dst + n - rbase r)" using sv by blast
    then have "\<not> (dst \<le> rbase r + x \<and> rbase r + x < dst + n)" by linarith
    then show ?thesis using False out by (simp add: old_byte_def)
  qed
  then show ?thesis using k by (simp add: region_keeps_def)
qed

lemma store_after_range_keeps:
  assumes k: "mv_keeps v cfg alloc k n w ts s" and c: "cached_ok (regions s) cached" and l: "0 < l"
    and rng: "rbase (region_at (regions s) n) \<le> dst" "dst + l \<le> rbase (region_at (regions s) n) + rlen (region_at (regions s) n)"
    and small: "dst + l < 2 ^ 64"
  shows "\<exists>cached' s'. snapshot_range v cfg alloc dst l (cached, s) = Inr (cached', s') \<and> cached_ok (regions s') cached'
    \<and> (\<forall>mem'. (\<forall>a. \<not> (dst \<le> a \<and> a < dst + l) \<longrightarrow> mem' a = memory_of s' a) \<longrightarrow>
         mv_keeps v cfg alloc k n w ts (s'\<lparr>memory_of := mem'\<rparr>))"
proof -
  let ?b = "rbase (region_at (regions s) n)"
  obtain c1 s1 where 1: "snapshot_pieces v cfg alloc ts dst (dst + l) (cached, s) = Inr (c1, s1)"
    "mv_keeps v cfg alloc k n w ts s1" "cached_ok (regions s1) c1" "saves_more v cfg n ts {dst - ?b..<dst + l - ?b} s s1"
    using snapshot_pieces_keeps [OF k c rng small] by blast
  have "epoch_round s = ts" using k by (simp add: mv_keeps_def)
  then have run: "snapshot_range v cfg alloc dst l (cached, s) = Inr (c1, s1)"
    using 1(1) l small by (simp add: snapshot_range_def Let_def)
  have sh: "rbase (region_at (regions s1) n) = ?b" "rlen (region_at (regions s1) n) = rlen (region_at (regions s) n)"
    using 1(4) by (simp_all add: saves_more_def same_shape_def)
  have "mv_keeps v cfg alloc k n w ts (s1\<lparr>memory_of := mem'\<rparr>)"
    if out: "\<forall>a. \<not> (dst \<le> a \<and> a < dst + l) \<longrightarrow> mem' a = memory_of s1 a" for mem'
  proof -
    have "region_keeps v cfg w ts (region_at (regions s1) n, mem')"
    proof (rule region_store_keeps [where dst = dst and n = l and mem = "memory_of s1"])
      show "region_keeps v cfg w ts (region_at (regions s1) n, memory_of s1)" using 1(2) by (simp add: mv_keeps_def)
      show "rbase (region_at (regions s1) n) \<le> dst" "dst + l \<le> rbase (region_at (regions s1) n) + rlen (region_at (regions s1) n)"
        using rng sh by simp_all
      show "saved v cfg (region_at (regions s1) n) ts x"
        if "dst - rbase (region_at (regions s1) n) \<le> x" "x < dst + l - rbase (region_at (regions s1) n)" for x
        using that 1(4) sh by (simp add: saves_more_def)
      show "mem' a = memory_of s1 a" if "\<not> (dst \<le> a \<and> a < dst + l)" for a using out that by blast
    qed
    then show ?thesis using 1(2) by (simp add: mv_keeps_def split: option.splits)
  qed
  then show ?thesis using run 1(3) by blast
qed

text \<open>
  What an object does between two checkpoints: instrumented instructions, calls of the wrapper of
  \<open>memcpy\<close>, and calls of its allocator. An instruction is its hook followed by its store.
\<close>

datatype mv_op = Instr instruction_record registers "byte list" | Copy nat nat nat | Call alloc_op

type_synonym mv_state = "(nat \<Rightarrow> obj_memory) \<times> nat option \<times> mvmm"

definition mv_run :: "mv \<Rightarrow> mv_config \<Rightarrow> (nat \<Rightarrow> nat option) \<Rightarrow> nat \<Rightarrow> mv_op \<Rightarrow> mv_state \<Rightarrow> mv_state outcome" where
  "mv_run v cfg alloc k w = (\<lambda>(allocators, cached, s).
     case w of
       Instr ins regs bs \<Rightarrow>
         and_then (the_patch v cfg alloc (Some ins) regs (cached, s)) (\<lambda>(regs', cached', s').
         and_then (compute_effective_address ins regs') (\<lambda>ea.
           Inr (allocators, cached', s'\<lparr>memory_of := store_bytes (memory_of s') (unat ea) bs\<rparr>)))
     | Copy dst src n \<Rightarrow> and_then (mmap_mv_memcpy v cfg alloc dst src n (cached, s)) (\<lambda>(cached', s'). Inr (allocators, cached', s'))
     | Call a \<Rightarrow> and_then (alloc_run PLAIN a (allocators k)) (\<lambda>m. Inr (allocators(k := m), cached, s)))"

definition in_region :: "nat \<Rightarrow> mvmm \<Rightarrow> nat \<Rightarrow> nat \<Rightarrow> bool" where
  "in_region n s dst l \<longleftrightarrow> 0 < l \<and> dst + l < 2 ^ 64 \<and> rbase (region_at (regions s) n) \<le> dst
     \<and> dst + l \<le> rbase (region_at (regions s) n) + rlen (region_at (regions s) n)"

text \<open>A store is legal when it stays in the object's region and is of the size the record of it says.\<close>

definition mv_legal :: "nat \<Rightarrow> nat \<Rightarrow> mv_op \<Rightarrow> mv_state \<Rightarrow> bool" where
  "mv_legal k n w = (\<lambda>(allocators, cached, s).
     case w of
       Instr ins regs bs \<Rightarrow> type ins = CHR ''s'' \<and> data_size ins = int (length bs)
         \<and> (case compute_effective_address ins regs of Inl e \<Rightarrow> False | Inr ea \<Rightarrow> ea \<noteq> 0 \<and> in_region n s (unat ea) (length bs))
     | Copy dst src l \<Rightarrow> in_region n s dst l
     | Call a \<Rightarrow> (case alloc_run PLAIN a (allocators k) of Inl e \<Rightarrow> False | Inr m \<Rightarrow> True))"

definition mv_put :: "mv \<Rightarrow> mv_config \<Rightarrow> (nat \<Rightarrow> nat option) \<Rightarrow> nat \<Rightarrow> mv_op \<Rightarrow> mv_state \<Rightarrow> mv_state" where
  "mv_put v cfg alloc k w m = (case mv_run v cfg alloc k w m of Inl e \<Rightarrow> m | Inr m' \<Rightarrow> m')"

definition mv_object_keeps ::
  "mv \<Rightarrow> mv_config \<Rightarrow> (nat \<Rightarrow> nat option) \<Rightarrow> nat \<Rightarrow> nat \<Rightarrow> nat list list \<times> (nat \<Rightarrow> byte) \<Rightarrow> mv_state \<Rightarrow> bool" where
  "mv_object_keeps v cfg alloc k n vw = (\<lambda>(allocators, cached, s).
     alloc_keeps (fst vw) (allocators k) \<and> cached_ok (regions s) cached \<and> 1 \<le> epoch_round s
     \<and> mv_keeps v cfg alloc k n (snd vw) (epoch_round s) s)"

lemma mv_keeps_epoch: "mv_keeps v cfg alloc k n w ts s \<Longrightarrow> epoch_round s = ts"
  by (simp add: mv_keeps_def)

lemma the_patch_store:
  assumes "v \<noteq> BASE" and "type ins = CHR ''s''" and ea: "compute_effective_address ins regs = Inr ea" "ea \<noteq> 0"
    and l: "data_size ins = int l" "0 < l" "l < 2 ^ 64"
    and f: "find_region_cached (regions s) cached (unat ea) = (Some n, cached1)"
  shows "the_patch v cfg alloc (Some ins) regs (cached, s) =
    and_then (snapshot_range v cfg alloc (unat ea) l (cached1, s)) (\<lambda>(cached2, s2). Inr (regs, cached2, s2))"
proof -
  have "access_size ins = l" using l by (simp add: access_size_def nat_mod_distrib)
  then show ?thesis using assms by (simp add: the_patch_def Let_def)
qed

lemma mv_put_keeps:
  assumes k: "mv_object_keeps v cfg alloc k n vw m" and legal: "mv_legal k n w m"
  shows "\<exists>m'. mv_run v cfg alloc k w m = Inr m' \<and> mv_object_keeps v cfg alloc k n vw m'"
proof -
  obtain al cached s where m: "m = (al, cached, s)" by (metis prod_cases3)
  have h: "alloc_keeps (fst vw) (al k)" "cached_ok (regions s) cached" "1 \<le> epoch_round s"
    "mv_keeps v cfg alloc k n (snd vw) (epoch_round s) s" using k by (simp_all add: mv_object_keeps_def m)
  have v: "v \<noteq> BASE" and apart: "regions_apart (regions s)" and n: "n < length (regions s)"
    using h(4) by (simp_all add: mv_keeps_def region_keeps_def)
  show ?thesis
  proof (cases w)
    case (Instr ins regs bs)
    obtain ea where ea: "compute_effective_address ins regs = Inr ea" "ea \<noteq> 0" "in_region n s (unat ea) (length bs)"
      and ty: "type ins = CHR ''s''" "data_size ins = int (length bs)"
      using legal by (auto simp: mv_legal_def m Instr split: sum.splits)
    have rng: "0 < length bs" "unat ea + length bs < 2 ^ 64" "rbase (region_at (regions s) n) \<le> unat ea"
      "unat ea + length bs \<le> rbase (region_at (regions s) n) + rlen (region_at (regions s) n)"
      using ea(3) by (simp_all add: in_region_def)
    have "region_contains (region_at (regions s) n) (unat ea)" unfolding region_contains_def using rng by linarith
    then obtain c1 where c1: "find_region_cached (regions s) cached (unat ea) = (Some n, c1)" "cached_ok (regions s) c1"
      using find_region_cached_eq [OF apart h(2), of "unat ea"] find_region_unique [OF apart n]
      by (cases "find_region_cached (regions s) cached (unat ea)") auto
    from store_after_range_keeps [OF h(4) c1(2) rng(1,3,4,2)] obtain c2 s2 where
      2: "snapshot_range v cfg alloc (unat ea) (length bs) (c1, s) = Inr (c2, s2)" "cached_ok (regions s2) c2"
      "\<And>mem'. \<forall>a. \<not> (unat ea \<le> a \<and> a < unat ea + length bs) \<longrightarrow> mem' a = memory_of s2 a \<Longrightarrow>
         mv_keeps v cfg alloc k n (snd vw) (epoch_round s) (s2\<lparr>memory_of := mem'\<rparr>)" by blast
    have "length bs < 2 ^ 64" using rng(2) by simp
    from the_patch_store [OF v ty(1) ea(1,2) ty(2) rng(1) this c1(1)] 2(1)
    have run: "mv_run v cfg alloc k w m = Inr (al, c2, s2\<lparr>memory_of := store_bytes (memory_of s2) (unat ea) bs\<rparr>)"
      by (simp add: mv_run_def m Instr ea(1))
    have kp: "mv_keeps v cfg alloc k n (snd vw) (epoch_round s) (s2\<lparr>memory_of := store_bytes (memory_of s2) (unat ea) bs\<rparr>)"
      by (rule 2(3)) (auto simp: store_bytes_def)
    show ?thesis using run h kp 2(2) mv_keeps_epoch [OF kp] by (simp add: mv_object_keeps_def)
  next
    case (Copy dst src l)
    then have rng: "0 < l" "dst + l < 2 ^ 64" "rbase (region_at (regions s) n) \<le> dst"
      "dst + l \<le> rbase (region_at (regions s) n) + rlen (region_at (regions s) n)"
      using legal by (simp_all add: mv_legal_def m in_region_def)
    from store_after_range_keeps [OF h(4,2) rng(1,3,4,2)] obtain c2 s2 where
      2: "snapshot_range v cfg alloc dst l (cached, s) = Inr (c2, s2)" "cached_ok (regions s2) c2"
      "\<And>mem'. \<forall>a. \<not> (dst \<le> a \<and> a < dst + l) \<longrightarrow> mem' a = memory_of s2 a \<Longrightarrow>
         mv_keeps v cfg alloc k n (snd vw) (epoch_round s) (s2\<lparr>memory_of := mem'\<rparr>)" by blast
    have run: "mv_run v cfg alloc k w m = Inr (al, c2, s2\<lparr>memory_of := memcpy (memory_of s2) dst src l\<rparr>)"
      using 2(1) v by (simp add: mv_run_def m Copy mmap_mv_memcpy_def)
    have kp: "mv_keeps v cfg alloc k n (snd vw) (epoch_round s) (s2\<lparr>memory_of := memcpy (memory_of s2) dst src l\<rparr>)"
      by (rule 2(3)) (auto simp: memcpy_def)
    show ?thesis using run h kp 2(2) mv_keeps_epoch [OF kp] by (simp add: mv_object_keeps_def)
  next
    case (Call a)
    then obtain x where x: "alloc_run PLAIN a (al k) = Inr x" using legal by (auto simp: mv_legal_def m split: sum.splits)
    have "alloc_keeps (fst vw) x" using free_stacks.keeps_put [of "fst vw" "al k" PLAIN a] h(1) x by (auto simp: alloc_put_def)
    then show ?thesis using h x by (simp add: mv_run_def m Call mv_object_keeps_def)
  qed
qed

section \<open>Checkpoints of all objects\<close>

lemma count_ckpt_steps:
  assumes "j < objects" and "objects < 2 ^ 64" and "ckpt_counter s = 0"
  shows "(count_ckpt objects ^^ j) s = s\<lparr>ckpt_counter := of_nat j\<rparr>"
  using assms(1)
proof (induction j)
  case 0
  show ?case using assms(3) by simp
next
  case (Suc j)
  have "(of_nat (Suc j) :: 64 word) \<noteq> of_nat objects"
  proof
    assume "(of_nat (Suc j) :: 64 word) = of_nat objects"
    then have "unat (of_nat (Suc j) :: 64 word) = unat (of_nat objects :: 64 word)" by simp
    then show False using Suc.prems assms(2) by (simp only: unat_of_nat) simp
  qed
  then show ?case using Suc by (simp add: count_ckpt_def Let_def add.commute)
qed

lemma count_ckpt_round:
  assumes "0 < objects" and "objects < 2 ^ 64" and "ckpt_counter s = 0"
  shows "(count_ckpt objects ^^ objects) s = s\<lparr>epoch_round := epoch_round s + 1\<rparr>"
proof -
  obtain j where j: "objects = Suc j" using assms(1) by (cases objects) auto
  have "(count_ckpt objects ^^ objects) s = count_ckpt objects ((count_ckpt objects ^^ j) s)" by (simp add: j)
  also have "\<dots> = count_ckpt objects (s\<lparr>ckpt_counter := of_nat j\<rparr>)" using count_ckpt_steps [of j objects s] assms j by simp
  also have "\<dots> = s\<lparr>epoch_round := epoch_round s + 1\<rparr>"
    using assms(3) by (simp add: count_ckpt_def Let_def j add.commute)
  finally show ?thesis .
qed

definition mv_mark :: "nat \<Rightarrow> mv_state \<Rightarrow> mv_state" where
  "mv_mark objects = (\<lambda>(allocators, cached, s).
     let (allocators', s') = fold (mv_set_ckpt objects) [0..<objects] (allocators, s) in (allocators', cached, s'))"

lemma fold_set_ckpt:
  "fold (mv_set_ckpt objects) [0..<m] (al, s) =
     ((\<lambda>i. if i < m then set_allocator_ckpt PLAIN (al i) else al i), (count_ckpt objects ^^ m) s)"
  by (induction m) (auto simp: mv_set_ckpt_def)

definition mv_reset :: "mv \<Rightarrow> mv_config \<Rightarrow> nat \<Rightarrow> nat \<Rightarrow> mv_state \<Rightarrow> mv_state" where
  "mv_reset v cfg objects k = (\<lambda>(allocators, cached, s).
     let (allocators', s') = mv_restore_object v cfg objects (int k) (allocators, s) in (allocators', cached, s'))"

definition region_view :: "mv_config \<Rightarrow> region \<Rightarrow> memory \<Rightarrow> nat \<Rightarrow> byte" where
  "region_view cfg r mem = (\<lambda>x. if x < npages r * PAGE_SIZE cfg then mem (rbase r + x) else 0)"

definition mv_object_view :: "mv_config \<Rightarrow> nat \<Rightarrow> nat \<Rightarrow> mv_state \<Rightarrow> nat list list \<times> (nat \<Rightarrow> byte)" where
  "mv_object_view cfg k n = (\<lambda>(allocators, cached, s).
     (alloc_view (allocators k), region_view cfg (region_at (regions s) n) (memory_of s)))"

text \<open>The states between two rounds of checkpoints.\<close>

definition mv_usable :: "mv \<Rightarrow> mv_config \<Rightarrow> (nat \<Rightarrow> nat option) \<Rightarrow> nat \<Rightarrow> nat \<Rightarrow> nat \<Rightarrow> mv_state \<Rightarrow> bool" where
  "mv_usable v cfg alloc objects k n = (\<lambda>(allocators, cached, s).
     let r = region_at (regions s) n in
     v \<noteq> BASE \<and> k < objects \<and> objects < 2 ^ 64 \<and> ckpt_counter s = 0 \<and> epoch_round s < UINT64_MAX - 1
     \<and> cached_ok (regions s) cached \<and> n < length (regions s) \<and> regions_apart (regions s)
     \<and> shape_wf cfg r \<and> slots_wf cfg r \<and> touched_wf r (epoch_round s) \<and> pages_apart cfg alloc r
     \<and> (case object_base s k of None \<Rightarrow> False | Some b \<Rightarrow> region_contains r b))"

lemma new_epoch_keeps:
  assumes "v \<noteq> BASE" and "ts < UINT64_MAX - 1" and "shape_wf cfg r" and "slots_wf cfg r" and t: "touched_wf r ts"
  shows "region_keeps v cfg (region_view cfg r mem) (ts + 1) (r, mem)"
proof -
  note e = next_epoch [OF assms(2)] older_next [OF _ assms(2)]
  have old: "\<not> saved v cfg r (ts + 1) x" if "x < npages r * PAGE_SIZE cfg" for x
    using offset_page [OF that] t e(3) by (auto simp: saved_def touched_wf_def)
  have "touched_wf r (ts + 1)" unfolding touched_wf_def
  proof (intro conjI allI impI)
    show "distinct (touched_curr r)" "set (touched_curr r) \<subseteq> {..<npages r}" using t by (simp_all add: touched_wf_def)
    have n: "touched_curr_ts r \<noteq> ts + 1" "\<And>i. i < npages r \<Longrightarrow> last_touched_ts (pages r i) \<noteq> ts + 1"
      "\<And>i. i < npages r \<Longrightarrow> slot_ts (pages r i) 1 \<noteq> ts + 1" using t e(3) by (auto simp: touched_wf_def)
    show "older (touched_curr_ts r) (ts + 1)" using t e(4) by (simp add: touched_wf_def)
    show "older (last_touched_ts (pages r i)) (ts + 1)" "older (slot_ts (pages r i) 1) (ts + 1)" if "i < npages r" for i
      using that t e(4) by (simp_all add: touched_wf_def)
    show "last_touched_ts (pages r i) = ts + 1 \<longleftrightarrow> i \<in> set (touched_curr r)"
      if "touched_curr_ts r = ts + 1" "i < npages r" for i using that n(1) by simp
    show "last_touched_ts (pages r i) \<noteq> ts + 1" if "i < npages r" for i using that n(2) by simp
    show "slots (pages r i) 1 \<noteq> None" "last_touched_ts (pages r i) = ts + 1"
      if "i < npages r" "slot_ts (pages r i) 1 = ts + 1" for i using that n(3) by simp_all
  qed
  then show ?thesis using assms e(2) old by (auto simp: region_keeps_def old_byte_def region_view_def)
qed

lemma mv_mark_keeps:
  assumes u: "mv_usable v cfg alloc objects k n m"
  shows "mv_object_keeps v cfg alloc k n (mv_object_view cfg k n m) (mv_mark objects m)"
proof -
  obtain al cached s where m: "m = (al, cached, s)" by (metis prod_cases3)
  let ?r = "region_at (regions s) n" and ?ts = "epoch_round s + 1"
  have h: "v \<noteq> BASE" "k < objects" "objects < 2 ^ 64" "ckpt_counter s = 0" "epoch_round s < UINT64_MAX - 1"
    "cached_ok (regions s) cached" "n < length (regions s)" "regions_apart (regions s)" "shape_wf cfg ?r" "slots_wf cfg ?r"
    "touched_wf ?r (epoch_round s)" "pages_apart cfg alloc ?r"
    "case object_base s k of None \<Rightarrow> False | Some b \<Rightarrow> region_contains ?r b"
    using u by (simp_all add: mv_usable_def m Let_def)
  have mk: "mv_mark objects m = ((\<lambda>i. if i < objects then set_allocator_ckpt PLAIN (al i) else al i), cached, s\<lparr>epoch_round := ?ts\<rparr>)"
    using count_ckpt_round [OF _ h(3,4)] h(2) by (simp add: mv_mark_def m fold_set_ckpt)
  have "alloc_keeps (alloc_view (al k)) (set_allocator_ckpt PLAIN (al k))" by (rule free_stacks.keeps_mark) simp
  moreover have "1 \<le> ?ts" using next_epoch(1) [OF h(5)]
    unfolding word_less_nat_alt word_le_nat_alt unsigned_1 by linarith
  moreover have "region_keeps v cfg (region_view cfg ?r (memory_of s)) ?ts (?r, memory_of s)"
    by (rule new_epoch_keeps [OF h(1,5,9,10,11)])
  ultimately show ?thesis unfolding mk using h
    by (simp add: mv_object_keeps_def mv_object_view_def m mv_keeps_def split: option.splits)
qed

lemma mv_reset_keeps:
  assumes k: "mv_object_keeps v cfg alloc k n vw m" and o: "k < objects"
  shows "mv_object_keeps v cfg alloc k n vw (mv_reset v cfg objects k m) \<and> mv_object_view cfg k n (mv_reset v cfg objects k m) = vw"
proof -
  obtain al cached s where m: "m = (al, cached, s)" by (metis prod_cases3)
  let ?r = "region_at (regions s) n" and ?ts = "epoch_round s"
  have h: "alloc_keeps (fst vw) (al k)" "cached_ok (regions s) cached" "1 \<le> ?ts" "mv_keeps v cfg alloc k n (snd vw) ?ts s"
    using k by (simp_all add: mv_object_keeps_def m)
  have g: "n < length (regions s)" "regions_apart (regions s)" "region_keeps v cfg (snd vw) ?ts (?r, memory_of s)"
    "pages_apart cfg alloc ?r" using h(4) by (simp_all add: mv_keeps_def)
  obtain b where b: "object_base s k = Some b" "region_contains ?r b" using h(4) by (auto simp: mv_keeps_def split: option.splits)
  have found: "find_region_for_object objects s (int k) = Some n"
    using o b find_region_unique [OF g(2,1)] by (simp add: find_region_for_object_def)
  have target: "rollback_target ?ts = ?ts - 1" using h(3) by (simp add: rollback_target_def)
  obtain r' mem' where r': "region_rollback v cfg (?ts - 1) (?r, memory_of s) = (r', mem')" by (metis prod.exhaust)
  have c: "region_keeps v cfg (snd vw) ?ts (r', mem')" "same_slots r' ?r"
    "\<And>x. x < npages ?r * PAGE_SIZE cfg \<Longrightarrow> mem' (rbase ?r + x) = snd vw x"
    using region_rollback_correct [OF g(3) h(3)] r' by simp_all
  have sh: "same_shape r' ?r" "\<And>j. slots (pages r' j) = slots (pages ?r j)" using c(2) by (simp_all add: same_slots_def)
  have "fresh_page cfg r' q = fresh_page cfg ?r q" for q
    using sh by (simp add: fresh_page_def same_shape_def region_range_def)
  then have pa: "pages_apart cfg alloc r'" using g(4) sh by (simp add: pages_apart_def same_shape_def)
  define s' where "s' = set_region n r' s\<lparr>memory_of := mem'\<rparr>"
  have run: "mv_reset v cfg objects k m = (al(k := restore_allocator (al k)), cached, s')"
    by (simp add: mv_reset_def m mv_restore_object_def found target Let_def rollback_region_def r' s'_def)
  have "mv_keeps v cfg alloc k n (snd vw) ?ts s'" unfolding s'_def by (rule set_region_keeps [OF h(4) c(1) pa sh(1)])
  moreover have "epoch_round s' = ?ts" "cached_ok (regions s') cached"
    using h(2) by (auto simp: s'_def cached_ok_def split: option.splits)
  moreover have "alloc_keeps (fst vw) (restore_allocator (al k))" "alloc_view (restore_allocator (al k)) = fst vw"
    using h(1) free_stacks.keeps_restore free_stacks.view_restore by blast+
  moreover have "region_view cfg r' mem' = snd vw"
  proof
    fix x
    show "region_view cfg r' mem' x = snd vw x"
      using c(3) [of x] g(3) sh(1) by (simp add: region_view_def same_shape_def region_keeps_def)
  qed
  ultimately show ?thesis unfolding run using g(1) h(3)
    by (simp add: mv_object_keeps_def mv_object_view_def s'_def)
qed

interpretation mv_object: snapshot_backend
  "\<lambda>m. mv_usable v cfg alloc objects k n m" "mv_object_view cfg k n" "mv_mark objects" "mv_legal k n" "mv_put v cfg alloc k"
  "mv_reset v cfg objects k" "\<lambda>vw m. k < objects \<and> mv_object_keeps v cfg alloc k n vw m"
  for v cfg alloc objects k n
proof unfold_locales
  show "k < objects \<and> mv_object_keeps v cfg alloc k n (mv_object_view cfg k n m) (mv_mark objects m)"
    if "mv_usable v cfg alloc objects k n m" for m
    using mv_mark_keeps [OF that] that by (auto simp: mv_usable_def Let_def)
  show "k < objects \<and> mv_object_keeps v cfg alloc k n vw (mv_put v cfg alloc k w m)"
    if "k < objects \<and> mv_object_keeps v cfg alloc k n vw m" "mv_legal k n w m" for vw w m
    using mv_put_keeps [OF conjunct2 [OF that(1)] that(2)] that(1) by (auto simp: mv_put_def)
  show "k < objects \<and> mv_object_keeps v cfg alloc k n vw (mv_reset v cfg objects k m)"
    if "k < objects \<and> mv_object_keeps v cfg alloc k n vw m" for vw m using mv_reset_keeps that by blast
  show "mv_object_view cfg k n (mv_reset v cfg objects k m) = vw"
    if "k < objects \<and> mv_object_keeps v cfg alloc k n vw m" for vw m using mv_reset_keeps that by blast
qed

text \<open>The loop of the code, bounded by a number of iterations.\<close>

primrec snapshot_loop ::
  "nat \<Rightarrow> mv \<Rightarrow> mv_config \<Rightarrow> (nat \<Rightarrow> nat option) \<Rightarrow> 64 word \<Rightarrow> nat \<Rightarrow> nat \<Rightarrow> nat option \<times> mvmm
   \<Rightarrow> (nat option \<times> mvmm) outcome option" where
  "snapshot_loop 0 v cfg alloc ts cur final st = (if cur < final then None else Some (Inr st))"
| "snapshot_loop (Suc f) v cfg alloc ts cur final st =
     (if cur < final then
        (case snapshot_piece v cfg alloc ts cur (next_page cfg cur final) st of
           Inl e \<Rightarrow> Some (Inl e)
         | Inr (ok, st1) \<Rightarrow> if ok then snapshot_loop f v cfg alloc ts (next_page cfg cur final) final st1 else Some (Inr st1))
      else Some (Inr st))"

definition pages_of_range :: "mv_config \<Rightarrow> nat \<Rightarrow> nat \<Rightarrow> nat" where
  "pages_of_range cfg cur final = (if cur < final then (final - 1) div PAGE_SIZE cfg + 1 - cur div PAGE_SIZE cfg else 0)"

lemma pages_of_range_next:
  assumes "page_size_ok cfg" and "final < 2 ^ 64" and "cur < final" and "pages_of_range cfg cur final \<le> Suc f"
  shows "pages_of_range cfg (next_page cfg cur final) final \<le> f"
proof (cases "next_page cfg cur final < final")
  case True
  let ?P = "PAGE_SIZE cfg"
  have c: "cur < 2 ^ 64" using assms(2,3) by linarith
  have nx: "next_page cfg cur final = page_base_of cfg cur + ?P"
    using True next_page_min(1) [OF assms(3,2,1)] by (simp add: min_def split: if_splits)
  have "page_base_of cfg cur = cur div ?P * ?P" by (simp add: page_base_of_mod [OF assms(1) c] minus_mod_eq_div_mult)
  then have "next_page cfg cur final = Suc (cur div ?P) * ?P" by (simp add: nx add.commute)
  then have d: "next_page cfg cur final div ?P = Suc (cur div ?P)" using page_size_pos [OF assms(1)] by simp
  show ?thesis using assms(3,4) True d by (simp add: pages_of_range_def)
next
  case False
  then show ?thesis by (simp add: pages_of_range_def)
qed

lemma snapshot_loop_returns:
  assumes "page_size_ok cfg" and "final < 2 ^ 64" and "pages_of_range cfg cur final \<le> f"
  shows "snapshot_loop f v cfg alloc ts cur final st = Some (snapshot_pieces v cfg alloc ts cur final st)"
  using assms(3)
proof (induction f arbitrary: cur st)
  case 0
  have "cur div PAGE_SIZE cfg \<le> (final - 1) div PAGE_SIZE cfg" if "cur < final" using that by (intro div_le_mono) simp
  then have "\<not> cur < final" using 0 by (auto simp: pages_of_range_def split: if_splits)
  then show ?case by (simp add: snapshot_pieces.simps)
next
  case (Suc f)
  show ?case
  proof (cases "cur < final")
    case True
    note IH = Suc.IH [OF pages_of_range_next [OF assms(1,2) True Suc.prems]]
    show ?thesis using True IH
      by (subst snapshot_pieces.simps)
        (auto simp: and_then_def split: sum.splits prod.splits)
  qed (simp add: snapshot_pieces.simps)
qed

text \<open>
  Property C39. The loop of the range hook that cuts a store into pages ends, also when the range reaches into the last page
  of the address space, where the start of the next page wraps around to 0: it takes at most one iteration for every page the range touches.
\<close>

theorem snapshot_range_terminates:
  assumes "page_size_ok cfg" and "final < 2 ^ 64" and "pages_of_range cfg cur final \<le> fuel"
  shows "snapshot_loop fuel v cfg alloc ts cur final st = Some (snapshot_pieces v cfg alloc ts cur final st)"
  by (rule snapshot_loop_returns [OF assms])

section \<open>A state to try\<close>

text \<open>Two pages of 16 bytes in cells of 6, second slots a mebibyte further.\<close>

definition demo_cfg :: mv_config where "demo_cfg = \<lparr>PAGE_SIZE = 16, GRID_SIZE = 6\<rparr>"

definition demo_alloc_page :: "nat \<Rightarrow> nat option" where "demo_alloc_page a = Some (a + 1048576)"

definition demo_mvmm :: mvmm where
  "demo_mvmm = \<lparr>memory_of = (\<lambda>a. of_nat a), regions = [new_region demo_cfg 96 32, new_region demo_cfg 32 32],
     epoch_round = 4, ckpt_counter = 0, object_base = (\<lambda>k. if k < 2 then Some (32 + 64 * k) else None)\<rparr>"

lemma demo_page_size: "page_size_ok demo_cfg"
  unfolding page_size_ok_def by (rule exI [of _ 4]) (simp add: demo_cfg_def)

text \<open>A store to the last bytes of the address space takes one iteration: the next page would start at 0.\<close>

theorem snapshot_range_terminates_witness:
  "(page_base_of demo_cfg 18446744073709551610 + PAGE_SIZE demo_cfg) mod 2 ^ 64 = 0
    \<and> snapshot_loop 1 STORE demo_cfg demo_alloc_page 5 18446744073709551610 18446744073709551615 (None, demo_mvmm)
      = Some (snapshot_pieces STORE demo_cfg demo_alloc_page 5 18446744073709551610 18446744073709551615 (None, demo_mvmm))"
proof -
  have "pages_of_range demo_cfg 18446744073709551610 18446744073709551615 = 1" by (simp add: pages_of_range_def demo_cfg_def)
  moreover have "page_base_of demo_cfg 18446744073709551610 = 18446744073709551600"
    using page_base_of_mod [OF demo_page_size, of 18446744073709551610] by (simp add: demo_cfg_def)
  ultimately show ?thesis using snapshot_range_terminates [OF demo_page_size, of 18446744073709551615 18446744073709551610 1]
    by (simp add: demo_cfg_def)
qed

text \<open>
  A lookup through the cache of a thread finds the region that the search of the whole list
  finds, whatever region was cached, and leaves a cache that can be used again.
\<close>

theorem find_region_cached_correct:
  assumes "regions_apart rs" and "cached_ok rs cached"
  shows "fst (find_region_cached rs cached a) = find_region rs a \<and> cached_ok rs (snd (find_region_cached rs cached a))"
  using find_region_cached_eq [OF assms] by simp

lemma demo_apart: "regions_apart (regions demo_mvmm)"
  by (simp add: regions_apart_def demo_mvmm_def region_at_def new_region_def demo_cfg_def less_Suc_eq numeral_2_eq_2)

theorem find_region_cached_correct_witness:
  "fst (find_region_cached (regions demo_mvmm) (Some 1) 40) = Some 0"
proof -
  have "cached_ok (regions demo_mvmm) (Some 1)" by (simp add: cached_ok_def demo_mvmm_def)
  moreover have "find_region (regions demo_mvmm) 40 = Some 0"
    by (simp add: demo_mvmm_def new_region_def demo_cfg_def region_contains_def Let_def)
  ultimately show ?thesis using find_region_cached_correct [OF demo_apart] by simp
qed

text \<open>
  The epoch advances by one, and only then, when all objects have taken their checkpoint.
\<close>

theorem count_ckpt_correct:
  assumes "0 < objects" and "objects < 2 ^ 64" and "ckpt_counter s = 0" and "j < objects"
  shows "(count_ckpt objects ^^ objects) s = s\<lparr>epoch_round := epoch_round s + 1\<rparr>
    \<and> epoch_round ((count_ckpt objects ^^ j) s) = epoch_round s"
  using count_ckpt_round [OF assms(1-3)] count_ckpt_steps [OF assms(4,2,3)] by simp

theorem count_ckpt_correct_witness:
  "epoch_round ((count_ckpt 3 ^^ 3) demo_mvmm) = 5 \<and> epoch_round ((count_ckpt 3 ^^ 2) demo_mvmm) = 4"
  using count_ckpt_correct [of 3 demo_mvmm 2] by (simp add: demo_mvmm_def)

section \<open>A rollback in the builds that save\<close>

lemma new_region_fields [simp]:
  "rbase (new_region cfg b n) = b" "rlen (new_region cfg b n) = n" "npages (new_region cfg b n) = (n + PAGE_SIZE cfg - 1) div PAGE_SIZE cfg"
  "pages (new_region cfg b n) = new_page cfg b" "touched_curr (new_region cfg b n) = []" "touched_curr_ts (new_region cfg b n) = UINT64_MAX"
  by (simp_all add: new_region_def Let_def)

lemma new_page_fields [simp]:
  "slots (new_page cfg b i) 0 = Some (b + i * PAGE_SIZE cfg)" "slots (new_page cfg b i) 1 = None"
  "slot_ts (new_page cfg b i) j = UINT64_MAX" "last_touched_ts (new_page cfg b i) = UINT64_MAX"
  by (simp_all add: new_page_def)

lemma new_region_wf:
  assumes "page_size_ok cfg" and "0 < GRID_SIZE cfg" and "b mod PAGE_SIZE cfg = 0"
  shows "shape_wf cfg (new_region cfg b n)" and "slots_wf cfg (new_region cfg b n)"
    and "ts \<noteq> UINT64_MAX \<Longrightarrow> touched_wf (new_region cfg b n) ts"
proof -
  have "n \<le> (n + PAGE_SIZE cfg - 1) div PAGE_SIZE cfg * PAGE_SIZE cfg"
  proof -
    have "(n + PAGE_SIZE cfg - 1) div PAGE_SIZE cfg * PAGE_SIZE cfg + (n + PAGE_SIZE cfg - 1) mod PAGE_SIZE cfg = n + PAGE_SIZE cfg - 1"
      by simp
    moreover have "(n + PAGE_SIZE cfg - 1) mod PAGE_SIZE cfg < PAGE_SIZE cfg" using page_size_pos [OF assms(1)] by simp
    ultimately show ?thesis by linarith
  qed
  then show "shape_wf cfg (new_region cfg b n)" using assms page_size_pos [OF assms(1)] by (simp add: shape_wf_def) (simp add: new_region_def Let_def)
  show "slots_wf cfg (new_region cfg b n)" by (simp add: slots_wf_def)
  show "touched_wf (new_region cfg b n) ts" if "ts \<noteq> UINT64_MAX" using that by (auto simp: touched_wf_def older_def)
qed

text \<open>
  Property C9. Whatever instrumented stores and copies an object makes in its region, and whatever it
  allocates and frees, after a round of checkpoints, restoring it gives back every byte of its region and
  its free stacks, in the builds that save a page or its touched cells before a store; and it does so again
  after a second run from the restored state.
\<close>

theorem mmap_store_rollback_correct:
  assumes "mv_usable v cfg alloc objects k n m"
    and "legal_run (mv_legal k n) (mv_put v cfg alloc k) ws (mv_mark objects m)"
    and "legal_run (mv_legal k n) (mv_put v cfg alloc k) us (mv_reset v cfg objects k (fold (mv_put v cfg alloc k) ws (mv_mark objects m)))"
  shows "mv_object_view cfg k n (mv_reset v cfg objects k (fold (mv_put v cfg alloc k) ws (mv_mark objects m))) = mv_object_view cfg k n m
    \<and> mv_object_view cfg k n (mv_reset v cfg objects k (fold (mv_put v cfg alloc k) us
         (mv_reset v cfg objects k (fold (mv_put v cfg alloc k) ws (mv_mark objects m))))) = mv_object_view cfg k n m"
  using mv_object.rollback_undoes [OF assms(1,2)] mv_object.rollback_twice [OF assms] by simp

definition demo_state :: mv_state where
  "demo_state = ((\<lambda>_. demo_memory PLAIN), Some 1, demo_mvmm)"

lemma demo_usable: "mv_usable STORE_GRID demo_cfg demo_alloc_page 2 0 0 demo_state"
proof -
  have r: "region_at (regions demo_mvmm) 0 = new_region demo_cfg 32 32" by (simp add: demo_mvmm_def region_at_def)
  have "pages_apart demo_cfg demo_alloc_page (new_region demo_cfg 32 32)"
    by (auto simp: pages_apart_def demo_alloc_page_def fresh_page_def page_range_def region_range_def demo_cfg_def less_Suc_eq
        numeral_2_eq_2)
  moreover have "(4::64 word) < UINT64_MAX - 1" "(4::64 word) \<noteq> UINT64_MAX" by (simp_all add: UINT64_MAX_def)
  ultimately show ?thesis using new_region_wf [OF demo_page_size, of 32] demo_apart
    by (simp add: mv_usable_def demo_state_def r) (simp add: demo_mvmm_def demo_cfg_def cached_ok_def region_contains_def)
qed

lemma demo_legal: "legal_run (mv_legal 0 0) (mv_put STORE_GRID demo_cfg demo_alloc_page 0) [Call (Malloc 100), Copy 44 0 9] (mv_mark 2 demo_state)"
proof -
  have m: "mv_mark 2 demo_state = ((\<lambda>i. if i < 2 then set_allocator_ckpt PLAIN (demo_memory PLAIN) else demo_memory PLAIN),
      Some 1, demo_mvmm\<lparr>epoch_round := 5\<rparr>)" (is "_ = (?al, _, ?s)")
    using count_ckpt_round [of 2 demo_mvmm] by (auto simp: mv_mark_def demo_state_def fold_set_ckpt demo_mvmm_def)
  have "\<exists>x. alloc_run PLAIN (Malloc 100) (set_allocator_ckpt PLAIN (demo_memory PLAIN)) = Inr x"
    using demo_areas [of 2 PLAIN]
    by (simp add: alloc_run_def wrap_malloc_def demo_alloc_steps Let_def set_allocator_ckpt_def fold_set_area save_area_def
        find_area.simps [of _ 2] layout_values)
  then obtain x where x: "alloc_run PLAIN (Malloc 100) (?al 0) = Inr x" by auto
  then have p: "mv_put STORE_GRID demo_cfg demo_alloc_page 0 (Call (Malloc 100)) (mv_mark 2 demo_state) = (?al(0 := x), Some 1, ?s)"
    unfolding m by (simp add: mv_put_def mv_run_def)
  have r: "region_at (regions demo_mvmm) 0 = new_region demo_cfg 32 32" by (simp add: demo_mvmm_def region_at_def)
  have "mv_legal 0 0 (Call (Malloc 100)) (mv_mark 2 demo_state)" unfolding m using x by (simp add: mv_legal_def)
  moreover have "mv_legal 0 0 (Copy 44 0 9) (?al(0 := x), Some 1, ?s)" by (simp add: mv_legal_def in_region_def r)
  ultimately show ?thesis by (simp add: p)
qed

theorem mmap_store_rollback_correct_witness:
  "mv_object_view demo_cfg 0 0 (mv_reset STORE_GRID demo_cfg 2 0
      (fold (mv_put STORE_GRID demo_cfg demo_alloc_page 0) [Call (Malloc 100), Copy 44 0 9] (mv_mark 2 demo_state)))
    = mv_object_view demo_cfg 0 0 demo_state"
  using mmap_store_rollback_correct [OF demo_usable demo_legal, of "[]"] by simp

text \<open>
  Property C27. In the two builds that save before a store, after a round of checkpoints and any run of stores and copies into its
  region and of allocator calls that succeed, the hook of a store and the wrapper of \<open>memcpy\<close> of an object that stays in its region do not
  stop the program: the list of touched pages has room for every page, no null page is copied, and the hook leaves the registers alone.
\<close>

theorem mmap_hooks_safe:
  assumes "mv_usable v cfg alloc objects k n m"
    and "legal_run (mv_legal k n) (mv_put v cfg alloc k) ws (mv_mark objects m)"
    and "fold (mv_put v cfg alloc k) ws (mv_mark objects m) = (allocators, cached, s)"
  shows "length (touched_curr (region_at (regions s) n)) \<le> npages (region_at (regions s) n)
    \<and> (\<forall>ins regs ea l. type ins = CHR ''s'' \<longrightarrow> data_size ins = int l \<longrightarrow> compute_effective_address ins regs = Inr ea \<longrightarrow>
         ea \<noteq> 0 \<longrightarrow> in_region n s (unat ea) l \<longrightarrow>
         (\<exists>cached' s'. the_patch v cfg alloc (Some ins) regs (cached, s) = Inr (regs, cached', s')))
    \<and> (\<forall>dst src l. in_region n s dst l \<longrightarrow>
         (\<exists>cached' s'. mmap_mv_memcpy v cfg alloc dst src l (cached, s) = Inr (cached', s')))"
proof (intro conjI allI impI)
  have k: "mv_object_keeps v cfg alloc k n (mv_object_view cfg k n m) (allocators, cached, s)"
    using mv_object.keeps_run [OF mv_object.keeps_mark [OF assms(1)] assms(2)] assms(3) by simp
  then have r: "mv_keeps v cfg alloc k n (snd (mv_object_view cfg k n m)) (epoch_round s) s" "cached_ok (regions s) cached"
    by (simp_all add: mv_object_keeps_def)
  then have v: "v \<noteq> BASE" and apart: "regions_apart (regions s)" and n: "n < length (regions s)"
    and tw: "touched_wf (region_at (regions s) n) (epoch_round s)"
    by (simp_all add: mv_keeps_def region_keeps_def)
  show "length (touched_curr (region_at (regions s) n)) \<le> npages (region_at (regions s) n)"
    using tw card_mono [of "{..<npages (region_at (regions s) n)}" "set (touched_curr (region_at (regions s) n))"]
    by (simp add: touched_wf_def distinct_card)
  show "\<exists>cached' s'. mmap_mv_memcpy v cfg alloc dst src l (cached, s) = Inr (cached', s')" if "in_region n s dst l" for dst src l
    using mv_put_keeps [OF k, of "Copy dst src l"] that by (auto simp: mv_legal_def mv_run_def and_then_eq_Inr)
  show "\<exists>cached' s'. the_patch v cfg alloc (Some ins) regs (cached, s) = Inr (regs, cached', s')"
    if h: "type ins = CHR ''s''" "data_size ins = int l" "compute_effective_address ins regs = Inr ea" "ea \<noteq> 0" "in_region n s (unat ea) l"
    for ins regs ea l
  proof -
    have rng: "0 < l" "unat ea + l < 2 ^ 64" "rbase (region_at (regions s) n) \<le> unat ea"
      "unat ea + l \<le> rbase (region_at (regions s) n) + rlen (region_at (regions s) n)"
      using h(5) by (simp_all add: in_region_def)
    have "region_contains (region_at (regions s) n) (unat ea)" unfolding region_contains_def using rng by linarith
    then obtain c1 where c1: "find_region_cached (regions s) cached (unat ea) = (Some n, c1)" "cached_ok (regions s) c1"
      using find_region_cached_eq [OF apart r(2), of "unat ea"] find_region_unique [OF apart n]
      by (cases "find_region_cached (regions s) cached (unat ea)") auto
    obtain c2 s2 where "snapshot_range v cfg alloc (unat ea) l (c1, s) = Inr (c2, s2)"
      using store_after_range_keeps [OF r(1) c1(2) rng(1,3,4,2)] by blast
    moreover have "l < 2 ^ 64" using rng(2) by simp
    ultimately show ?thesis using the_patch_store [OF v h(1,3,4,2) rng(1) _ c1(1)] by simp
  qed
qed

theorem mmap_hooks_safe_witness:
  "\<exists>al cached s. mv_put STORE_GRID demo_cfg demo_alloc_page 0 (Call (Malloc 100)) (mv_mark 2 demo_state) = (al, cached, s)
     \<and> (\<exists>cached' s'. mmap_mv_memcpy STORE_GRID demo_cfg demo_alloc_page 44 0 9 (cached, s) = Inr (cached', s'))"
proof -
  let ?m = "mv_put STORE_GRID demo_cfg demo_alloc_page 0 (Call (Malloc 100)) (mv_mark 2 demo_state)"
  obtain al cached s where m: "?m = (al, cached, s)" by (metis prod_cases3)
  have 1: "legal_run (mv_legal 0 0) (mv_put STORE_GRID demo_cfg demo_alloc_page 0) [Call (Malloc 100)] (mv_mark 2 demo_state)"
    using demo_legal by simp
  have 2: "fold (mv_put STORE_GRID demo_cfg demo_alloc_page 0) [Call (Malloc 100)] (mv_mark 2 demo_state) = (al, cached, s)"
    using m by simp
  have "mv_legal 0 0 (Copy 44 0 9) ?m" using demo_legal by simp
  then have "in_region 0 s 44 9" by (simp add: m mv_legal_def)
  then have "\<exists>cached' s'. mmap_mv_memcpy STORE_GRID demo_cfg demo_alloc_page 44 0 9 (cached, s) = Inr (cached', s')"
    using mmap_hooks_safe [OF demo_usable 1 2, THEN conjunct2, THEN conjunct2] by blast
  with m show ?thesis by blast
qed

end
