(* ===== verification/Mmap_Mv_Base.thy ===== *)
theory Mmap_Mv_Base
  imports Mmap_Mv_Range
begin

text \<open>
  The base build of the multi-version backend, which redirects accesses to a second copy of a page: where
  a redirected instruction goes, what a rollback does with the two versions of a page, and the case it
  leaves out.
\<close>

section \<open>Opening a version\<close>

lemma open_version_cases:
  assumes new: "last_ts_seen (pages r i) \<noteq> ts" and c: "cur_slot (pages r i) = c" "c < 2"
    and src: "slots (pages r i) c = Some src"
    and dst: "(case slots (pages r i) (1 - c) of Some p \<Rightarrow> Some p | None \<Rightarrow> alloc pb) = Some dst"
  shows "\<exists>r1. open_version cfg alloc pb i ts (r, mem) = (True, r1, memcpy mem dst src (PAGE_SIZE cfg))
    \<and> cur_slot (pages r1 i) = 1 - c \<and> slots (pages r1 i) (1 - c) = Some dst \<and> slots (pages r1 i) c = Some src
    \<and> slot_ts (pages r1 i) (1 - c) = ts \<and> slot_ts (pages r1 i) c = slot_ts (pages r i) c
    \<and> last_ts_seen (pages r1 i) = ts \<and> same_shape r1 r"
proof -
  have ne: "c \<noteq> 1 - c" using c(2) by arith
  show ?thesis using assms ne by (simp add: open_version_def Let_def same_shape_def)
qed

text \<open>
  Property C35. A page that has a version from an earlier epoch: its first store of the epoch goes to a
  copy of it, and whatever is stored in the copy, the rollback makes the old version current again, with
  the content it had.
\<close>

theorem base_page_rollback_correct:
  assumes "i < npages r" and "last_ts_seen (pages r i) \<noteq> ts" and "cur_slot (pages r i) = c" "c < 2"
    and "slots (pages r i) c = Some src" and "slot_ts (pages r i) c \<noteq> UINT64_MAX" and "slot_ts (pages r i) c < ts"
    and "ts \<noteq> UINT64_MAX"
    and "(case slots (pages r i) (1 - c) of Some p \<Rightarrow> Some p | None \<Rightarrow> alloc pb) = Some dst"
    and "page_range cfg dst \<inter> page_range cfg src = {}"
    and "open_version cfg alloc pb i ts (r, mem) = (ok, r1, mem1)"
    and "\<And>a. a \<notin> page_range cfg dst \<Longrightarrow> mem' a = mem1 a"
  shows "ok \<and> current_page_ptr r1 i = Some dst \<and> (\<forall>y < PAGE_SIZE cfg. mem1 (dst + y) = mem (src + y))
    \<and> current_page_ptr (undo_page_version (ts - 1) i r1) i = Some src
    \<and> (\<forall>y < PAGE_SIZE cfg. mem' (src + y) = mem (src + y))"
proof -
  obtain r1' where o: "open_version cfg alloc pb i ts (r, mem) = (True, r1', memcpy mem dst src (PAGE_SIZE cfg))"
    "cur_slot (pages r1' i) = 1 - c" "slots (pages r1' i) (1 - c) = Some dst" "slots (pages r1' i) c = Some src"
    "slot_ts (pages r1' i) (1 - c) = ts" "slot_ts (pages r1' i) c = slot_ts (pages r i) c" "same_shape r1' r"
    using open_version_cases [where cfg = cfg and mem = mem and alloc = alloc and pb = pb, OF assms(2-5,9)] by blast
  have r1: "r1 = r1'" "mem1 = memcpy mem dst src (PAGE_SIZE cfg)" "ok" using assms(11) o(1) by simp_all
  have n: "i < npages r1" using assms(1) o(7) r1 by (simp add: same_shape_def)
  have lt: "unat (slot_ts (pages r i) c) < unat ts" using assms(7) by (simp add: word_less_nat_alt)
  then have "1 \<le> ts" by (cases "ts = 0") (auto simp: word_le_nat_alt word_less_nat_alt Suc_le_eq unat_gt_0)
  then have u: "unat (ts - 1) = unat ts - 1" by (simp add: unat_sub)
  have le: "slot_ts (pages r i) c \<le> ts - 1" "\<not> ts \<le> ts - 1" using lt u by (simp_all add: word_le_nat_alt)
  have "best_slot (pages r1 i) (ts - 1) = Some c"
  proof -
    have "c = 0 \<or> c = 1" using assms(4) by arith
    then show ?thesis using assms(6) le o(5,6) r1(1) by (elim disjE) (simp_all add: best_slot_def Let_def)
  qed
  then have undo: "current_page_ptr (undo_page_version (ts - 1) i r1) i = Some src"
    using n o(4) r1(1) by (simp add: undo_page_version_def current_page_ptr_def Let_def)
  have out: "src + y \<notin> page_range cfg dst" if "y < PAGE_SIZE cfg" for y
  proof -
    have "src + y \<in> page_range cfg src" using that by (simp add: page_range_def)
    then show ?thesis using assms(10) by blast
  qed
  have "mem' (src + y) = mem (src + y)" if "y < PAGE_SIZE cfg" for y
    using assms(12) [OF out [OF that]] out [OF that] by (auto simp: r1 memcpy_def page_range_def)
  moreover have "mem1 (dst + y) = mem (src + y)" if "y < PAGE_SIZE cfg" for y using that by (simp add: r1 memcpy_def)
  ultimately show ?thesis using undo o(2,3) r1 by (simp add: current_page_ptr_def)
qed

text \<open>
  Property C40. A page that no epoch has stored to yet carries no timestamp for its initial content. When its
  first store falls in an epoch after the first, the rollback finds no version to go back to: the copy that
  was stored to stays current.
\<close>

theorem base_first_store_not_undone:
  assumes "pages r i = new_page cfg b i" and "i < npages r" and "1 \<le> ts" and "ts \<noteq> UINT64_MAX" and "alloc pb = Some dst"
    and "open_version cfg alloc pb i ts (r, mem) = (ok, r1, mem1)"
  shows "ok \<and> current_page_ptr r1 i = Some dst \<and> undo_page_version (ts - 1) i r1 = r1"
proof -
  have f: "last_ts_seen (pages r i) \<noteq> ts" "cur_slot (pages r i) = 0" "slots (pages r i) 0 = Some (b + i * PAGE_SIZE cfg)"
    "slots (pages r i) (1 - 0) = None" "slot_ts (pages r i) 0 = UINT64_MAX"
    using assms(1,4) by (auto simp: new_page_def)
  obtain r1' where o: "open_version cfg alloc pb i ts (r, mem) = (True, r1', memcpy mem dst (b + i * PAGE_SIZE cfg) (PAGE_SIZE cfg))"
    "cur_slot (pages r1' i) = 1 - 0" "slots (pages r1' i) (1 - 0) = Some dst"
    "slot_ts (pages r1' i) (1 - 0) = ts" "slot_ts (pages r1' i) 0 = slot_ts (pages r i) 0"
    using open_version_cases [where cfg = cfg and mem = mem and alloc = alloc and pb = pb and dst = dst, OF f(1,2) _ f(3)]
      f(4) assms(5) by auto
  have r1: "r1 = r1'" "ok" using assms(6) o(1) by simp_all
  have "0 < unat ts" using assms(3) by (simp add: word_le_nat_alt)
  then have "\<not> ts \<le> ts - 1" using assms(3) by (simp add: word_le_nat_alt unat_sub)
  then have "best_slot (pages r1 i) (ts - 1) = None" using o(4,5) f(5) r1(1) by (simp add: best_slot_def Let_def)
  then show ?thesis using o(2,3) r1 by (simp add: undo_page_version_def current_page_ptr_def)
qed

section \<open>Redirected instructions\<close>

lemma page_parts: "page_size_ok cfg \<Longrightarrow> ea < 2 ^ 64 \<Longrightarrow> ea - page_base_of cfg ea = ea mod PAGE_SIZE cfg"
  by (simp add: page_base_of_mod)

lemma translate_load:
  assumes "page_of cfg (region_at (regions s) n) ea = Some i" and "current_page_ptr (region_at (regions s) n) i = Some curp"
    and "page_size_ok cfg" and "ea < 2 ^ 64"
  shows "translate_ea BASE cfg alloc (Some n) ea False s = Inr (curp + ea mod PAGE_SIZE cfg, s)"
  using assms by (simp add: translate_ea_def Let_def page_parts)

text \<open>
  A load whose operand has a base register, no index register and is not relative to the
  instruction pointer: after the hook of the base build the instruction reads at its offset in the current
  version of the page; memory, regions and the epoch are left alone.
\<close>

theorem base_load_redirected:
  assumes "regions_apart (regions s)" and "cached_ok (regions s) cached" and "n < length (regions s)"
    and "region_contains (region_at (regions s) n) (unat ea)" and "type ins = CHR ''l''"
    and "compute_effective_address ins regs = Inr ea" and "ea \<noteq> 0" and "effective_operand_address ins = 0"
    and "rip_relative ins \<noteq> CHR ''y''" and "base_index (target ins) \<noteq> 0" and "scale_index (target ins) = 0"
    and "\<not> is_cross_page cfg (unat ea) (access_size ins)"
    and "page_of cfg (region_at (regions s) n) (unat ea) = Some i" and "current_page_ptr (region_at (regions s) n) i = Some curp"
    and "page_size_ok cfg"
  shows "\<exists>regs' cached'. the_patch BASE cfg alloc (Some ins) regs (cached, s) = Inr (regs', cached', s)
    \<and> compute_effective_address ins regs' = Inr (of_nat (curp + unat ea mod PAGE_SIZE cfg))"
proof -
  let ?ea' = "of_nat (curp + unat ea mod PAGE_SIZE cfg) :: 64 word"
  obtain c1 where c1: "find_region_cached (regions s) cached (unat ea) = (Some n, c1)"
    using find_region_cached_eq(1) [OF assms(1,2), of "unat ea"] find_region_unique [OF assms(1,3,4)]
    by (cases "find_region_cached (regions s) cached (unat ea)") auto
  have base: "1 \<le> base_index (target ins) \<and> base_index (target ins) \<le> SAVED_REGISTERS"
    using assms(6,8,10,11) by (auto simp: compute_effective_address_def Let_def and_then_eq_Inr read_reg_def split: if_splits)
  obtain regs' where r: "rewrite_base_reg_for_ea ins regs ea ?ea' = Inr (1, regs')"
    using assms(9-11) base by (cases "?ea' - ea = 0") (auto simp: rewrite_base_reg_for_ea_def Let_def read_reg_def write_reg_def)
  have small: "unat ea < 2 ^ 64" using unsigned_less [of ea, where ?'a = nat] by simp
  have "the_patch BASE cfg alloc (Some ins) regs (cached, s) = Inr (regs', c1, s)"
    using assms(5-7,12) c1 r translate_load [OF assms(13,14,15)] small by (simp add: the_patch_def Let_def)
  then show ?thesis using rewrite_moves [OF r assms(6,8)] by blast
qed

section \<open>Examples\<close>

definition demo_open :: "mv_config \<Rightarrow> region \<times> memory \<Rightarrow> region \<times> memory" where
  "demo_open cfg rm = snd (open_version cfg demo_alloc_page 32 0 5 rm)"

text \<open>The first page of the region at 32, stored to in epoch 3 and again in epoch 5.\<close>

definition demo_aged :: region where
  "demo_aged = set_page 0 (\<lambda>ps. ps\<lparr>last_ts_seen := 3, cur_slot := 1, slot_ts := (slot_ts ps)(1 := 3),
     slots := (slots ps)(1 := Some 2000)\<rparr>) (new_region demo_cfg 32 32)"

theorem base_page_rollback_correct_witness:
  "current_page_ptr (undo_page_version (5 - 1) 0 (fst (demo_open demo_cfg (demo_aged, \<lambda>a. of_nat a)))) 0 = Some 2000"
proof -
  let ?m = "(\<lambda>a. of_nat a) :: memory"
  have f: "0 < npages demo_aged" "last_ts_seen (pages demo_aged 0) \<noteq> 5" "cur_slot (pages demo_aged 0) = 1"
    "slots (pages demo_aged 0) 1 = Some 2000" "slot_ts (pages demo_aged 0) 1 = 3"
    "(case slots (pages demo_aged 0) (1 - 1) of Some p \<Rightarrow> Some p | None \<Rightarrow> demo_alloc_page 32) = Some 32"
    by (simp_all add: demo_aged_def demo_cfg_def)
  obtain ok r1 mem1 where o: "open_version demo_cfg demo_alloc_page 32 0 5 (demo_aged, ?m) = (ok, r1, mem1)"
    by (metis prod_cases3)
  have "page_range demo_cfg 32 \<inter> page_range demo_cfg 2000 = {}" by (auto simp: page_range_def demo_cfg_def)
  from base_page_rollback_correct [where alloc = demo_alloc_page and pb = 32 and mem' = mem1, OF f(1,2,3) _ f(4) _ _ _ f(6) this o]
  show ?thesis using f(5) o by (simp add: demo_open_def UINT64_MAX_def)
qed

theorem base_first_store_not_undone_witness:
  "current_page_ptr (fst (demo_open demo_cfg (new_region demo_cfg 32 32, \<lambda>a. of_nat a))) 0 = Some 1048608
    \<and> undo_page_version (5 - 1) 0 (fst (demo_open demo_cfg (new_region demo_cfg 32 32, \<lambda>a. of_nat a)))
      = fst (demo_open demo_cfg (new_region demo_cfg 32 32, \<lambda>a. of_nat a))"
proof -
  obtain ok r1 mem1 where o: "open_version demo_cfg demo_alloc_page 32 0 5 (new_region demo_cfg 32 32, \<lambda>a. of_nat a) = (ok, r1, mem1)"
    by (metis prod_cases3)
  have "pages (new_region demo_cfg 32 32) 0 = new_page demo_cfg 32 0" "0 < npages (new_region demo_cfg 32 32)"
    "(5::64 word) \<noteq> UINT64_MAX" "demo_alloc_page 32 = Some 1048608"
    by (simp_all add: demo_cfg_def UINT64_MAX_def demo_alloc_page_def)
  from base_first_store_not_undone [OF this(1,2) _ this(3,4) o] show ?thesis using o
    by (simp add: demo_open_def word_le_nat_alt)
qed

definition demo_load :: instruction_record where
  "demo_load = \<lparr>record_index = 0, function_name = [], address = 4096, isize = 7, indirect_jump = CHR ''n'', middle_buffer = 0,
     type = CHR ''l'', rip_relative = CHR ''n'', effective_operand_address = 0, whole = [], opcode = [], source = [], dest = [],
     data_size = 4, instrumentation_instructions = 0, target = \<lparr>displacement = 4, base_index = 3, scale_index = 0, scale = 1\<rparr>\<rparr>"

lemma demo_load_fields:
  "type demo_load = CHR ''l''" "effective_operand_address demo_load = 0" "rip_relative demo_load = CHR ''n''"
  "base_index (target demo_load) = 3" "scale_index (target demo_load) = 0" "access_size demo_load = 4"
  by (simp_all add: demo_load_def access_size_def)

text \<open>Register 3 holds 36: the load reads at 40, in the first page of the region at 32.\<close>

theorem base_load_redirected_witness:
  "\<exists>regs' cached'. the_patch BASE demo_cfg demo_alloc_page (Some demo_load) (\<lambda>_. 36) (None, demo_mvmm\<lparr>regions := [demo_aged]\<rparr>)
      = Inr (regs', cached', demo_mvmm\<lparr>regions := [demo_aged]\<rparr>)
    \<and> compute_effective_address demo_load regs' = Inr 2008"
proof -
  let ?s = "demo_mvmm\<lparr>regions := [demo_aged]\<rparr>"
  have r: "region_at [demo_aged] 0 = demo_aged" by (simp add: region_at_def)
  have b: "rbase demo_aged = 32" "rlen demo_aged = 32" "npages demo_aged = 2" by (simp_all add: demo_aged_def demo_cfg_def)
  have ea: "compute_effective_address demo_load (\<lambda>_. 36) = Inr (40 :: 64 word)"
    by (simp add: compute_effective_address_def demo_load_def read_reg_def SAVED_REGISTERS_def)
  have "current_page_ptr demo_aged 0 = Some 2000" by (simp add: current_page_ptr_def demo_aged_def)
  moreover have "page_of demo_cfg demo_aged 40 = Some 0"
    using page_base_of_mod [OF demo_page_size, of 40] by (simp add: page_of_def b demo_cfg_def Let_def)
  moreover have "regions_apart (regions ?s)" by (simp add: regions_apart_def)
  ultimately show ?thesis
    using base_load_redirected [where s = ?s and cached = None and n = 0 and ea = 40 and ins = demo_load and i = 0 and curp = 2000
        and regs = "\<lambda>_. 36" and cfg = demo_cfg and alloc = demo_alloc_page] ea demo_load_fields
      demo_page_size
    by (simp add: r b cached_ok_def region_contains_def is_cross_page_def) (simp add: demo_cfg_def page_mask_def)
qed

end
