(* ===== verification/C_Strings.thy ===== *)
theory C_Strings
  imports Prelude "HOL-Library.Char_ord"
begin

text \<open>
  What the sources use of the string functions of the C library: \<open>strtol\<close>, \<open>strtoul\<close>, \<open>strstr\<close>, \<open>strtok\<close> and the
  conversion of a \<open>long\<close> to an \<open>int\<close>. A C string is the list of its characters, without the terminator.
\<close>

abbreviation char_code :: "char \<Rightarrow> nat" where "char_code ch \<equiv> of_char ch"

definition is_space :: "char \<Rightarrow> bool" where
  "is_space ch \<longleftrightarrow> char_code ch = 32 \<or> 9 \<le> char_code ch \<and> char_code ch \<le> 13"

definition digit_value :: "char \<Rightarrow> nat" where
  "digit_value ch =
     (let k = char_code ch in
      if 48 \<le> k \<and> k \<le> 57 then k - 48 else if 97 \<le> k \<and> k \<le> 122 then k - 87
      else if 65 \<le> k \<and> k \<le> 90 then k - 55 else 36)"

fun digits_value :: "nat \<Rightarrow> int \<Rightarrow> string \<Rightarrow> int" where
  "digits_value b acc [] = acc"
| "digits_value b acc (ch # cs) =
     (if digit_value ch < b then digits_value b (acc * int b + int (digit_value ch)) cs else acc)"

text \<open>The prefix \<open>0x\<close> is skipped in base 16 when a digit follows.\<close>

definition strip_prefix :: "nat \<Rightarrow> string \<Rightarrow> string" where
  "strip_prefix b s = (case s of
     c1 # c2 # c3 # cs \<Rightarrow> if b = 16 \<and> c1 = CHR ''0'' \<and> (c2 = CHR ''x'' \<or> c2 = CHR ''X'') \<and> digit_value c3 < 16 then c3 # cs else s
   | _ \<Rightarrow> s)"

definition signed_value :: "nat \<Rightarrow> string \<Rightarrow> int" where
  "signed_value b s =
     (case dropWhile is_space s of
        [] \<Rightarrow> 0
      | ch # cs \<Rightarrow> if ch = CHR ''-'' then - digits_value b 0 (strip_prefix b cs)
                 else if ch = CHR ''+'' then digits_value b 0 (strip_prefix b cs)
                 else digits_value b 0 (strip_prefix b (ch # cs)))"

text \<open>\<open>strtol\<close> saturates at the bounds of \<open>long\<close>, \<open>strtoul\<close> at the maximum of \<open>unsigned long\<close>.\<close>

definition strtol :: "nat \<Rightarrow> string \<Rightarrow> int" where
  "strtol b s = max (- (2 ^ 63)) (min (2 ^ 63 - 1) (signed_value b s))"

definition strtoul :: "nat \<Rightarrow> string \<Rightarrow> 64 word" where
  "strtoul b s = (let v = signed_value b s in if \<bar>v\<bar> \<ge> 2 ^ 64 then -1 else word_of_int v)"

definition to_int32 :: "int \<Rightarrow> int" where
  "to_int32 i = sint (word_of_int i :: 32 word)"

lemma to_int32_small: "- (2 ^ 31) \<le> i \<Longrightarrow> i < 2 ^ 31 \<Longrightarrow> to_int32 i = i"
  by (simp add: to_int32_def int_word_sint)

text \<open>\<open>strstr(s, pat) != NULL\<close>, and the text from the first match on.\<close>

definition starts_with :: "string \<Rightarrow> string \<Rightarrow> bool" where
  "starts_with pat s \<longleftrightarrow> take (length pat) s = pat"

fun strstr :: "string \<Rightarrow> string \<Rightarrow> string option" where
  "strstr [] pat = (if pat = [] then Some [] else None)"
| "strstr (ch # cs) pat = (if starts_with pat (ch # cs) then Some (ch # cs) else strstr cs pat)"

abbreviation has_text :: "string \<Rightarrow> string \<Rightarrow> bool" where "has_text s pat \<equiv> strstr s pat \<noteq> None"

text \<open>
  One call of \<open>strtok\<close> on what is left of a string: the token, and what is left behind its terminator.
\<close>

definition strtok :: "char set \<Rightarrow> string \<Rightarrow> (string \<times> string) option" where
  "strtok delims s =
     (let t = dropWhile (\<lambda>ch. ch \<in> delims) s in
      if t = [] then None
      else Some (takeWhile (\<lambda>ch. ch \<notin> delims) t, tl (dropWhile (\<lambda>ch. ch \<notin> delims) t)))"

lemma strtok_shorter: "strtok delims s = Some (t, r) \<Longrightarrow> length r < length s"
proof -
  assume "strtok delims s = Some (t, r)"
  then have t: "dropWhile (\<lambda>ch. ch \<in> delims) s \<noteq> []" "r = tl (dropWhile (\<lambda>ch. ch \<notin> delims) (dropWhile (\<lambda>ch. ch \<in> delims) s))"
    by (auto simp: strtok_def Let_def split: if_splits)
  have "length r \<le> length (dropWhile (\<lambda>ch. ch \<in> delims) s) - 1"
    using length_dropWhile_le [of "\<lambda>ch. ch \<notin> delims" "dropWhile (\<lambda>ch. ch \<in> delims) s"] by (simp add: t(2))
  moreover have "length (dropWhile (\<lambda>ch. ch \<in> delims) s) \<le> length s" by (rule length_dropWhile_le)
  moreover have "0 < length (dropWhile (\<lambda>ch. ch \<in> delims) s)" using t(1) by simp
  ultimately show ?thesis by linarith
qed

text \<open>All the tokens, in order.\<close>

function tokens :: "char set \<Rightarrow> string \<Rightarrow> string list" where
  "tokens delims s = (case strtok delims s of None \<Rightarrow> [] | Some (t, r) \<Rightarrow> t # tokens delims r)"
  by pat_completeness auto
termination
  by (relation "measure (\<lambda>(delims, s). length s)") (auto dest: strtok_shorter)

declare tokens.simps [simp del]

lemma tokens_Nil [simp]: "tokens delims [] = []"
  by (simp add: tokens.simps strtok_def)

text \<open>A first token free of delimiters, with its delimiter.\<close>

lemma strtok_token:
  assumes "t \<noteq> []" and "set t \<inter> delims = {}" and "d \<in> delims"
  shows "strtok delims (t @ d # r) = Some (t, r)" and "strtok delims t = Some (t, [])"
proof -
  have drop: "dropWhile (\<lambda>ch. ch \<in> delims) (t @ u) = t @ u" for u using assms(1,2) by (cases t) auto
  have nd: "\<forall>ch \<in> set t. ch \<notin> delims" using assms(2) by blast
  show "strtok delims (t @ d # r) = Some (t, r)"
    using drop [of "d # r"] nd assms(1,3) by (simp add: strtok_def Let_def takeWhile_append2 dropWhile_append2)
  show "strtok delims t = Some (t, [])"
  proof -
    have "takeWhile (\<lambda>ch. ch \<notin> delims) t = t" using nd by (simp add: takeWhile_eq_all_conv)
    moreover have "dropWhile (\<lambda>ch. ch \<notin> delims) t = []" using nd unfolding dropWhile_eq_Nil_conv .
    then have "tl (dropWhile (\<lambda>ch. ch \<notin> delims) t) = []" by (simp only: list.sel)
    ultimately show ?thesis using drop [of "[]"] assms(1) by (simp add: strtok_def Let_def)
  qed
qed

lemma strtok_skip: "d \<in> delims \<Longrightarrow> strtok delims (d # s) = strtok delims s"
  by (simp add: strtok_def)

lemma tokens_token:
  assumes "t \<noteq> []" and "set t \<inter> delims = {}" and "d \<in> delims"
  shows "tokens delims (t @ d # r) = t # tokens delims r" and "tokens delims t = [t]"
  using strtok_token [OF assms] by (simp_all add: tokens.simps [of _ "t @ d # r"] tokens.simps [of _ t])

lemma tokens_skip: "d \<in> delims \<Longrightarrow> tokens delims (d # s) = tokens delims s"
  by (simp add: tokens.simps [of _ "d # s"] tokens.simps [of _ s] strtok_skip)

end
