(* ===== verification/Engine.thy ===== *)
theory Engine
  imports Stubs C_Strings
begin

text \<open>
  The start-up and the worker threads of \<open>engine/engine.c\<close>: reading the CPU lists of the NUMA nodes, dealing
  the objects and the CPUs out to the threads, the initialisation of the objects and the event loop of a
  thread, and the statistics of the benchmark build. What \<open>main\<close> calls of other components (queues,
  allocators, checkpoints, the model) is an argument or is modelled in its own theory.
\<close>

section \<open>Single precision\<close>

text \<open>
  \<open>flt\<close> rounds to a \<open>float\<close>: integers up to \<open>2^24\<close> are exact and the relative error of a normal result is at
  most \<open>2^-24\<close>.
\<close>

definition float_rounding :: "(real \<Rightarrow> real) \<Rightarrow> bool" where
  "float_rounding flt \<longleftrightarrow> (\<forall>x. 1 / 2 ^ 126 \<le> x \<longrightarrow> \<bar>flt x - x\<bar> \<le> x / 2 ^ 24) \<and> (\<forall>n::nat. n \<le> 2 ^ 24 \<longrightarrow> flt (real n) = real n)"

definition fdiv :: "(real \<Rightarrow> real) \<Rightarrow> nat \<Rightarrow> nat \<Rightarrow> real" where
  "fdiv flt a b = flt (flt (real a) / flt (real b))"

text \<open>\<open>if (ratio - (int)ratio > 0) corrector = 1;\<close>\<close>

definition corrector :: "(real \<Rightarrow> real) \<Rightarrow> real \<Rightarrow> int" where
  "corrector flt ratio = (if flt (ratio - flt (real_of_int (trunc_double ratio))) > 0 then 1 else 0)"

section \<open>The CPUs of the machine\<close>

definition MAX_CPUS_PER_NODE :: nat where "MAX_CPUS_PER_NODE = 1024"

text \<open>
  One token of the list of a node: a range when it has a dash. \<open>lower\<close> and \<open>upper\<close> live outside of the loop
  over the tokens.
\<close>

definition after_dash :: "string \<Rightarrow> string" where
  "after_dash t = tl (dropWhile (\<lambda>ch. ch \<noteq> CHR ''-'') t)"

definition cpu_token :: "string \<Rightarrow> int \<times> int \<times> int list \<Rightarrow> (int \<times> int \<times> int list) outcome" where
  "cpu_token temp = (\<lambda>(lower0, upper0, ids).
     let (lower, upper) = (if CHR ''-'' \<in> set temp then (to_int32 (strtol 10 temp), to_int32 (strtol 10 (after_dash temp)))
                           else (lower0, upper0));
         new = (if lower \<noteq> -1 then map (\<lambda>z. to_int32 (lower + strtol 10 temp + z)) [0..upper - lower]
                else [to_int32 (strtol 10 temp)])
     in if length (ids @ new) > MAX_CPUS_PER_NODE then Inl Undefined else Inr (lower, upper, ids @ new))"

fun cpu_tokens :: "string list \<Rightarrow> int \<times> int \<times> int list \<Rightarrow> (int \<times> int \<times> int list) outcome" where
  "cpu_tokens [] st = Inr st"
| "cpu_tokens (t # ts) st = and_then (cpu_token t st) (cpu_tokens ts)"

definition node_cpus :: "string \<Rightarrow> int list outcome" where
  "node_cpus line = and_then (cpu_tokens (tokens {CHR '','', CHR 0x0A} line) (-1, -1, [])) (\<lambda>(lower, upper, ids). Inr ids)"

text \<open>The globals \<open>main\<close> fills; \<open>c\<close>, \<open>min\<close> and \<open>max\<close> of the source are \<open>node_c\<close>, \<open>node_min\<close>, \<open>node_max\<close>.\<close>

record machine =
  NUMA_NODES :: nat
  cpu_id_per_numa_node :: "nat \<Rightarrow> int list"
  node_c :: "nat \<Rightarrow> int"
  node_min :: "nat \<Rightarrow> int"
  node_max :: "nat \<Rightarrow> int"

definition initial_machine :: machine where
  "initial_machine = \<lparr>NUMA_NODES = 0, cpu_id_per_numa_node = (\<lambda>_. []), node_c = (\<lambda>_. 0), node_min = (\<lambda>_. 0), node_max = (\<lambda>_. 0)\<rparr>"

text \<open>
  Reading the file: \<open>fscanf\<close> of a word and \<open>fgets\<close> of the rest of a line into \<open>buff\<close>, which keeps its content at the end
  of the file. The pair is the buffer and what is left of the file; \<open>strtok\<close> has cut off the buffer behind its first token.
\<close>

definition LINE :: nat where "LINE = 1024"

fun scan_words :: "nat \<Rightarrow> string \<times> string \<Rightarrow> (string \<times> string) outcome" where
  "scan_words 0 st = Inr st"
| "scan_words (Suc n) (buff, rest) =
     (let t = dropWhile is_space rest; word = takeWhile (\<lambda>ch. \<not> is_space ch) t in
      if t = [] then scan_words n (buff, [])
      else if length word \<ge> LINE then Inl Undefined
      else scan_words n (word, dropWhile (\<lambda>ch. \<not> is_space ch) t))"

definition get_line :: "string \<times> string \<Rightarrow> string \<times> string" where
  "get_line = (\<lambda>(buff, rest).
     if rest = [] then (buff, [])
     else let n = min (LINE - 1) (Suc (length (takeWhile (\<lambda>ch. ch \<noteq> CHR 0x0A) rest))) in (take n rest, drop n rest))"

definition after_strtok :: "char set \<Rightarrow> string \<Rightarrow> string" where
  "after_strtok delims s = takeWhile (\<lambda>ch. ch \<in> delims) s @ takeWhile (\<lambda>ch. ch \<notin> delims) (dropWhile (\<lambda>ch. ch \<in> delims) s)"

text \<open>The entry of a node: three words, and the list of its CPUs.\<close>

fun read_nodes :: "nat \<Rightarrow> nat \<Rightarrow> string \<times> string \<Rightarrow> machine \<Rightarrow> machine outcome" where
  "read_nodes 0 j st m = Inr m"
| "read_nodes (Suc k) j st m =
     (if j \<ge> MAX_NUMA_NODES then Inl Undefined
      else and_then (scan_words 3 st) (\<lambda>st1.
        let (buff, rest) = get_line st1 in
        and_then (node_cpus buff) (\<lambda>ids.
        read_nodes k (j + 1) (after_strtok {CHR '','', CHR 0x0A} buff, rest)
          (m\<lparr>cpu_id_per_numa_node := (cpu_id_per_numa_node m)(j := ids)\<rparr>))))"

text \<open>The third word of the file is the number of nodes; a negative number is left out.\<close>

definition read_config :: "string \<Rightarrow> machine \<Rightarrow> machine outcome" where
  "read_config file m =
     and_then (scan_words 3 ([], file)) (\<lambda>(buff, rest).
       let n = to_int32 (strtol 10 buff) in
       if n < 0 then Inl Undefined else read_nodes (nat n) 0 (buff, rest) (m\<lparr>NUMA_NODES := nat n\<rparr>))"

definition default_config :: "nat \<Rightarrow> nat \<Rightarrow> machine \<Rightarrow> machine outcome" where
  "default_config objects CPUs m =
     (if CPUs > MAX_CPUS_PER_NODE then Inl Undefined
      else Inr (m\<lparr>NUMA_NODES := 1, cpu_id_per_numa_node := (cpu_id_per_numa_node m)(0 := map int [0..<CPUs]),
        node_c := (node_c m)(0 := int objects), node_min := (node_min m)(0 := 0),
        node_max := (node_max m)(0 := int objects - 1)\<rparr>))"

definition get_hw_config :: "config \<Rightarrow> nat \<Rightarrow> string option \<Rightarrow> machine \<Rightarrow> machine outcome" where
  "get_hw_config cfg CPUs file m =
     (if THREADS cfg > CPUs then Inl Exit_Failure
      else case file of
        None \<Rightarrow> default_config (OBJECTS cfg) CPUs m
      | Some content \<Rightarrow> read_config content m)"

text \<open>A file of two nodes; the CPUs of the second are read as 8 and 9.\<close>

lemma two_nodes_read:
  "(case read_config (''NUMA node(s): 2'' @ [CHR 0x0A] @ ''NUMA node0 CPU(s): 0,1'' @ [CHR 0x0A] @ ''NUMA node1 CPU(s): 4-5'' @ [CHR 0x0A])
      initial_machine of Inl e \<Rightarrow> False
    | Inr m \<Rightarrow> NUMA_NODES m = 2 \<and> cpu_id_per_numa_node m 0 = [0, 1] \<and> cpu_id_per_numa_node m 1 = [8, 9])"
  by code_simp

section \<open>Dealing out objects and CPUs\<close>

record thread_startup =
  vTID :: nat
  minID :: int
  maxID :: int
  cpuID :: int
  numaNodeID :: nat
  numaNodePerObjects :: nat

text \<open>\<open>main\<close> between two threads; \<open>startups\<close> are the entries of \<open>startup_info\<close> filled so far.\<close>

record assignment =
  mach :: machine
  startups :: "thread_startup list"
  current_min :: int
  numaNodeRound :: nat
  numaNodeInit :: nat

fun first_free :: "nat \<Rightarrow> int list \<Rightarrow> nat option" where
  "first_free j [] = None"
| "first_free j (x # xs) = (if x \<noteq> -1 then Some j else first_free (j + 1) xs)"

text \<open>
  The loop at the label \<open>retry\<close> goes round the nodes for a CPU that is not taken, and takes it. It has no
  other exit.
\<close>

definition take_cpu :: "machine \<Rightarrow> nat \<Rightarrow> nat \<Rightarrow> int \<times> machine" where
  "take_cpu m node j = (cpu_id_per_numa_node m node ! j,
     m\<lparr>cpu_id_per_numa_node := (cpu_id_per_numa_node m)(node := (cpu_id_per_numa_node m node)[j := -1])\<rparr>)"

partial_function (option) pick_cpu :: "machine \<Rightarrow> nat \<Rightarrow> (int \<times> nat \<times> machine \<times> nat) option" where
  "pick_cpu m node =
     (case first_free 0 (cpu_id_per_numa_node m node) of
        Some j \<Rightarrow> let (cpu, m') = take_cpu m node j in Some (cpu, node, m', (node + 1) mod NUMA_NODES m)
      | None \<Rightarrow> pick_cpu m ((node + 1) mod NUMA_NODES m))"

definition ceil_ratio :: "(real \<Rightarrow> real) \<Rightarrow> nat \<Rightarrow> nat \<Rightarrow> int" where
  "ceil_ratio flt a b = (let ratio = fdiv flt a b in trunc_double ratio + corrector flt ratio)"

text \<open>
  The NUMA node of the objects of a thread, and the counters of the node. The quotient is computed in
  double precision.
\<close>

definition assign_node :: "config \<Rightarrow> real \<Rightarrow> int \<Rightarrow> int \<Rightarrow> machine \<Rightarrow> nat \<Rightarrow> (machine \<times> nat) outcome" where
  "assign_node cfg NUMAratio lo hi m node =
     (if hi < lo then Inr (m, node)
      else if MAX_NUMA_NODES \<le> node then Inl Undefined
      else
        let m1 = m\<lparr>node_c := (node_c m)(node := node_c m node + (hi - lo + 1)), node_max := (node_max m)(node := hi)\<rparr> in
        and_then (int_of_double (ddiv cfg (real_of_int hi) NUMAratio)) (\<lambda>q.
          if q > int node then
            (if MAX_NUMA_NODES \<le> node + 1 then Inl Undefined
             else Inr (m1\<lparr>node_min := (node_min m1)(node + 1 := hi + 1)\<rparr>, node + 1))
          else Inr (m1, node)))"

text \<open>The identifiers of a node are a global array: the entries behind those read from the file are 0.\<close>

definition cpu_at :: "int list \<Rightarrow> nat \<Rightarrow> int" where
  "cpu_at ids i = (if i < length ids then ids ! i else 0)"

definition assign_thread ::
  "config \<Rightarrow> (real \<Rightarrow> real) \<Rightarrow> nat \<Rightarrow> assignment \<Rightarrow> assignment outcome option" where
  "assign_thread cfg flt i st =
     (let lo = current_min st; k = ceil_ratio flt (OBJECTS cfg) (THREADS cfg);
          hi = (if lo + k - 1 > int (OBJECTS cfg) - 1 then int (OBJECTS cfg) - 1 else lo + k - 1);
          m = mach st in
      if NUMA_NODES m = 1 then
        (if i < MAX_CPUS_PER_NODE then
           Some (Inr (st\<lparr>current_min := lo + k,
             startups := startups st @ [\<lparr>vTID = i, minID = lo, maxID = hi, cpuID = cpu_at (cpu_id_per_numa_node m 0) i,
               numaNodeID = 1, numaNodePerObjects = 0\<rparr>]\<rparr>))
         else Some (Inl Undefined))
      else if NUMA_NODES m = 0 then Some (Inl Undefined)
      else case pick_cpu m (numaNodeRound st) of
        None \<Rightarrow> None
      | Some (cpu, node, m1, turn) \<Rightarrow>
          Some (and_then (assign_node cfg (fdiv flt (OBJECTS cfg) (NUMA_NODES m)) lo hi m1 (numaNodeInit st)) (\<lambda>(m2, init).
            Inr \<lparr>mach = m2, startups = startups st @ [\<lparr>vTID = i, minID = lo, maxID = hi, cpuID = cpu, numaNodeID = node,
                    numaNodePerObjects = numaNodeInit st\<rparr>], current_min = lo + k, numaNodeRound = turn, numaNodeInit = init\<rparr>)))"

fun assign_threads :: "config \<Rightarrow> (real \<Rightarrow> real) \<Rightarrow> nat list \<Rightarrow> assignment \<Rightarrow> assignment outcome option" where
  "assign_threads cfg flt [] st = Some (Inr st)"
| "assign_threads cfg flt (i # is) st =
     (case assign_thread cfg flt i st of
        None \<Rightarrow> None
      | Some (Inl e) \<Rightarrow> Some (Inl e)
      | Some (Inr st1) \<Rightarrow> assign_threads cfg flt is st1)"

definition engine_assign :: "config \<Rightarrow> (real \<Rightarrow> real) \<Rightarrow> machine \<Rightarrow> assignment outcome option" where
  "engine_assign cfg flt m = assign_threads cfg flt [0..<THREADS cfg]
     \<lparr>mach = m, startups = [], current_min = 0, numaNodeRound = 0, numaNodeInit = 0\<rparr>"

section \<open>Objects per thread\<close>

lemma trunc_floor: "0 \<le> x \<Longrightarrow> trunc_double x = \<lfloor>x\<rfloor>"
  by (simp add: trunc_double_def)

lemma rounded_pos:
  fixes w x :: real
  assumes "\<bar>w - x\<bar> \<le> x / 2 ^ 24" and "0 < x"
  shows "0 < w"
proof -
  have "x / 2 ^ 24 \<le> x / 2" using assms(2) by (intro divide_left_mono) simp_all
  then show ?thesis using assms by linarith
qed

text \<open>The rounded quotient and its correction are the quotient rounded up.\<close>

lemma ceil_ratio_eq:
  assumes f: "float_rounding flt" and b: "0 < b" "b \<le> 2 ^ 24" and a: "a \<le> 2 ^ 23"
  shows "ceil_ratio flt a b = (int a + int b - 1) div int b"
proof -
  have ex: "\<And>n::nat. n \<le> 2 ^ 24 \<Longrightarrow> flt (real n) = real n" and rel: "\<And>x. 1 / 2 ^ 126 \<le> x \<Longrightarrow> \<bar>flt x - x\<bar> \<le> x / 2 ^ 24"
    using f by (auto simp: float_rounding_def)
  have ab: "flt (real a) = real a" "flt (real b) = real b" using ex a b by simp_all
  define q where "q = a div b"
  define r where "r = a mod b"
  have a_eq: "a = q * b + r" and rb: "r < b" by (simp_all add: q_def r_def b(1))
  have qa: "q \<le> a" by (simp add: q_def)
  have bpos: "0 < real b" using b by simp
  have dv: "real a / real b = real q + real r / real b"
    using bpos by (simp add: a_eq add_divide_distrib)
  show ?thesis
  proof (cases "r = 0")
    case True
    then have ratio: "fdiv flt a b = real q" using ab ex [of q] qa a dv by (simp add: fdiv_def)
    have "flt 0 = 0" using ex [of 0] by simp
    then have "ceil_ratio flt a b = int q"
      using ex [of q] qa a by (simp add: ceil_ratio_def ratio Let_def trunc_double_def corrector_def)
    moreover have "(int a + int b - 1) div int b = int q"
      by (rule int_div_pos_eq [of _ _ _ "int b - 1"]) (use True b in \<open>auto simp: a_eq mult.commute\<close>)
    ultimately show ?thesis by simp
  next
    case False
    let ?x = "real a / real b"
    have frac: "1 / real b \<le> real r / real b" "real r / real b \<le> 1 - 1 / real b"
      using False rb bpos by (simp_all add: field_simps)
    have err0: "?x / 2 ^ 24 \<le> (1 / real b) / 2"
    proof -
      have "real a \<le> 2 ^ 23" using a by (simp add: of_nat_le_iff [of a "2 ^ 23", where 'a = real, symmetric] del: of_nat_le_iff)
      then show ?thesis using bpos by (simp add: field_simps)
    qed
    have b24: "1 / 2 ^ 24 \<le> 1 / real b"
    proof -
      have "real b \<le> 2 ^ 24" using b(2) by (simp add: of_nat_le_iff [of b "2 ^ 24", where 'a = real, symmetric] del: of_nat_le_iff)
      then show ?thesis using bpos by (simp add: frac_le)
    qed
    have "1 / 2 ^ 126 \<le> (1 / 2 ^ 24 :: real)" by simp
    then have "1 / 2 ^ 126 \<le> ?x" using dv frac b24 by linarith
    from rel [OF this] have e: "\<bar>flt ?x - ?x\<bar> \<le> (1 / real b) / 2" using err0 by linarith
    have ratio: "fdiv flt a b = flt ?x" by (simp add: fdiv_def ab)
    have bounds: "real q + (1 / real b) / 2 \<le> flt ?x" "flt ?x < real q + 1"
    proof -
      define h where "h = 1 / real b"
      define F where "F = flt ?x"
      have h: "0 < h" using bpos by (simp add: h_def)
      have "\<bar>F - ?x\<bar> \<le> h / 2" using e by (simp add: F_def h_def)
      moreover have "?x = real q + real r / real b" "h \<le> real r / real b" "real r / real b \<le> 1 - h" using dv frac by (simp_all add: h_def)
      ultimately have "real q + h / 2 \<le> F \<and> F < real q + 1" using h by linarith
      then show "real q + (1 / real b) / 2 \<le> flt ?x" "flt ?x < real q + 1" by (simp_all add: F_def h_def)
    qed
    have fl: "\<lfloor>flt ?x\<rfloor> = int q"
    proof (rule floor_unique)
      have "0 \<le> (1 / real b) / 2" using bpos by simp
      then show "of_int (int q) \<le> flt ?x" unfolding of_int_of_nat_eq using bounds(1) by linarith
      show "flt ?x < of_int (int q) + 1" using bounds by simp
    qed
    have nn: "0 \<le> flt ?x" using bounds bpos by (smt (verit) divide_nonneg_nonneg of_nat_0_le_iff)
    have tr: "trunc_double (flt ?x) = int q" using fl nn by (simp add: trunc_floor)
    have d: "1 / 2 ^ 25 \<le> flt ?x - real q" using bounds b24 by simp
    have "\<bar>flt (flt ?x - real q) - (flt ?x - real q)\<bar> \<le> (flt ?x - real q) / 2 ^ 24"
      by (rule rel) (use d in \<open>auto intro: order_trans [rotated]\<close>)
    moreover have "0 < flt ?x - real q" using d by (rule less_le_trans [rotated]) simp
    ultimately have "0 < flt (flt ?x - real q)" by (rule rounded_pos)
    then have "corrector flt (flt ?x) = 1" using ex [of q] qa a by (simp add: corrector_def tr)
    then have "ceil_ratio flt a b = int q + 1" by (simp add: ceil_ratio_def ratio Let_def tr)
    moreover have "(int a + int b - 1) div int b = int q + 1"
      by (rule int_div_pos_eq [of _ _ _ "int r - 1"]) (use False rb in \<open>auto simp: a_eq algebra_simps\<close>)
    ultimately show ?thesis by simp
  qed
qed

definition thread_hi :: "int \<Rightarrow> int \<Rightarrow> int \<Rightarrow> int" where
  "thread_hi objects lo k = (if lo + k - 1 > objects - 1 then objects - 1 else lo + k - 1)"

lemma assign_thread_fields:
  assumes "assign_thread cfg flt i st = Some (Inr st')"
  defines "k \<equiv> ceil_ratio flt (OBJECTS cfg) (THREADS cfg)"
  shows "\<exists>t. startups st' = startups st @ [t] \<and> minID t = current_min st
    \<and> maxID t = thread_hi (int (OBJECTS cfg)) (current_min st) k \<and> current_min st' = current_min st + k"
  using assms(1)
  by (auto simp: assign_thread_def Let_def k_def thread_hi_def and_then_eq_Inr split: if_splits option.splits prod.splits)

lemma assign_threads_ranges:
  assumes "assign_threads cfg flt is st = Some (Inr st')"
  defines "k \<equiv> ceil_ratio flt (OBJECTS cfg) (THREADS cfg)"
  shows "\<exists>ts. startups st' = startups st @ ts \<and> length ts = length is \<and> (\<forall>j < length is.
      minID (ts ! j) = current_min st + int j * k
    \<and> maxID (ts ! j) = thread_hi (int (OBJECTS cfg)) (current_min st + int j * k) k)"
  using assms(1)
proof (induction "is" arbitrary: st)
  case Nil
  then show ?case by simp
next
  case (Cons i "is")
  then obtain st1 where 1: "assign_thread cfg flt i st = Some (Inr st1)" "assign_threads cfg flt is st1 = Some (Inr st')"
    by (auto split: option.splits sum.splits)
  from assign_thread_fields [OF 1(1)] obtain t where t: "startups st1 = startups st @ [t]" "minID t = current_min st"
    "maxID t = thread_hi (int (OBJECTS cfg)) (current_min st) k" "current_min st1 = current_min st + k"
    by (auto simp: k_def)
  from Cons.IH [OF 1(2)] obtain ts where ts: "startups st' = startups st1 @ ts" "length ts = length is"
    "\<And>j. j < length is \<Longrightarrow> minID (ts ! j) = current_min st1 + int j * k
      \<and> maxID (ts ! j) = thread_hi (int (OBJECTS cfg)) (current_min st1 + int j * k) k" by auto
  have "minID ((t # ts) ! j) = current_min st + int j * k
      \<and> maxID ((t # ts) ! j) = thread_hi (int (OBJECTS cfg)) (current_min st + int j * k) k" if "j < length (i # is)" for j
  proof (cases j)
    case 0
    then show ?thesis using t by simp
  next
    case (Suc l)
    have "current_min st1 + int l * k = current_min st + int j * k" by (simp add: t(4) Suc algebra_simps)
    then show ?thesis using ts(3) [of l] that Suc by simp
  qed
  then show ?case using t(1) ts(1,2) by (intro exI [of _ "t # ts"]) simp
qed

lemma in_block:
  fixes ob k :: int
  assumes "0 < k"
  shows "j * k \<le> ob \<and> ob \<le> j * k + k - 1 \<longleftrightarrow> j = ob div k"
proof
  assume "j * k \<le> ob \<and> ob \<le> j * k + k - 1"
  then show "j = ob div k" using assms int_div_pos_eq [of ob k j "ob - j * k"] by (simp add: mult.commute)
next
  assume "j = ob div k"
  then show "j * k \<le> ob \<and> ob \<le> j * k + k - 1"
    using pos_mod_sign [OF assms, of ob] pos_mod_bound [OF assms, of ob] div_mult_mod_eq [of ob k] by (intro conjI; hypsubst; linarith)
qed

text \<open>
  Property C21. When \<open>main\<close> has dealt out the objects, every object is started by exactly one thread,
  whatever the numbers of objects and threads, although the quotient is computed in single precision.
\<close>

theorem objects_partitioned:
  assumes "float_rounding flt" and "0 < THREADS cfg" "THREADS cfg \<le> 2 ^ 24" and "OBJECTS cfg \<le> 2 ^ 23"
    and "engine_assign cfg flt m = Some (Inr st)" and "ob < OBJECTS cfg"
  shows "length (startups st) = THREADS cfg
    \<and> (\<exists>!i. i < THREADS cfg \<and> minID (startups st ! i) \<le> int ob \<and> int ob \<le> maxID (startups st ! i))"
proof -
  let ?T = "int (THREADS cfg)" and ?O = "int (OBJECTS cfg)"
  define k where "k = (?O + ?T - 1) div ?T"
  have k: "ceil_ratio flt (OBJECTS cfg) (THREADS cfg) = k" unfolding k_def by (rule ceil_ratio_eq [OF assms(1-4)])
  have T: "0 < ?T" using assms(2) by simp
  have kT: "?O \<le> k * ?T"
  proof -
    have "(?O + ?T - 1) div ?T * ?T + (?O + ?T - 1) mod ?T = ?O + ?T - 1" by simp
    moreover have "(?O + ?T - 1) mod ?T < ?T" using T by simp
    ultimately show ?thesis unfolding k_def by linarith
  qed
  have kpos: "0 < k"
  proof -
    have "0 < k * ?T" using kT assms(6) by linarith
    then show ?thesis using T by (simp add: zero_less_mult_iff)
  qed
  obtain ts where ts: "startups st = ts" "length ts = THREADS cfg"
    "\<And>j. j < THREADS cfg \<Longrightarrow> minID (ts ! j) = int j * k \<and> maxID (ts ! j) = thread_hi ?O (int j * k) k"
    using assign_threads_ranges [OF assms(5) [unfolded engine_assign_def]] by (auto simp: k)
  have block: "minID (ts ! j) \<le> int ob \<and> int ob \<le> maxID (ts ! j) \<longleftrightarrow> int j = int ob div k" if "j < THREADS cfg" for j
    using ts(3) [OF that] assms(6) in_block [OF kpos, of "int j" "int ob"] by (auto simp: thread_hi_def)
  have div: "int ob div k < ?T" "0 \<le> int ob div k"
  proof -
    have "int ob < k * ?T" using kT assms(6) by linarith
    moreover have "k * ?T \<le> k * (int ob div k)" if "?T \<le> int ob div k" using that kpos by (intro mult_left_mono) simp_all
    moreover have "k * (int ob div k) \<le> int ob" using kpos pos_mod_sign [of k "int ob"] mult_div_mod_eq [of k "int ob"] by linarith
    ultimately show "int ob div k < ?T" by linarith
    show "0 \<le> int ob div k" using kpos by (simp add: pos_imp_zdiv_nonneg_iff)
  qed
  have "\<exists>!i. i < THREADS cfg \<and> minID (ts ! i) \<le> int ob \<and> int ob \<le> maxID (ts ! i)"
  proof (rule ex1I [of _ "nat (int ob div k)"])
    have "nat (int ob div k) < THREADS cfg" "int (nat (int ob div k)) = int ob div k" using div by simp_all
    then show "nat (int ob div k) < THREADS cfg \<and> minID (ts ! nat (int ob div k)) \<le> int ob \<and> int ob \<le> maxID (ts ! nat (int ob div k))"
      using block by blast
    show "i = nat (int ob div k)" if "i < THREADS cfg \<and> minID (ts ! i) \<le> int ob \<and> int ob \<le> maxID (ts ! i)" for i
      using that block by fastforce
  qed
  then show ?thesis using ts by simp
qed

section \<open>CPUs per thread\<close>

lemma first_free_Some:
  "first_free j xs = Some l \<Longrightarrow> j \<le> l \<and> l < j + length xs \<and> xs ! (l - j) \<noteq> -1"
proof (induction xs arbitrary: j)
  case (Cons x xs)
  then show ?case by (cases "x \<noteq> -1") (force simp: nth_Cons' split: if_splits)+
qed simp

lemma first_free_None: "first_free j xs = None \<longleftrightarrow> (\<forall>x \<in> set xs. x = -1)"
  by (induction xs arbitrary: j) auto

definition has_free :: "machine \<Rightarrow> nat \<Rightarrow> bool" where
  "has_free m n \<longleftrightarrow> (\<exists>x \<in> set (cpu_id_per_numa_node m n). x \<noteq> -1)"

lemma pick_cpu_found:
  assumes "has_free m ((node + d) mod NUMA_NODES m)" and "node < NUMA_NODES m"
  shows "\<exists>r. pick_cpu m node = Some r"
  using assms
proof (induction d arbitrary: node)
  case 0
  show ?case
  proof (cases "first_free 0 (cpu_id_per_numa_node m node)")
    case None
    then show ?thesis using 0 by (subst pick_cpu.simps) (auto simp: first_free_None has_free_def)
  next
    case (Some j)
    then show ?thesis by (subst pick_cpu.simps) (simp add: take_cpu_def)
  qed
next
  case (Suc d)
  show ?case
  proof (cases "first_free 0 (cpu_id_per_numa_node m node)")
    case None
    have "\<exists>r. pick_cpu m ((node + 1) mod NUMA_NODES m) = Some r"
      by (rule Suc.IH) (use Suc.prems mod_less_divisor [of "NUMA_NODES m"] in \<open>auto simp: mod_add_left_eq\<close>)
    then show ?thesis using None by (subst pick_cpu.simps) simp
  next
    case (Some j)
    then show ?thesis by (subst pick_cpu.simps) (simp add: take_cpu_def)
  qed
qed

definition cpu_taken :: "machine \<Rightarrow> int \<times> nat \<times> machine \<times> nat \<Rightarrow> bool" where
  "cpu_taken m r = (case r of (cpu, n, m', turn) \<Rightarrow> n < NUMA_NODES m \<and> turn = (n + 1) mod NUMA_NODES m \<and> cpu \<noteq> -1
     \<and> (\<exists>j < length (cpu_id_per_numa_node m n). cpu_id_per_numa_node m n ! j = cpu \<and> m' = snd (take_cpu m n j)))"

lemma pick_cpu_result:
  assumes "pick_cpu m node = Some r"
  shows "node < NUMA_NODES m \<longrightarrow> cpu_taken m r"
proof (rule pick_cpu.raw_induct [OF _ assms])
  fix pick m node r
  assume IH: "\<And>m node r. pick m node = Some r \<Longrightarrow> node < NUMA_NODES m \<longrightarrow> cpu_taken m r"
    and eq: "(case first_free 0 (cpu_id_per_numa_node m node) of
        Some j \<Rightarrow> let (cpu, m') = take_cpu m node j in Some (cpu, node, m', (node + 1) mod NUMA_NODES m)
      | None \<Rightarrow> pick m ((node + 1) mod NUMA_NODES m)) = Some r"
  show "node < NUMA_NODES m \<longrightarrow> cpu_taken m r"
  proof (cases "first_free 0 (cpu_id_per_numa_node m node)")
    case None
    have "node < NUMA_NODES m \<Longrightarrow> (node + 1) mod NUMA_NODES m < NUMA_NODES m" by simp
    then show ?thesis using eq IH None by auto
  next
    case (Some j)
    then show ?thesis using eq first_free_Some [OF Some] by (auto simp: cpu_taken_def take_cpu_def)
  qed
qed

text \<open>
  Property C38. The search for a CPU of a thread ends exactly when some node has one left (it goes round for
  ever otherwise), and it takes a CPU that was free, away from the list of its node, and goes on with the
  next node.
\<close>

theorem pick_cpu_terminates:
  assumes "node < NUMA_NODES m"
  shows "(\<exists>r. pick_cpu m node = Some r \<and> cpu_taken m r) \<longleftrightarrow> (\<exists>n < NUMA_NODES m. has_free m n)"
proof
  assume "\<exists>r. pick_cpu m node = Some r \<and> cpu_taken m r"
  then obtain cpu n m' turn where "cpu_taken m (cpu, n, m', turn)" by auto
  then have "n < NUMA_NODES m \<and> has_free m n" unfolding cpu_taken_def has_free_def using nth_mem by fastforce
  then show "\<exists>n < NUMA_NODES m. has_free m n" by blast
next
  assume "\<exists>n < NUMA_NODES m. has_free m n"
  then obtain n where n: "n < NUMA_NODES m" "has_free m n" by blast
  have "(node + (n + NUMA_NODES m - node)) mod NUMA_NODES m = n" using assms n(1) by simp
  then obtain r where "pick_cpu m node = Some r" using pick_cpu_found [of m node "n + NUMA_NODES m - node"] n(2) assms by auto
  then show "\<exists>r. pick_cpu m node = Some r \<and> cpu_taken m r" using pick_cpu_result assms by blast
qed

definition two_nodes :: machine where
  "two_nodes = initial_machine\<lparr>NUMA_NODES := 2, cpu_id_per_numa_node := (\<lambda>n. if n = 0 then [-1, -1] else [2, 3])\<rparr>"

theorem pick_cpu_terminates_witness:
  "(\<exists>r. pick_cpu two_nodes 0 = Some r \<and> cpu_taken two_nodes r)
    \<and> \<not> (\<exists>r. pick_cpu (two_nodes\<lparr>cpu_id_per_numa_node := (\<lambda>_. [-1])\<rparr>) 1 = Some r
           \<and> cpu_taken (two_nodes\<lparr>cpu_id_per_numa_node := (\<lambda>_. [-1])\<rparr>) r)"
proof -
  have "\<exists>n < NUMA_NODES two_nodes. has_free two_nodes n"
    by (rule exI [of _ 1]) (simp add: two_nodes_def has_free_def)
  moreover have "\<not> (\<exists>n < NUMA_NODES two_nodes. has_free (two_nodes\<lparr>cpu_id_per_numa_node := (\<lambda>_. [-1])\<rparr>) n)"
    by (simp add: has_free_def)
  ultimately show ?thesis
    using pick_cpu_terminates [of 0 two_nodes] pick_cpu_terminates [of 1 "two_nodes\<lparr>cpu_id_per_numa_node := (\<lambda>_. [-1])\<rparr>"]
    by (simp add: two_nodes_def)
qed

section \<open>The list of CPUs of a node\<close>

text \<open>A token that is a number, and a token that is a range, as \<open>lscpu\<close> writes them.\<close>

lemma cpu_token_number:
  "CHR ''-'' \<notin> set t \<Longrightarrow> length ids < MAX_CPUS_PER_NODE \<Longrightarrow>
   cpu_token t (-1, upper, ids) = Inr (-1, upper, ids @ [to_int32 (strtol 10 t)])"
  by (simp add: cpu_token_def Let_def)

text \<open>
  A range \<open>a-b\<close> in the list of CPUs of a node: the numbers that are recorded start at twice
  \<open>a\<close>, since the code adds the number at the head of the token to the lower end it has parsed from it. They
  are the CPUs of the range only when it starts at 0.
\<close>

theorem cpu_range_doubled:
  assumes "CHR ''-'' \<in> set t" and "strtol 10 t = a" and "strtol 10 (after_dash t) = b"
    and "0 \<le> a" "a \<le> b" "a + b < 2 ^ 31" and "b - a < 1024"
  shows "cpu_token t (-1, -1, []) = Inr (a, b, map (\<lambda>z. 2 * a + z) [0..b - a])
    \<and> (map (\<lambda>z. 2 * a + z) [0..b - a] = [a..b] \<longleftrightarrow> a = 0)"
proof -
  have i: "to_int32 a = a" "to_int32 b = b" using assms by (simp_all add: to_int32_small)
  have m: "map (\<lambda>z. to_int32 (a + a + z)) [0..b - a] = map (\<lambda>z. 2 * a + z) [0..b - a]"
    using assms by (intro map_cong) (auto simp: to_int32_small)
  have len: "length [0..b - a] \<le> MAX_CPUS_PER_NODE" using assms by (simp add: MAX_CPUS_PER_NODE_def)
  have "cpu_token t (-1, -1, []) = Inr (a, b, map (\<lambda>z. 2 * a + z) [0..b - a])"
    using assms(1-4) i m len by (simp add: cpu_token_def Let_def)
  moreover have "map (\<lambda>z. 2 * a + z) [0..b - a] = [a..b]" if "a = 0" using that by simp
  moreover have "a = 0" if "map (\<lambda>z. 2 * a + z) [0..b - a] = [a..b]"
  proof -
    have "2 * a = a" using arg_cong [OF that, of hd] assms(5) by (simp add: upto_rec1)
    then show ?thesis by simp
  qed
  ultimately show ?thesis by blast
qed

theorem cpu_range_doubled_witness:
  "cpu_token ''4-7'' (-1, -1, []) = Inr (4, 7, [8, 9, 10, 11])"
proof -
  have "strtol 10 ''4-7'' = 4" "strtol 10 (after_dash ''4-7'') = 7"
    by (simp_all add: strtol_def after_dash_def is_space_def signed_value_def strip_prefix_def digit_value_def)
  from cpu_range_doubled [OF _ this] show ?thesis by (simp add: upto_rec1)
qed

lemma later_token_shifted:
  "cpu_tokens [''0-1'', ''8''] (-1, -1, []) = Inr (0, 1, [0, 1, 8, 9])"
  by (simp add: cpu_token_def strtol_def after_dash_def is_space_def signed_value_def strip_prefix_def digit_value_def to_int32_small MAX_CPUS_PER_NODE_def upto_rec1)

section \<open>NUMA nodes of the objects\<close>

lemma node_quotient_bound:
  assumes f: "float_rounding flt" and c: "close_rounding cfg" and N: "0 < N" "N \<le> 128" and ob: "0 < objects" "objects \<le> 2 ^ 23"
    and hi: "0 \<le> hi" "hi \<le> int objects - 1"
    and q: "int_of_double (ddiv cfg (real_of_int hi) (fdiv flt objects N)) = Inr q"
  shows "q < int N"
proof -
  have ex: "\<And>n::nat. n \<le> 2 ^ 24 \<Longrightarrow> flt (real n) = real n" and rel: "\<And>x. 1 / 2 ^ 126 \<le> x \<Longrightarrow> \<bar>flt x - x\<bar> \<le> x / 2 ^ 24"
    using f by (auto simp: float_rounding_def)
  define x where "x = real objects / real N"
  define R where "R = fdiv flt objects N"
  have Np: "0 < real N" "real N \<le> 128" using N by simp_all
  have Op: "1 \<le> real objects" "real objects \<le> 2 ^ 23"
    using ob by (simp_all add: of_nat_le_iff [of objects "2 ^ 23", where 'a = real, symmetric] del: of_nat_le_iff)
  have xpos: "1 / 128 \<le> x" using Np Op by (simp add: x_def field_simps)
  have "R = flt x" using ex [of objects] ex [of N] N ob by (simp add: R_def fdiv_def x_def)
  moreover have "\<bar>flt x - x\<bar> \<le> x / 2 ^ 24" by (rule rel) (use xpos in \<open>auto intro: order_trans [rotated]\<close>)
  moreover have "x * (1 - 1 / 2 ^ 24) = x - x / 2 ^ 24" by (simp add: right_diff_distrib)
  ultimately have R: "x * (1 - 1 / 2 ^ 24) \<le> R" by linarith
  have "0 < x" using xpos by linarith
  then have "0 < x * (1 - 1 / 2 ^ 24)" by (intro mult_pos_pos) simp_all
  then have Rp: "0 < R" using R by linarith
  define y where "y = real_of_int hi / R"
  have y0: "0 \<le> y" using hi Rp by (simp add: y_def)
  have hi': "real_of_int hi \<le> real objects - 1" using hi by linarith
  have "real_of_int hi * (1 + 1 / 2 ^ 52) \<le> (real objects - 1) * (1 + 1 / 2 ^ 52)" using hi' by (intro mult_right_mono) simp_all
  also have "\<dots> < real objects * (1 - 1 / 2 ^ 24)" using Op by (simp add: field_simps)
  also have "\<dots> = real N * (x * (1 - 1 / 2 ^ 24))" using Np by (simp add: x_def)
  also have "\<dots> \<le> real N * R" using R Np by (intro mult_left_mono) simp_all
  finally have "y * (1 + 1 / 2 ^ 52) < real N" using Rp by (simp add: y_def field_simps)
  moreover have "ddiv cfg (real_of_int hi) R \<le> y * (1 + 1 / 2 ^ 52)" "0 \<le> ddiv cfg (real_of_int hi) R"
  proof -
    show "ddiv cfg (real_of_int hi) R \<le> y * (1 + 1 / 2 ^ 52)"
      using close_rounding_bounds(2) [OF c y0] by (simp add: ddiv_def y_def)
    have "0 \<le> y * (1 - 1 / 2 ^ 52)" using y0 by simp
    then show "0 \<le> ddiv cfg (real_of_int hi) R" using close_rounding_bounds(1) [OF c y0] by (simp add: ddiv_def y_def)
  qed
  ultimately have "ddiv cfg (real_of_int hi) R < real N" "0 \<le> ddiv cfg (real_of_int hi) R" by linarith+
  moreover have "q = trunc_double (ddiv cfg (real_of_int hi) R)" using q by (simp add: int_of_double_def R_def split: if_splits)
  ultimately show ?thesis by (simp add: trunc_double_def floor_less_iff)
qed

lemma if_Inr: "(if b then (if d then Inl e else Inr x) else Inr y) = Inr z \<Longrightarrow> z = (if b then x else y)"
  by (auto split: if_splits)

definition node_inv :: "nat \<Rightarrow> nat \<Rightarrow> assignment \<Rightarrow> bool" where
  "node_inv objects N st \<longleftrightarrow> (let m = mach st; dn = min (int objects) (current_min st) in
     NUMA_NODES m = N \<and> numaNodeInit st < N \<and> 0 \<le> current_min st \<and> (\<Sum>n<N. node_c m n) = dn \<and> node_min m (numaNodeInit st) \<le> dn
     \<and> (\<forall>t \<in> set (startups st). minID t \<le> maxID t \<longrightarrow> numaNodePerObjects t \<le> numaNodeInit st \<and> maxID t < dn
          \<and> node_min m (numaNodePerObjects t) \<le> minID t \<and> maxID t \<le> node_max m (numaNodePerObjects t)))"

lemma assign_node_inv:
  assumes f: "float_rounding flt" "close_rounding cfg" and N: "N \<le> 128" and ob: "0 < objects" "objects \<le> 2 ^ 23"
    and inv: "node_inv objects N st" and k: "0 < k"
    and t: "minID t = current_min st" "maxID t = thread_hi (int objects) (current_min st) k" "numaNodePerObjects t = numaNodeInit st"
    and m1: "NUMA_NODES m1 = N" "node_c m1 = node_c (mach st)" "node_min m1 = node_min (mach st)" "node_max m1 = node_max (mach st)"
    and run: "assign_node cfg (fdiv flt objects N) (minID t) (maxID t) m1 (numaNodeInit st) = Inr (m2, init)"
  shows "node_inv objects N \<lparr>mach = m2, startups = startups st @ [t], current_min = current_min st + k,
    numaNodeRound = turn, numaNodeInit = init\<rparr>"
proof -
  let ?lo = "current_min st" and ?hi = "thread_hi (int objects) (current_min st) k" and ?i = "numaNodeInit st"
  let ?dn = "min (int objects) (current_min st)"
  have h: "?i < N" "0 \<le> ?lo" "(\<Sum>n<N. node_c m1 n) = ?dn" "node_min m1 ?i \<le> ?dn"
    "\<And>u. u \<in> set (startups st) \<Longrightarrow> minID u \<le> maxID u \<Longrightarrow> numaNodePerObjects u \<le> ?i \<and> maxID u < ?dn
       \<and> node_min m1 (numaNodePerObjects u) \<le> minID u \<and> maxID u \<le> node_max m1 (numaNodePerObjects u)"
    using inv m1 by (simp_all add: node_inv_def Let_def)
  show ?thesis
  proof (cases "?hi < ?lo")
    case True
    then have "m2 = m1" "init = ?i" "int objects \<le> ?lo" using run t k by (auto simp: assign_node_def thread_hi_def split: if_splits)
    then show ?thesis using h True t k m1(1) by (auto simp: node_inv_def Let_def min_def)
  next
    case False
    then have lo: "?lo < int objects" using k by (auto simp: thread_hi_def split: if_splits)
    have dn: "?dn = ?lo" "min (int objects) (?lo + k) = ?hi + 1" using lo by (auto simp: thread_hi_def)
    define m3 where "m3 = m1\<lparr>node_c := (node_c m1)(?i := node_c m1 ?i + (?hi - ?lo + 1)), node_max := (node_max m1)(?i := ?hi)\<rparr>"
    obtain q where q: "int_of_double (ddiv cfg (real_of_int ?hi) (fdiv flt objects N)) = Inr q"
      "m2 = (if q > int ?i then m3\<lparr>node_min := (node_min m3)(?i + 1 := ?hi + 1)\<rparr> else m3)" "init = (if q > int ?i then ?i + 1 else ?i)"
    proof -
      have "and_then (int_of_double (ddiv cfg (real_of_int ?hi) (fdiv flt objects N))) (\<lambda>q. if q > int ?i then
            (if MAX_NUMA_NODES \<le> ?i + 1 then Inl Undefined else Inr (m3\<lparr>node_min := (node_min m3)(?i + 1 := ?hi + 1)\<rparr>, ?i + 1))
            else Inr (m3, ?i)) = Inr (m2, init)"
        using run False unfolding assign_node_def t Let_def m3_def [symmetric] by (simp split: if_split_asm)
      then obtain q where "int_of_double (ddiv cfg (real_of_int ?hi) (fdiv flt objects N)) = Inr q"
        and r: "(if q > int ?i then (if MAX_NUMA_NODES \<le> ?i + 1 then Inl Undefined
            else Inr (m3\<lparr>node_min := (node_min m3)(?i + 1 := ?hi + 1)\<rparr>, ?i + 1)) else Inr (m3, ?i)) = Inr (m2, init)"
        unfolding and_then_eq_Inr by blast
      have "m2 = (if q > int ?i then m3\<lparr>node_min := (node_min m3)(?i + 1 := ?hi + 1)\<rparr> else m3)"
        "init = (if q > int ?i then ?i + 1 else ?i)"
        using if_Inr [OF r] by (cases "q > int ?i"; simp only: if_True if_False prod.inject)+
      with \<open>int_of_double _ = Inr q\<close> show ?thesis by (rule that)
    qed
    have "?hi \<le> int objects - 1" "0 \<le> ?hi" using h(2) False by (auto simp: thread_hi_def)
    then have qN: "q < int N" using node_quotient_bound [OF f _ N ob _ _ q(1)] h(1) by simp
    have s: "(\<Sum>n<N. node_c m2 n) = ?hi + 1"
    proof -
      have "(\<Sum>n<N. node_c m2 n) = (\<Sum>n<N. node_c m1 n + (if n = ?i then ?hi - ?lo + 1 else 0))"
        by (rule sum.cong) (auto simp: q(2) m3_def)
      also have "\<dots> = ?lo + (?hi - ?lo + 1)" using h(1,3) dn by (simp add: sum.distrib)
      finally show ?thesis by simp
    qed
    have mn: "node_min m2 n = (if q > int ?i \<and> n = ?i + 1 then ?hi + 1 else node_min m1 n)"
      and mx: "node_max m2 n = (if n = ?i then ?hi else node_max m1 n)" for n by (simp_all add: q(2) m3_def)
    have "numaNodePerObjects u \<le> init \<and> maxID u < ?hi + 1 \<and> node_min m2 (numaNodePerObjects u) \<le> minID u
        \<and> maxID u \<le> node_max m2 (numaNodePerObjects u)" if u: "u \<in> set (startups st @ [t])" "minID u \<le> maxID u" for u
    proof (cases "u = t")
      case True
      then show ?thesis using h(4) dn t q(3) by (simp add: mn mx)
    next
      case ne: False
      then have "u \<in> set (startups st)" using u(1) by simp
      from h(5) [OF this u(2)] show ?thesis using dn False q(3) by (auto simp: mn mx)
    qed
    moreover have "node_min m2 init \<le> ?hi + 1" using h(4) dn False by (auto simp: mn q(3))
    moreover have "init < N" using q(3) qN h(1) by auto
    moreover have "NUMA_NODES m2 = N" by (simp add: q(2) m3_def m1(1))
    ultimately show ?thesis using s dn h(2) k by (simp add: node_inv_def Let_def)
  qed
qed

lemma assign_threads_inv:
  assumes "float_rounding flt" "close_rounding cfg" "N \<le> 128" "2 \<le> N" "0 < OBJECTS cfg" "OBJECTS cfg \<le> 2 ^ 23"
    and "node_inv (OBJECTS cfg) N st" and "0 < ceil_ratio flt (OBJECTS cfg) (THREADS cfg)"
    and "assign_threads cfg flt is st = Some (Inr st')" and "numaNodeRound st < N"
  shows "node_inv (OBJECTS cfg) N st'
    \<and> current_min st' = current_min st + int (length is) * ceil_ratio flt (OBJECTS cfg) (THREADS cfg)"
  using assms(7,9,10)
proof (induction "is" arbitrary: st)
  case Nil
  then show ?case by simp
next
  case (Cons i "is")
  let ?k = "ceil_ratio flt (OBJECTS cfg) (THREADS cfg)" and ?O = "int (OBJECTS cfg)"
  obtain st1 where 1: "assign_thread cfg flt i st = Some (Inr st1)" "assign_threads cfg flt is st1 = Some (Inr st')"
    using Cons.prems(2) by (auto split: option.splits sum.splits)
  have N: "NUMA_NODES (mach st) = N" using Cons.prems(1) by (simp add: node_inv_def Let_def)
  obtain cpu node m1 turn where p: "pick_cpu (mach st) (numaNodeRound st) = Some (cpu, node, m1, turn)"
    using 1(1) N assms(4) by (auto simp: assign_thread_def Let_def split: option.splits if_splits)
  have tk: "cpu_taken (mach st) (cpu, node, m1, turn)" using pick_cpu_result [OF p] Cons.prems(3) N by simp
  define t where "t = \<lparr>vTID = i, minID = current_min st, maxID = thread_hi ?O (current_min st) ?k, cpuID = cpu,
    numaNodeID = node, numaNodePerObjects = numaNodeInit st\<rparr>"
  obtain m2 init where a: "assign_node cfg (fdiv flt (OBJECTS cfg) N) (minID t) (maxID t) m1 (numaNodeInit st) = Inr (m2, init)"
    "st1 = \<lparr>mach = m2, startups = startups st @ [t], current_min = current_min st + ?k, numaNodeRound = turn, numaNodeInit = init\<rparr>"
    using 1(1) N assms(4) p by (auto simp: assign_thread_def Let_def and_then_eq_Inr t_def thread_hi_def)
  have m1: "NUMA_NODES m1 = N" "node_c m1 = node_c (mach st)" "node_min m1 = node_min (mach st)" "node_max m1 = node_max (mach st)"
    and turn: "turn < N" using tk N by (auto simp: cpu_taken_def take_cpu_def)
  have "node_inv (OBJECTS cfg) N st1"
    unfolding a(2) by (rule assign_node_inv [OF assms(1-3,5,6) Cons.prems(1) assms(8) _ _ _ m1 a(1)]) (simp_all add: t_def)
  from Cons.IH [OF this 1(2)] turn a(2) show ?case by (simp add: algebra_simps)
qed

lemma ceil_ratio_covers:
  assumes "0 < b" and "float_rounding flt" "b \<le> 2 ^ 24" "a \<le> 2 ^ 23"
  shows "int a \<le> ceil_ratio flt a b * int b" and "0 < a \<Longrightarrow> 0 < ceil_ratio flt a b"
proof -
  have k: "ceil_ratio flt a b = (int a + int b - 1) div int b" by (rule ceil_ratio_eq [OF assms(2,1,3,4)])
  have "(int a + int b - 1) div int b * int b + (int a + int b - 1) mod int b = int a + int b - 1" by simp
  moreover have "(int a + int b - 1) mod int b < int b" using assms(1) by simp
  ultimately show c: "int a \<le> ceil_ratio flt a b * int b" unfolding k by linarith
  show "0 < ceil_ratio flt a b" if "0 < a"
  proof -
    have "0 < ceil_ratio flt a b * int b" using c that by linarith
    then show ?thesis using assms(1) by (simp add: zero_less_mult_iff)
  qed
qed

text \<open>
  On a machine with several NUMA nodes the counters of \<open>main\<close> account for all objects, and
  the objects of every thread lie between the \<open>min\<close> and the \<open>max\<close> recorded for the node that hosts them,
  which is a node of the machine: rounding never pushes the node index past the last one.
\<close>

theorem numa_nodes_cover:
  assumes "float_rounding flt" "close_rounding cfg" and "0 < THREADS cfg" "THREADS cfg \<le> 2 ^ 24"
    and "0 < OBJECTS cfg" "OBJECTS cfg \<le> 2 ^ 23" and "2 \<le> NUMA_NODES m" "NUMA_NODES m \<le> 128"
    and "node_c m = (\<lambda>_. 0)" "node_min m = (\<lambda>_. 0)" and "engine_assign cfg flt m = Some (Inr st)"
  shows "(\<Sum>n < NUMA_NODES m. node_c (mach st) n) = int (OBJECTS cfg)
    \<and> (\<forall>t \<in> set (startups st). minID t \<le> maxID t \<longrightarrow> numaNodePerObjects t < NUMA_NODES m
         \<and> node_min (mach st) (numaNodePerObjects t) \<le> minID t \<and> maxID t \<le> node_max (mach st) (numaNodePerObjects t))"
proof -
  let ?k = "ceil_ratio flt (OBJECTS cfg) (THREADS cfg)"
  let ?st0 = "\<lparr>mach = m, startups = [], current_min = 0, numaNodeRound = 0, numaNodeInit = 0\<rparr>"
  note kc = ceil_ratio_covers [OF assms(3,1,4,6)]
  have "node_inv (OBJECTS cfg) (NUMA_NODES m) ?st0" using assms(7,9,10) by (simp add: node_inv_def)
  from assign_threads_inv [OF assms(1,2,8,7,5,6) this kc(2) assms(11) [unfolded engine_assign_def]] assms(5,7)
  have inv: "node_inv (OBJECTS cfg) (NUMA_NODES m) st" and cur: "current_min st = int (THREADS cfg) * ?k" by simp_all
  have "min (int (OBJECTS cfg)) (current_min st) = int (OBJECTS cfg)" using kc(1) cur by (simp add: mult.commute)
  then show ?thesis using inv by (auto simp: node_inv_def Let_def)
qed

definition demo_config :: "nat \<Rightarrow> nat \<Rightarrow> config" where
  "demo_config threads objects = \<lparr>THREADS = threads, OBJECTS = objects, LOOKAHEAD = 1, SPECULATION = True,
     AVOID_THROTTLING = False, rnd = (\<lambda>x. x)\<rparr>"

definition demo_machine :: machine where
  "demo_machine = initial_machine\<lparr>NUMA_NODES := 2, cpu_id_per_numa_node := (\<lambda>n. if n = 0 then [0, 1] else [2, 3])\<rparr>"

lemma exact_rounding: "float_rounding (\<lambda>x. x)" "close_rounding (demo_config t n)"
  by (simp_all add: float_rounding_def close_rounding_def demo_config_def)

lemma demo_ratio: "ceil_ratio (\<lambda>x. x) 7 3 = 3"
  using ceil_ratio_eq [OF exact_rounding(1), of 3 7] by simp

lemma demo_three: "[0..<3] = [0, 1, 2::nat]"
  by (simp add: upt_rec)

lemma demo_assign: "\<exists>st. engine_assign (demo_config 3 7) (\<lambda>x. x) demo_machine = Some (Inr st)"
proof -
  have fl: "\<lfloor>(4::real) / 7\<rfloor> = 0" "\<lfloor>(10::real) / 7\<rfloor> = 1" "\<lfloor>(12::real) / 7\<rfloor> = 1"
    by (simp_all add: floor_eq_iff)
  show ?thesis
    by (simp add: engine_assign_def demo_three demo_config_def assign_thread_def demo_ratio demo_machine_def initial_machine_def
        pick_cpu.simps take_cpu_def assign_node_def ddiv_def fdiv_def int_of_double_def trunc_double_def fits_int32_def fl
        MAX_NUMA_NODES_def Let_def)
qed

theorem objects_partitioned_witness:
  "\<exists>st. engine_assign (demo_config 3 7) (\<lambda>x. x) demo_machine = Some (Inr st) \<and> length (startups st) = 3
    \<and> (\<exists>!i. i < 3 \<and> minID (startups st ! i) \<le> 6 \<and> 6 \<le> maxID (startups st ! i))"
proof -
  obtain st where st: "engine_assign (demo_config 3 7) (\<lambda>x. x) demo_machine = Some (Inr st)" using demo_assign by blast
  then show ?thesis using objects_partitioned [OF exact_rounding(1) _ _ _ st, of 6] by (simp add: demo_config_def)
qed

theorem numa_nodes_cover_witness:
  "\<exists>st. engine_assign (demo_config 3 7) (\<lambda>x. x) demo_machine = Some (Inr st)
    \<and> (\<Sum>n < 2. node_c (mach st) n) = 7"
proof -
  obtain st where st: "engine_assign (demo_config 3 7) (\<lambda>x. x) demo_machine = Some (Inr st)" using demo_assign by blast
  have "NUMA_NODES demo_machine = 2" "node_c demo_machine = (\<lambda>_. 0)" "node_min demo_machine = (\<lambda>_. 0)"
    by (simp_all add: demo_machine_def initial_machine_def)
  then show ?thesis using numa_nodes_cover [OF exact_rounding _ _ _ _ _ _ _ _ st] st by (simp add: demo_config_def)
qed

section \<open>Worker threads\<close>

text \<open>
  What a worker calls, over an arbitrary state \<open>'w\<close>: the set-up of the allocator of the current object, the
  model, the pointers to the seeds it publishes, the checkpoint, the barrier, the pinning to a CPU, and
  \<open>GetEvent\<close>, which gives an event or none. \<open>current\<close> is the first argument of the calls that read it.
\<close>

record 'w callees =
  pin_to_cpu :: "int \<Rightarrow> 'w \<Rightarrow> 'w outcome"
  allocator_setup :: "int \<Rightarrow> 'w \<Rightarrow> 'w outcome"
  process_event :: "int \<Rightarrow> real \<Rightarrow> int \<Rightarrow> byte list \<Rightarrow> int \<Rightarrow> 'w \<Rightarrow> 'w outcome"
  publish_seeds :: "int \<Rightarrow> 'w \<Rightarrow> 'w outcome"
  take_ckpt :: "int \<Rightarrow> 'w \<Rightarrow> 'w outcome"
  wait_barrier :: "'w \<Rightarrow> 'w outcome"
  next_event :: "'w \<Rightarrow> (event_buffer option \<times> 'w) outcome"

definition start_object :: "config \<Rightarrow> 'w callees \<Rightarrow> int \<Rightarrow> 'w \<Rightarrow> 'w outcome" where
  "start_object cfg f ob w =
     and_then (allocator_setup f ob w) (\<lambda>w1.
     and_then (process_event f ob STARTUP_TIME INIT [] 0 w1) (\<lambda>w2.
     and_then (publish_seeds f ob w2) (\<lambda>w3.
       if SPECULATION cfg then take_ckpt f ob w3 else Inr w3)))"

fun start_objects :: "config \<Rightarrow> 'w callees \<Rightarrow> int list \<Rightarrow> 'w \<Rightarrow> 'w outcome" where
  "start_objects cfg f [] w = Inr w"
| "start_objects cfg f (ob # obs) w = and_then (start_object cfg f ob w) (start_objects cfg f obs)"

partial_function (option) event_loop :: "'w callees \<Rightarrow> 64 word \<Rightarrow> 'w \<Rightarrow> (64 word \<times> 'w) outcome option" where
  "event_loop f processed w =
     (case next_event f w of
        Inl e \<Rightarrow> Some (Inl e)
      | Inr (found, w1) \<Rightarrow>
          (case found of
             None \<Rightarrow> Some (Inr (processed, w1))
           | Some ev \<Rightarrow>
               (case process_event f (destination ev) (timestamp ev) (event_type ev) (payload ev) (event_size ev) w1 of
                  Inl e \<Rightarrow> Some (Inl e)
                | Inr w2 \<Rightarrow> event_loop f (processed + 1) w2)))"

text \<open>\<open>got\<close> tells whether the buffer of the loop could be allocated.\<close>

definition worker_thread ::
  "config \<Rightarrow> 'w callees \<Rightarrow> bool \<Rightarrow> thread_startup \<Rightarrow> 'w \<Rightarrow> (64 word \<times> 'w) outcome option" where
  "worker_thread cfg f got info w =
     (case and_then (pin_to_cpu f (cpuID info) w) (\<lambda>w1.
           and_then (start_objects cfg f [minID info..maxID info] w1) (\<lambda>w2.
           and_then (wait_barrier f w2) (\<lambda>w3. if got then Inr w3 else Inl Exit_Failure))) of
        Inl e \<Rightarrow> Some (Inl e)
      | Inr w3 \<Rightarrow> event_loop f 0 w3)"

text \<open>The events a run of the loop is served, in order.\<close>

inductive serves :: "'w callees \<Rightarrow> 'w \<Rightarrow> event_buffer list \<Rightarrow> 'w \<Rightarrow> bool" for f where
  serves_end: "next_event f w = Inr (None, w') \<Longrightarrow> serves f w [] w'"
| serves_event: "next_event f w = Inr (Some ev, w1) \<Longrightarrow>
    process_event f (destination ev) (timestamp ev) (event_type ev) (payload ev) (event_size ev) w1 = Inr w2 \<Longrightarrow>
    serves f w2 evs w' \<Longrightarrow> serves f w (ev # evs) w'"

lemma event_loop_serves:
  "serves f w evs w' \<Longrightarrow> event_loop f k w = Some (Inr (k + of_nat (length evs), w'))"
proof (induction arbitrary: k rule: serves.induct)
  case (serves_end w w')
  then show ?case by (subst event_loop.simps) simp
next
  case (serves_event w ev w1 w2 evs w')
  have "event_loop f k w = event_loop f (k + 1) w2" using serves_event.hyps(1,2) by (subst event_loop.simps) simp
  then show ?case using serves_event.IH [of "k + 1"] by (simp add: algebra_simps)
qed

lemma serves_event_loop:
  assumes "event_loop f k w = Some r"
  shows "\<forall>p. r = Inr p \<longrightarrow> (\<exists>evs. serves f w evs (snd p) \<and> fst p = k + of_nat (length evs))"
proof (rule event_loop.raw_induct [OF _ assms])
  fix loop :: "'a callees \<Rightarrow> 64 word \<Rightarrow> 'a \<Rightarrow> (64 word \<times> 'a) outcome option" and f :: "'a callees" and k w r
  assume IH: "\<And>f k w r. loop f k w = Some r \<Longrightarrow>
      \<forall>p. r = Inr p \<longrightarrow> (\<exists>evs. serves f w evs (snd p) \<and> fst p = k + of_nat (length evs))"
    and eq: "(case next_event f w of
        Inl e \<Rightarrow> Some (Inl e)
      | Inr (found, w1) \<Rightarrow>
          (case found of
             None \<Rightarrow> Some (Inr (k, w1))
           | Some ev \<Rightarrow>
               (case process_event f (destination ev) (timestamp ev) (event_type ev) (payload ev) (event_size ev) w1 of
                  Inl e \<Rightarrow> Some (Inl e)
                | Inr w2 \<Rightarrow> loop f (k + 1) w2))) = Some r"
  show "\<forall>p. r = Inr p \<longrightarrow> (\<exists>evs. serves f w evs (snd p) \<and> fst p = k + of_nat (length evs))"
  proof (intro allI impI)
    fix p assume p: "r = Inr p"
    then obtain found w1 where n: "next_event f w = Inr (found, w1)" using eq by (cases "next_event f w") auto
    show "\<exists>evs. serves f w evs (snd p) \<and> fst p = k + of_nat (length evs)"
    proof (cases found)
      case None
      then show ?thesis using eq n p by (intro exI [of _ "[]"]) (auto intro: serves_end)
    next
      case (Some ev)
      then obtain w2 where pe: "process_event f (destination ev) (timestamp ev) (event_type ev) (payload ev) (event_size ev) w1 = Inr w2"
        and l: "loop f (k + 1) w2 = Some r" using eq n p by (auto split: sum.splits)
      from IH [OF l] p obtain evs where "serves f w2 evs (snd p)" "fst p = k + 1 + of_nat (length evs)" by auto
      then show ?thesis using serves_event [OF n [unfolded Some] pe] by (intro exI [of _ "ev # evs"]) simp
    qed
  qed
qed

text \<open>
  The loop of a worker returns exactly when \<open>GetEvent\<close>, after finitely many events that the
  model processes, has none left; the events have then been processed one by one in the order \<open>GetEvent\<close>
  gave them, and the counter of the thread has grown by their number, modulo \<open>2^64\<close>.
\<close>

theorem event_loop_returns:
  "event_loop f k w = Some (Inr (k', w')) \<longleftrightarrow> (\<exists>evs. serves f w evs w' \<and> k' = k + of_nat (length evs))"
  using event_loop_serves [of f w _ w' k] serves_event_loop [of f k w "Inr (k', w')"] by auto

section \<open>Statistics of the benchmark build\<close>

definition t_table :: "real list" where
  "t_table = [12.706, 4.303, 3.182, 2.776, 2.571, 2.447, 2.365, 2.306, 2.262, 2.228, 2.201, 2.179, 2.160, 2.145, 2.131,
     2.120, 2.110, 2.101, 2.093, 2.086, 2.080, 2.074, 2.069, 2.064, 2.060, 2.056, 2.052, 2.048, 2.045, 2.042]"

definition get_t_value :: "int \<Rightarrow> real" where
  "get_t_value df = (if 1 \<le> df \<and> df \<le> 30 then t_table ! nat (df - 1) else if df > 30 then 1.96 else 1.96)"

definition sum_samples :: "config \<Rightarrow> real list \<Rightarrow> real" where
  "sum_samples cfg xs = fold (\<lambda>x acc. dadd cfg acc x) xs 0"

text \<open>With fewer than two samples a quotient has a zero divisor; the results are then not numbers.\<close>

definition mean_ci_95 :: "config \<Rightarrow> real list \<Rightarrow> (real \<times> real) option" where
  "mean_ci_95 cfg samples =
     (let n = length samples in
      if n < 2 then None
      else
        let mean = ddiv cfg (sum_samples cfg samples) (real n);
            var = fold (\<lambda>x acc. let d = dsub cfg x mean in dadd cfg acc (dmul cfg d d)) samples 0;
            sd = rnd cfg (sqrt (ddiv cfg var (real (n - 1))));
            sem = ddiv cfg sd (rnd cfg (sqrt (real n)))
        in Some (mean, dmul cfg (get_t_value (int n - 1)) sem))"

lemma get_t_value_bounds: "1.96 \<le> get_t_value df \<and> get_t_value df \<le> 12.706"
proof -
  have "\<forall>x \<in> set t_table. 1.96 \<le> x \<and> x \<le> 12.706" by (simp add: t_table_def)
  moreover have "length t_table = 30" by (simp add: t_table_def)
  ultimately show ?thesis by (auto simp: get_t_value_def)
qed

lemma fold_add: "fold (\<lambda>x acc. acc + g x) xs (a :: real) = a + sum_list (map g xs)"
  by (induction xs arbitrary: a) auto

lemma sum_list_const: "sum_list (map (\<lambda>x. x :: real) (replicate n a)) = real n * a"
  by (induction n) (auto simp: algebra_simps)

text \<open>In exact arithmetic, equal samples have themselves as mean and an interval of width zero.\<close>

lemma mean_ci_95_constant:
  assumes "rnd cfg = (\<lambda>x. x)" and "2 \<le> n"
  shows "mean_ci_95 cfg (replicate n a) = Some (a, 0)"
proof -
  have s: "sum_samples cfg (replicate n a) = real n * a"
    using fold_add [of "\<lambda>x. x" "replicate n a" 0] sum_list_const [of n a] assms(1) by (simp add: sum_samples_def dadd_def)
  have "fold (\<lambda>x acc. acc + (x - a) * (x - a)) (replicate n a) 0 = (0 :: real)"
    by (induction n) auto
  then show ?thesis using assms s by (simp add: mean_ci_95_def Let_def ddiv_def dsub_def dadd_def dmul_def)
qed

text \<open>The throughputs of \<open>main\<close>: the counters of the threads are read and reset once per period.\<close>

definition throughput :: "(real \<Rightarrow> real) \<Rightarrow> nat \<Rightarrow> 64 word list \<Rightarrow> real" where
  "throughput flt PERIOD counters = flt (flt (real (unat (sum_list counters))) / flt (real PERIOD))"

end
