(* ===== verification/Disasm.thy ===== *)
theory Disasm
  imports Instruction C_Strings
begin

text \<open>
  The parser of the disassembly in \<open>MVM_CHUNK/src/_elf_parse.c\<close>: from the lines of \<open>objdump\<close> to the records
  of the stores to instrument. A file is the list of its lines, each with its newline; \<open>None\<close> stands for a
  file that cannot be opened.
\<close>

section \<open>Registers and sizes\<close>

definition get_register_index :: "string \<Rightarrow> int" where
  "get_register_index r = (if r = ''%rax'' then 11 else if r = ''%rdx'' then 13 else -2)"

definition registers32 :: "string list" where
  "registers32 = [''%eax'', ''%ebx'', ''%ecx'', ''%edx'', ''%r8d'', ''%r9d'', ''%r10d'', ''%r11d'', ''%r12d'', ''%r13d'',
     ''%r14d'', ''%r15d'', ''%esi'', ''%edi'']"

definition registers16 :: "string list" where
  "registers16 = [''%ax'', ''%bx'', ''%cx'', ''%dx'', ''%r8w'', ''%r9w'', ''%r10w'', ''%r11w'', ''%r12w'', ''%r13w'',
     ''%r14w'', ''%r15w'', ''%si'', ''%di'']"

definition registers8 :: "string list" where
  "registers8 = [''%al'', ''%bl'', ''%cl'', ''%dl'', ''%r8b'', ''%r9b'', ''%r10b'', ''%r11b'', ''%r12b'', ''%r13b'',
     ''%r14b'', ''%r15b'', ''%sil'', ''%dil'']"

definition operands_check :: "string \<Rightarrow> string \<Rightarrow> char \<Rightarrow> int" where
  "operands_check src dst ty =
     (let reg = (if ty = CHR ''s'' then src else dst) in
      if reg \<in> set registers32 then 4 else if reg \<in> set registers16 then 2 else if reg \<in> set registers8 then 1 else 8)"

definition get_data_size :: "string \<Rightarrow> string \<Rightarrow> string \<Rightarrow> char \<Rightarrow> int" where
  "get_data_size instruction src dst ty =
     (if instruction = ''movb'' then 1 else if instruction = ''movl'' then 4 else if instruction = ''movq'' then 8
      else if instruction = ''movss'' then 4 else if instruction = ''movsd'' then 8 else if instruction = ''movzwl'' then 4
      else if instruction = ''movzbl'' then 4 else if instruction = ''movzbw'' then 4 else if instruction = ''movsbl'' then 4
      else if instruction = ''mov'' then operands_check src dst ty else -1)"

section \<open>Strings cut by \<open>strtok\<close>\<close>

text \<open>
  The buffer after \<open>strtok\<close> has gone through all of it: the delimiter behind every token is a terminator.
  \<open>c_string\<close> is the string at a position, \<open>next_string\<close> the position behind its terminator.
\<close>

fun cut :: "char set \<Rightarrow> bool \<Rightarrow> string \<Rightarrow> string" where
  "cut delims in_token [] = []"
| "cut delims in_token (ch # cs) =
     (if ch \<in> delims then (if in_token then CHR 0x00 # cut delims False cs else ch # cut delims False cs)
      else ch # cut delims True cs)"

definition c_string :: "string \<Rightarrow> string" where "c_string s = takeWhile (\<lambda>ch. ch \<noteq> CHR 0x00) s"

definition next_string :: "string \<Rightarrow> string" where "next_string s = tl (dropWhile (\<lambda>ch. ch \<noteq> CHR 0x00) s)"

text \<open>What a buffer holds after one call of \<open>strtok\<close>.\<close>

definition first_cut :: "char set \<Rightarrow> string \<Rightarrow> string" where
  "first_cut delims s = c_string (cut delims False s)"

section \<open>Operands\<close>

definition no_target :: target_address where
  "no_target = \<lparr>displacement = 0, base_index = 0, scale_index = 0, scale = 0\<rparr>"

text \<open>
  The registers of an operand, by the number of arguments. \<open>gri\<close> is the table \<open>get_register_index\<close> of the
  monitor.
\<close>

definition parse_registers :: "(string \<Rightarrow> int) \<Rightarrow> nat \<Rightarrow> string \<Rightarrow> target_address \<Rightarrow> target_address" where
  "parse_registers gri k p t =
     (if k = 1 then t\<lparr>base_index := gri (c_string p)\<rparr>
      else if k = 3 then
        let p1 = next_string p; p2 = next_string p1 in
        t\<lparr>base_index := gri (c_string p), scale_index := gri (c_string p1),
          scale := word_of_int (strtol 16 (c_string p2))\<rparr>
      else t)"

text \<open>\<open>-0x..\<close> or \<open>0x..\<close> at the head of a buffer.\<close>

definition signed_hex :: "string \<Rightarrow> 64 word" where
  "signed_hex d = (case d of
     [] \<Rightarrow> strtoul 16 d
   | ch # cs \<Rightarrow> if ch = CHR ''-'' then - strtoul 16 cs else strtoul 16 d)"

definition parse_operand :: "(string \<Rightarrow> int) \<Rightarrow> string \<Rightarrow> target_address outcome" where
  "parse_operand gri temp_line =
     (if take 1 temp_line \<noteq> ''('' then
        (case strtok {CHR ''(''} temp_line of
           None \<Rightarrow> Inl Undefined
         | Some (d, rest) \<Rightarrow>
             (case strtok {CHR ''(''} rest of
                None \<Rightarrow> Inl Undefined
              | Some (p, rest2) \<Rightarrow>
                  let delims = {CHR '','', CHR '')''} in
                  Inr (parse_registers gri (max 1 (length (tokens delims p))) (cut delims False p)
                         (no_target\<lparr>displacement := signed_hex d\<rparr>))))
      else
        let delims = {CHR ''('', CHR '','', CHR '')''}; p = dropWhile (\<lambda>ch. ch \<in> delims) temp_line in
        if p = [] then Inl Undefined
        else Inr (parse_registers gri (max 1 (length (tokens delims p))) (cut delims False p) no_target))"

section \<open>Lines\<close>

definition BLOCK :: nat where "BLOCK = 128"

definition candidate :: "string \<Rightarrow> bool" where
  "candidate buf \<longleftrightarrow> has_text buf ''mov'' \<and> has_text buf '')'' \<and> \<not> has_text buf ''(%rbp,'' \<and> \<not> has_text buf ''(%rsp,''
     \<and> \<not> has_text buf ''(%rbp)'' \<and> \<not> has_text buf ''(%rsp)''"

definition replace_comma :: "string \<Rightarrow> string" where
  "replace_comma p = takeWhile (\<lambda>ch. ch \<noteq> CHR '','') p @ CHR '' '' # tl (dropWhile (\<lambda>ch. ch \<noteq> CHR '','') p)"

definition or_undefined :: "'a option \<Rightarrow> 'a outcome" where
  "or_undefined x = (case x of None \<Rightarrow> Inl Undefined | Some y \<Rightarrow> Inr y)"

definition store_record ::
  "string \<Rightarrow> 64 word \<Rightarrow> nat \<Rightarrow> char \<Rightarrow> nat \<Rightarrow> string \<Rightarrow> string \<Rightarrow> string \<Rightarrow> string \<Rightarrow> target_address \<Rightarrow> instruction_record" where
  "store_record fname addr len rip index p opc src dst t =
     \<lparr>record_index = int index, function_name = fname, address = addr, isize = len,
       indirect_jump = (if len < 5 then CHR ''y'' else CHR ''n''), middle_buffer = 0, type = CHR ''s'',
       rip_relative = rip,
       effective_operand_address = (if rip = CHR ''y'' then addr + of_nat len + signed_hex (first_cut {CHR ''(''} dst) else 0),
       whole = p, opcode = opc, source = src, dest = dst, data_size = get_data_size opc src dst (CHR ''s''),
       instrumentation_instructions = 0, target = t\<rparr>"

text \<open>An operand relative to the instruction pointer has its address in the record instead.\<close>

definition operand_of :: "char \<Rightarrow> string \<Rightarrow> target_address outcome" where
  "operand_of rip dst = (if rip = CHR ''y'' then Inr no_target else parse_operand get_register_index dst)"

text \<open>The text of an instruction, once its address and length are known.\<close>

definition parse_instruction ::
  "string \<Rightarrow> 64 word \<Rightarrow> nat \<Rightarrow> char \<Rightarrow> nat \<Rightarrow> string \<Rightarrow> instruction_record outcome" where
  "parse_instruction fname addr len rip index p =
     (if \<not> has_text p ''mov'' then Inl Exit_Failure
      else if BLOCK \<le> length p then Inl Undefined
      else if \<not> has_text p '','' then Inl Undefined
      else and_then (or_undefined (strtok {CHR '' ''} (replace_comma p))) (\<lambda>(opc, r1).
           and_then (or_undefined (strtok {CHR '' ''} r1)) (\<lambda>(src, r2).
           and_then (or_undefined (strtok {CHR '' ''} r2)) (\<lambda>(dst, r3).
           and_then (operand_of rip dst) (\<lambda>t.
             Inr (store_record fname addr len rip index p opc src dst t))))))"

text \<open>One line of a function; \<open>None\<close> when it is not a store to instrument.\<close>

definition parse_line :: "string \<Rightarrow> 64 word \<Rightarrow> nat \<Rightarrow> string \<Rightarrow> instruction_record option outcome" where
  "parse_line fname asl_randomization index line =
     (let buf = first_cut {CHR 0x0A} line in
      if \<not> candidate buf then Inr None
      else if has_text buf ''),'' then Inr None
      else
        let rip = (if has_text buf ''%rip'' then CHR ''y'' else CHR ''n''); delims = {CHR '':'', CHR 0x09} in
        and_then (or_undefined (strtok delims (first_cut {CHR ''#''} buf))) (\<lambda>(a, r1).
        and_then (or_undefined (strtok delims r1)) (\<lambda>(bin, r2).
        and_then (or_undefined (strtok delims r2)) (\<lambda>(p, r3).
        and_then (parse_instruction fname (word_of_int (strtol 16 a) + asl_randomization)
                    (length (filter (\<lambda>ch. ch \<noteq> CHR '' '') bin) div 2) rip index p) (\<lambda>ins.
          Inr (Some ins))))))"

text \<open>
  The lines of a function, up to an empty line. At the end of the file the code reads the same buffer
  again and again: \<open>None\<close>.
\<close>

fun parse_body ::
  "nat \<Rightarrow> string \<Rightarrow> 64 word \<Rightarrow> string list \<Rightarrow> instruction_record list \<Rightarrow> instruction_record list outcome option" where
  "parse_body NUM_INSTRUCTIONS fname asl [] ins = None"
| "parse_body NUM_INSTRUCTIONS fname asl (line # lines) ins =
     (if line = [CHR 0x0A] then Some (Inr ins)
      else case parse_line fname asl (length ins) line of
        Inl e \<Rightarrow> Some (Inl e)
      | Inr None \<Rightarrow> parse_body NUM_INSTRUCTIONS fname asl lines ins
      | Inr (Some r) \<Rightarrow>
          if length ins \<ge> NUM_INSTRUCTIONS then Some (Inl Undefined)
          else parse_body NUM_INSTRUCTIONS fname asl lines (ins @ [r]))"

fun find_function :: "string \<Rightarrow> string list \<Rightarrow> string list option" where
  "find_function fname [] = None"
| "find_function fname (line # lines) =
     (if has_text (first_cut {CHR 0x0A} line) fname then Some lines else find_function fname lines)"

fun parse_functions ::
  "nat \<Rightarrow> string list \<Rightarrow> 64 word \<Rightarrow> string list \<Rightarrow> instruction_record list \<Rightarrow> instruction_record list outcome option" where
  "parse_functions NUM_INSTRUCTIONS [] asl file ins = Some (Inr ins)"
| "parse_functions NUM_INSTRUCTIONS (f # fs) asl file ins =
     (case find_function f file of
        None \<Rightarrow> Some (Inl Exit_Failure)
      | Some lines \<Rightarrow>
          (case parse_body NUM_INSTRUCTIONS f asl lines ins of
             None \<Rightarrow> None
           | Some (Inl e) \<Rightarrow> Some (Inl e)
           | Some (Inr ins1) \<Rightarrow> parse_functions NUM_INSTRUCTIONS fs asl file ins1))"

definition elf_parse ::
  "nat \<Rightarrow> string list \<Rightarrow> 64 word \<Rightarrow> string list option \<Rightarrow> instruction_record list outcome option" where
  "elf_parse NUM_INSTRUCTIONS names asl the_file =
     (case the_file of None \<Rightarrow> Some (Inl Exit_Failure) | Some file \<Rightarrow> parse_functions NUM_INSTRUCTIONS names asl file [])"

section \<open>Addresses in the file\<close>

fun first_address :: "string \<Rightarrow> string list \<Rightarrow> 64 word" where
  "first_address name [] = 0"
| "first_address name (line # lines) =
     (let buf = first_cut {CHR 0x0A} line in
      if has_text buf name then word_of_int (strtol 16 (first_cut {CHR '' ''} buf)) else first_address name lines)"

definition find_elf_parse_compile_time_address :: "string list option \<Rightarrow> 64 word outcome" where
  "find_elf_parse_compile_time_address the_file =
     (case the_file of None \<Rightarrow> Inl Exit_Failure | Some file \<Rightarrow> Inr (first_address ''elf_parse'' file))"

text \<open>\<open>SIZE\<close> is the length of the array of zones.\<close>

fun collect_zones :: "nat \<Rightarrow> 64 word \<Rightarrow> string list \<Rightarrow> 64 word list \<Rightarrow> 64 word list outcome" where
  "collect_zones SIZE asl [] zones = Inr zones"
| "collect_zones SIZE asl (line # lines) zones =
     (let buf = first_cut {CHR 0x0A} line in
      if has_text buf ''<_wrap_main>:'' then Inr zones
      else if has_text buf (CHR 0x09 # ''cli'') then
        if length zones \<ge> SIZE then Inl Undefined
        else collect_zones SIZE asl lines (zones @ [word_of_int (strtol 16 (first_cut {CHR '':''} buf)) + asl])
      else collect_zones SIZE asl lines zones)"

definition find_intermediate_zones :: "nat \<Rightarrow> 64 word \<Rightarrow> string list option \<Rightarrow> 64 word list outcome" where
  "find_intermediate_zones SIZE asl the_file =
     (case the_file of None \<Rightarrow> Inl Exit_Failure | Some file \<Rightarrow> collect_zones SIZE asl file [])"

section \<open>Printed operands are read back\<close>

text \<open>Operands as \<open>objdump\<close> prints them: a signed displacement, a base, an index with its scale.\<close>

definition hex_digit :: "nat \<Rightarrow> char" where
  "hex_digit n = (if n < 10 then char_of (48 + n) else char_of (87 + n))"

fun hex_string :: "nat \<Rightarrow> string" where
  "hex_string n = (if n < 16 then [hex_digit n] else hex_string (n div 16) @ [hex_digit (n mod 16)])"

declare hex_string.simps [simp del]

definition print_operand :: "(bool \<times> nat) option \<Rightarrow> string \<Rightarrow> (string \<times> nat) option \<Rightarrow> string" where
  "print_operand disp base ix =
     (case disp of None \<Rightarrow> [] | Some (neg, n) \<Rightarrow> (if neg then ''-'' else []) @ ''0x'' @ hex_string n)
     @ ''('' @ base @ (case ix of None \<Rightarrow> [] | Some (r, s) \<Rightarrow> '','' @ r @ '','' @ hex_string s) @ '')''"

lemma hex_digit_code: "n < 16 \<Longrightarrow> char_code (hex_digit n) = (if n < 10 then 48 + n else 87 + n)"
  by (simp add: hex_digit_def)

lemma hex_digit_value: "n < 16 \<Longrightarrow> digit_value (hex_digit n) = n"
  by (simp add: digit_value_def hex_digit_code)

lemma digits_value_hex: "digits_value 16 acc (hex_string n @ r) = digits_value 16 (acc * 16 ^ length (hex_string n) + int n) r"
proof (induction n arbitrary: acc r rule: hex_string.induct)
  case (1 n)
  show ?case
  proof (cases "n < 16")
    case True
    then show ?thesis by (simp add: hex_string.simps [of n] hex_digit_value)
  next
    case False
    have "int n = int (n div 16) * 16 + int (n mod 16)" by (metis div_mult_mod_eq of_nat_add of_nat_mult of_nat_numeral)
    then show ?thesis
      using 1 [OF False, of acc "hex_digit (n mod 16) # r"] False
      by (simp add: hex_string.simps [of n] hex_digit_value algebra_simps)
  qed
qed

lemma hex_string_code: "ch \<in> set (hex_string n) \<Longrightarrow> 48 \<le> char_code ch \<and> char_code ch \<le> 57 \<or> 97 \<le> char_code ch \<and> char_code ch \<le> 102"
proof (induction n rule: hex_string.induct)
  case (1 n)
  have d: "48 \<le> char_code (hex_digit k) \<and> char_code (hex_digit k) \<le> 57 \<or> 97 \<le> char_code (hex_digit k) \<and> char_code (hex_digit k) \<le> 102"
    if "k < 16" for k using that by (auto simp: hex_digit_code)
  show ?case using 1 d [of n] d [of "n mod 16"] by (cases "n < 16") (auto simp: hex_string.simps [of n])
qed

lemma hex_string_not_Nil [simp]: "hex_string n \<noteq> []"
  by (simp add: hex_string.simps [of n])

lemma hex_string_Cons: "\<exists>ch cs. hex_string n = ch # cs \<and> digit_value ch < 16 \<and> \<not> is_space ch \<and> ch \<noteq> CHR ''-'' \<and> ch \<noteq> CHR ''+''"
proof -
  obtain ch cs where h: "hex_string n = ch # cs" by (cases "hex_string n") auto
  then have c: "48 \<le> char_code ch \<and> char_code ch \<le> 57 \<or> 97 \<le> char_code ch \<and> char_code ch \<le> 102"
    using hex_string_code [of ch n] by simp
  then have "ch \<noteq> CHR ''-''" "ch \<noteq> CHR ''+''" by auto
  then show ?thesis using h c by (intro exI [of _ ch] exI [of _ cs]) (auto simp: digit_value_def Let_def is_space_def)
qed

lemma signed_value_prefixed: "signed_value 16 (''0x'' @ hex_string n) = int n"
proof -
  obtain ch cs where h: "hex_string n = ch # cs" "digit_value ch < 16" using hex_string_Cons by blast
  have "digits_value 16 0 (hex_string n) = int n" using digits_value_hex [of 0 n "[]"] by simp
  then show ?thesis using h by (simp add: signed_value_def strip_prefix_def is_space_def)
qed

lemma hex_string_small: "n < 16 \<Longrightarrow> hex_string n = [hex_digit n]"
  by (simp add: hex_string.simps [of n])

lemma signed_value_digit: "n < 16 \<Longrightarrow> signed_value 16 (hex_string n) = int n"
  using hex_string_Cons [of n] by (auto simp: signed_value_def hex_string_small strip_prefix_def hex_digit_value)

lemma signed_hex_printed:
  assumes "n < 2 ^ 64"
  shows "signed_hex ((if neg then ''-'' else []) @ ''0x'' @ hex_string n) = (if neg then - of_nat n else of_nat n)"
proof -
  have "int n < 2 ^ 64" using assms by (metis of_nat_less_iff of_nat_numeral of_nat_power)
  then have "strtoul 16 (''0x'' @ hex_string n) = of_nat n"
    using signed_value_prefixed [of n] by (simp add: strtoul_def Let_def)
  then show ?thesis by (simp add: signed_hex_def)
qed

text \<open>Strings free of the delimiters and of terminators.\<close>

definition plain :: "string \<Rightarrow> bool" where
  "plain s \<longleftrightarrow> s \<noteq> [] \<and> set s \<inter> {CHR ''('', CHR '','', CHR '')'', CHR 0x00} = {}"

lemma cut_append: "set t \<inter> delims = {} \<Longrightarrow> t \<noteq> [] \<Longrightarrow> cut delims b (t @ s) = t @ cut delims True s"
proof (induction t arbitrary: b)
  case (Cons ch t)
  then show ?case by (cases "t = []") auto
qed simp

lemma c_string_cut: "CHR 0x00 \<notin> set t \<Longrightarrow> c_string (t @ CHR 0x00 # r) = t" "CHR 0x00 \<notin> set t \<Longrightarrow> c_string t = t"
  "CHR 0x00 \<notin> set t \<Longrightarrow> next_string (t @ CHR 0x00 # r) = r"
proof -
  assume n: "CHR 0x00 \<notin> set t"
  then have a: "\<forall>ch \<in> set t. ch \<noteq> CHR 0x00" by auto
  show "c_string (t @ CHR 0x00 # r) = t" using a by (simp add: c_string_def takeWhile_append2)
  show "c_string t = t" using a by (simp add: c_string_def takeWhile_eq_all_conv)
  show "next_string (t @ CHR 0x00 # r) = r" using a by (simp add: next_string_def dropWhile_append2)
qed

definition printed_registers :: "string \<Rightarrow> (string \<times> nat) option \<Rightarrow> string" where
  "printed_registers base ix = base @ (case ix of None \<Rightarrow> [] | Some (r, s) \<Rightarrow> '','' @ r @ '','' @ hex_string s) @ '')''"

definition operand_target :: "(string \<Rightarrow> int) \<Rightarrow> (bool \<times> nat) option \<Rightarrow> string \<Rightarrow> (string \<times> nat) option \<Rightarrow> target_address" where
  "operand_target gri disp base ix =
     (let t = \<lparr>displacement = (case disp of None \<Rightarrow> 0 | Some (neg, n) \<Rightarrow> if neg then - of_nat n else of_nat n),
               base_index = gri base, scale_index = 0, scale = 0\<rparr> in
      case ix of None \<Rightarrow> t | Some (r, s) \<Rightarrow> t\<lparr>scale_index := gri r, scale := of_nat s\<rparr>)"

lemma plain_hex: "plain (hex_string n)"
  using hex_string_code [of _ n] by (fastforce simp: plain_def)

lemma cut_token: "plain t \<Longrightarrow> delims \<subseteq> {CHR ''('', CHR '','', CHR '')''} \<Longrightarrow> d \<in> delims \<Longrightarrow>
    cut delims b (t @ d # r) = t @ CHR 0x00 # cut delims False r \<and> tokens delims (t @ d # r) = t # tokens delims r"
proof -
  assume h: "plain t" "delims \<subseteq> {CHR ''('', CHR '','', CHR '')''}" "d \<in> delims"
  then have t: "t \<noteq> []" "set t \<inter> delims = {}" by (auto simp: plain_def)
  show ?thesis using cut_append [OF t(2,1)] tokens_token(1) [OF t h(3)] h(3) by simp
qed

lemma parse_registers_printed:
  assumes base: "plain base" and ix: "\<forall>r s. ix = Some (r, s) \<longrightarrow> plain r \<and> s < 16"
    and D: "delims \<subseteq> {CHR ''('', CHR '','', CHR '')''}" "CHR '','' \<in> delims" "CHR '')'' \<in> delims"
  shows "parse_registers gri (max 1 (length (tokens delims (printed_registers base ix)))) (cut delims False (printed_registers base ix))
      (no_target\<lparr>displacement := d\<rparr>)
    = (operand_target gri None base ix)\<lparr>displacement := d\<rparr>"
proof -
  have nul: "CHR 0x00 \<notin> set t" if "plain t" for t using that by (auto simp: plain_def)
  note ct = cut_token [OF _ D(1)]
  show ?thesis
  proof (cases ix)
    case None
    then show ?thesis using ct [OF base D(3), of False "[]"] nul [OF base]
      by (simp add: printed_registers_def parse_registers_def c_string_cut operand_target_def Let_def no_target_def)
  next
    case (Some p)
    then obtain r s where p: "ix = Some (r, s)" by (cases p) simp
    then have r: "plain r" "s < 16" using ix by auto
    let ?t3 = "hex_string s @ CHR '')'' # []"
    have 3: "cut delims b ?t3 = hex_string s @ CHR 0x00 # []" "tokens delims ?t3 = [hex_string s]" for b
      using ct [OF plain_hex [of s] D(3), of b "[]"] by simp_all
    have 2: "cut delims b (r @ CHR '','' # ?t3) = r @ CHR 0x00 # hex_string s @ CHR 0x00 # []"
      "tokens delims (r @ CHR '','' # ?t3) = [r, hex_string s]" for b
      using ct [OF r(1) D(2), of b ?t3] 3 by simp_all
    have 1: "cut delims False (printed_registers base ix) = base @ CHR 0x00 # r @ CHR 0x00 # hex_string s @ CHR 0x00 # []"
      "tokens delims (printed_registers base ix) = [base, r, hex_string s]"
      using ct [OF base D(2), of False "r @ CHR '','' # ?t3"] 2 by (simp_all add: printed_registers_def p)
    have "strtol 16 (hex_string s) = int s" using r(2) by (simp add: strtol_def signed_value_digit)
    then show ?thesis using 1 nul [OF base] nul [OF r(1)] nul [OF plain_hex [of s]]
      by (simp add: parse_registers_def c_string_cut operand_target_def p Let_def no_target_def)
  qed
qed

lemma parse_print_operand:
  assumes "plain base" and "\<forall>r s. ix = Some (r, s) \<longrightarrow> plain r \<and> s < 16" and "\<forall>neg n. disp = Some (neg, n) \<longrightarrow> n < 2 ^ 64"
  shows "parse_operand gri (print_operand disp base ix) = Inr (operand_target gri disp base ix)"
proof -
  let ?body = "printed_registers base ix"
  note pr = parse_registers_printed [OF assms(1,2)]
  have no_paren: "CHR ''('' \<notin> set ?body"
  proof -
    have "CHR ''('' \<notin> set base" using assms(1) by (auto simp: plain_def)
    moreover have "CHR ''('' \<notin> set r \<and> CHR ''('' \<notin> set (hex_string s)" if "ix = Some (r, s)" for r s
      using assms(2) that plain_hex [of s] by (auto simp: plain_def)
    ultimately show ?thesis by (auto simp: printed_registers_def split: option.splits)
  qed
  have head: "?body \<noteq> []" "\<exists>ch cs. ?body = ch # cs \<and> ch \<notin> {CHR ''('', CHR '','', CHR '')''}"
    using assms(1) by (cases base; auto simp: printed_registers_def plain_def)+
  show ?thesis
  proof (cases disp)
    case None
    then have e: "print_operand disp base ix = CHR ''('' # ?body" by (simp add: print_operand_def printed_registers_def)
    have "dropWhile (\<lambda>ch. ch \<in> {CHR ''('', CHR '','', CHR '')''}) (CHR ''('' # ?body) = ?body" using head(2) by auto
    then have run: "parse_operand gri (CHR ''('' # ?body) = Inr (parse_registers gri
        (max 1 (length (tokens {CHR ''('', CHR '','', CHR '')''} ?body))) (cut {CHR ''('', CHR '','', CHR '')''} False ?body)
        no_target)" using head(1) by (simp add: parse_operand_def Let_def)
    have "no_target = no_target\<lparr>displacement := 0\<rparr>" "(operand_target gri None base ix)\<lparr>displacement := 0\<rparr> = operand_target gri None base ix"
      by (simp_all add: no_target_def operand_target_def Let_def split: option.splits)
    then show ?thesis unfolding e run using None pr [where d = 0 and gri = gri and delims = "{CHR ''('', CHR '','', CHR '')''}"] by simp
  next
    case (Some p)
    then obtain neg n where p: "disp = Some (neg, n)" by (cases p) simp
    let ?d = "(if neg then ''-'' else []) @ ''0x'' @ hex_string n"
    have e: "print_operand disp base ix = ?d @ CHR ''('' # ?body" by (simp add: print_operand_def printed_registers_def p)
    have d: "?d \<noteq> []" "set ?d \<inter> {CHR ''(''} = {}" "take 1 (?d @ CHR ''('' # ?body) \<noteq> ''(''"
      using plain_hex [of n] by (auto simp: plain_def)
    have "strtok {CHR ''(''} (?d @ CHR ''('' # ?body) = Some (?d, ?body)" by (rule strtok_token(1) [OF d(1,2)]) simp
    moreover have "strtok {CHR ''(''} ?body = Some (?body, [])"
      by (rule strtok_token(2) [OF head(1)]) (use no_paren in auto)
    moreover have "signed_hex ?d = (if neg then - of_nat n else of_nat n)"
      using assms(3) p by (intro signed_hex_printed) simp
    ultimately have "parse_operand gri (?d @ CHR ''('' # ?body) = Inr (parse_registers gri
        (max 1 (length (tokens {CHR '','', CHR '')''} ?body))) (cut {CHR '','', CHR '')''} False ?body)
        (no_target\<lparr>displacement := if neg then - of_nat n else of_nat n\<rparr>))"
      using d(3) unfolding parse_operand_def by (simp only: if_P if_not_P option.case prod.case Let_def not_False_eq_True)
    moreover have "(operand_target gri None base ix)\<lparr>displacement := if neg then - of_nat n else of_nat n\<rparr> = operand_target gri disp base ix"
      by (simp add: operand_target_def p Let_def split: option.splits)
    ultimately show ?thesis unfolding e using pr [of "{CHR '','', CHR '')''}"] by simp
  qed
qed

text \<open>An operand without a base register loses its index: the record holds the displacement alone.\<close>

lemma parse_index_only:
  assumes "plain r" and "s < 16" and "\<forall>neg n. disp = Some (neg, n) \<longrightarrow> n < 2 ^ 64"
  shows "parse_operand gri (print_operand disp [] (Some (r, s))) =
    Inr (no_target\<lparr>displacement := (case disp of None \<Rightarrow> 0 | Some (neg, n) \<Rightarrow> if neg then - of_nat n else of_nat n)\<rparr>)"
proof -
  let ?b = "r @ CHR '','' # hex_string s @ CHR '')'' # []"
  have tk: "tokens delims ?b = [r, hex_string s]" if "delims \<subseteq> {CHR ''('', CHR '','', CHR '')''}" "CHR '','' \<in> delims" "CHR '')'' \<in> delims"
    for delims using cut_token [OF assms(1) that(1,2)] cut_token [OF plain_hex [of s] that(1,3), of False "[]"] by simp
  have nb: "CHR ''('' \<notin> set ?b" using assms(1) plain_hex [of s] by (auto simp: plain_def)
  show ?thesis
  proof (cases disp)
    case None
    have "dropWhile (\<lambda>ch. ch \<in> {CHR ''('', CHR '','', CHR '')''}) (CHR ''('' # CHR '','' # ?b) = ?b"
      using assms(1) by (cases r) (auto simp: plain_def)
    then have "parse_operand gri (CHR ''('' # CHR '','' # ?b) = Inr no_target"
      using tk [of "{CHR ''('', CHR '','', CHR '')''}"] by (simp add: parse_operand_def Let_def parse_registers_def)
    then show ?thesis using None by (simp add: print_operand_def no_target_def)
  next
    case (Some p)
    then obtain neg n where p: "disp = Some (neg, n)" by (cases p) simp
    let ?d = "(if neg then ''-'' else []) @ ''0x'' @ hex_string n"
    have d: "?d \<noteq> []" "set ?d \<inter> {CHR ''(''} = {}" using plain_hex [of n] by (auto simp: plain_def)
    have t: "take 1 (?d @ CHR ''('' # CHR '','' # ?b) \<noteq> ''(''" using d by (cases neg) simp_all
    have "strtok {CHR ''(''} (?d @ CHR ''('' # CHR '','' # ?b) = Some (?d, CHR '','' # ?b)" by (rule strtok_token(1) [OF d]) simp
    moreover have "strtok {CHR ''(''} (CHR '','' # ?b) = Some (CHR '','' # ?b, [])"
      by (rule strtok_token(2)) (use nb in auto)
    moreover have "tokens {CHR '','', CHR '')''} (CHR '','' # ?b) = [r, hex_string s]" by (simp add: tokens_skip tk)
    moreover have "signed_hex ?d = (if neg then - of_nat n else of_nat n)"
      using assms(3) p by (intro signed_hex_printed) simp
    ultimately have "parse_operand gri (?d @ CHR ''('' # CHR '','' # ?b) =
        Inr (no_target\<lparr>displacement := if neg then - of_nat n else of_nat n\<rparr>)"
      using t unfolding parse_operand_def
      by (simp only: if_P if_not_P option.case prod.case Let_def not_False_eq_True) (simp add: parse_registers_def)
    then show ?thesis using p by (simp add: print_operand_def)
  qed
qed

text \<open>
  Property C22. What becomes of an operand printed as a displacement (or none), a base register (or none), and an
  index register with its scale (or none, when there is a base). With a base register it is read back as printed: the
  displacement with its sign, the scale, and the numbers \<open>get_register_index\<close> gives the two registers. Without one the
  index and its scale are lost, and the record holds the displacement alone.
\<close>

theorem parse_operand_printed:
  assumes "plain base \<or> base = [] \<and> ix \<noteq> None" and "\<forall>r s. ix = Some (r, s) \<longrightarrow> plain r \<and> s < 16"
    and "\<forall>neg n. disp = Some (neg, n) \<longrightarrow> n < 2 ^ 64"
  defines "d \<equiv> (case disp of None \<Rightarrow> 0 | Some (neg, n) \<Rightarrow> if neg then - of_nat n else of_nat n) :: 64 word"
  shows "parse_operand get_register_index (print_operand disp base ix) =
    Inr (case (base, ix) of
           ([], _) \<Rightarrow> \<lparr>displacement = d, base_index = 0, scale_index = 0, scale = 0\<rparr>
         | (_, None) \<Rightarrow> \<lparr>displacement = d, base_index = get_register_index base, scale_index = 0, scale = 0\<rparr>
         | (_, Some (r, s)) \<Rightarrow> \<lparr>displacement = d, base_index = get_register_index base,
                                 scale_index = get_register_index r, scale = of_nat s\<rparr>)"
proof (cases base)
  case Nil
  then obtain r s where ix: "ix = Some (r, s)" using assms(1) by (auto simp: plain_def)
  then show ?thesis using parse_index_only [of r s disp get_register_index] assms(2,3) Nil
    by (simp add: d_def no_target_def)
next
  case (Cons ch cs)
  then have "plain base" using assms(1) by simp
  then show ?thesis using parse_print_operand [OF _ assms(2,3)] Cons
    by (auto simp: operand_target_def d_def Let_def split: option.splits)
qed

theorem parse_operand_printed_witness:
  "parse_operand get_register_index ''-0x1c8(%rax,%rdx,8)'' = Inr \<lparr>displacement = - 456, base_index = 11, scale_index = 13, scale = 8\<rparr>
    \<and> parse_operand get_register_index ''0x10(,%rdx,8)'' = Inr \<lparr>displacement = 16, base_index = 0, scale_index = 0, scale = 0\<rparr>"
proof -
  have h: "hex_string 456 = ''1c8''" "hex_string 8 = ''8''" "hex_string 16 = ''10''"
    by code_simp+
  have "plain ''%rax''" "plain ''%rdx''" by (simp_all add: plain_def)
  then show ?thesis
    using parse_operand_printed [of "''%rax''" "Some (''%rdx'', 8)" "Some (True, 456)"]
      parse_operand_printed [of "[]" "Some (''%rdx'', 8)" "Some (False, 16)"]
    by (simp add: print_operand_def h get_register_index_def)
qed

section \<open>The records of a parse\<close>

text \<open>What every record of the parser satisfies; \<open>k\<close> is its position.\<close>

definition record_ok :: "nat \<Rightarrow> instruction_record \<Rightarrow> bool" where
  "record_ok k r \<longleftrightarrow> record_index r = int k \<and> type r = CHR ''s'' \<and> data_size r \<in> {-1, 1, 2, 4, 8} \<and> length (whole r) < BLOCK
     \<and> (indirect_jump r = CHR ''y'' \<longleftrightarrow> isize r < 5)
     \<and> (rip_relative r = CHR ''y'' \<longrightarrow> target r = no_target)
     \<and> (rip_relative r \<noteq> CHR ''y'' \<longrightarrow> effective_operand_address r = 0)
     \<and> base_index (target r) \<in> {-2, 0, 11, 13} \<and> scale_index (target r) \<in> {-2, 0, 11, 13}"

lemma parse_operand_indices:
  "parse_operand get_register_index s = Inr t \<Longrightarrow> base_index t \<in> {-2, 0, 11, 13} \<and> scale_index t \<in> {-2, 0, 11, 13}"
  by (auto simp: parse_operand_def parse_registers_def no_target_def get_register_index_def Let_def split: if_splits option.splits)

lemma get_data_size_values: "get_data_size a b c d \<in> {-1, 1, 2, 4, 8}"
  by (simp add: get_data_size_def operands_check_def Let_def)

lemma parse_instruction_ok:
  assumes "parse_instruction fname addr len rip k p = Inr r"
  shows "record_ok k r"
proof -
  obtain opc src dst t where len: "\<not> BLOCK \<le> length p"
    and t: "operand_of rip dst = Inr t"
    and r: "r = store_record fname addr len rip k p opc src dst t"
    using assms by (auto simp: parse_instruction_def and_then_eq_Inr split: if_split_asm)
  have "base_index t \<in> {-2, 0, 11, 13} \<and> scale_index t \<in> {-2, 0, 11, 13}"
    using t parse_operand_indices [of dst t] by (cases "rip = CHR ''y''") (auto simp: no_target_def operand_of_def)
  moreover have "rip = CHR ''y'' \<Longrightarrow> t = no_target" using t by (simp add: operand_of_def)
  ultimately show ?thesis using len get_data_size_values [of opc src dst "CHR ''s''"]
    unfolding r record_ok_def store_record_def by simp
qed

lemma parse_line_ok: "parse_line fname asl k line = Inr (Some r) \<Longrightarrow> record_ok k r"
  using parse_instruction_ok by (auto simp: parse_line_def Let_def and_then_eq_Inr split: if_splits)

definition records_ok :: "nat \<Rightarrow> instruction_record list \<Rightarrow> bool" where
  "records_ok N ins \<longleftrightarrow> length ins \<le> N \<and> (\<forall>k < length ins. record_ok k (ins ! k))"

lemma parse_body_ok:
  "parse_body N fname asl lines ins = Some (Inr ins') \<Longrightarrow> records_ok N ins \<Longrightarrow> records_ok N ins'"
proof (induction lines arbitrary: ins)
  case (Cons line lines)
  show ?case
  proof (cases "line = [CHR 0x0A]")
    case False
    then obtain x where x: "parse_line fname asl (length ins) line = Inr x" using Cons.prems(1) by (cases "parse_line fname asl (length ins) line") auto
    show ?thesis
    proof (cases x)
      case None
      then show ?thesis using Cons False x by auto
    next
      case (Some r)
      have "\<not> length ins \<ge> N" using Cons.prems(1) False x Some by auto
      moreover have "records_ok N (ins @ [r])"
        using calculation Cons.prems(2) parse_line_ok [OF x [unfolded Some]] by (auto simp: records_ok_def nth_append less_Suc_eq)
      ultimately show ?thesis using Cons False x Some by auto
    qed
  qed (use Cons.prems in simp)
qed simp

lemma parse_functions_ok:
  "parse_functions N fs asl file ins = Some (Inr ins') \<Longrightarrow> records_ok N ins \<Longrightarrow> records_ok N ins'"
  by (induction fs arbitrary: ins) (auto intro: parse_body_ok split: option.splits sum.splits)

text \<open>
  The records \<open>elf_parse\<close> returns fit their array, carry their positions, are stores, ask for an
  indirect jump exactly when the instruction is shorter than the jump, and hold an operand in one of the
  two forms: an absolute address, or registers out of the two that \<open>get_register_index\<close> knows (or its
  answer for an unknown register).
\<close>

theorem elf_parse_records:
  assumes "elf_parse N names asl file = Some (Inr ins)"
  shows "length ins \<le> N \<and> (\<forall>k < length ins. record_ok k (ins ! k))"
  using assms parse_functions_ok [of N names asl _ "[]" ins] by (auto simp: elf_parse_def records_ok_def split: option.splits)

text \<open>A listing with one function, a store and a load.\<close>

definition demo_listing :: "string list" where
  "demo_listing = [''0401130 <f>:'' @ [CHR 0x0A],
     '' 401136:'' @ [CHR 0x09] @ ''89 50 08 '' @ [CHR 0x09] @ ''mov %edx,0x8(%rax)'' @ [CHR 0x0A],
     '' 401139:'' @ [CHR 0x09] @ ''8b 10 '' @ [CHR 0x09] @ ''mov (%rax),%edx'' @ [CHR 0x0A],
     [CHR 0x0A]]"

definition demo_record :: instruction_record where
  "demo_record = \<lparr>record_index = 0, function_name = ''<f>'', address = 4198710, isize = 3, indirect_jump = CHR ''y'', middle_buffer = 0,
     type = CHR ''s'', rip_relative = CHR ''n'', effective_operand_address = 0, whole = ''mov %edx,0x8(%rax)'', opcode = ''mov'',
     source = ''%edx'', dest = ''0x8(%rax)'', data_size = 4, instrumentation_instructions = 0,
     target = \<lparr>displacement = 8, base_index = 11, scale_index = 0, scale = 0\<rparr>\<rparr>"

lemma demo_parse: "elf_parse 10 [''<f>''] 0 (Some demo_listing) = Some (Inr [demo_record])"
  by code_simp

theorem elf_parse_records_witness:
  "elf_parse 10 [''<f>''] 0 (Some demo_listing) = Some (Inr [demo_record]) \<and> record_ok 0 demo_record"
  using demo_parse elf_parse_records [OF demo_parse] by simp

text \<open>
  Property C34. The hook of the chunk backend on a record of the parser with a base register that is not relative to the
  instruction pointer. It returns exactly when the base is \<open>%rax\<close> or \<open>%rdx\<close> and so is the index, if there is one, and then
  the result is the address of the operand; with any other base or index it reads outside of the saved registers.
\<close>

theorem chunk_operand_of_parsed:
  fixes regs :: registers
  assumes "effective_operand_address ins = 0" and "parse_operand get_register_index (print_operand disp base ix) = Inr (target ins)"
    and "plain base" and "\<forall>r s. ix = Some (r, s) \<longrightarrow> plain r \<and> s < 16" and "\<forall>neg n. disp = Some (neg, n) \<longrightarrow> n < 2 ^ 64"
  defines "d \<equiv> (case disp of None \<Rightarrow> 0 | Some (neg, n) \<Rightarrow> if neg then - of_nat n else of_nat n) :: 64 word"
  defines "value \<equiv> \<lambda>r. regs (if r = ''%rax'' then 10 else 12)"
  shows "chunk_operand_address ins regs =
    (if base \<in> {''%rax'', ''%rdx''} \<and> (\<forall>r s. ix = Some (r, s) \<longrightarrow> r \<in> {''%rax'', ''%rdx''})
     then Inr (d + value base + (case ix of None \<Rightarrow> 0 | Some (r, s) \<Rightarrow> value r * of_nat s))
     else Inl Undefined)"
proof -
  have t: "target ins = operand_target get_register_index disp base ix" using assms(2) parse_print_operand [OF assms(3-5)] by simp
  show ?thesis
    using assms(1)
    by (auto simp: chunk_operand_address_def t operand_target_def read_reg_def SAVED_REGISTERS_def get_register_index_def
        Let_def d_def value_def split: option.splits prod.splits)
qed

definition demo_store :: instruction_record where
  "demo_store = \<lparr>record_index = 0, function_name = ''f'', address = 4096, isize = 3, indirect_jump = CHR ''y'', middle_buffer = 0,
     type = CHR ''s'', rip_relative = CHR ''n'', effective_operand_address = 0, whole = [], opcode = ''mov'', source = ''%edx'',
     dest = [], data_size = 4, instrumentation_instructions = 0, target = operand_target get_register_index (Some (False, 8)) ''%rax'' (Some (''%rdx'', 4))\<rparr>"

theorem chunk_operand_of_parsed_witness:
  "chunk_operand_address demo_store (\<lambda>k. if k = 10 then 1000 else if k = 12 then 3 else 0) = Inr 1020
    \<and> chunk_operand_address (demo_store\<lparr>target := operand_target get_register_index None ''%rbx'' None\<rparr>) (\<lambda>_. 0) = Inl Undefined"
proof -
  have p: "plain ''%rax''" "plain ''%rdx''" "plain ''%rbx''" by (simp_all add: plain_def)
  have 1: "parse_operand get_register_index (print_operand (Some (False, 8)) ''%rax'' (Some (''%rdx'', 4))) = Inr (target demo_store)"
    using p by (simp add: demo_store_def parse_print_operand)
  have 2: "parse_operand get_register_index (print_operand None ''%rbx'' None) = Inr (target (demo_store\<lparr>target := operand_target get_register_index None ''%rbx'' None\<rparr>))"
    using p by (simp add: parse_print_operand)
  show ?thesis
    using chunk_operand_of_parsed [OF _ 1, of "\<lambda>k. if k = 10 then 1000 else if k = 12 then 3 else 0"]
      chunk_operand_of_parsed [OF _ 2, of "\<lambda>_. 0"] p by (simp add: demo_store_def)
qed

end
