(* ===== verification/Patch_Code.thy ===== *)
theory Patch_Code
  imports Disasm
begin

text \<open>
  Building and applying the patches in \<open>MVM_CHUNK/src/_elf_parse.c\<close>: a jump over every store to instrument, a
  copy of the store behind the call of the hook, and a jump back. Code is bytes of the flat memory; an
  address is a 64-bit word, and \<open>unat\<close> of it a place in memory.
\<close>

section \<open>Jumps\<close>

definition le_bytes :: "nat \<Rightarrow> 'a::len word \<Rightarrow> byte list" where
  "le_bytes n w = map (\<lambda>k. ucast (drop_bit (8 * k) w)) [0..<n]"

text \<open>\<open>(int)(target - next)\<close> as the code computes it, and the two jumps it packs.\<close>

definition displacement32 :: "64 word \<Rightarrow> 64 word \<Rightarrow> 32 word" where
  "displacement32 tgt nxt = ucast (tgt - nxt)"

definition pack_jmp32 :: "64 word \<Rightarrow> 64 word \<Rightarrow> byte list" where
  "pack_jmp32 tgt at_addr = 0xe9 # le_bytes 4 (displacement32 tgt (at_addr + 5))"

definition pack_jmp8 :: "64 word \<Rightarrow> 64 word \<Rightarrow> byte list" where
  "pack_jmp8 tgt at_addr = [0xeb, ucast (tgt - (at_addr + 2))]"

text \<open>Where the processor goes from a jump.\<close>

definition jump_target :: "memory \<Rightarrow> 64 word \<Rightarrow> 64 word option" where
  "jump_target mem a =
     (if mem (unat a) = 0xe9 then Some (a + 5 + scast (load_le mem (unat a + 1) 4 :: 32 word))
      else if mem (unat a) = 0xeb then Some (a + 2 + scast (mem (unat a + 1)))
      else None)"

section \<open>Patches\<close>

record patch =
  functional_instr :: "byte list"
  block :: "64 word"
  code :: "64 word"
  intermediate_zone_address :: "64 word"
  jmp_to_intermediate :: "byte list"
  original_instruction_size :: nat
  original_instruction_address :: "64 word"
  original_instruction_bytes :: "byte list"
  jmp_to_post :: "byte list"

definition MAX_INST_LEN :: nat where "MAX_INST_LEN = 12"
definition test_code_size :: nat where "test_code_size = 82"

text \<open>
  The zones found in the executable and their flags. \<open>intermediate_zones_index\<close> is the index of the last
  one (-1 when there is none), and the loop stops before it.
\<close>

record zones =
  zone_at :: "64 word list"
  zone_busy :: "bool list"

definition zone_near :: "64 word \<Rightarrow> 64 word \<Rightarrow> nat \<Rightarrow> bool" where
  "zone_near z addr len \<longleftrightarrow> z \<ge> (addr + of_nat len) - 128 \<and> z \<le> (addr + of_nat len) + 127"

fun book_from :: "nat list \<Rightarrow> 64 word \<Rightarrow> nat \<Rightarrow> zones \<Rightarrow> 64 word \<times> zones" where
  "book_from [] addr len zs = (0, zs)"
| "book_from (i # is) addr len zs =
     (if zone_near (zone_at zs ! i) addr len \<and> \<not> zone_busy zs ! i
      then (zone_at zs ! i, zs\<lparr>zone_busy := (zone_busy zs)[i := True]\<rparr>)
      else book_from is addr len zs)"

definition book_intermediate_target :: "64 word \<Rightarrow> nat \<Rightarrow> zones \<Rightarrow> 64 word \<times> zones" where
  "book_intermediate_target addr len zs = book_from [0..<length (zone_at zs) - 1] addr len zs"

text \<open>What the linker and the build fix: the hook, its assembly stub, and whether the stub is used.\<close>

record build =
  ASM_PREAMBLE :: bool
  the_patch_assembly :: "64 word"
  the_patch_address :: "64 word"

definition put_bytes :: "64 word \<Rightarrow> byte list \<Rightarrow> memory \<Rightarrow> memory" where
  "put_bytes a bs mem = store_bytes mem (unat a) bs"

definition get_bytes :: "64 word \<Rightarrow> nat \<Rightarrow> memory \<Rightarrow> byte list" where
  "get_bytes a n mem = map (\<lambda>k. mem (unat a + k)) [0..<n]"

text \<open>The stub, with the call of the hook and the address of the record filled in.\<close>

definition write_preamble :: "build \<Rightarrow> 64 word \<Rightarrow> 64 word \<Rightarrow> memory \<Rightarrow> memory" where
  "write_preamble bd start record_addr mem =
     put_bytes (start + 37) (le_bytes 8 record_addr)
       (put_bytes (start + 45) (0xe8 # le_bytes 4 (displacement32 (the_patch_address bd) (start + 50)))
         (memcpy mem (unat start) (unat (the_patch_assembly bd)) test_code_size))"

text \<open>Behind the copy of a store: the user's instructions and the jump back.\<close>

definition write_tail :: "64 word \<Rightarrow> 64 word \<Rightarrow> nat \<Rightarrow> byte list \<Rightarrow> memory \<Rightarrow> memory" where
  "write_tail cod addr n func mem =
     (let back_at = cod + of_nat (n + length func)
      in put_bytes back_at (pack_jmp32 (addr + of_nat n) back_at) (put_bytes (cod + of_nat n) func mem))"

text \<open>The jumps of a patch: one from a long store, two over a zone from a short one.\<close>

definition pack_jumps ::
  "instruction_record \<Rightarrow> patch \<Rightarrow> zones \<Rightarrow> (instruction_record \<times> patch \<times> zones) outcome" where
  "pack_jumps ins p zs =
     (let addr = address ins; size = isize ins; start = block p in
      if size \<ge> 5 then Inr (ins, p\<lparr>jmp_to_post := pack_jmp32 start addr\<rparr>, zs)
      else
        let (zone, zs1) = book_intermediate_target addr size zs in
        if zone = 0 then Inl Exit_Failure
        else Inr (ins\<lparr>middle_buffer := zone\<rparr>,
                  p\<lparr>jmp_to_post := pack_jmp32 start zone, intermediate_zone_address := zone,
                    jmp_to_intermediate := pack_jmp8 zone addr\<rparr>, zs1))"

text \<open>A store relative to the instruction pointer gets a new displacement in its last four bytes.\<close>

definition rebase_operand :: "instruction_record \<Rightarrow> 64 word \<Rightarrow> memory \<Rightarrow> memory" where
  "rebase_operand ins cod mem =
     (let size = isize ins in
      if rip_relative ins = CHR ''y''
      then put_bytes (cod + of_nat size - 4) (le_bytes 4 (effective_operand_address ins - (cod + of_nat size))) mem
      else mem)"

text \<open>
  One iteration of \<open>build_patches\<close>: \<open>prologue\<close> writes the \<open>offs\<close> bytes in front of the copy of the store.
\<close>

definition build_behind ::
  "nat \<Rightarrow> (64 word \<Rightarrow> memory \<Rightarrow> memory) \<Rightarrow> instruction_record \<times> patch \<Rightarrow> zones \<times> memory
   \<Rightarrow> ((instruction_record \<times> patch) \<times> zones \<times> memory) outcome" where
  "build_behind offs prologue = (\<lambda>(ins, p) (zs, mem).
     if isize ins > MAX_INST_LEN then Inl Undefined
     else
       let addr = address ins; size = isize ins; cod = block p + of_nat offs;
           p1 = p\<lparr>original_instruction_address := addr, original_instruction_size := size,
                  original_instruction_bytes := get_bytes addr size mem\<rparr>;
           mem2 = memcpy (prologue (block p) mem) (unat cod) (unat addr) size
       in and_then (pack_jumps ins p1 zs) (\<lambda>(ins1, p2, zs1).
            let mem4 = write_tail cod addr size (functional_instr p) mem2
            in Inr ((ins1, p2\<lparr>code := cod\<rparr>), zs1, rebase_operand ins cod mem4)))"

text \<open>\<open>record_addr\<close> is the address of the record.\<close>

definition stub_length :: "build \<Rightarrow> nat" where
  "stub_length bd = (if ASM_PREAMBLE bd then test_code_size else 0)"

definition stub_prologue :: "build \<Rightarrow> 64 word \<Rightarrow> 64 word \<Rightarrow> memory \<Rightarrow> memory" where
  "stub_prologue bd record_addr start mem = (if ASM_PREAMBLE bd then write_preamble bd start record_addr mem else mem)"

definition build_patch ::
  "build \<Rightarrow> 64 word \<Rightarrow> instruction_record \<times> patch \<Rightarrow> zones \<times> memory
   \<Rightarrow> ((instruction_record \<times> patch) \<times> zones \<times> memory) outcome" where
  "build_patch bd record_addr = (\<lambda>(ins, p) (zs, mem).
     if type ins = CHR ''l'' then Inr ((ins, p), zs, mem)
     else build_behind (stub_length bd) (stub_prologue bd record_addr) (ins, p) (zs, mem))"

fun build_patches ::
  "build \<Rightarrow> (nat \<Rightarrow> 64 word) \<Rightarrow> nat \<Rightarrow> (instruction_record \<times> patch) list \<Rightarrow> zones \<times> memory
   \<Rightarrow> ((instruction_record \<times> patch) list \<times> zones \<times> memory) outcome" where
  "build_patches bd record_addr i [] st = Inr ([], st)"
| "build_patches bd record_addr i (ip # ips) st =
     and_then (build_patch bd (record_addr i) ip st) (\<lambda>(ip1, st1).
     and_then (build_patches bd record_addr (i + 1) ips st1) (\<lambda>(ips1, st2). Inr (ip1 # ips1, st2)))"

text \<open>The changes of the protection of the pages are left out.\<close>

definition apply_patch :: "instruction_record \<times> patch \<Rightarrow> memory \<Rightarrow> memory" where
  "apply_patch = (\<lambda>(ins, p) mem.
     if type ins = CHR ''l'' then mem
     else if isize ins \<ge> 5 then put_bytes (address ins) (jmp_to_post p) mem
     else put_bytes (intermediate_zone_address p) (jmp_to_post p) (put_bytes (address ins) (jmp_to_intermediate p) mem))"

definition apply_patches :: "(instruction_record \<times> patch) list \<Rightarrow> memory \<Rightarrow> memory" where
  "apply_patches ips mem = fold apply_patch ips mem"

section \<open>Jumps are followed where they were meant to go\<close>

lemma le_bytes_nth: "k < n \<Longrightarrow> le_bytes n w ! k = ucast (drop_bit (8 * k) w)" "length (le_bytes n w) = n"
  by (simp_all add: le_bytes_def)

lemma load_le_bytes:
  fixes w :: "'a::len word"
  assumes "\<And>k. k < n \<Longrightarrow> mem (a + k) = le_bytes n w ! k" and "8 * n = LENGTH('a)"
  shows "load_le mem a n = w"
proof (rule bit_word_eqI)
  fix j assume j: "j < LENGTH('a)"
  then have k: "j div 8 < n" using assms(2) by linarith
  have "mem (a + j div 8) = ucast (drop_bit (8 * (j div 8)) w)" using assms(1) [OF k] by (simp add: le_bytes_nth k)
  moreover have "8 * (j div 8) + j mod 8 = j" by simp
  ultimately show "bit (load_le mem a n :: 'a word) j \<longleftrightarrow> bit w j" using j assms(2)
    by (simp add: bit_load_le bit_ucast_iff bit_drop_bit_eq)
qed

definition fits32 :: "64 word \<Rightarrow> bool" where
  "fits32 d \<longleftrightarrow> - (2 ^ 31) \<le> sint d \<and> sint d < 2 ^ 31"

lemma scast_ucast:
  fixes d :: "64 word"
  assumes "sint (word_of_int (sint d) :: 'a::len word) = sint d" and "LENGTH('a) \<le> 64"
  shows "scast (ucast d :: 'a word) = d"
proof -
  have "(ucast d :: 'a word) = word_of_int (sint d)"
    by (rule bit_word_eqI) (use assms(2) in \<open>auto simp: bit_ucast_iff bit_word_of_int_iff bit_sint_iff simp del: of_int_sint\<close>)
  then have "sint (ucast d :: 'a word) = sint d" using assms(1) by (simp only:)
  then have "of_int (sint (ucast d :: 'a word)) = (of_int (sint d) :: 64 word)" by (simp only:)
  then show ?thesis unfolding of_int_sint by simp
qed

lemma scast_ucast32: "fits32 d \<Longrightarrow> scast (ucast d :: 32 word) = d"
  using int_word_sint [of "sint d", where 'a = 32] by (intro scast_ucast) (simp_all add: fits32_def del: of_int_sint)

lemma scast_ucast8: "- 128 \<le> sint d \<and> sint d < 128 \<Longrightarrow> scast (ucast d :: 8 word) = (d :: 64 word)"
  using int_word_sint [of "sint d", where 'a = 8] by (intro scast_ucast) (simp_all del: of_int_sint)

lemma jump_target_packed:
  assumes "\<And>k. k < 5 \<Longrightarrow> mem (unat a + k) = pack_jmp32 tgt a ! k" and "fits32 (tgt - (a + 5))"
  shows "jump_target mem a = Some tgt"
proof -
  have "mem (unat a) = 0xe9" using assms(1) [of 0] by (simp add: pack_jmp32_def)
  moreover have "load_le mem (unat a + 1) 4 = displacement32 tgt (a + 5)"
  proof (rule load_le_bytes)
    show "mem (unat a + 1 + k) = le_bytes 4 (displacement32 tgt (a + 5)) ! k" if "k < 4" for k
      using assms(1) [of "Suc k"] that by (simp add: pack_jmp32_def)
  qed simp
  ultimately show ?thesis using scast_ucast32 [OF assms(2)] by (simp add: jump_target_def displacement32_def)
qed

lemma put_bytes_in: "k < length bs \<Longrightarrow> put_bytes a bs mem (unat a + k) = bs ! k"
  by (simp add: put_bytes_def store_bytes_def)

lemma put_bytes_out: "x < unat a \<or> unat a + length bs \<le> x \<Longrightarrow> put_bytes a bs mem x = mem x"
  by (auto simp: put_bytes_def store_bytes_def)

lemma pack_jmp32_length [simp]: "length (pack_jmp32 tgt a) = 5" "length (pack_jmp8 tgt a) = 2"
  by (simp_all add: pack_jmp32_def pack_jmp8_def le_bytes_def)

lemma jump_target_put: "fits32 (tgt - (a + 5)) \<Longrightarrow> jump_target (put_bytes a (pack_jmp32 tgt a) mem) a = Some tgt"
  by (rule jump_target_packed) (simp_all add: put_bytes_in)

lemma jump_target_cong:
  "(\<And>k. k < 5 \<Longrightarrow> mem' (unat a + k) = mem (unat a + k)) \<Longrightarrow> jump_target mem' a = jump_target mem a"
proof -
  assume h: "\<And>k. k < 5 \<Longrightarrow> mem' (unat a + k) = mem (unat a + k)"
  have "load_le mem' (unat a + 1) 4 = (load_le mem (unat a + 1) 4 :: 32 word)"
  proof (rule bit_word_eqI)
    fix j assume "j < LENGTH(32)"
    then have "1 + j div 8 < 5" by simp
    from h [OF this] show "bit (load_le mem' (unat a + 1) 4 :: 32 word) j \<longleftrightarrow> bit (load_le mem (unat a + 1) 4 :: 32 word) j"
      by (simp add: bit_load_le add.assoc)
  qed
  then show ?thesis using h [of 0] h [of 1] by (simp add: jump_target_def)
qed

text \<open>What a build does with the record and the patch.\<close>

lemma build_behind_Inr:
  assumes "build_behind offs pro (ins, p) (zs, mem) = Inr ((ins1, p1), zs1, mem1)"
  shows "type ins1 = type ins \<and> isize ins1 = isize ins \<and> address ins1 = address ins
    \<and> (5 \<le> isize ins \<longrightarrow> jmp_to_post p1 = pack_jmp32 (block p) (address ins))
    \<and> (isize ins < 5 \<longrightarrow> book_intermediate_target (address ins) (isize ins) zs = (intermediate_zone_address p1, zs1)
         \<and> intermediate_zone_address p1 \<noteq> 0 \<and> middle_buffer ins1 = intermediate_zone_address p1
         \<and> jmp_to_post p1 = pack_jmp32 (block p) (intermediate_zone_address p1)
         \<and> jmp_to_intermediate p1 = pack_jmp8 (intermediate_zone_address p1) (address ins))"
  using assms
  by (cases "5 \<le> isize ins"; cases "book_intermediate_target (address ins) (isize ins) zs")
    (auto simp: build_behind_def pack_jumps_def Let_def and_then_eq_Inr split: if_split_asm)

lemma build_patch_behind:
  "type ins \<noteq> CHR ''l'' \<Longrightarrow> build_patch bd ra (ins, p) (zs, mem) = build_behind (stub_length bd) (stub_prologue bd ra) (ins, p) (zs, mem)"
  by (simp add: build_patch_def)

text \<open>A store of three bytes at 4096, a zone at 4200, a block at 8000.\<close>

definition demo_patch :: patch where
  "demo_patch = \<lparr>functional_instr = [0x90], block = 8000, code = 0, intermediate_zone_address = 0, jmp_to_intermediate = [],
     original_instruction_size = 0, original_instruction_address = 0, original_instruction_bytes = [], jmp_to_post = []\<rparr>"

definition demo_build :: build where
  "demo_build = \<lparr>ASM_PREAMBLE = False, the_patch_assembly = 0, the_patch_address = 0\<rparr>"

definition near_zones :: zones where
  "near_zones = \<lparr>zone_at = [4200, 9000], zone_busy = [False, False]\<rparr>"

lemma build_demo:
  assumes "type ins = CHR ''s''" "isize ins = 3" "address ins = 4096" "rip_relative ins = CHR ''n''"
  obtains ins1 p1 mem1 where "build_patch demo_build 0 (ins, demo_patch) (near_zones, mem) =
      Inr ((ins1, p1), near_zones\<lparr>zone_busy := [True, False]\<rparr>, mem1)"
    and "intermediate_zone_address p1 = 4200" and "code p1 = 8000"
proof -
  have "book_intermediate_target 4096 3 near_zones = (4200, near_zones\<lparr>zone_busy := [True, False]\<rparr>)"
    by (simp add: book_intermediate_target_def near_zones_def zone_near_def)
  then show thesis using assms that
    by (auto simp: build_patch_def build_behind_def pack_jumps_def stub_length_def Let_def demo_build_def demo_patch_def MAX_INST_LEN_def)
qed

lemma jump8_target:
  assumes "\<And>k. k < 2 \<Longrightarrow> mem (unat a + k) = pack_jmp8 z a ! k" and "- 128 \<le> sint (z - (a + 2)) \<and> sint (z - (a + 2)) < 128"
  shows "jump_target mem a = Some z"
proof -
  have "(scast (ucast (z - (a + 2)) :: 8 word) :: 64 word) = z - (a + 2)" by (rule scast_ucast8 [OF assms(2)])
  then show ?thesis using assms(1) [of 0] assms(1) [of 1] by (simp add: jump_target_def pack_jmp8_def)
qed

lemma behind_reached:
  assumes "build_behind offs pro (ins, p) (zs, mem) = Inr ((ins1, p1), zs1, mem1)" and "type ins \<noteq> CHR ''l''"
  shows "5 \<le> isize ins \<Longrightarrow> fits32 (block p - (address ins + 5)) \<Longrightarrow>
      jump_target (apply_patch (ins1, p1) mem') (address ins) = Some (block p)"
    and "isize ins < 5 \<Longrightarrow> unat (intermediate_zone_address p1) + 5 \<le> unat (address ins)
        \<or> unat (address ins) + 2 \<le> unat (intermediate_zone_address p1) \<Longrightarrow> k < 2 \<Longrightarrow>
      apply_patch (ins1, p1) mem' (unat (address ins) + k) = pack_jmp8 (intermediate_zone_address p1) (address ins) ! k"
    and "isize ins < 5 \<Longrightarrow> fits32 (block p - (intermediate_zone_address p1 + 5)) \<Longrightarrow>
      jump_target (apply_patch (ins1, p1) mem') (intermediate_zone_address p1) = Some (block p)"
proof -
  note b = build_behind_Inr [OF assms(1)]
  show "jump_target (apply_patch (ins1, p1) mem') (address ins) = Some (block p)"
    if "5 \<le> isize ins" "fits32 (block p - (address ins + 5))"
    using that b assms(2) jump_target_put by (simp add: apply_patch_def)
  let ?z = "intermediate_zone_address p1" and ?a = "address ins"
  let ?m = "put_bytes ?a (pack_jmp8 ?z ?a) mem'"
  have ap: "apply_patch (ins1, p1) mem' = put_bytes ?z (pack_jmp32 (block p) ?z) ?m" if "isize ins < 5"
    using b that assms(2) by (simp add: apply_patch_def)
  show "apply_patch (ins1, p1) mem' (unat ?a + k) = pack_jmp8 ?z ?a ! k"
    if "isize ins < 5" "unat ?z + 5 \<le> unat ?a \<or> unat ?a + 2 \<le> unat ?z" "k < 2"
  proof -
    have "unat ?a + k < unat ?z \<or> unat ?z + 5 \<le> unat ?a + k" using that(2,3) by linarith
    then show ?thesis using that(3) unfolding ap [OF that(1)] by (simp add: put_bytes_out put_bytes_in)
  qed
  show "jump_target (apply_patch (ins1, p1) mem') ?z = Some (block p)"
    if "isize ins < 5" "fits32 (block p - (?z + 5))"
    using jump_target_put [OF that(2)] unfolding ap [OF that(1)] .
qed

section \<open>Booked zones\<close>

lemma book_from_result:
  "book_from is addr len zs = (z, zs') \<Longrightarrow> z \<noteq> 0 \<Longrightarrow>
     \<exists>i \<in> set is. z = zone_at zs ! i \<and> zone_near z addr len \<and> \<not> zone_busy zs ! i \<and> zs' = zs\<lparr>zone_busy := (zone_busy zs)[i := True]\<rparr>"
  by (induction "is") (auto split: if_splits)

lemma near_offset:
  fixes z a :: "64 word"
  assumes "zone_near z a len" and "128 \<le> unat a + len" and "unat a + len + 127 < 2 ^ 64"
  shows "unat a + len \<le> unat z + 128 \<and> unat z \<le> unat a + len + 127"
proof -
  have l: "unat (of_nat len :: 64 word) = len" using assms(3) by (simp add: unsigned_of_nat take_bit_nat_eq_self)
  have s: "unat (a + of_nat len) = unat a + len" using assms(3) l by (subst unat_add_lem [THEN iffD1]) simp_all
  have le: "(128 :: 64 word) \<le> a + of_nat len" using assms(2) s by (simp add: word_le_nat_alt)
  have m: "unat (a + of_nat len - 128) = unat a + len - 128" using unat_sub [OF le] s by simp
  have p: "unat (a + of_nat len + 127) = unat a + len + 127" using assms(3) s by (subst unat_add_lem [THEN iffD1]) simp_all
  show ?thesis using assms(1) m p by (simp add: zone_near_def word_le_nat_alt) linarith
qed

lemma word_of_distance:
  fixes z a :: "64 word"
  shows "z = a + word_of_int (int (unat z) - int (unat a))"
  by (simp add: word_of_int_minus)

text \<open>
  The two-byte jump lands at a zone of the window when it is at most 129 bytes above the store; the window goes up
  to two bytes further, and there the jump lands 256 bytes before the zone.
\<close>

lemma jump8_window:
  assumes "zone_near z addr len" and "2 \<le> len" "len \<le> 4" and "128 \<le> unat addr + len" and "unat addr + len + 127 < 2 ^ 64"
    and "\<And>k. k < 2 \<Longrightarrow> mem (unat addr + k) = pack_jmp8 z addr ! k"
  shows "jump_target mem addr = Some (if unat z \<le> unat addr + 129 then z else z - 256)"
proof -
  note n = near_offset [OF assms(1,4,5)]
  define e where "e = int (unat z) - int (unat addr) - 2"
  have ez: "z - (addr + 2) = word_of_int e" using word_of_distance [of z addr] by (simp add: e_def word_of_int_minus)
  have e: "-128 \<le> e" "e \<le> 129" using n assms(2,3) unfolding e_def by linarith+
  have "mem (unat addr) = 0xeb" "mem (unat addr + 1) = ucast (z - (addr + 2))"
    using assms(6) [of 0] assms(6) [of 1] by (simp_all add: pack_jmp8_def)
  moreover have u8: "(ucast (word_of_int e :: 64 word) :: 8 word) = word_of_int e"
    by (rule bit_word_eqI) (simp add: bit_ucast_iff bit_word_of_int_iff)
  ultimately have jt: "jump_target mem addr = Some (addr + 2 + scast (word_of_int e :: 8 word))"
    by (simp add: jump_target_def ez)
  have sc: "(scast (word_of_int e :: 8 word) :: 64 word) = word_of_int (if e < 128 then e else e - 256)"
  proof -
    have "sint (word_of_int e :: 8 word) = (if e < 128 then e else e - 256)"
    proof (cases "e < 128")
      case True
      then show ?thesis using e by (simp add: int_word_sint)
    next
      case False
      then have "(e + 128) mod 256 = e - 128" using e by (intro int_mod_pos_eq [where q = 1]) auto
      then show ?thesis using False by (simp add: int_word_sint)
    qed
    then have "of_int (sint (word_of_int e :: 8 word)) = (word_of_int (if e < 128 then e else e - 256) :: 64 word)" by (simp only:)
    then show ?thesis by (simp only: of_int_sint)
  qed
  have "addr + 2 + word_of_int e = z" using ez by (simp add: algebra_simps)
  moreover have "addr + 2 + word_of_int (e - 256) = z - 256" using calculation by (simp add: algebra_simps)
  moreover have "e < 128 \<longleftrightarrow> unat z \<le> unat addr + 129" unfolding e_def by (rule iffI; linarith)
  ultimately show ?thesis unfolding jt sc by simp
qed

text \<open>
  Property C11. Where control goes from a patched store. From one of five bytes or more the jump leads to the
  block of the patch. From a shorter one the two-byte jump leads to the booked zone, which was free and is
  busy then, and the jump in the zone leads to the block; but the search also books zones 130 or 131
  bytes above the store, and from there the jump lands 256 bytes before the zone. The hypotheses are on the layout: no zone
  overlaps the store, and the block is within reach of the 32-bit jumps.
\<close>

theorem patch_reached:
  assumes "build_patch bd ra (ins, p) (zs, mem) = Inr ((ins1, p1), zs1, mem1)" and "type ins \<noteq> CHR ''l''"
    and "2 \<le> isize ins" and "128 \<le> unat (address ins)" and "unat (address ins) + 131 < 2 ^ 64"
    and "\<forall>a \<in> insert (address ins) (set (zone_at zs)). fits32 (block p - (a + 5))"
    and "\<forall>z \<in> set (zone_at zs). unat z + 5 \<le> unat (address ins) \<or> unat (address ins) + isize ins \<le> unat z"
  shows "if 5 \<le> isize ins then jump_target (apply_patch (ins1, p1) mem') (address ins) = Some (block p)
    else \<exists>i z. i < length (zone_at zs) - 1 \<and> z = zone_at zs ! i \<and> \<not> zone_busy zs ! i
      \<and> zs1 = zs\<lparr>zone_busy := (zone_busy zs)[i := True]\<rparr>
      \<and> jump_target (apply_patch (ins1, p1) mem') (address ins) = Some (if unat z \<le> unat (address ins) + 129 then z else z - 256)
      \<and> jump_target (apply_patch (ins1, p1) mem') z = Some (block p)"
proof -
  note bb = assms(1) [unfolded build_patch_behind [OF assms(2)]]
  note r = behind_reached [OF bb assms(2)]
  show ?thesis
  proof (cases "5 \<le> isize ins")
    case True
    then show ?thesis using r(1) assms(6) by simp
  next
    case False
    then have s: "isize ins < 5" "isize ins \<le> 4" by simp_all
    let ?z = "intermediate_zone_address p1" and ?m = "apply_patch (ins1, p1) mem'"
    have b: "book_intermediate_target (address ins) (isize ins) zs = (?z, zs1)" "?z \<noteq> 0"
      using build_behind_Inr [OF bb] s by simp_all
    obtain i where i: "i < length (zone_at zs) - 1" "?z = zone_at zs ! i" "zone_near ?z (address ins) (isize ins)"
      "\<not> zone_busy zs ! i" "zs1 = zs\<lparr>zone_busy := (zone_busy zs)[i := True]\<rparr>"
      using book_from_result [OF b(1) [unfolded book_intermediate_target_def] b(2)] by auto
    have z: "?z \<in> set (zone_at zs)" using i(1,2) by simp
    have apart: "unat ?z + 5 \<le> unat (address ins) \<or> unat (address ins) + 2 \<le> unat ?z"
      using bspec [OF assms(7) z] assms(3) by linarith
    have room: "128 \<le> unat (address ins) + isize ins" "unat (address ins) + isize ins + 127 < 2 ^ 64"
      using assms(4,5) s(2) by linarith+
    have "jump_target ?m (address ins) = Some (if unat ?z \<le> unat (address ins) + 129 then ?z else ?z - 256)"
      by (rule jump8_window [OF i(3) assms(3) s(2) room]) (rule r(2) [OF s(1) apart])
    moreover have "jump_target ?m ?z = Some (block p)" by (rule r(3) [OF s(1)]) (use assms(6) z in simp)
    ultimately show ?thesis using i(1,2,4,5) False by auto
  qed
qed

definition demo_zones :: zones where
  "demo_zones = \<lparr>zone_at = [4226, 9000], zone_busy = [False, False]\<rparr>"

text \<open>
  A store of three bytes at 4096: with a zone at 4200 the patch is reached; the zone at 4226 is booked as
  well, and the jump lands at 3970.
\<close>

theorem patch_reached_witness:
  "\<exists>ins p ins' p'. jump_target (apply_patch (ins, p) (\<lambda>_. 0)) 4096 = Some 4200
     \<and> jump_target (apply_patch (ins, p) (\<lambda>_. 0)) 4200 = Some 8000
     \<and> jump_target (apply_patch (ins', p') (\<lambda>_. 0)) 4096 = Some 3970"
proof -
  have d: "type demo_store = CHR ''s''" "isize demo_store = 3" "address demo_store = 4096" "rip_relative demo_store = CHR ''n''"
    by (simp_all add: demo_store_def)
  have p: "block demo_patch = 8000" by (simp add: demo_patch_def)
  obtain ins1 p1 mem1 where b: "build_patch demo_build 0 (demo_store, demo_patch) (near_zones, \<lambda>_. 0) =
      Inr ((ins1, p1), near_zones\<lparr>zone_busy := [True, False]\<rparr>, mem1)"
    by (rule build_demo [OF d])
  have near: "jump_target (apply_patch (ins1, p1) (\<lambda>_. 0)) 4096 = Some 4200 \<and> jump_target (apply_patch (ins1, p1) (\<lambda>_. 0)) 4200 = Some 8000"
    using patch_reached [OF b, of "\<lambda>_. 0"] d p by (auto simp: fits32_def near_zones_def)
  obtain ins2 p2 mem2 where b2: "build_patch demo_build 0 (demo_store, demo_patch) (demo_zones, \<lambda>_. 0) =
      Inr ((ins2, p2), demo_zones\<lparr>zone_busy := [True, False]\<rparr>, mem2)"
    by (simp add: build_patch_def build_behind_def pack_jumps_def stub_length_def Let_def demo_build_def MAX_INST_LEN_def
        book_intermediate_target_def demo_zones_def zone_near_def d p)
  have "jump_target (apply_patch (ins2, p2) (\<lambda>_. 0)) 4096 = Some 3970"
    using patch_reached [OF b2, of "\<lambda>_. 0"] d p by (auto simp: fits32_def demo_zones_def)
  with near show ?thesis by blast
qed

section \<open>The block of a patch\<close>

definition patch_length :: "nat \<Rightarrow> instruction_record \<Rightarrow> patch \<Rightarrow> nat" where
  "patch_length offs ins p = offs + isize ins + length (functional_instr p) + 5"

definition block_length :: "build \<Rightarrow> instruction_record \<Rightarrow> patch \<Rightarrow> nat" where
  "block_length bd = patch_length (stub_length bd)"

lemma unat_add_nat: "unat (a :: 64 word) + n < 2 ^ 64 \<Longrightarrow> unat (a + of_nat n) = unat a + n"
proof -
  assume h: "unat a + n < 2 ^ 64"
  then have "unat (of_nat n :: 64 word) = n" using h by (simp add: unsigned_of_nat take_bit_nat_eq_self)
  then show ?thesis using h by (subst unat_add_lem [THEN iffD1]) simp_all
qed

lemma write_preamble_out:
  assumes "unat start + 82 < 2 ^ 64" and "x < unat start \<or> unat start + 82 \<le> x"
  shows "write_preamble bd start ra mem x = mem x"
proof -
  have "unat (start + 37) = unat start + 37" "unat (start + 45) = unat start + 45"
    using unat_add_nat [of start 37] unat_add_nat [of start 45] assms(1) by simp_all
  then show ?thesis using assms(2)
    by (auto simp: write_preamble_def put_bytes_out le_bytes_nth memcpy_def test_code_size_def)
qed

lemma write_tail_low:
  assumes "unat cod + n + length func + 5 < 2 ^ 64" and "x < unat cod + n"
  shows "write_tail cod addr n func mem x = mem x"
  using unat_add_nat [of cod n] unat_add_nat [of cod "n + length func"] assms
  by (simp add: write_tail_def Let_def put_bytes_out)

lemma write_tail_jump:
  assumes "fits32 (addr + of_nat n - (cod + of_nat (n + length func) + 5))"
  shows "jump_target (write_tail cod addr n func mem) (cod + of_nat (n + length func)) = Some (addr + of_nat n)"
  using jump_target_put [OF assms] by (simp add: write_tail_def Let_def)

lemma behind_block:
  assumes "build_behind offs pro (ins, p) (zs, mem) = Inr ((ins1, p1), zs1, mem1)"
    and pro: "\<And>x. x < unat (block p) \<or> unat (block p) + offs \<le> x \<Longrightarrow> pro (block p) mem x = mem x"
    and "unat (block p) + patch_length offs ins p < 2 ^ 64"
    and "unat (address ins) + isize ins \<le> unat (block p) \<or> unat (block p) + patch_length offs ins p \<le> unat (address ins)"
    and "rip_relative ins = CHR ''y'' \<Longrightarrow> 4 \<le> isize ins"
  defines "copy \<equiv> code p1" and "back \<equiv> code p1 + of_nat (isize ins + length (functional_instr p))"
  shows "(\<forall>k < isize ins. rip_relative ins \<noteq> CHR ''y'' \<or> k + 4 < isize ins \<longrightarrow> mem1 (unat copy + k) = mem (unat (address ins) + k))
    \<and> (fits32 (address ins + of_nat (isize ins) - (back + 5)) \<longrightarrow>
         jump_target mem1 back = Some (address ins + of_nat (isize ins)))
    \<and> (rip_relative ins = CHR ''y'' \<longrightarrow> fits32 (effective_operand_address ins - (copy + of_nat (isize ins))) \<longrightarrow>
         copy + of_nat (isize ins) + scast (load_le mem1 (unat copy + isize ins - 4) 4 :: 32 word) = effective_operand_address ins)"
proof -
  define c where "c = block p + of_nat offs"
  let ?n = "isize ins" and ?f = "length (functional_instr p)" and ?a = "address ins"
  define m2 where "m2 = memcpy (pro (block p) mem) (unat c) (unat ?a) ?n"
  define b where "b = c + of_nat (?n + ?f)"
  define m4 where "m4 = write_tail c ?a ?n (functional_instr p) m2"
  have m1: "mem1 = (if rip_relative ins = CHR ''y'' then put_bytes (c + of_nat ?n - 4)
      (le_bytes 4 (effective_operand_address ins - (c + of_nat ?n))) m4 else m4)" and cod: "code p1 = c"
    using assms(1)
    by (auto simp: build_behind_def rebase_operand_def Let_def and_then_eq_Inr c_def m2_def m4_def split: if_split_asm)
  have U: "unat c = unat (block p) + offs" "unat (c + of_nat ?n) = unat c + ?n" "unat b = unat c + ?n + ?f"
    using assms(3) unat_add_nat [of "block p" offs] unat_add_nat [of c ?n] unat_add_nat [of c "?n + ?f"]
    by (simp_all add: c_def b_def patch_length_def)
  have copied: "m4 (unat c + k) = mem (unat ?a + k)" if k: "k < ?n" for k
  proof -
    have "m4 (unat c + k) = m2 (unat c + k)"
      unfolding m4_def by (rule write_tail_low) (use U k assms(3) in \<open>simp_all add: patch_length_def\<close>)
    also have "\<dots> = pro (block p) mem (unat ?a + k)" using k by (simp add: m2_def mem_simps)
    also have "\<dots> = mem (unat ?a + k)" by (rule pro) (use assms(4) k in \<open>auto simp: patch_length_def\<close>)
    finally show ?thesis .
  qed
  have returns: "jump_target m4 b = Some (?a + of_nat ?n)" if "fits32 (?a + of_nat ?n - (b + 5))"
    using write_tail_jump that by (simp add: m4_def b_def)
  show ?thesis
  proof (cases "rip_relative ins = CHR ''y''")
    case False
    then have e: "mem1 = m4" using m1 by simp
    show ?thesis using False copied e returns unfolding copy_def back_def cod b_def by simp
  next
    case True
    let ?w = "ucast (effective_operand_address ins - (c + of_nat ?n)) :: 32 word"
    let ?e = "effective_operand_address ins - (c + of_nat ?n)"
    have e: "mem1 = put_bytes (c + of_nat ?n - 4) (le_bytes 4 ?e) m4" using True m1 by simp
    have "(4 :: 64 word) \<le> c + of_nat ?n" using U(2) assms(5) [OF True] by (simp add: word_le_nat_alt)
    then have U4: "unat (c + of_nat ?n - 4) = unat c + ?n - 4" using unat_sub [of 4 "c + of_nat ?n"] U(2) by simp
    have low: "mem1 x = m4 x" if "x + 4 < unat c + ?n \<or> unat c + ?n \<le> x" for x
      unfolding e by (rule put_bytes_out) (use that U4 assms(5) [OF True] in \<open>auto simp: le_bytes_nth\<close>)
    have 1: "mem1 (unat c + k) = mem (unat ?a + k)" if "k + 4 < ?n" for k
      using low [of "unat c + k"] copied [of k] that by simp
    have 2: "jump_target mem1 b = Some (?a + of_nat ?n)" if f: "fits32 (?a + of_nat ?n - (b + 5))"
    proof -
      have "jump_target mem1 b = jump_target m4 b" by (rule jump_target_cong) (rule low, use U(3) in simp)
      then show ?thesis using returns [OF f] by simp
    qed
    have 3: "c + of_nat ?n + scast (load_le mem1 (unat c + ?n - 4) 4 :: 32 word) = effective_operand_address ins" if "fits32 ?e"
    proof -
      have "load_le mem1 (unat c + ?n - 4) 4 = ?w"
      proof (rule load_le_bytes)
        fix k :: nat assume k: "k < 4"
        have "mem1 (unat (c + of_nat ?n - 4) + k) = le_bytes 4 ?e ! k" unfolding e by (rule put_bytes_in) (simp add: k le_bytes_nth)
        also have "\<dots> = le_bytes 4 ?w ! k"
          using k by (simp add: le_bytes_nth) (rule bit_word_eqI, auto simp: bit_ucast_iff bit_drop_bit_eq)
        finally show "mem1 (unat c + ?n - 4 + k) = le_bytes 4 ?w ! k" unfolding U4 .
      qed simp
      then show ?thesis using scast_ucast32 [OF that] by simp
    qed
    show ?thesis using 1 2 3 True unfolding copy_def back_def cod b_def by simp
  qed
qed

text \<open>
  Where the processor finds the operand of an instruction of \<open>n\<close> bytes at \<open>a\<close> that is relative to the
  instruction pointer and has its displacement \<open>pos\<close> bytes behind its start: \<open>n - 4\<close> without an
  immediate operand, \<open>n - 8\<close> with one of four bytes.
\<close>

definition rip_operand :: "memory \<Rightarrow> 64 word \<Rightarrow> nat \<Rightarrow> nat \<Rightarrow> 64 word" where
  "rip_operand mem a n pos = a + of_nat n + scast (load_le mem (unat a + pos) 4 :: 32 word)"

lemma load_le_cong:
  assumes "\<And>k. k < n \<Longrightarrow> mem' (a' + k) = mem (a + k)" and "8 * n = LENGTH('a::len)"
  shows "load_le mem' a' n = (load_le mem a n :: 'a word)"
proof (rule bit_word_eqI)
  fix j assume "j < LENGTH('a)"
  then have "j div 8 < n" using assms(2) by linarith
  from assms(1) [OF this] show "bit (load_le mem' a' n :: 'a word) j \<longleftrightarrow> bit (load_le mem a n :: 'a word) j"
    by (simp add: bit_load_le)
qed

text \<open>
  Property C12. The block of a patch repeats the store and returns: the copy has the bytes of the store, but in the
  last four of a store relative to the instruction pointer stands the distance from the copy to the operand
  of the record; behind the copy and the user's instructions a jump leads to the instruction after the store. Without an
  immediate operand these four bytes are the displacement and the copy accesses the same operand. With an immediate of
  four bytes they are the immediate: the copy keeps the old displacement, so it stores at an address as far from
  the operand as the copy is from the store, and what it stores is the distance.
\<close>

theorem patch_block_correct:
  assumes "build_patch bd ra (ins, p) (zs, mem) = Inr ((ins1, p1), zs1, mem1)" and "type ins \<noteq> CHR ''l''"
    and "unat (block p) + block_length bd ins p < 2 ^ 64"
    and "unat (address ins) + isize ins \<le> unat (block p) \<or> unat (block p) + block_length bd ins p \<le> unat (address ins)"
    and "rip_relative ins = CHR ''y'' \<Longrightarrow> 4 \<le> isize ins"
  defines "n \<equiv> isize ins" and "copy \<equiv> code p1" and "back \<equiv> code p1 + of_nat (isize ins + length (functional_instr p))"
  shows "(\<forall>k < n. rip_relative ins \<noteq> CHR ''y'' \<or> k + 4 < n \<longrightarrow> mem1 (unat copy + k) = mem (unat (address ins) + k))
    \<and> (fits32 (address ins + of_nat n - (back + 5)) \<longrightarrow> jump_target mem1 back = Some (address ins + of_nat n))
    \<and> (rip_relative ins = CHR ''y'' \<longrightarrow> fits32 (effective_operand_address ins - (copy + of_nat n)) \<longrightarrow>
         (rip_operand mem (address ins) n (n - 4) = effective_operand_address ins \<longrightarrow>
            rip_operand mem1 copy n (n - 4) = rip_operand mem (address ins) n (n - 4))
       \<and> (8 \<le> n \<longrightarrow> rip_operand mem (address ins) n (n - 8) = effective_operand_address ins \<longrightarrow>
            rip_operand mem1 copy n (n - 8) = rip_operand mem (address ins) n (n - 8) + (copy - address ins)
          \<and> scast (load_le mem1 (unat copy + n - 4) 4 :: 32 word) = effective_operand_address ins - (copy + of_nat n)))"
proof -
  have pro: "stub_prologue bd ra (block p) mem x = mem x" if "x < unat (block p) \<or> unat (block p) + stub_length bd \<le> x" for x
    using that assms(3) write_preamble_out [of "block p" x bd ra mem]
    by (auto simp: stub_prologue_def stub_length_def block_length_def patch_length_def test_code_size_def split: if_splits)
  note b = behind_block [OF assms(1) [unfolded build_patch_behind [OF assms(2)]] pro assms(3-5) [unfolded block_length_def],
      folded n_def copy_def back_def]
  have low: "rip_operand mem1 copy n (n - 8) = rip_operand mem (address ins) n (n - 8) + (copy - address ins)" if "8 \<le> n"
  proof -
    have "load_le mem1 (unat copy + (n - 8)) 4 = (load_le mem (unat (address ins) + (n - 8)) 4 :: 32 word)"
    proof (rule load_le_cong)
      fix k :: nat assume "k < 4"
      then have "n - 8 + k + 4 < n" using that by linarith
      then show "mem1 (unat copy + (n - 8) + k) = mem (unat (address ins) + (n - 8) + k)"
        using b [THEN conjunct1, rule_format, of "n - 8 + k"] by (simp add: add.assoc)
    qed simp
    then show ?thesis by (simp add: rip_operand_def)
  qed
  have last: "copy + of_nat n + scast (load_le mem1 (unat copy + n - 4) 4 :: 32 word) = effective_operand_address ins"
    if "rip_relative ins = CHR ''y''" "fits32 (effective_operand_address ins - (copy + of_nat n))"
    using b that by blast
  have same: "rip_operand mem1 copy n (n - 4) = effective_operand_address ins"
    if "rip_relative ins = CHR ''y''" "fits32 (effective_operand_address ins - (copy + of_nat n))"
  proof -
    have "unat copy + n - 4 = unat copy + (n - 4)" using assms(5) [OF that(1)] by (simp add: n_def)
    then show ?thesis using last [OF that] by (simp add: rip_operand_def)
  qed
  have imm: "scast (load_le mem1 (unat copy + n - 4) 4 :: 32 word) = effective_operand_address ins - (copy + of_nat n)"
    if "rip_relative ins = CHR ''y''" "fits32 (effective_operand_address ins - (copy + of_nat n))"
  proof -
    have "(x :: 64 word) = e - a" if "a + x = e" for a x e using that by (simp add: algebra_simps)
    from this [OF last [OF that]] show ?thesis .
  qed
  show ?thesis using b [THEN conjunct1] b [THEN conjunct2, THEN conjunct1] low same imm by simp
qed

text \<open>
  The store \<open>mov %eax,0x100(%rip)\<close> at 4096, and \<open>movl $7,0x100(%rip)\<close> at the same place: the copy of the
  first writes to 4358 as the store does, the copy of the second to 8266 where the store writes to 4362.
\<close>

definition rip_record :: "nat \<Rightarrow> 64 word \<Rightarrow> instruction_record" where
  "rip_record n ea = demo_store\<lparr>isize := n, rip_relative := CHR ''y'', effective_operand_address := ea\<rparr>"

lemma build_rip:
  assumes "5 \<le> n" and "n \<le> 12"
  shows "\<exists>ins1 p1 zs1 mem1. build_patch demo_build 0 (rip_record n ea, demo_patch) (near_zones, mem) = Inr ((ins1, p1), zs1, mem1)
    \<and> code p1 = 8000"
  using assms
  by (auto simp: build_patch_def build_behind_def pack_jumps_def stub_length_def Let_def demo_build_def MAX_INST_LEN_def
      rip_record_def demo_store_def demo_patch_def)

definition short_store :: memory where
  "short_store = put_bytes 4096 [0x89, 0x05, 0x00, 0x01, 0x00, 0x00] (\<lambda>_. 0)"

definition long_store :: memory where
  "long_store = put_bytes 4096 [0xc7, 0x05, 0x00, 0x01, 0x00, 0x00, 0x07, 0x00, 0x00, 0x00] (\<lambda>_. 0)"

lemma stored_displacement:
  assumes "mem a = 0" and "mem (a + 1) = 1" and "mem (a + 2) = 0" and "mem (a + 3) = 0"
  shows "load_le mem a 4 = (0x100 :: 32 word)"
proof (rule load_le_bytes)
  fix k :: nat assume "k < 4"
  then consider "k = 0" | "k = 1" | "k = 2" | "k = 3" by linarith
  then show "mem (a + k) = le_bytes 4 (0x100 :: 32 word) ! k" by cases (use assms in \<open>simp_all add: le_bytes_def\<close>)
qed simp

lemma rip_demo:
  "rip_operand short_store 4096 6 2 = 4358" "rip_operand long_store 4096 10 2 = 4362"
proof -
  have "load_le short_store 4098 4 = (0x100 :: 32 word)"
    by (rule stored_displacement) (simp_all add: short_store_def put_bytes_def store_bytes_def)
  then show "rip_operand short_store 4096 6 2 = 4358" by (simp add: rip_operand_def)
  have "load_le long_store 4098 4 = (0x100 :: 32 word)"
    by (rule stored_displacement) (simp_all add: long_store_def put_bytes_def store_bytes_def)
  then show "rip_operand long_store 4096 10 2 = 4362" by (simp add: rip_operand_def)
qed

theorem patch_block_correct_witness:
  "\<exists>mem1 mem2. rip_operand mem1 8000 6 2 = 4358 \<and> jump_target mem1 8007 = Some 4102
     \<and> rip_operand mem2 8000 10 2 = 8266"
proof -
  obtain ins1 p1 zs1 mem1 where b: "build_patch demo_build 0 (rip_record 6 4358, demo_patch) (near_zones, short_store) = Inr ((ins1, p1), zs1, mem1)"
    and c: "code p1 = 8000" using build_rip [of 6 4358 short_store] by auto
  obtain ins2 p2 zs2 mem2 where b2: "build_patch demo_build 0 (rip_record 10 4362, demo_patch) (near_zones, long_store) = Inr ((ins2, p2), zs2, mem2)"
    and c2: "code p2 = 8000" using build_rip [of 10 4362 long_store] by auto
  have d: "type (rip_record n ea) = CHR ''s''" "isize (rip_record n ea) = n" "address (rip_record n ea) = 4096"
    "rip_relative (rip_record n ea) = CHR ''y''" "effective_operand_address (rip_record n ea) = ea" for n ea
    by (simp_all add: rip_record_def demo_store_def)
  have p: "block demo_patch = 8000" "functional_instr demo_patch = [0x90]" by (simp_all add: demo_patch_def)
  have l: "block_length demo_build (rip_record n ea) demo_patch = n + 6" for n ea
    by (simp add: block_length_def patch_length_def stub_length_def demo_build_def d p)
  have "type (rip_record n ea) \<noteq> CHR ''l''" for n ea by (simp add: d)
  note t1 = patch_block_correct [OF b this, unfolded d p l c]
  have 1: "rip_operand mem1 8000 6 2 = 4358 \<and> jump_target mem1 8007 = Some 4102"
    using t1 rip_demo by (simp add: fits32_def)
  have "type (rip_record n ea) \<noteq> CHR ''l''" for n ea by (simp add: d)
  note t2 = patch_block_correct [OF b2 this, unfolded d p l c2]
  have "rip_operand mem2 8000 10 2 = 8266"
    using t2 rip_demo by (simp add: fits32_def)
  with 1 show ?thesis by blast
qed

end
