(* ===== verification/Landing_Pads.thy ===== *)
theory Landing_Pads
  imports Patch_Code
begin

text \<open>
  Landing pads and detours in \<open>MVM_MMAP_MULTIVERSIONING/src/_elf_parse.c\<close>. A short jump from an instrumented
  instruction leads to a pad of two neighbouring slots of five bytes, and a long jump from the pad to the block of
  the patch. Differences of addresses are taken as \<open>int64_t\<close>; they are integers here, and do not overflow for
  the addresses of user space.
\<close>

section \<open>The slots\<close>

definition LANDING_PAD_SLOT_SIZE :: nat where "LANDING_PAD_SLOT_SIZE = 5"
definition LANDING_PAD_WIDTH_SLOTS :: nat where "LANDING_PAD_WIDTH_SLOTS = 2"
definition LANDING_PAD_WIDTH :: nat where "LANDING_PAD_WIDTH = LANDING_PAD_SLOT_SIZE * LANDING_PAD_WIDTH_SLOTS"

text \<open>The index of the last zone is one below the length of the list.\<close>

definition landing_pad_run_is_available :: "zones \<Rightarrow> nat \<Rightarrow> bool" where
  "landing_pad_run_is_available zs i \<longleftrightarrow>
     i + LANDING_PAD_WIDTH_SLOTS - 1 < length (zone_at zs)
     \<and> list_all (\<lambda>slot. \<not> zone_busy zs ! (i + slot)
         \<and> zone_at zs ! (i + slot) = zone_at zs ! i + of_nat (slot * LANDING_PAD_SLOT_SIZE)) [0..<LANDING_PAD_WIDTH_SLOTS]"

definition reserve_landing_pad_run :: "zones \<Rightarrow> nat \<Rightarrow> zones" where
  "reserve_landing_pad_run zs i =
     zs\<lparr>zone_busy := fold (\<lambda>slot busy. busy[i + slot := True]) [0..<LANDING_PAD_WIDTH_SLOTS] (zone_busy zs)\<rparr>"

fun landing_pad_block_start :: "64 word list \<Rightarrow> nat \<Rightarrow> nat" where
  "landing_pad_block_start z 0 = 0"
| "landing_pad_block_start z (Suc i) =
     (if z ! Suc i = z ! i + of_nat LANDING_PAD_SLOT_SIZE then landing_pad_block_start z i else Suc i)"

function landing_pad_block_end :: "64 word list \<Rightarrow> nat \<Rightarrow> nat" where
  "landing_pad_block_end z i =
     (if i + 1 < length z \<and> z ! (i + 1) = z ! i + of_nat LANDING_PAD_SLOT_SIZE then landing_pad_block_end z (i + 1) else i)"
  by pat_completeness auto
termination
  by (relation "measure (\<lambda>(z, i). length z - i)") auto

declare landing_pad_block_end.simps [simp del]

section \<open>Booking a pad\<close>

definition INT64_MAX :: int where "INT64_MAX = 2 ^ 63 - 1"

text \<open>How far the jump is from the block of slots the pad lies in.\<close>

definition block_distance :: "64 word list \<Rightarrow> int \<Rightarrow> nat \<Rightarrow> int" where
  "block_distance z jump_origin i =
     (let block_start_address = sint (z ! landing_pad_block_start z i);
          block_end_address = sint (z ! landing_pad_block_end z (i + LANDING_PAD_WIDTH_SLOTS - 1)) in
      if jump_origin < block_start_address then block_start_address - jump_origin
      else if jump_origin > block_end_address then jump_origin - block_end_address
      else 0)"

definition consider_pad :: "zones \<Rightarrow> int \<Rightarrow> nat \<Rightarrow> int \<times> int \<Rightarrow> int \<times> int" where
  "consider_pad zs jump_origin i = (\<lambda>(best_index, best_block_distance).
     let disp = sint (zone_at zs ! i) - jump_origin in
     if disp < - 128 \<or> disp > 127 then (best_index, best_block_distance)
     else if \<not> landing_pad_run_is_available zs i then (best_index, best_block_distance)
     else let d = block_distance (zone_at zs) jump_origin i in
       if d > best_block_distance then (best_index, best_block_distance)
       else if d = best_block_distance \<and> best_index \<ge> 0 \<and> int i \<ge> best_index then (best_index, best_block_distance)
       else (int i, d))"

definition book_landing_pad :: "64 word \<Rightarrow> zones \<Rightarrow> 64 word \<times> zones" where
  "book_landing_pad addr zs =
     (let jump_origin = sint addr + 2;
          (best_index, best_block_distance) =
            fold (consider_pad zs jump_origin) [0..<length (zone_at zs) + 1 - LANDING_PAD_WIDTH_SLOTS] (- 1, INT64_MAX) in
      if best_index < 0 then (0, zs)
      else (zone_at zs ! nat best_index, reserve_landing_pad_run zs (nat best_index)))"

section \<open>Detours\<close>

record stolen_instruction =
  s_address :: "64 word"
  s_size :: nat
  s_pc_relative :: char
  s_control_flow :: char
  s_displacement_size :: nat
  s_target_address :: "64 word"

record mv_instruction = instruction_record +
  parsed_index :: int
  detour_size :: nat
  stolen :: "stolen_instruction list"

definition MAX_STOLEN_BYTES :: nat where "MAX_STOLEN_BYTES = 64"

text \<open>\<open>None\<close> is the result 0.\<close>

definition configure_landing_pad :: "mv_instruction \<Rightarrow> zones \<Rightarrow> (mv_instruction \<times> zones) option" where
  "configure_landing_pad r zs =
     (if isize r < 2 then None
      else
        let (pad, zs1) = book_landing_pad (address r) zs in
        if pad = 0 then None
        else Some (r\<lparr>indirect_jump := CHR ''y'', middle_buffer := pad, detour_size := isize r,
                     stolen := [\<lparr>s_address = address r, s_size = isize r, s_pc_relative = CHR ''n'',
                                 s_control_flow = CHR ''n'', s_displacement_size = 0, s_target_address = 0\<rparr>]\<rparr>, zs1))"

fun finalize_detours :: "mv_instruction list \<Rightarrow> zones \<Rightarrow> (mv_instruction list \<times> zones) outcome" where
  "finalize_detours [] zs = Inr ([], zs)"
| "finalize_detours (r # rs) zs =
     (case configure_landing_pad
             (r\<lparr>indirect_jump := CHR ''n'', middle_buffer := 0, detour_size := isize r, stolen := []\<rparr>) zs of
        None \<Rightarrow> Inl Exit_Failure
      | Some (r1, zs1) \<Rightarrow> and_then (finalize_detours rs zs1) (\<lambda>(rs1, zs2). Inr (r1 # rs1, zs2)))"

section \<open>The booked pad is the best one\<close>

definition slots_ok :: "zones \<Rightarrow> bool" where
  "slots_ok zs \<longleftrightarrow> length (zone_busy zs) = length (zone_at zs) \<and> (\<forall>z \<in> set (zone_at zs). 0 < unat z \<and> unat z < 2 ^ 62)
     \<and> sorted_wrt (\<lambda>x y. unat x + LANDING_PAD_SLOT_SIZE \<le> unat y) (zone_at zs)"

lemma sint_small: "unat (w :: 64 word) < 2 ^ 63 \<Longrightarrow> sint w = int (unat w)"
proof -
  assume h: "unat w < 2 ^ 63"
  have "sint w = sint (word_of_int (uint w) :: 64 word)" by simp
  also have "\<dots> = (uint w + 2 ^ 63) mod 2 ^ 64 - 2 ^ 63" by (simp only: int_word_sint) simp
  also have "\<dots> = uint w"
  proof -
    have "int (unat w) < int (2 ^ 63)" using h by (simp only: of_nat_less_iff)
    then have "0 \<le> uint w" "uint w < 2 ^ 63" by simp_all
    then have "(uint w + 2 ^ 63) mod 2 ^ 64 = uint w + 2 ^ 63" by (intro mod_pos_pos_trivial) simp_all
    then show ?thesis by linarith
  qed
  finally show ?thesis by simp
qed

lemma zone_small: "slots_ok zs \<Longrightarrow> i < length (zone_at zs) \<Longrightarrow> 0 < unat (zone_at zs ! i) \<and> unat (zone_at zs ! i) < 2 ^ 62"
  by (simp add: slots_ok_def)

lemma zone_sint: "slots_ok zs \<Longrightarrow> i < length (zone_at zs) \<Longrightarrow> sint (zone_at zs ! i) = int (unat (zone_at zs ! i))"
  using zone_small [of zs i] by (intro sint_small) simp

lemma zones_apart:
  "slots_ok zs \<Longrightarrow> i < j \<Longrightarrow> j < length (zone_at zs) \<Longrightarrow> unat (zone_at zs ! i) + 5 \<le> unat (zone_at zs ! j)"
  by (auto simp: slots_ok_def LANDING_PAD_SLOT_SIZE_def dest: sorted_wrt_nth_less)

lemma block_start_le: "landing_pad_block_start z i \<le> i"
  by (induction i) (auto intro: le_SucI)

lemma block_end_ge: "i < length z \<Longrightarrow> i \<le> landing_pad_block_end z i \<and> landing_pad_block_end z i < length z"
proof (induction z i rule: landing_pad_block_end.induct)
  case (1 z i)
  then show ?case by (subst (1 2) landing_pad_block_end.simps) (auto simp: landing_pad_block_end.simps [of z i])
qed

text \<open>A run of free slots that the short jump of an instruction reaches.\<close>

definition pad_candidate :: "zones \<Rightarrow> 64 word \<Rightarrow> nat \<Rightarrow> bool" where
  "pad_candidate zs addr i \<longleftrightarrow> i + 1 < length (zone_at zs) \<and> landing_pad_run_is_available zs i
     \<and> - 128 \<le> sint (zone_at zs ! i) - (sint addr + 2) \<and> sint (zone_at zs ! i) - (sint addr + 2) \<le> 127"

lemma run_available:
  "landing_pad_run_is_available zs i \<longleftrightarrow> i + 1 < length (zone_at zs) \<and> \<not> zone_busy zs ! i \<and> \<not> zone_busy zs ! (i + 1)
     \<and> zone_at zs ! (i + 1) = zone_at zs ! i + 5"
  by (auto simp: landing_pad_run_is_available_def LANDING_PAD_WIDTH_SLOTS_def LANDING_PAD_SLOT_SIZE_def numeral_2_eq_2)

lemma candidate_distance:
  assumes "slots_ok zs" and "pad_candidate zs addr i"
  shows "block_distance (zone_at zs) (sint addr + 2) i \<le> 128"
proof -
  let ?z = "zone_at zs" and ?o = "sint addr + 2"
  let ?s = "landing_pad_block_start ?z i" and ?e = "landing_pad_block_end ?z (i + 1)"
  have i: "i + 1 < length ?z" using assms(2) by (simp add: pad_candidate_def)
  have s: "?s \<le> i" by (rule block_start_le)
  have e: "i + 1 \<le> ?e" "?e < length ?z" using block_end_ge [OF i] by simp_all
  have zs: "sint (?z ! ?s) = int (unat (?z ! ?s))" "sint (?z ! i) = int (unat (?z ! i))" "sint (?z ! ?e) = int (unat (?z ! ?e))"
    using zone_sint [OF assms(1)] s i e by simp_all
  have "unat (?z ! ?s) \<le> unat (?z ! i)" using zones_apart [OF assms(1), of ?s i] s i by (cases "?s = i") simp_all
  moreover have "unat (?z ! i) \<le> unat (?z ! ?e)" using zones_apart [OF assms(1), of i ?e] e by simp
  ultimately have "sint (?z ! ?s) \<le> sint (?z ! i)" "sint (?z ! i) \<le> sint (?z ! ?e)"
    unfolding zs by (simp_all only: of_nat_le_iff)
  then show ?thesis using assms(2) by (auto simp: block_distance_def Let_def pad_candidate_def LANDING_PAD_WIDTH_SLOTS_def)
qed

text \<open>The state of the search after the first slots.\<close>

definition best_before :: "zones \<Rightarrow> 64 word \<Rightarrow> nat \<Rightarrow> int \<times> int \<Rightarrow> bool" where
  "best_before zs addr k st \<longleftrightarrow>
     (let dist = block_distance (zone_at zs) (sint addr + 2) in
      if \<exists>i < k. pad_candidate zs addr i
      then \<exists>i < k. pad_candidate zs addr i \<and> st = (int i, dist i)
         \<and> (\<forall>j < k. pad_candidate zs addr j \<longrightarrow> dist i \<le> dist j \<and> (dist j = dist i \<longrightarrow> i \<le> j))
      else st = (- 1, INT64_MAX))"

lemma best_before_step:
  assumes "slots_ok zs" and "k + 1 < length (zone_at zs)" and "best_before zs addr k st"
  shows "best_before zs addr (Suc k) (consider_pad zs (sint addr + 2) k st)"
proof -
  let ?dist = "block_distance (zone_at zs) (sint addr + 2)"
  obtain b d where st: "st = (b, d)" by (cases st)
  show ?thesis
  proof (cases "pad_candidate zs addr k")
    case False
    then have "consider_pad zs (sint addr + 2) k st = st"
      using assms(2) by (auto simp: consider_pad_def st Let_def pad_candidate_def)
    moreover have "j < Suc k \<and> pad_candidate zs addr j \<longleftrightarrow> j < k \<and> pad_candidate zs addr j" for j using False less_Suc_eq by blast
    then have "best_before zs addr (Suc k) st \<longleftrightarrow> best_before zs addr k st"
      unfolding best_before_def imp_conjL [symmetric] conj_assoc [symmetric] by (simp only:)
    ultimately show ?thesis using assms(3) by simp
  next
    case c: True
    then have step: "consider_pad zs (sint addr + 2) k st =
        (if ?dist k > d then (b, d) else if ?dist k = d \<and> b \<ge> 0 \<and> int k \<ge> b then (b, d) else (int k, ?dist k))"
      by (auto simp: consider_pad_def st Let_def pad_candidate_def)
    have some: "\<exists>i < Suc k. pad_candidate zs addr i" using c by blast
    show ?thesis
    proof (cases "\<exists>i < k. pad_candidate zs addr i")
      case False
      then have "b = - 1" "d = INT64_MAX" using assms(3) unfolding best_before_def st Let_def if_not_P [OF False] by simp_all
      moreover have "?dist k \<le> INT64_MAX" using candidate_distance [OF assms(1) c] by (simp add: INT64_MAX_def)
      ultimately have "consider_pad zs (sint addr + 2) k st = (int k, ?dist k)" using step by simp
      then show ?thesis using some c False by (auto simp: best_before_def Let_def less_Suc_eq)
    next
      case True
      then obtain i where i: "i < k" "pad_candidate zs addr i" "b = int i" "d = ?dist i"
        "\<forall>j < k. pad_candidate zs addr j \<longrightarrow> ?dist i \<le> ?dist j \<and> (?dist j = ?dist i \<longrightarrow> i \<le> j)"
        using assms(3) unfolding best_before_def st Let_def if_P [OF True] by auto
      show ?thesis
      proof (cases "?dist i \<le> ?dist k")
        case True
        then have e: "consider_pad zs (sint addr + 2) k st = (int i, ?dist i)" using step i by auto
        have "\<forall>j < Suc k. pad_candidate zs addr j \<longrightarrow> ?dist i \<le> ?dist j \<and> (?dist j = ?dist i \<longrightarrow> i \<le> j)"
          using i(1,5) True by (simp add: less_Suc_eq)
        then show ?thesis using some i(1,2) unfolding best_before_def e Let_def by (auto intro!: exI [of _ i])
      next
        case False
        then have e: "consider_pad zs (sint addr + 2) k st = (int k, ?dist k)" using step i by auto
        have "\<forall>j < Suc k. pad_candidate zs addr j \<longrightarrow> ?dist k \<le> ?dist j \<and> (?dist j = ?dist k \<longrightarrow> k \<le> j)"
          using i(5) False by (fastforce simp: less_Suc_eq)
        then show ?thesis using some c unfolding best_before_def e Let_def by (auto intro!: exI [of _ k])
      qed
    qed
  qed
qed

lemma best_before_fold:
  assumes "slots_ok zs" and "k + 1 \<le> length (zone_at zs)"
  shows "best_before zs addr k (fold (consider_pad zs (sint addr + 2)) [0..<k] (- 1, INT64_MAX))"
  using assms(2)
proof (induction k)
  case (Suc k)
  then show ?case using best_before_step [OF assms(1), of k addr] by simp
qed (simp add: best_before_def)

lemma sint_of_small_int: "- (2 ^ 63) \<le> k \<Longrightarrow> k < 2 ^ 63 \<Longrightarrow> sint (word_of_int k :: 64 word) = k"
proof -
  assume h: "- (2 ^ 63) \<le> k" "k < 2 ^ 63"
  then have "(k + 2 ^ 63) mod 2 ^ 64 = k + 2 ^ 63" by (intro mod_pos_pos_trivial) simp_all
  then show ?thesis by (simp add: int_word_sint)
qed

lemma candidate_reach:
  assumes "slots_ok zs" and "pad_candidate zs addr i" and "unat addr < 2 ^ 62"
  shows "- 128 \<le> sint (zone_at zs ! i - (addr + 2)) \<and> sint (zone_at zs ! i - (addr + 2)) < 128"
proof -
  let ?z = "zone_at zs ! i" and ?e = "int (unat (zone_at zs ! i)) - int (unat addr) - 2"
  have i: "i < length (zone_at zs)" using assms(2) by (simp add: pad_candidate_def)
  have "sint addr = int (unat addr)" using assms(3) by (intro sint_small) simp
  then have e: "- 128 \<le> ?e" "?e \<le> 127" using assms(2) unfolding pad_candidate_def zone_sint [OF assms(1) i] by linarith+
  have w: "?z - (addr + 2) = word_of_int ?e" using word_of_distance [of ?z addr] by (simp add: word_of_int_minus)
  have "sint (word_of_int ?e :: 64 word) = ?e" by (rule sint_of_small_int) (use e in simp_all)
  then show ?thesis unfolding w using e by simp
qed

lemma reserve_run:
  "reserve_landing_pad_run zs i = zs\<lparr>zone_busy := (zone_busy zs)[i := True, i + 1 := True]\<rparr>"
  by (simp add: reserve_landing_pad_run_def LANDING_PAD_WIDTH_SLOTS_def numeral_2_eq_2)

lemma book_landing_pad_result:
  assumes "slots_ok zs"
  shows "(\<exists>i. pad_candidate zs addr i) \<Longrightarrow>
      \<exists>i. pad_candidate zs addr i \<and> book_landing_pad addr zs = (zone_at zs ! i, reserve_landing_pad_run zs i)
        \<and> (\<forall>j. pad_candidate zs addr j \<longrightarrow>
              block_distance (zone_at zs) (sint addr + 2) i \<le> block_distance (zone_at zs) (sint addr + 2) j
            \<and> (block_distance (zone_at zs) (sint addr + 2) j = block_distance (zone_at zs) (sint addr + 2) i \<longrightarrow> i \<le> j))"
    and "\<not> (\<exists>i. pad_candidate zs addr i) \<Longrightarrow> book_landing_pad addr zs = (0, zs)"
proof -
  let ?k = "length (zone_at zs) - 1"
  let ?st = "fold (consider_pad zs (sint addr + 2)) [0..<?k] (- 1, INT64_MAX)"
  have book: "book_landing_pad addr zs = (case ?st of (b, d) \<Rightarrow> if b < 0 then (0, zs) else (zone_at zs ! nat b, reserve_landing_pad_run zs (nat b)))"
    by (simp add: book_landing_pad_def Let_def LANDING_PAD_WIDTH_SLOTS_def)
  have all: "i < ?k" if "pad_candidate zs addr i" for i using that by (auto simp: pad_candidate_def)
  have best: "best_before zs addr ?k ?st"
  proof (cases "zone_at zs = []")
    case True
    then show ?thesis by (simp add: best_before_def)
  next
    case False
    then show ?thesis by (intro best_before_fold [OF assms]) (simp add: Suc_leI)
  qed
  show "book_landing_pad addr zs = (0, zs)" if "\<not> (\<exists>i. pad_candidate zs addr i)"
    using best that unfolding book best_before_def by simp
  show "\<exists>i. pad_candidate zs addr i \<and> book_landing_pad addr zs = (zone_at zs ! i, reserve_landing_pad_run zs i)
        \<and> (\<forall>j. pad_candidate zs addr j \<longrightarrow>
              block_distance (zone_at zs) (sint addr + 2) i \<le> block_distance (zone_at zs) (sint addr + 2) j
            \<and> (block_distance (zone_at zs) (sint addr + 2) j = block_distance (zone_at zs) (sint addr + 2) i \<longrightarrow> i \<le> j))"
    if "\<exists>i. pad_candidate zs addr i"
  proof -
    have c: "\<exists>i < ?k. pad_candidate zs addr i" using that all by blast
    then obtain i where "pad_candidate zs addr i" "?st = (int i, block_distance (zone_at zs) (sint addr + 2) i)"
      "\<forall>j < ?k. pad_candidate zs addr j \<longrightarrow>
              block_distance (zone_at zs) (sint addr + 2) i \<le> block_distance (zone_at zs) (sint addr + 2) j
            \<and> (block_distance (zone_at zs) (sint addr + 2) j = block_distance (zone_at zs) (sint addr + 2) i \<longrightarrow> i \<le> j)"
      using best unfolding best_before_def Let_def if_P [OF c] by blast
    then show ?thesis unfolding book using all by (intro exI [of _ i]) simp
  qed
qed

text \<open>
  Property C17. The search for a landing pad ends with 0 exactly when no run of two free neighbouring slots
  is in the reach of the short jump. Otherwise it takes such a run, the first of those whose block of slots
  is nearest to the jump, makes both slots busy and no other, and the short jump of the instruction leads there.
\<close>

theorem landing_pad_booked:
  assumes "slots_ok zs" and "unat addr < 2 ^ 62"
  shows "(\<not> (\<exists>i. pad_candidate zs addr i) \<longrightarrow> book_landing_pad addr zs = (0, zs))
    \<and> ((\<exists>i. pad_candidate zs addr i) \<longrightarrow>
        (\<exists>i. pad_candidate zs addr i \<and> zone_at zs ! i \<noteq> 0
          \<and> book_landing_pad addr zs = (zone_at zs ! i, zs\<lparr>zone_busy := (zone_busy zs)[i := True, i + 1 := True]\<rparr>)
          \<and> (\<forall>j. pad_candidate zs addr j \<longrightarrow>
                block_distance (zone_at zs) (sint addr + 2) i \<le> block_distance (zone_at zs) (sint addr + 2) j
              \<and> (block_distance (zone_at zs) (sint addr + 2) j = block_distance (zone_at zs) (sint addr + 2) i \<longrightarrow> i \<le> j))
          \<and> jump_target (put_bytes addr (pack_jmp8 (zone_at zs ! i) addr) mem) addr = Some (zone_at zs ! i)))"
proof (intro conjI impI)
  show "book_landing_pad addr zs = (0, zs)" if "\<not> (\<exists>i. pad_candidate zs addr i)"
    by (rule book_landing_pad_result(2) [OF assms(1) that])
next
  assume "\<exists>i. pad_candidate zs addr i"
  from book_landing_pad_result(1) [OF assms(1) this] obtain i where i: "pad_candidate zs addr i"
    and b: "book_landing_pad addr zs = (zone_at zs ! i, reserve_landing_pad_run zs i)"
    and m: "\<forall>j. pad_candidate zs addr j \<longrightarrow>
                block_distance (zone_at zs) (sint addr + 2) i \<le> block_distance (zone_at zs) (sint addr + 2) j
              \<and> (block_distance (zone_at zs) (sint addr + 2) j = block_distance (zone_at zs) (sint addr + 2) i \<longrightarrow> i \<le> j)"
    by blast
  have "0 < unat (zone_at zs ! i)" using zone_small [OF assms(1), of i] i by (simp add: pad_candidate_def)
  then have nz: "zone_at zs ! i \<noteq> 0" by auto
  have "jump_target (put_bytes addr (pack_jmp8 (zone_at zs ! i) addr) mem) addr = Some (zone_at zs ! i)"
    by (rule jump8_target [OF _ candidate_reach [OF assms(1) i assms(2)]]) (simp add: put_bytes_in)
  then show "\<exists>i. pad_candidate zs addr i \<and> zone_at zs ! i \<noteq> 0
          \<and> book_landing_pad addr zs = (zone_at zs ! i, zs\<lparr>zone_busy := (zone_busy zs)[i := True, i + 1 := True]\<rparr>)
          \<and> (\<forall>j. pad_candidate zs addr j \<longrightarrow>
                block_distance (zone_at zs) (sint addr + 2) i \<le> block_distance (zone_at zs) (sint addr + 2) j
              \<and> (block_distance (zone_at zs) (sint addr + 2) j = block_distance (zone_at zs) (sint addr + 2) i \<longrightarrow> i \<le> j))
          \<and> jump_target (put_bytes addr (pack_jmp8 (zone_at zs ! i) addr) mem) addr = Some (zone_at zs ! i)"
    using i b m nz by (intro exI [of _ i]) (simp add: reserve_run)
qed

section \<open>Every detour has a pad of its own\<close>

definition own_instruction :: "mv_instruction \<Rightarrow> stolen_instruction" where
  "own_instruction r = \<lparr>s_address = address r, s_size = isize r, s_pc_relative = CHR ''n'', s_control_flow = CHR ''n'',
     s_displacement_size = 0, s_target_address = 0\<rparr>"

text \<open>\<open>r'\<close> is \<open>r\<close> with the detour over the pad of slot \<open>i\<close>.\<close>

definition detour_over :: "zones \<Rightarrow> mv_instruction \<Rightarrow> mv_instruction \<Rightarrow> nat \<Rightarrow> bool" where
  "detour_over zs r r' i \<longleftrightarrow> pad_candidate zs (address r) i \<and> 2 \<le> isize r
     \<and> r' = r\<lparr>indirect_jump := CHR ''y'', middle_buffer := zone_at zs ! i, detour_size := isize r, stolen := [own_instruction r]\<rparr>"

lemma slots_ok_reserve: "slots_ok zs \<Longrightarrow> slots_ok (reserve_landing_pad_run zs i)"
  by (simp add: slots_ok_def reserve_run)

lemma candidate_after_reserve:
  assumes "slots_ok zs" and "pad_candidate zs a i" and "pad_candidate (reserve_landing_pad_run zs i) b j"
  shows "pad_candidate zs b j \<and> (i + 1 < j \<or> j + 1 < i)"
proof -
  let ?n = "length (zone_busy zs)"
  have i: "i + 1 < ?n" using assms(1,2) by (simp add: pad_candidate_def slots_ok_def)
  have j: "j + 1 < ?n" and free: "\<not> (zone_busy zs)[i := True, i + 1 := True] ! j" "\<not> (zone_busy zs)[i := True, i + 1 := True] ! (j + 1)"
    using assms(1,3) by (simp_all add: pad_candidate_def run_available reserve_run slots_ok_def)
  have "j \<noteq> i" "j \<noteq> i + 1" "j + 1 \<noteq> i" using free i j by (auto simp: nth_list_update)
  moreover have "pad_candidate zs b j"
    using assms(3) free i j by (auto simp: pad_candidate_def run_available reserve_run nth_list_update split: if_splits)
  ultimately show ?thesis by linarith
qed

lemma configure_result:
  assumes "slots_ok zs" and "configure_landing_pad r zs = Some (r', zs')"
  shows "\<exists>i. detour_over zs r r' i \<and> zs' = reserve_landing_pad_run zs i"
proof -
  have s: "2 \<le> isize r" and b: "fst (book_landing_pad (address r) zs) \<noteq> 0"
    and r': "r' = r\<lparr>indirect_jump := CHR ''y'', middle_buffer := fst (book_landing_pad (address r) zs), detour_size := isize r,
        stolen := [own_instruction r]\<rparr>" and zs': "zs' = snd (book_landing_pad (address r) zs)"
    using assms(2) by (auto simp: configure_landing_pad_def own_instruction_def split: if_splits prod.splits)
  have "\<exists>i. pad_candidate zs (address r) i"
  proof (rule ccontr)
    assume "\<not> (\<exists>i. pad_candidate zs (address r) i)"
    from book_landing_pad_result(2) [OF assms(1) this] b show False by simp
  qed
  from book_landing_pad_result(1) [OF assms(1) this] obtain i where "pad_candidate zs (address r) i"
    "book_landing_pad (address r) zs = (zone_at zs ! i, reserve_landing_pad_run zs i)" by blast
  then show ?thesis using s r' zs' by (auto simp: detour_over_def)
qed

text \<open>The record before its pad is looked for.\<close>

definition plain_record :: "mv_instruction \<Rightarrow> mv_instruction" where
  "plain_record r = r\<lparr>indirect_jump := CHR ''n'', middle_buffer := 0, detour_size := isize r, stolen := []\<rparr>"

lemma finalize_result:
  assumes "slots_ok zs" and "finalize_detours rs zs = Inr (rs', zs')"
  shows "\<exists>is. length is = length rs \<and> length rs' = length rs
    \<and> (\<forall>k < length rs. detour_over zs (plain_record (rs ! k)) (rs' ! k) (is ! k)) \<and> sorted_wrt (\<lambda>i j. i + 1 < j \<or> j + 1 < i) is"
  using assms
proof (induction rs arbitrary: zs rs' zs')
  case (Cons r rs)
  obtain r1 zs1 rs1 where c: "configure_landing_pad (plain_record r) zs = Some (r1, zs1)"
    and f: "finalize_detours rs zs1 = Inr (rs1, zs')" and rs': "rs' = r1 # rs1"
    using Cons.prems(2) by (auto simp: plain_record_def and_then_eq_Inr split: option.splits)
  obtain i where i: "detour_over zs (plain_record r) r1 i" "zs1 = reserve_landing_pad_run zs i"
    using configure_result [OF Cons.prems(1) c] by blast
  have ok: "slots_ok zs1" using slots_ok_reserve [OF Cons.prems(1)] i(2) by simp
  have z: "zone_at zs1 = zone_at zs" by (simp add: i(2) reserve_run)
  obtain "is" where "is": "length is = length rs" "length rs1 = length rs"
    "\<forall>k < length rs. detour_over zs1 (plain_record (rs ! k)) (rs1 ! k) (is ! k)" "sorted_wrt (\<lambda>i j. i + 1 < j \<or> j + 1 < i) is"
    using Cons.IH [OF ok f] by blast
  have step: "detour_over zs (plain_record (rs ! k)) (rs1 ! k) (is ! k) \<and> (i + 1 < is ! k \<or> is ! k + 1 < i)" if k: "k < length rs" for k
  proof -
    have d: "detour_over zs1 (plain_record (rs ! k)) (rs1 ! k) (is ! k)" using "is"(3) k by blast
    then have "pad_candidate zs1 (address (plain_record (rs ! k))) (is ! k)" by (simp add: detour_over_def)
    from candidate_after_reserve [OF Cons.prems(1) _ this [unfolded i(2)], of "address (plain_record r)"] i(1)
    have "pad_candidate zs (address (plain_record (rs ! k))) (is ! k) \<and> (i + 1 < is ! k \<or> is ! k + 1 < i)"
      by (auto simp: detour_over_def)
    then show ?thesis using d z by (simp add: detour_over_def)
  qed
  have "\<forall>j \<in> set is. i + 1 < j \<or> j + 1 < i"
  proof
    fix j assume "j \<in> set is"
    then obtain k where "k < length rs" "is ! k = j" using "is"(1) by (auto simp: in_set_conv_nth)
    then show "i + 1 < j \<or> j + 1 < i" using step [of k] by blast
  qed
  then have "sorted_wrt (\<lambda>i j. i + 1 < j \<or> j + 1 < i) (i # is)" using "is"(4) by simp
  moreover have "\<forall>k < length (r # rs). detour_over zs (plain_record ((r # rs) ! k)) (rs' ! k) ((i # is) ! k)"
    using i(1) step rs' by (auto simp: nth_Cons split: nat.splits)
  ultimately show ?case using "is"(1,2) rs' by (intro exI [of _ "i # is"]) simp
qed simp

text \<open>
  When \<open>finalize_detours\<close> returns, every record has a detour: it is at least two bytes long, its
  pad is a run of two slots in reach of its short jump, and the pads of any two records are at least ten
  bytes apart, so that no two detours share a byte of a pad.
\<close>

theorem detours_apart:
  assumes "slots_ok zs" and "finalize_detours rs zs = Inr (rs', zs')" and "\<forall>r \<in> set rs. unat (address r) < 2 ^ 62"
  shows "length rs' = length rs
    \<and> (\<forall>k < length rs. address (rs' ! k) = address (rs ! k) \<and> isize (rs' ! k) = isize (rs ! k) \<and> 2 \<le> isize (rs ! k)
         \<and> indirect_jump (rs' ! k) = CHR ''y'' \<and> detour_size (rs' ! k) = isize (rs ! k) \<and> stolen (rs' ! k) = [own_instruction (rs ! k)]
         \<and> middle_buffer (rs' ! k) \<in> set (zone_at zs) \<and> middle_buffer (rs' ! k) \<noteq> 0
         \<and> - 128 \<le> sint (middle_buffer (rs' ! k) - (address (rs ! k) + 2)) \<and> sint (middle_buffer (rs' ! k) - (address (rs ! k) + 2)) < 128)
    \<and> (\<forall>k < length rs. \<forall>j < length rs. k \<noteq> j \<longrightarrow>
         unat (middle_buffer (rs' ! k)) + LANDING_PAD_WIDTH \<le> unat (middle_buffer (rs' ! j))
       \<or> unat (middle_buffer (rs' ! j)) + LANDING_PAD_WIDTH \<le> unat (middle_buffer (rs' ! k)))"
proof -
  obtain "is" where "is": "length is = length rs" "length rs' = length rs"
    "\<forall>k < length rs. detour_over zs (plain_record (rs ! k)) (rs' ! k) (is ! k)" "sorted_wrt (\<lambda>i j. i + 1 < j \<or> j + 1 < i) is"
    using finalize_result [OF assms(1,2)] by blast
  have d: "pad_candidate zs (address (rs ! k)) (is ! k)" "middle_buffer (rs' ! k) = zone_at zs ! (is ! k)" "is ! k + 1 < length (zone_at zs)"
    if "k < length rs" for k using "is"(3) that by (simp_all add: detour_over_def plain_record_def pad_candidate_def)
  have gap: "unat (zone_at zs ! i) + 10 \<le> unat (zone_at zs ! j)" if "i + 1 < j" "j < length (zone_at zs)" for i j
    using zones_apart [OF assms(1), of i "i + 1"] zones_apart [OF assms(1), of "i + 1" j] that by simp
  have apart: "unat (zone_at zs ! (is ! k)) + 10 \<le> unat (zone_at zs ! (is ! j)) \<or> unat (zone_at zs ! (is ! j)) + 10 \<le> unat (zone_at zs ! (is ! k))"
    if "k < j" "j < length rs" for k j
  proof -
    have "is ! k + 1 < is ! j \<or> is ! j + 1 < is ! k" using sorted_wrt_nth_less [OF "is"(4)] that "is"(1) by simp
    then show ?thesis using gap [of "is ! k" "is ! j"] gap [of "is ! j" "is ! k"] d(3) [of k] d(3) [of j] that by auto
  qed
  show ?thesis
  proof (intro conjI allI impI)
    fix k j assume k: "k < length rs" "j < length rs" "k \<noteq> j"
    show "unat (middle_buffer (rs' ! k)) + LANDING_PAD_WIDTH \<le> unat (middle_buffer (rs' ! j))
       \<or> unat (middle_buffer (rs' ! j)) + LANDING_PAD_WIDTH \<le> unat (middle_buffer (rs' ! k))"
      using apart [of k j] apart [of j k] k d(2) [of k] d(2) [of j]
      by (cases "k < j") (auto simp: LANDING_PAD_WIDTH_def LANDING_PAD_SLOT_SIZE_def LANDING_PAD_WIDTH_SLOTS_def)
  next
    fix k assume k: "k < length rs"
    have "unat (address (rs ! k)) < 2 ^ 62" using assms(3) k by simp
    note r = candidate_reach [OF assms(1) d(1) [OF k] this]
    show "- 128 \<le> sint (middle_buffer (rs' ! k) - (address (rs ! k) + 2))" "sint (middle_buffer (rs' ! k) - (address (rs ! k) + 2)) < 128"
      using r d(2) [OF k] by simp_all
    have "0 < unat (zone_at zs ! (is ! k))" using zone_small [OF assms(1), of "is ! k"] d(3) [OF k] by simp
    then show "middle_buffer (rs' ! k) \<noteq> 0" using d(2) [OF k] by auto
    show "middle_buffer (rs' ! k) \<in> set (zone_at zs)" using d(2,3) [OF k] by simp
  qed (use "is" in \<open>auto simp: detour_over_def plain_record_def own_instruction_def\<close>)
qed

text \<open>Four neighbouring slots in reach of two instructions.\<close>

definition demo_slots :: zones where
  "demo_slots = \<lparr>zone_at = [4200, 4205, 4210, 4215], zone_busy = [False, False, False, False]\<rparr>"

lemma demo_slots_ok: "slots_ok demo_slots"
  by (simp add: slots_ok_def demo_slots_def LANDING_PAD_SLOT_SIZE_def)

lemma demo_book:
  "book_landing_pad 4096 demo_slots = (4200, demo_slots\<lparr>zone_busy := [True, True, False, False]\<rparr>)"
  "book_landing_pad 4110 (demo_slots\<lparr>zone_busy := [True, True, False, False]\<rparr>) = (4210, demo_slots\<lparr>zone_busy := [True, True, True, True]\<rparr>)"
  by code_simp+

theorem landing_pad_booked_witness:
  "\<exists>i. pad_candidate demo_slots 4096 i \<and> zone_at demo_slots ! i = 4200
     \<and> jump_target (put_bytes 4096 (pack_jmp8 4200 4096) (\<lambda>_. 0)) 4096 = Some 4200"
proof -
  have "unat (4096 :: 64 word) < 2 ^ 62" by simp
  note t = landing_pad_booked [OF demo_slots_ok this, of "\<lambda>_. 0"]
  have "\<exists>i. pad_candidate demo_slots 4096 i"
  proof (rule ccontr)
    assume "\<not> (\<exists>i. pad_candidate demo_slots 4096 i)"
    then have "book_landing_pad 4096 demo_slots = (0, demo_slots)" using t by blast
    then show False by (simp add: demo_book)
  qed
  then obtain i where "pad_candidate demo_slots 4096 i" "fst (book_landing_pad 4096 demo_slots) = zone_at demo_slots ! i"
    "jump_target (put_bytes 4096 (pack_jmp8 (zone_at demo_slots ! i) 4096) (\<lambda>_. 0)) 4096 = Some (zone_at demo_slots ! i)"
    using t by auto
  then show ?thesis by (simp add: demo_book) (intro exI [of _ i], simp)
qed

definition demo_record :: "64 word \<Rightarrow> nat \<Rightarrow> mv_instruction" where
  "demo_record a n = \<lparr>record_index = 0, function_name = ''f'', address = a, isize = n, indirect_jump = CHR ''n'', middle_buffer = 0,
     type = CHR ''s'', rip_relative = CHR ''n'', effective_operand_address = 0, whole = [], opcode = ''mov'', source = ''%edx'',
     dest = ''(%rax)'', data_size = 4, instrumentation_instructions = 0,
     target = \<lparr>displacement = 0, base_index = 11, scale_index = 0, scale = 0\<rparr>, parsed_index = 0, detour_size = n, stolen = []\<rparr>"

lemma demo_finalize:
  "\<exists>rs' zs'. finalize_detours [demo_record 4096 3, demo_record 4110 2] demo_slots = Inr (rs', zs')"
  by (simp add: configure_landing_pad_def demo_record_def demo_book)

theorem detours_apart_witness:
  "\<exists>rs' zs'. finalize_detours [demo_record 4096 3, demo_record 4110 2] demo_slots = Inr (rs', zs') \<and> length rs' = 2
     \<and> (unat (middle_buffer (rs' ! 0)) + 10 \<le> unat (middle_buffer (rs' ! 1)) \<or> unat (middle_buffer (rs' ! 1)) + 10 \<le> unat (middle_buffer (rs' ! 0)))"
proof -
  obtain rs' zs' where f: "finalize_detours [demo_record 4096 3, demo_record 4110 2] demo_slots = Inr (rs', zs')"
    using demo_finalize by blast
  have "\<forall>r \<in> set [demo_record 4096 3, demo_record 4110 2]. unat (address r) < 2 ^ 62" by (simp add: demo_record_def)
  note t = detours_apart [OF demo_slots_ok f this]
  have "(0 :: nat) < length [demo_record 4096 3, demo_record 4110 2]" "1 < length [demo_record 4096 3, demo_record 4110 2]" by simp_all
  then have "unat (middle_buffer (rs' ! 0)) + LANDING_PAD_WIDTH \<le> unat (middle_buffer (rs' ! 1))
       \<or> unat (middle_buffer (rs' ! 1)) + LANDING_PAD_WIDTH \<le> unat (middle_buffer (rs' ! 0))"
    using t by (metis zero_neq_one)
  then show ?thesis using f t
    by (intro exI [of _ rs'] exI [of _ zs']) (simp add: LANDING_PAD_WIDTH_def LANDING_PAD_SLOT_SIZE_def LANDING_PAD_WIDTH_SLOTS_def)
qed

end
