(* ===== verification/Detour_Code.thy ===== *)
theory Detour_Code
  imports Landing_Pads
begin

text \<open>
  Building and applying the detours of \<open>MVM_MMAP_MULTIVERSIONING/src/_elf_parse.c\<close>: the instructions a detour
  displaces are copied to the block of the patch and relocated, the site gets a short jump to the landing pad,
  the pad a long jump to the block, and what is left of both is filled with \<open>nop\<close>.
\<close>

section \<open>Relocating displaced instructions\<close>

text \<open>
  \<open>relocate_stolen_bytes\<close>: a displacement that counts from the program counter is counted from the copy instead, and
  a target inside of the displaced bytes is moved to the copy as well. \<open>addr\<close> and \<open>len\<close> are the displaced bytes,
  \<open>cod\<close> their copy, \<open>off\<close> how far the loop has come in it.
\<close>

definition relocated_target :: "64 word \<Rightarrow> nat \<Rightarrow> 64 word \<Rightarrow> 64 word \<Rightarrow> 64 word" where
  "relocated_target addr len cod tgt =
     (if tgt \<ge> addr \<and> tgt < addr + of_nat len then cod + (tgt - addr) else tgt)"

fun relocate_stolen_bytes ::
  "64 word \<Rightarrow> nat \<Rightarrow> 64 word \<Rightarrow> nat \<Rightarrow> stolen_instruction list \<Rightarrow> memory \<Rightarrow> memory outcome" where
  "relocate_stolen_bytes addr len cod off [] mem = Inr mem"
| "relocate_stolen_bytes addr len cod off (s # ss) mem =
     (if s_pc_relative s \<noteq> CHR ''y'' then relocate_stolen_bytes addr len cod (off + s_size s) ss mem
      else
        let nxt = cod + of_nat off + of_nat (s_size s);
            new_displacement = relocated_target addr len cod (s_target_address s) - nxt;
            displacement_ptr = nxt - of_nat (s_displacement_size s) in
        if s_displacement_size s = 4 then
          (if sint new_displacement < - (2 ^ 31) \<or> sint new_displacement > 2 ^ 31 - 1 then Inl Exit_Failure
           else relocate_stolen_bytes addr len cod (off + s_size s) ss (put_bytes displacement_ptr (le_bytes 4 new_displacement) mem))
        else if s_displacement_size s = 1 then
          (if sint new_displacement < - 128 \<or> sint new_displacement > 127 then Inl Exit_Failure
           else relocate_stolen_bytes addr len cod (off + s_size s) ss (put_bytes displacement_ptr [ucast new_displacement] mem))
        else Inl Exit_Failure)"

text \<open>A displacement of four bytes is read back.\<close>

lemma load_displacement:
  fixes d :: "64 word"
  assumes "fits32 d"
  shows "scast (load_le (put_bytes b (le_bytes 4 d) mem) (unat b) 4 :: 32 word) = d"
proof -
  have "load_le (put_bytes b (le_bytes 4 d) mem) (unat b) 4 = (ucast d :: 32 word)"
  proof (rule load_le_bytes)
    fix k :: nat assume k: "k < 4"
    have "put_bytes b (le_bytes 4 d) mem (unat b + k) = le_bytes 4 d ! k" by (rule put_bytes_in) (simp add: k le_bytes_nth)
    also have "\<dots> = le_bytes 4 (ucast d :: 32 word) ! k"
      using k by (simp add: le_bytes_nth) (rule bit_word_eqI, auto simp: bit_ucast_iff bit_drop_bit_eq)
    finally show "put_bytes b (le_bytes 4 d) mem (unat b + k) = le_bytes 4 (ucast d :: 32 word) ! k" .
  qed simp
  then show ?thesis using scast_ucast32 [OF assms] by simp
qed

text \<open>
  A displaced branch or access relative to the program counter reaches its old target from the copy, or the copy of
  its target when that is displaced as well; it is given up when the distance does not fit.
\<close>

lemma relocated_reaches:
  fixes cod addr :: "64 word" and off len :: nat
  assumes "s_pc_relative s = CHR ''y''" and "s_displacement_size s = 4"
  defines "nxt \<equiv> cod + of_nat off + of_nat (s_size s)" and "tgt \<equiv> relocated_target addr len cod (s_target_address s)"
  shows "(fits32 (tgt - nxt) \<longrightarrow> (\<exists>mem'. relocate_stolen_bytes addr len cod off [s] mem = Inr mem'
           \<and> nxt + scast (load_le mem' (unat (nxt - 4)) 4 :: 32 word) = tgt))
    \<and> (\<not> fits32 (tgt - nxt) \<longrightarrow> relocate_stolen_bytes addr len cod off [s] mem = Inl Exit_Failure)"
proof -
  have run: "relocate_stolen_bytes addr len cod off [s] mem =
      (if fits32 (tgt - nxt) then Inr (put_bytes (nxt - 4) (le_bytes 4 (tgt - nxt)) mem) else Inl Exit_Failure)"
    using assms(1,2) by (auto simp: Let_def fits32_def nxt_def tgt_def)
  show ?thesis using run load_displacement [of "tgt - nxt" "nxt - 4" mem] by auto
qed

section \<open>Building and applying\<close>

definition mv_pack_jumps :: "mv_instruction \<Rightarrow> patch \<Rightarrow> patch outcome" where
  "mv_pack_jumps ins p =
     (if indirect_jump ins = CHR ''y'' then
        let pad = middle_buffer ins in
        if pad = 0 then Inl Exit_Failure
        else Inr (p\<lparr>intermediate_zone_address := pad, jmp_to_post := pack_jmp32 (block p) pad,
                    jmp_to_intermediate := pack_jmp8 pad (address ins)\<rparr>)
      else Inr (p\<lparr>jmp_to_post := pack_jmp32 (block p) (address ins)\<rparr>))"

definition mv_build_patch :: "build \<Rightarrow> 64 word \<Rightarrow> mv_instruction \<Rightarrow> patch \<Rightarrow> memory \<Rightarrow> (patch \<times> memory) outcome" where
  "mv_build_patch bd record_addr ins p mem =
     (let addr = address ins; len = detour_size ins; cod = block p + of_nat (stub_length bd);
          p1 = p\<lparr>original_instruction_address := addr, original_instruction_size := len,
                 original_instruction_bytes := get_bytes addr len mem\<rparr> in
      if len < 5 \<and> indirect_jump ins \<noteq> CHR ''y'' then Inl Exit_Failure
      else if len > MAX_STOLEN_BYTES then Inl Undefined
      else
        let mem2 = memcpy (stub_prologue bd record_addr (block p) mem) (unat cod) (unat addr) len in
        and_then (relocate_stolen_bytes addr len cod 0 (stolen ins) mem2) (\<lambda>mem3.
        and_then (mv_pack_jumps ins p1) (\<lambda>p2.
          Inr (p2\<lparr>code := cod\<rparr>, write_tail cod addr len (functional_instr p) mem3))))"

fun mv_build_patches ::
  "build \<Rightarrow> (nat \<Rightarrow> 64 word) \<Rightarrow> nat \<Rightarrow> (mv_instruction \<times> patch) list \<Rightarrow> memory \<Rightarrow> ((mv_instruction \<times> patch) list \<times> memory) outcome" where
  "mv_build_patches bd record_addr i [] mem = Inr ([], mem)"
| "mv_build_patches bd record_addr i ((ins, p) # ips) mem =
     and_then (mv_build_patch bd (record_addr i) ins p mem) (\<lambda>(p1, mem1).
     and_then (mv_build_patches bd record_addr (i + 1) ips mem1) (\<lambda>(ips1, mem2). Inr ((ins, p1) # ips1, mem2)))"

definition NOP :: byte where "NOP = 0x90"

text \<open>The changes of the protection of the pages are left out.\<close>

definition mv_apply_patch :: "mv_instruction \<times> patch \<Rightarrow> memory \<Rightarrow> memory" where
  "mv_apply_patch = (\<lambda>(ins, p) mem.
     let len = original_instruction_size p; addr = address ins in
     if len = 0 then mem
     else if indirect_jump ins = CHR ''y'' then
       let pad = intermediate_zone_address p;
           m1 = put_bytes addr (jmp_to_intermediate p) mem;
           m2 = (if len > 2 then put_bytes (addr + 2) (replicate (len - 2) NOP) m1 else m1);
           m3 = put_bytes pad (jmp_to_post p) m2
       in if LANDING_PAD_WIDTH > 5 then put_bytes (pad + 5) (replicate (LANDING_PAD_WIDTH - 5) NOP) m3 else m3
     else
       let m1 = put_bytes addr (jmp_to_post p) mem
       in if len > 5 then put_bytes (addr + 5) (replicate (len - 5) NOP) m1 else m1)"

definition mv_apply_patches :: "(mv_instruction \<times> patch) list \<Rightarrow> memory \<Rightarrow> memory" where
  "mv_apply_patches ips mem = fold mv_apply_patch ips mem"

section \<open>One detour\<close>

definition span :: "64 word \<Rightarrow> nat \<Rightarrow> nat set" where
  "span a n = {unat a..<unat a + n}"

lemma span_iff [simp]: "x \<in> span a n \<longleftrightarrow> unat a \<le> x \<and> x < unat a + n"
  by (auto simp: span_def)

definition detour_block :: "build \<Rightarrow> mv_instruction \<Rightarrow> patch \<Rightarrow> nat set" where
  "detour_block bd ins p = span (block p) (patch_length (stub_length bd) (instruction_record.truncate ins) p)"

lemma patch_length_truncate [simp]:
  "patch_length offs (instruction_record.truncate ins) p = offs + isize ins + length (functional_instr p) + 5"
  by (simp add: patch_length_def instruction_record.truncate_def)

text \<open>A record as \<open>finalize_detours\<close> leaves it, in a range of addresses that does not wrap.\<close>

definition detour_ready :: "build \<Rightarrow> mv_instruction \<Rightarrow> patch \<Rightarrow> bool" where
  "detour_ready bd ins p \<longleftrightarrow>
     indirect_jump ins = CHR ''y'' \<and> middle_buffer ins \<noteq> 0 \<and> 2 \<le> isize ins \<and> isize ins \<le> MAX_STOLEN_BYTES
     \<and> detour_size ins = isize ins \<and> (\<forall>s \<in> set (stolen ins). s_pc_relative s \<noteq> CHR ''y'')
     \<and> unat (address ins) + isize ins < 2 ^ 64 \<and> unat (middle_buffer ins) + LANDING_PAD_WIDTH < 2 ^ 64
     \<and> unat (block p) + (stub_length bd + isize ins + length (functional_instr p) + 5) < 2 ^ 64"

text \<open>Its site, its pad and its block do not overlap.\<close>

definition site :: "mv_instruction \<Rightarrow> nat set" where "site ins = span (address ins) (isize ins)"
definition pad :: "mv_instruction \<Rightarrow> nat set" where "pad ins = span (middle_buffer ins) LANDING_PAD_WIDTH"

lemma relocate_nothing: "\<forall>s \<in> set ss. s_pc_relative s \<noteq> CHR ''y'' \<Longrightarrow> relocate_stolen_bytes addr len cod off ss mem = Inr mem"
  by (induction ss arbitrary: off) auto

lemma stub_prologue_out:
  assumes "unat start + stub_length bd < 2 ^ 64" and "x < unat start \<or> unat start + stub_length bd \<le> x"
  shows "stub_prologue bd ra start mem x = mem x"
  using assms write_preamble_out [of start x bd ra mem]
  by (auto simp: stub_prologue_def stub_length_def test_code_size_def split: if_splits)

lemma write_tail_out:
  assumes "unat cod + n + length func + 5 < 2 ^ 64" and "x < unat cod + n \<or> unat cod + n + length func + 5 \<le> x"
  shows "write_tail cod addr n func mem x = mem x"
  using unat_add_nat [of cod n] unat_add_nat [of cod "n + length func"] assms
  by (auto simp: write_tail_def Let_def put_bytes_out)

text \<open>What a build leaves in the block.\<close>

definition block_built :: "build \<Rightarrow> memory \<Rightarrow> mv_instruction \<Rightarrow> patch \<Rightarrow> memory \<Rightarrow> bool" where
  "block_built bd old ins p mem \<longleftrightarrow>
     (let cod = block p + of_nat (stub_length bd); return_at = cod + of_nat (isize ins + length (functional_instr p)) in
      (\<forall>k < isize ins. mem (unat cod + k) = old (unat (address ins) + k))
      \<and> (\<forall>k < 5. mem (unat return_at + k) = pack_jmp32 (address ins + of_nat (isize ins)) return_at ! k))"

lemma block_place:
  assumes "detour_ready bd ins p"
  shows "unat (block p + of_nat (stub_length bd)) = unat (block p) + stub_length bd"
    and "unat (block p + of_nat (stub_length bd) + of_nat (isize ins + length (functional_instr p)))
      = unat (block p) + stub_length bd + isize ins + length (functional_instr p)"
  using unat_add_nat [of "block p" "stub_length bd"]
    unat_add_nat [of "block p + of_nat (stub_length bd)" "isize ins + length (functional_instr p)"] assms
  by (simp_all add: detour_ready_def)

lemma block_built_cong:
  assumes "detour_ready bd ins p" and "block_built bd old ins p mem" and "\<And>x. x \<in> detour_block bd ins p \<Longrightarrow> mem' x = mem x"
  shows "block_built bd old ins p mem'"
proof -
  note b = block_place [OF assms(1)]
  have "mem' (unat (block p + of_nat (stub_length bd)) + k) = mem (unat (block p + of_nat (stub_length bd)) + k)" if "k < isize ins" for k
    by (rule assms(3)) (use that b in \<open>simp add: detour_block_def\<close>)
  moreover have "mem' (unat (block p + of_nat (stub_length bd) + of_nat (isize ins + length (functional_instr p))) + k)
      = mem (unat (block p + of_nat (stub_length bd) + of_nat (isize ins + length (functional_instr p))) + k)" if "k < 5" for k
    by (rule assms(3)) (use that b(2) in \<open>simp add: detour_block_def del: of_nat_add\<close>)
  ultimately show ?thesis using assms(2) unfolding block_built_def Let_def by metis
qed

lemma mv_build_patch_correct:
  assumes "detour_ready bd ins p" and "site ins \<inter> detour_block bd ins p = {}"
  shows "\<exists>p1 mem1. mv_build_patch bd ra ins p mem = Inr (p1, mem1)
    \<and> block p1 = block p \<and> functional_instr p1 = functional_instr p \<and> original_instruction_size p1 = isize ins
    \<and> intermediate_zone_address p1 = middle_buffer ins \<and> jmp_to_post p1 = pack_jmp32 (block p) (middle_buffer ins)
    \<and> jmp_to_intermediate p1 = pack_jmp8 (middle_buffer ins) (address ins)
    \<and> block_built bd mem ins p mem1 \<and> (\<forall>x. x \<notin> detour_block bd ins p \<longrightarrow> mem1 x = mem x)"
proof -
  let ?c = "block p + of_nat (stub_length bd)" and ?n = "isize ins" and ?f = "functional_instr p" and ?a = "address ins"
  define m2 where "m2 = memcpy (stub_prologue bd ra (block p) mem) (unat ?c) (unat ?a) ?n"
  define m3 where "m3 = write_tail ?c ?a ?n ?f m2"
  note b = block_place [OF assms(1)] and r = assms(1) [unfolded detour_ready_def]
  have rel: "relocate_stolen_bytes ?a ?n ?c 0 (stolen ins) m2 = Inr m2" using r by (intro relocate_nothing) blast
  have fit: "unat ?c + ?n + length ?f + 5 < 2 ^ 64" using r b by simp
  have built: "\<exists>p1. mv_build_patch bd ra ins p mem = Inr (p1, m3)
    \<and> block p1 = block p \<and> functional_instr p1 = ?f \<and> original_instruction_size p1 = ?n
    \<and> intermediate_zone_address p1 = middle_buffer ins \<and> jmp_to_post p1 = pack_jmp32 (block p) (middle_buffer ins)
    \<and> jmp_to_intermediate p1 = pack_jmp8 (middle_buffer ins) ?a"
    using r rel by (simp add: mv_build_patch_def mv_pack_jumps_def Let_def m2_def m3_def)
  have pro: "stub_prologue bd ra (block p) mem x = mem x" if "x \<notin> detour_block bd ins p" for x
    by (rule stub_prologue_out) (use r that in \<open>auto simp: detour_block_def\<close>)
  have copied: "m3 (unat ?c + k) = mem (unat ?a + k)" if k: "k < ?n" for k
  proof -
    have "m3 (unat ?c + k) = m2 (unat ?c + k)" unfolding m3_def by (rule write_tail_low [OF fit]) (use k in simp)
    also have "\<dots> = stub_prologue bd ra (block p) mem (unat ?a + k)" using k by (simp add: m2_def mem_simps)
    also have "\<dots> = mem (unat ?a + k)"
    proof (rule pro)
      have "unat ?a + k \<in> site ins" using k by (simp add: site_def)
      then show "unat ?a + k \<notin> detour_block bd ins p" using assms(2) by blast
    qed
    finally show ?thesis .
  qed
  have "m3 (unat (?c + of_nat (?n + length ?f)) + k) = pack_jmp32 (?a + of_nat ?n) (?c + of_nat (?n + length ?f)) ! k" if "k < 5" for k
    unfolding m3_def write_tail_def Let_def by (rule put_bytes_in) (use that in simp)
  then have bb: "block_built bd mem ins p m3" using copied unfolding block_built_def Let_def by blast
  have "m3 x = mem x" if x: "x \<notin> detour_block bd ins p" for x
  proof -
    have out: "x < unat (block p) \<or> unat ?c + ?n + length ?f + 5 \<le> x" using x b by (auto simp: detour_block_def)
    then have "m3 x = m2 x" unfolding m3_def using b by (intro write_tail_out [OF fit]) auto
    also have "\<dots> = stub_prologue bd ra (block p) mem x" using out b by (auto simp: m2_def memcpy_def)
    finally show ?thesis using pro [OF x] by simp
  qed
  then show ?thesis using built bb by blast
qed

text \<open>What applying a patch leaves at the site and at the pad.\<close>

definition detour_placed :: "mv_instruction \<Rightarrow> patch \<Rightarrow> memory \<Rightarrow> bool" where
  "detour_placed ins p mem \<longleftrightarrow>
     (\<forall>k < 2. mem (unat (address ins) + k) = pack_jmp8 (middle_buffer ins) (address ins) ! k)
     \<and> (\<forall>k < isize ins. 2 \<le> k \<longrightarrow> mem (unat (address ins) + k) = NOP)
     \<and> (\<forall>k < 5. mem (unat (middle_buffer ins) + k) = pack_jmp32 (block p) (middle_buffer ins) ! k)"

lemma detour_placed_cong:
  assumes "2 \<le> isize ins" and "detour_placed ins p mem" and "\<And>x. x \<in> site ins \<union> pad ins \<Longrightarrow> mem' x = mem x"
  shows "detour_placed ins p mem'"
proof -
  have s: "mem' (unat (address ins) + k) = mem (unat (address ins) + k)" if "k < isize ins" for k
    by (rule assms(3)) (use that in \<open>simp add: site_def\<close>)
  have w: "5 \<le> LANDING_PAD_WIDTH" by (simp add: LANDING_PAD_WIDTH_def LANDING_PAD_SLOT_SIZE_def LANDING_PAD_WIDTH_SLOTS_def)
  have p: "mem' (unat (middle_buffer ins) + k) = mem (unat (middle_buffer ins) + k)" if "k < 5" for k
    by (rule assms(3)) (use that w in \<open>simp add: pad_def\<close>)
  show ?thesis using assms(1,2) s p by (simp add: detour_placed_def)
qed

definition patch_of :: "mv_instruction \<Rightarrow> patch \<Rightarrow> patch \<Rightarrow> bool" where
  "patch_of ins p p1 \<longleftrightarrow> block p1 = block p \<and> functional_instr p1 = functional_instr p \<and> original_instruction_size p1 = isize ins
     \<and> intermediate_zone_address p1 = middle_buffer ins \<and> jmp_to_post p1 = pack_jmp32 (block p) (middle_buffer ins)
     \<and> jmp_to_intermediate p1 = pack_jmp8 (middle_buffer ins) (address ins)"

lemma mv_apply_patch_correct:
  assumes "detour_ready bd ins p" and "patch_of ins p p1" and "site ins \<inter> pad ins = {}"
  shows "detour_placed ins p (mv_apply_patch (ins, p1) mem)"
    and "x \<notin> site ins \<union> pad ins \<Longrightarrow> mv_apply_patch (ins, p1) mem x = mem x"
proof -
  let ?a = "address ins" and ?n = "isize ins" and ?z = "middle_buffer ins"
  note r = assms(1) [unfolded detour_ready_def] and p = assms(2) [unfolded patch_of_def]
  have W: "LANDING_PAD_WIDTH = 10" by (simp add: LANDING_PAD_WIDTH_def LANDING_PAD_SLOT_SIZE_def LANDING_PAD_WIDTH_SLOTS_def)
  define m1 where "m1 = put_bytes ?a (pack_jmp8 ?z ?a) mem"
  define m2 where "m2 = (if ?n > 2 then put_bytes (?a + 2) (replicate (?n - 2) NOP) m1 else m1)"
  define m3 where "m3 = put_bytes ?z (pack_jmp32 (block p) ?z) m2"
  define m4 where "m4 = put_bytes (?z + 5) (replicate 5 NOP) m3"
  have ap: "mv_apply_patch (ins, p1) mem = m4"
    using r p by (simp add: mv_apply_patch_def Let_def m1_def m2_def m3_def m4_def W)
  have a2: "unat (?a + 2) = unat ?a + 2" using unat_add_nat [of ?a 2] r by simp
  have z5: "unat (?z + 5) = unat ?z + 5" using unat_add_nat [of ?z 5] r W by simp
  have above: "m4 x = m2 x" if "x < unat ?z \<or> unat ?z + 10 \<le> x" for x
  proof -
    have "m4 x = m3 x" unfolding m4_def by (rule put_bytes_out) (use that z5 in auto)
    also have "\<dots> = m2 x" unfolding m3_def by (rule put_bytes_out) (use that in auto)
    finally show ?thesis .
  qed
  have low2: "m2 x = m1 x" if "x < unat ?a + 2 \<or> unat ?a + ?n \<le> x" for x
    using that a2 r by (auto simp: m2_def intro!: put_bytes_out)
  show "mv_apply_patch (ins, p1) mem x = mem x" if "x \<notin> site ins \<union> pad ins"
  proof -
    have x: "x < unat ?a \<or> unat ?a + ?n \<le> x" "x < unat ?z \<or> unat ?z + 10 \<le> x" using that by (auto simp: site_def pad_def W)
    have "m1 x = mem x" unfolding m1_def by (rule put_bytes_out) (use x(1) r in auto)
    then show ?thesis unfolding ap using above [OF x(2)] low2 [of x] x(1) by auto
  qed
  have apart: "unat ?a + k < unat ?z \<or> unat ?z + 10 \<le> unat ?a + k" if "k < ?n" for k
  proof -
    have "unat ?a + k \<in> site ins" using that by (simp add: site_def)
    then have "unat ?a + k \<notin> pad ins" using assms(3) by blast
    then show ?thesis by (auto simp: pad_def W)
  qed
  have "m4 (unat ?a + k) = pack_jmp8 ?z ?a ! k" if "k < 2" for k
  proof -
    have "k < ?n" using that r by linarith
    then have "m4 (unat ?a + k) = m2 (unat ?a + k)" by (intro above apart)
    also have "\<dots> = m1 (unat ?a + k)" by (rule low2) (use that in simp)
    also have "\<dots> = pack_jmp8 ?z ?a ! k" unfolding m1_def by (rule put_bytes_in) (use that in simp)
    finally show ?thesis .
  qed
  moreover have "m4 (unat ?a + k) = NOP" if k: "k < ?n" "2 \<le> k" for k
  proof -
    have "m4 (unat ?a + k) = m2 (unat ?a + k)" using k(1) by (intro above apart)
    also have "\<dots> = put_bytes (?a + 2) (replicate (?n - 2) NOP) m1 (unat (?a + 2) + (k - 2))"
    proof -
      have "?n > 2" "unat ?a + k = unat (?a + 2) + (k - 2)" using k a2 by linarith+
      then show ?thesis unfolding m2_def by (simp only: if_True)
    qed
    also have "\<dots> = replicate (?n - 2) NOP ! (k - 2)" by (rule put_bytes_in) (use k in simp)
    finally show ?thesis using k by simp
  qed
  moreover have "m4 (unat ?z + k) = pack_jmp32 (block p) ?z ! k" if "k < 5" for k
  proof -
    have "m4 (unat ?z + k) = m3 (unat ?z + k)" unfolding m4_def by (rule put_bytes_out) (use that z5 in simp)
    also have "\<dots> = pack_jmp32 (block p) ?z ! k" unfolding m3_def by (rule put_bytes_in) (use that in simp)
    finally show ?thesis .
  qed
  ultimately show "detour_placed ins p (mv_apply_patch (ins, p1) mem)" unfolding ap detour_placed_def by blast
qed

section \<open>All detours\<close>

definition footprint :: "build \<Rightarrow> mv_instruction \<times> patch \<Rightarrow> nat set" where
  "footprint bd = (\<lambda>(ins, p). site ins \<union> pad ins \<union> detour_block bd ins p)"

definition detours_fit :: "build \<Rightarrow> (mv_instruction \<times> patch) list \<Rightarrow> bool" where
  "detours_fit bd ips \<longleftrightarrow>
     (\<forall>(ins, p) \<in> set ips. detour_ready bd ins p \<and> site ins \<inter> pad ins = {} \<and> site ins \<inter> detour_block bd ins p = {}
        \<and> pad ins \<inter> detour_block bd ins p = {})
     \<and> sorted_wrt (\<lambda>ip jq. footprint bd ip \<inter> footprint bd jq = {}) ips"

lemma detours_fit_Cons:
  "detours_fit bd ((ins, p) # ips) \<longleftrightarrow> detour_ready bd ins p \<and> site ins \<inter> pad ins = {} \<and> site ins \<inter> detour_block bd ins p = {}
     \<and> pad ins \<inter> detour_block bd ins p = {} \<and> (\<forall>jq \<in> set ips. footprint bd (ins, p) \<inter> footprint bd jq = {}) \<and> detours_fit bd ips"
  by (auto simp: detours_fit_def)

lemma block_built_old:
  assumes "block_built bd old ins p mem" and "\<And>x. x \<in> site ins \<Longrightarrow> old x = old' x"
  shows "block_built bd old' ins p mem"
proof -
  have "old (unat (address ins) + k) = old' (unat (address ins) + k)" if "k < isize ins" for k
    by (rule assms(2)) (use that in \<open>simp add: site_def\<close>)
  then show ?thesis using assms(1) by (simp add: block_built_def Let_def)
qed

lemma mv_build_patches_correct:
  assumes "detours_fit bd ips"
  shows "\<exists>ps mem1. mv_build_patches bd ra i ips mem = Inr (zip (map fst ips) ps, mem1) \<and> length ps = length ips
    \<and> (\<forall>k < length ips. patch_of (fst (ips ! k)) (snd (ips ! k)) (ps ! k) \<and> block_built bd mem (fst (ips ! k)) (snd (ips ! k)) mem1)
    \<and> (\<forall>x. (\<forall>(ins, p) \<in> set ips. x \<notin> detour_block bd ins p) \<longrightarrow> mem1 x = mem x)"
  using assms
proof (induction ips arbitrary: i mem)
  case (Cons ip ips)
  obtain ins p where ip: "ip = (ins, p)" by (cases ip)
  note f = Cons.prems [unfolded ip detours_fit_Cons]
  obtain p1 m1 where b: "mv_build_patch bd (ra i) ins p mem = Inr (p1, m1)" "patch_of ins p p1" "block_built bd mem ins p m1"
    "\<And>x. x \<notin> detour_block bd ins p \<Longrightarrow> m1 x = mem x"
    using mv_build_patch_correct [of bd ins p "ra i" mem] f unfolding patch_of_def by blast
  obtain ps m2 where r: "mv_build_patches bd ra (i + 1) ips m1 = Inr (zip (map fst ips) ps, m2)" "length ps = length ips"
    "\<forall>k < length ips. patch_of (fst (ips ! k)) (snd (ips ! k)) (ps ! k) \<and> block_built bd m1 (fst (ips ! k)) (snd (ips ! k)) m2"
    "\<forall>x. (\<forall>(ins, p) \<in> set ips. x \<notin> detour_block bd ins p) \<longrightarrow> m2 x = m1 x"
    using Cons.IH f by blast
  have "m2 x = m1 x" if "x \<in> detour_block bd ins p" for x
    using r(4) f that unfolding footprint_def by (metis (no_types, lifting) Un_iff case_prodD case_prodI2 disjoint_iff prod.case)
  then have 0: "block_built bd mem ins p m2" by (rule block_built_cong [OF f [THEN conjunct1] b(3)])
  have k: "block_built bd mem (fst (ips ! k)) (snd (ips ! k)) m2" if k: "k < length ips" for k
  proof (rule block_built_old)
    show "block_built bd m1 (fst (ips ! k)) (snd (ips ! k)) m2" using r(3) k by blast
    fix x assume x: "x \<in> site (fst (ips ! k))"
    have "footprint bd (ins, p) \<inter> footprint bd (ips ! k) = {}" using f k by simp
    then have "x \<notin> detour_block bd ins p" using x by (auto simp: footprint_def split: prod.splits)
    then show "m1 x = mem x" by (rule b(4))
  qed
  have "\<forall>k < length (ip # ips). patch_of (fst ((ip # ips) ! k)) (snd ((ip # ips) ! k)) ((p1 # ps) ! k)
      \<and> block_built bd mem (fst ((ip # ips) ! k)) (snd ((ip # ips) ! k)) m2"
    using 0 k b(2) r(3) by (auto simp: ip nth_Cons split: nat.splits)
  moreover have "\<forall>x. (\<forall>(ins, p) \<in> set (ip # ips). x \<notin> detour_block bd ins p) \<longrightarrow> m2 x = mem x"
    using r(4) b(4) by (simp add: ip)
  moreover have "mv_build_patches bd ra i (ip # ips) mem = Inr (zip (map fst (ip # ips)) (p1 # ps), m2)"
    using b(1) r(1) by (simp add: ip)
  moreover have "length (p1 # ps) = length (ip # ips)" using r(2) by simp
  ultimately show ?case by blast
qed simp

lemma mv_apply_patches_correct:
  assumes "detours_fit bd ips" and "length ps = length ips"
    and "\<forall>k < length ips. patch_of (fst (ips ! k)) (snd (ips ! k)) (ps ! k)"
  shows "(\<forall>k < length ips. detour_placed (fst (ips ! k)) (snd (ips ! k)) (mv_apply_patches (zip (map fst ips) ps) mem))
    \<and> (\<forall>x. (\<forall>(ins, p) \<in> set ips. x \<notin> site ins \<union> pad ins) \<longrightarrow> mv_apply_patches (zip (map fst ips) ps) mem x = mem x)"
  using assms
proof (induction ips arbitrary: ps mem)
  case (Cons ip ips)
  obtain ins p where ip: "ip = (ins, p)" by (cases ip)
  obtain p1 qs where ps: "ps = p1 # qs" "length qs = length ips" using Cons.prems(2) by (cases ps) auto
  note f = Cons.prems(1) [unfolded ip detours_fit_Cons]
  have of0: "patch_of ins p p1" and ofk: "\<forall>k < length ips. patch_of (fst (ips ! k)) (snd (ips ! k)) (qs ! k)"
    using Cons.prems(3) by (auto simp: ip ps all_conj_distrib nth_Cons split: nat.splits dest: spec [of _ 0])
  let ?m1 = "mv_apply_patch (ins, p1) mem"
  let ?m2 = "mv_apply_patches (zip (map fst ips) qs) ?m1"
  have whole: "mv_apply_patches (zip (map fst (ip # ips)) ps) mem = ?m2" by (simp add: mv_apply_patches_def ip ps)
  have r: "\<forall>k < length ips. detour_placed (fst (ips ! k)) (snd (ips ! k)) ?m2"
    "\<forall>x. (\<forall>(ins, p) \<in> set ips. x \<notin> site ins \<union> pad ins) \<longrightarrow> ?m2 x = ?m1 x"
    using Cons.IH [of qs ?m1] f ps(2) ofk by blast+
  have ready: "detour_ready bd ins p" and sp: "site ins \<inter> pad ins = {}" using f by blast+
  note a = mv_apply_patch_correct [OF ready of0 sp, where mem = mem]
  have "detour_placed ins p ?m2"
  proof (rule detour_placed_cong)
    show "2 \<le> isize ins" using f by (simp add: detour_ready_def)
    show "detour_placed ins p ?m1" by (rule a(1))
    fix x assume x: "x \<in> site ins \<union> pad ins"
    have "x \<notin> site j \<union> pad j" if "(j, q) \<in> set ips" for j q
    proof -
      have "footprint bd (ins, p) \<inter> footprint bd (j, q) = {}" using f that by blast
      then show ?thesis using x by (auto simp: footprint_def)
    qed
    then show "?m2 x = ?m1 x" using r(2) by blast
  qed
  then have "\<forall>k < length (ip # ips). detour_placed (fst ((ip # ips) ! k)) (snd ((ip # ips) ! k)) ?m2"
    using r(1) by (auto simp: ip nth_Cons split: nat.splits)
  moreover have "\<forall>x. (\<forall>(ins, p) \<in> set (ip # ips). x \<notin> site ins \<union> pad ins) \<longrightarrow> ?m2 x = mem x"
    using r(2) a(2) by (simp add: ip)
  ultimately show ?case unfolding whole by blast
qed (simp add: mv_apply_patches_def)

section \<open>The detours lead to the copies and back\<close>

lemma detours_fit_nth:
  assumes "detours_fit bd ips" and "k < length ips"
  shows "detour_ready bd (fst (ips ! k)) (snd (ips ! k))"
    and "site (fst (ips ! k)) \<inter> detour_block bd (fst (ips ! k)) (snd (ips ! k)) = {}"
    and "pad (fst (ips ! k)) \<inter> detour_block bd (fst (ips ! k)) (snd (ips ! k)) = {}"
proof -
  obtain ins p where ip: "ips ! k = (ins, p)" by (cases "ips ! k")
  then have "(ins, p) \<in> set ips" using nth_mem [OF assms(2)] by simp
  then have "detour_ready bd ins p \<and> site ins \<inter> detour_block bd ins p = {} \<and> pad ins \<inter> detour_block bd ins p = {}"
    using assms(1) unfolding detours_fit_def by fast
  then show "detour_ready bd (fst (ips ! k)) (snd (ips ! k))" "site (fst (ips ! k)) \<inter> detour_block bd (fst (ips ! k)) (snd (ips ! k)) = {}"
    "pad (fst (ips ! k)) \<inter> detour_block bd (fst (ips ! k)) (snd (ips ! k)) = {}" by (simp_all add: ip)
qed

lemma footprints_apart:
  assumes "detours_fit bd ips" and "k < length ips" and "j < length ips" and "k \<noteq> j"
  shows "footprint bd (ips ! k) \<inter> footprint bd (ips ! j) = {}"
  using assms sorted_wrt_nth_less [of "\<lambda>ip jq. footprint bd ip \<inter> footprint bd jq = {}" ips k j]
    sorted_wrt_nth_less [of "\<lambda>ip jq. footprint bd ip \<inter> footprint bd jq = {}" ips j k]
  by (cases "k < j") (auto simp: detours_fit_def Int_commute)

lemma block_not_written:
  assumes "detours_fit bd ips" and "k < length ips" and "x \<in> detour_block bd (fst (ips ! k)) (snd (ips ! k))" and "(ins, p) \<in> set ips"
  shows "x \<notin> site ins \<union> pad ins"
proof -
  obtain j where j: "j < length ips" "ips ! j = (ins, p)" using assms(4) by (auto simp: in_set_conv_nth)
  show ?thesis
  proof (cases "j = k")
    case True
    then have "site ins \<inter> detour_block bd ins p = {}" "pad ins \<inter> detour_block bd ins p = {}" "x \<in> detour_block bd ins p"
      using detours_fit_nth(2,3) [OF assms(1,2)] assms(3) j(2) by simp_all
    then show ?thesis by blast
  next
    case False
    then have "footprint bd (ips ! k) \<inter> footprint bd (ips ! j) = {}" by (intro footprints_apart assms(1,2) j(1)) simp
    moreover have "x \<in> footprint bd (ips ! k)" using assms(3) by (cases "ips ! k") (simp add: footprint_def)
    ultimately have "x \<notin> footprint bd (ips ! j)" by blast
    then show ?thesis by (simp add: footprint_def j(2))
  qed
qed

text \<open>The jumps of a detour are in reach of their operands.\<close>

definition detour_return :: "build \<Rightarrow> mv_instruction \<times> patch \<Rightarrow> 64 word" where
  "detour_return bd = (\<lambda>(ins, p). block p + of_nat (stub_length bd) + of_nat (isize ins + length (functional_instr p)))"

definition jumps_reach :: "build \<Rightarrow> mv_instruction \<times> patch \<Rightarrow> bool" where
  "jumps_reach bd = (\<lambda>(ins, p).
     - 128 \<le> sint (middle_buffer ins - (address ins + 2)) \<and> sint (middle_buffer ins - (address ins + 2)) < 128
     \<and> fits32 (block p - (middle_buffer ins + 5))
     \<and> fits32 (address ins + of_nat (isize ins) - (detour_return bd (ins, p) + 5)))"

definition detour_works :: "build \<Rightarrow> memory \<Rightarrow> mv_instruction \<times> patch \<Rightarrow> memory \<Rightarrow> bool" where
  "detour_works bd old = (\<lambda>(ins, p) mem.
     jump_target mem (address ins) = Some (middle_buffer ins)
     \<and> jump_target mem (middle_buffer ins) = Some (block p)
     \<and> (\<forall>k < isize ins. mem (unat (block p) + stub_length bd + k) = old (unat (address ins) + k))
     \<and> jump_target mem (detour_return bd (ins, p)) = Some (address ins + of_nat (isize ins))
     \<and> (\<forall>k < isize ins. 2 \<le> k \<longrightarrow> mem (unat (address ins) + k) = NOP))"

lemma detour_works_if:
  assumes "detour_ready bd ins p" and "jumps_reach bd (ins, p)" and "detour_placed ins p mem" and "block_built bd old ins p mem"
  shows "detour_works bd old (ins, p) mem"
proof -
  note r = assms(2) [unfolded jumps_reach_def prod.case] and d = assms(3) [unfolded detour_placed_def]
    and b = assms(4) [unfolded block_built_def Let_def]
  have "jump_target mem (address ins) = Some (middle_buffer ins)"
    by (rule jump8_target) (use d r in blast)+
  moreover have "jump_target mem (middle_buffer ins) = Some (block p)"
    by (rule jump_target_packed) (use d r in blast)+
  moreover have "jump_target mem (detour_return bd (ins, p)) = Some (address ins + of_nat (isize ins))"
    by (rule jump_target_packed) (use b r in \<open>simp_all only: detour_return_def prod.case\<close>)
  ultimately show ?thesis using d b block_place(1) [OF assms(1)] unfolding detour_works_def prod.case by simp
qed

text \<open>
  Building and then applying the patches of detours whose sites, pads and blocks do not overlap
  succeeds, and afterwards every detour works: the instrumented instruction is a short jump to its own pad,
  the pad a long jump to its own block, the copy in the block holds the bytes the program had at the site before any
  patch was built, the jump behind the functional code leads to the instruction after the site, and what is left of
  the site is \<open>nop\<close>. No byte outside of the sites, pads and blocks changes.
\<close>

theorem detours_work:
  assumes "detours_fit bd ips" and "\<forall>ip \<in> set ips. jumps_reach bd ip"
  shows "\<exists>built mem1. mv_build_patches bd ra 0 ips mem = Inr (built, mem1) \<and> map fst built = map fst ips
    \<and> (\<forall>k < length ips. detour_works bd mem (ips ! k) (mv_apply_patches built mem1))
    \<and> (\<forall>x. (\<forall>ip \<in> set ips. x \<notin> footprint bd ip) \<longrightarrow> mv_apply_patches built mem1 x = mem x)"
proof -
  obtain ps mem1 where b: "mv_build_patches bd ra 0 ips mem = Inr (zip (map fst ips) ps, mem1)" "length ps = length ips"
    "\<forall>k < length ips. patch_of (fst (ips ! k)) (snd (ips ! k)) (ps ! k) \<and> block_built bd mem (fst (ips ! k)) (snd (ips ! k)) mem1"
    "\<forall>x. (\<forall>(ins, p) \<in> set ips. x \<notin> detour_block bd ins p) \<longrightarrow> mem1 x = mem x"
    using mv_build_patches_correct [OF assms(1)] by blast
  let ?m = "mv_apply_patches (zip (map fst ips) ps) mem1"
  have a: "\<forall>k < length ips. detour_placed (fst (ips ! k)) (snd (ips ! k)) ?m"
    "\<forall>x. (\<forall>(ins, p) \<in> set ips. x \<notin> site ins \<union> pad ins) \<longrightarrow> ?m x = mem1 x"
    using mv_apply_patches_correct [OF assms(1) b(2)] b(3) by blast+
  have "detour_works bd mem (ips ! k) ?m" if k: "k < length ips" for k
  proof -
    obtain ins p where ip: "ips ! k = (ins, p)" by (cases "ips ! k")
    note n = detours_fit_nth [OF assms(1) k, unfolded ip fst_conv snd_conv]
    have "block_built bd mem ins p ?m"
    proof (rule block_built_cong [OF n(1)])
      show "block_built bd mem ins p mem1" using b(3) k ip by (metis fst_conv snd_conv)
      fix x assume "x \<in> detour_block bd ins p"
      then have "\<forall>(j, q) \<in> set ips. x \<notin> site j \<union> pad j" using block_not_written [OF assms(1) k, of x] ip by auto
      then show "?m x = mem1 x" using a(2) by blast
    qed
    moreover have "detour_placed ins p ?m" using a(1) k ip by (metis fst_conv snd_conv)
    moreover have "jumps_reach bd (ins, p)" using assms(2) nth_mem [OF k] ip by metis
    ultimately show ?thesis unfolding ip by (intro detour_works_if [OF n(1)])
  qed
  moreover have "?m x = mem x" if x: "\<forall>ip \<in> set ips. x \<notin> footprint bd ip" for x
  proof -
    have "\<forall>(ins, p) \<in> set ips. x \<notin> site ins \<union> pad ins" "\<forall>(ins, p) \<in> set ips. x \<notin> detour_block bd ins p"
      using x by (auto simp: footprint_def)
    then show ?thesis using a(2) [rule_format, of x] b(4) [rule_format, of x] by (simp only:)
  qed
  moreover have "map fst (zip (map fst ips) ps) = map fst ips" using b(2) by simp
  ultimately show ?thesis using b(1) by blast
qed

definition demo_detours :: "(mv_instruction \<times> patch) list" where
  "demo_detours =
     [((demo_record 4096 3)\<lparr>indirect_jump := CHR ''y'', middle_buffer := 4200\<rparr>, demo_patch),
      ((demo_record 4110 2)\<lparr>indirect_jump := CHR ''y'', middle_buffer := 4210\<rparr>, demo_patch\<lparr>block := 8100\<rparr>)]"

lemma demo_detours_fit: "detours_fit demo_build demo_detours"
proof -
  have l: "stub_length demo_build = 0" by (simp add: stub_length_def demo_build_def)
  have W: "LANDING_PAD_WIDTH = 10" by (simp add: LANDING_PAD_WIDTH_def LANDING_PAD_SLOT_SIZE_def LANDING_PAD_WIDTH_SLOTS_def)
  let ?i = "(demo_record 4096 3)\<lparr>indirect_jump := CHR ''y'', middle_buffer := 4200\<rparr>"
    and ?j = "(demo_record 4110 2)\<lparr>indirect_jump := CHR ''y'', middle_buffer := 4210\<rparr>"
    and ?q = "demo_patch\<lparr>block := 8100\<rparr>"
  have sz: "isize ?i = 3" "isize ?j = 2" "address ?i = 4096" "address ?j = 4110" "middle_buffer ?i = 4200" "middle_buffer ?j = 4210"
    by (simp_all add: demo_record_def)
  have s: "site ?i = {4096..<4099}" "site ?j = {4110..<4112}" "pad ?i = {4200..<4210}" "pad ?j = {4210..<4220}"
    unfolding site_def pad_def span_def sz W by simp_all
  have d: "detour_block demo_build ?i demo_patch = {8000..<8009}" "detour_block demo_build ?j ?q = {8100..<8108}"
    unfolding detour_block_def patch_length_truncate l span_def sz by (simp_all add: demo_patch_def)
  have r: "detour_ready demo_build ?i demo_patch" "detour_ready demo_build ?j ?q"
    by (simp_all add: detour_ready_def demo_record_def demo_patch_def l W MAX_STOLEN_BYTES_def)
  have "footprint demo_build (?i, demo_patch) \<inter> footprint demo_build (?j, ?q) = {}"
    unfolding footprint_def prod.case s d by auto
  moreover have "site ?i \<inter> pad ?i = {}" "site ?i \<inter> detour_block demo_build ?i demo_patch = {}" "pad ?i \<inter> detour_block demo_build ?i demo_patch = {}"
    "site ?j \<inter> pad ?j = {}" "site ?j \<inter> detour_block demo_build ?j ?q = {}" "pad ?j \<inter> detour_block demo_build ?j ?q = {}"
    unfolding s d by auto
  ultimately show ?thesis unfolding demo_detours_def detours_fit_Cons using r by (simp add: detours_fit_def)
qed

lemma demo_detours_reach: "\<forall>ip \<in> set demo_detours. jumps_reach demo_build ip"
  by (simp add: demo_detours_def jumps_reach_def detour_return_def demo_record_def demo_patch_def stub_length_def demo_build_def fits32_def)

theorem detours_work_witness:
  "\<exists>built mem1. mv_build_patches demo_build (\<lambda>_. 0) 0 demo_detours of_nat = Inr (built, mem1)
     \<and> jump_target (mv_apply_patches built mem1) 4110 = Some 4210 \<and> jump_target (mv_apply_patches built mem1) 4210 = Some 8100
     \<and> mv_apply_patches built mem1 8101 = of_nat 4111"
proof -
  from detours_work [OF demo_detours_fit demo_detours_reach, of "\<lambda>_. 0" of_nat]
  obtain built mem1 where b: "mv_build_patches demo_build (\<lambda>_. 0) 0 demo_detours of_nat = Inr (built, mem1)"
    and k: "\<forall>k < length demo_detours. detour_works demo_build of_nat (demo_detours ! k) (mv_apply_patches built mem1)" by blast
  have "detour_works demo_build of_nat (demo_detours ! 1) (mv_apply_patches built mem1)"
    by (rule k [rule_format]) (simp add: demo_detours_def)
  then have "jump_target (mv_apply_patches built mem1) 4110 = Some 4210 \<and> jump_target (mv_apply_patches built mem1) 4210 = Some 8100
     \<and> mv_apply_patches built mem1 8101 = of_nat 4111"
    by (auto simp: detour_works_def demo_detours_def demo_record_def demo_patch_def stub_length_def demo_build_def dest: spec [of _ 1])
  then show ?thesis using b by blast
qed

end
