(* ===== verification/Mv_Disasm.thy ===== *)
theory Mv_Disasm
  imports Disasm Detour_Code
begin

text \<open>
  The parser of \<open>MVM_MMAP_MULTIVERSIONING/src/_elf_parse.c\<close>. It keeps every instruction of the listing it can decode,
  and the branches among them, beside the records of the stores and loads to instrument. The
  functions it shares with the parser of \<open>MVM_CHUNK\<close> are in \<open>Disasm\<close>.
\<close>

section \<open>Registers\<close>

definition mv_get_register_index :: "string \<Rightarrow> int" where
  "mv_get_register_index r =
     (if r = ''%r15'' then 1 else if r = ''%r14'' then 2 else if r = ''%r13'' then 3 else if r = ''%r12'' then 4
      else if r = ''%rbp'' then 5 else if r = ''%rbx'' then 6 else if r = ''%r11'' then 7 else if r = ''%r10'' then 8
      else if r = ''%r9'' then 9 else if r = ''%r8'' then 10 else if r = ''%rax'' then 11 else if r = ''%rcx'' then 12
      else if r = ''%rdx'' then 13 else if r = ''%rsi'' then 14 else if r = ''%rdi'' then 15 else -2)"

section \<open>Decoded instructions\<close>

record parsed_instruction =
  pi_address :: "64 word"
  pi_size :: nat
  pi_pc_relative :: char
  pi_control_flow :: char
  pi_displacement_size :: nat
  pi_target_address :: "64 word"
  pi_text :: string

definition is_xdigit :: "char \<Rightarrow> bool" where "is_xdigit ch \<longleftrightarrow> digit_value ch < 16"

definition count_instruction_bytes :: "string \<Rightarrow> nat" where
  "count_instruction_bytes encoded = length (filter is_xdigit encoded) div 2"

definition is_control_flow_mnemonic :: "string \<Rightarrow> bool" where
  "is_control_flow_mnemonic opc \<longleftrightarrow> take 1 opc = ''j''
     \<or> opc \<in> set [''call'', ''callq'', ''loop'', ''loope'', ''loopne'', ''loopnz'', ''loopz'', ''ret'', ''retq'']"

definition parse_absolute_runtime_address :: "64 word \<Rightarrow> string \<Rightarrow> 64 word option" where
  "parse_absolute_runtime_address asl txt =
     (let t = dropWhile is_space txt;
          token = take (BLOCK - 1) (takeWhile (\<lambda>ch. is_xdigit ch \<or> ch = CHR ''x'' \<or> ch = CHR ''X'') t) in
      if take 1 t = ''*'' then None
      else if token = [] then None
      else Some (strtoul 16 token + asl))"

definition parse_comment_runtime_address :: "64 word \<Rightarrow> string \<Rightarrow> 64 word option" where
  "parse_comment_runtime_address asl line =
     (case dropWhile (\<lambda>ch. ch \<noteq> CHR ''#'') line of [] \<Rightarrow> None | ch # comment \<Rightarrow> parse_absolute_runtime_address asl comment)"

text \<open>Address, encoded bytes and text of a line, the blanks in front of the first and the last skipped.\<close>

definition line_parts :: "string \<Rightarrow> (string \<times> string \<times> string) option" where
  "line_parts line =
     (case strtok {CHR '':'', CHR 0x09} line of None \<Rightarrow> None
      | Some (address_token, r1) \<Rightarrow>
     (case strtok {CHR 0x09} r1 of None \<Rightarrow> None
      | Some (encoded_bytes, r2) \<Rightarrow>
     (case strtok {CHR 0x09} r2 of None \<Rightarrow> None
      | Some (decoded, r3) \<Rightarrow>
          if dropWhile is_space address_token = [] \<or> dropWhile is_space decoded = [] then None
          else Some (dropWhile is_space address_token, encoded_bytes, dropWhile is_space decoded))))"

text \<open>An operand relative to the instruction pointer; the comment of the line has its address.\<close>

definition resolve_rip :: "64 word \<Rightarrow> string \<Rightarrow> parsed_instruction \<Rightarrow> parsed_instruction outcome" where
  "resolve_rip asl line p =
     (if has_text line ''(%rip)'' then
        (case parse_comment_runtime_address asl line of
           None \<Rightarrow> Inl Exit_Failure
         | Some t \<Rightarrow> Inr (p\<lparr>pi_pc_relative := CHR ''y'', pi_displacement_size := 4, pi_target_address := t\<rparr>))
      else Inr p)"

definition resolve_branch :: "64 word \<Rightarrow> string \<Rightarrow> string \<Rightarrow> parsed_instruction \<Rightarrow> parsed_instruction" where
  "resolve_branch asl opc args p =
     (if \<not> is_control_flow_mnemonic opc then p
      else
        let p1 = p\<lparr>pi_control_flow := CHR ''y''\<rparr> in
        if opc = ''ret'' \<or> opc = ''retq'' then p1\<lparr>pi_pc_relative := CHR ''n'', pi_displacement_size := 0\<rparr>
        else case parse_absolute_runtime_address asl (dropWhile is_space args) of
               None \<Rightarrow> p1
             | Some t \<Rightarrow> p1\<lparr>pi_pc_relative := CHR ''y'', pi_target_address := t,
                            pi_displacement_size := (if pi_size p = 2 then 1 else 4)\<rparr>)"

text \<open>\<open>None\<close> is a line that is not an instruction.\<close>

definition parse_disassembly_instruction :: "64 word \<Rightarrow> string \<Rightarrow> parsed_instruction option outcome" where
  "parse_disassembly_instruction asl line =
     (case line_parts line of None \<Rightarrow> Inr None
      | Some (address_token, encoded_bytes, decoded) \<Rightarrow>
          if count_instruction_bytes encoded_bytes = 0 then Inr None
          else
          (case strtok {CHR '' '', CHR 0x09} decoded of None \<Rightarrow> Inr None
           | Some (opc, args) \<Rightarrow>
               and_then (resolve_rip asl line
                   \<lparr>pi_address = strtoul 16 address_token + asl, pi_size = count_instruction_bytes encoded_bytes,
                     pi_pc_relative = CHR ''n'', pi_control_flow = CHR ''n'', pi_displacement_size = 0,
                     pi_target_address = 0, pi_text = take (BLOCK - 1) decoded\<rparr>) (\<lambda>p.
                 Inr (Some (resolve_branch asl opc args p)))))"

text \<open>What the parser has found so far.\<close>

record parser =
  parsed_instructions :: "parsed_instruction list"
  direct_branch_refs :: "(64 word \<times> 64 word) list"
  instructions :: "mv_instruction list"

definition MAX_PARSED_INSTRUCTIONS :: nat where "MAX_PARSED_INSTRUCTIONS = 65536"

definition register_parsed_instruction :: "parsed_instruction \<Rightarrow> parser \<Rightarrow> parser outcome" where
  "register_parsed_instruction p st =
     (if length (parsed_instructions st) \<ge> MAX_PARSED_INSTRUCTIONS then Inl Exit_Failure
      else
        let st1 = st\<lparr>parsed_instructions := parsed_instructions st @ [p]\<rparr> in
        if pi_control_flow p = CHR ''y'' \<and> pi_target_address p \<noteq> 0 then
          if length (direct_branch_refs st) \<ge> MAX_PARSED_INSTRUCTIONS then Inl Exit_Failure
          else Inr (st1\<lparr>direct_branch_refs := direct_branch_refs st @ [(pi_address p, pi_target_address p)]\<rparr>)
        else Inr st1)"

section \<open>Records\<close>

text \<open>The comma behind the operand in memory of a load becomes a blank.\<close>

fun replace_load_comma :: "string \<Rightarrow> string" where
  "replace_load_comma (c1 # c2 # cs) =
     (if c1 = CHR '')'' \<and> c2 = CHR '','' then c1 # CHR '' '' # cs else c1 # replace_load_comma (c2 # cs))"
| "replace_load_comma cs = cs"

definition mark_comma :: "char \<Rightarrow> string \<Rightarrow> string outcome" where
  "mark_comma category p =
     (if category = CHR ''l'' then (if has_text p ''),'' then Inr (replace_load_comma p) else Inl Undefined)
      else (if has_text p '','' then Inr (replace_comma p) else Inl Undefined))"

definition mv_record ::
  "string \<Rightarrow> 64 word \<Rightarrow> nat \<Rightarrow> int \<Rightarrow> nat \<Rightarrow> char \<Rightarrow> string \<Rightarrow> string \<Rightarrow> string \<Rightarrow> string \<Rightarrow> target_address \<Rightarrow> mv_instruction" where
  "mv_record fname addr len parsed index category p opc src dst t =
     \<lparr>record_index = int index, function_name = fname, address = addr, isize = len, indirect_jump = CHR ''n'', middle_buffer = 0,
       type = category, rip_relative = CHR ''n'', effective_operand_address = 0, whole = p, opcode = opc, source = src, dest = dst,
       data_size = get_data_size opc src dst category, instrumentation_instructions = 0, target = t,
       parsed_index = parsed, detour_size = len, stolen = []\<rparr>"

definition memory_operand :: "char \<Rightarrow> string \<Rightarrow> string \<Rightarrow> string" where
  "memory_operand category src dst = (if category = CHR ''l'' then src else dst)"

text \<open>The operand is read as in \<open>Disasm\<close>, with the registers of this monitor.\<close>

definition mv_operand :: "char \<Rightarrow> string \<Rightarrow> string \<Rightarrow> target_address outcome" where
  "mv_operand category src dst = parse_operand mv_get_register_index (memory_operand category src dst)"

text \<open>\<open>None\<close> is an operand the backend does not instrument: without a base register it knows, or with an index.\<close>

definition mv_parse_instruction ::
  "string \<Rightarrow> 64 word \<Rightarrow> nat \<Rightarrow> int \<Rightarrow> nat \<Rightarrow> char \<Rightarrow> string \<Rightarrow> mv_instruction option outcome" where
  "mv_parse_instruction fname addr len parsed index category p =
     (if \<not> has_text p ''mov'' then Inl Exit_Failure
      else if BLOCK \<le> length p then Inl Undefined
      else and_then (mark_comma category p) (\<lambda>q.
           and_then (or_undefined (strtok {CHR '' ''} q)) (\<lambda>(opc, r1).
           and_then (or_undefined (strtok {CHR '' ''} r1)) (\<lambda>(src, r2).
           and_then (or_undefined (strtok {CHR '' ''} r2)) (\<lambda>(dst, r3).
           and_then (mv_operand category src dst) (\<lambda>t.
             if base_index t \<le> 0 then Inr None
             else if scale_index t \<noteq> 0 then Inr None
             else if parsed < 0 then Inl Exit_Failure
             else Inr (Some (mv_record fname addr len parsed index category p opc src dst t))))))))"

text \<open>
  A line of a function. \<open>store_only\<close> is the build with \<open>MMAP_MV_STORE\<close>, \<open>N\<close> the room for records.
\<close>

definition mv_parse_line ::
  "bool \<Rightarrow> nat \<Rightarrow> string \<Rightarrow> 64 word \<Rightarrow> int \<Rightarrow> nat \<Rightarrow> string \<Rightarrow> mv_instruction option outcome" where
  "mv_parse_line store_only N fname asl parsed index line =
     (let buf = first_cut {CHR 0x0A} line in
      if \<not> candidate buf then Inr None
      else if index \<ge> N then Inl Exit_Failure
      else
        let category = (if has_text buf ''),'' then CHR ''l'' else CHR ''s''); delims = {CHR '':'', CHR 0x09} in
        if category = CHR ''l'' \<and> store_only then Inr None
        else if has_text buf ''%rip'' then Inr None
        else
          and_then (or_undefined (strtok delims (first_cut {CHR ''#''} buf))) (\<lambda>(a, r1).
          and_then (or_undefined (strtok delims r1)) (\<lambda>(bin, r2).
          and_then (or_undefined (strtok delims r2)) (\<lambda>(p, r3).
            mv_parse_instruction fname (word_of_int (strtol 16 a) + asl)
              (length (filter (\<lambda>ch. ch \<noteq> CHR '' '') bin) div 2) parsed index category p))))"

definition mv_register_line :: "64 word \<Rightarrow> string \<Rightarrow> parser \<Rightarrow> (int \<times> parser) outcome" where
  "mv_register_line asl line st =
     and_then (parse_disassembly_instruction asl line) (\<lambda>found.
       case found of None \<Rightarrow> Inr (- 1, st)
       | Some p \<Rightarrow> and_then (register_parsed_instruction p st) (\<lambda>st1. Inr (int (length (parsed_instructions st1)) - 1, st1)))"

definition mv_add_record :: "mv_instruction option \<Rightarrow> parser \<Rightarrow> parser" where
  "mv_add_record found st = (case found of None \<Rightarrow> st | Some r \<Rightarrow> st\<lparr>instructions := instructions st @ [r]\<rparr>)"

text \<open>At the end of the file the loop does not end, as in \<open>Disasm\<close>.\<close>

fun mv_parse_body :: "bool \<Rightarrow> nat \<Rightarrow> string \<Rightarrow> 64 word \<Rightarrow> string list \<Rightarrow> parser \<Rightarrow> parser outcome option" where
  "mv_parse_body store_only N fname asl [] st = None"
| "mv_parse_body store_only N fname asl (line # lines) st =
     (case mv_register_line asl line st of
        Inl e \<Rightarrow> Some (Inl e)
      | Inr (parsed, st1) \<Rightarrow>
          if line = [CHR 0x0A] then Some (Inr st1)
          else case mv_parse_line store_only N fname asl parsed (length (instructions st1)) line of
                 Inl e \<Rightarrow> Some (Inl e)
               | Inr found \<Rightarrow> mv_parse_body store_only N fname asl lines (mv_add_record found st1))"

fun mv_parse_functions :: "bool \<Rightarrow> nat \<Rightarrow> string list \<Rightarrow> 64 word \<Rightarrow> string list \<Rightarrow> parser \<Rightarrow> parser outcome option" where
  "mv_parse_functions store_only N [] asl file st = Some (Inr st)"
| "mv_parse_functions store_only N (f # fs) asl file st =
     (case find_function f file of
        None \<Rightarrow> Some (Inl Exit_Failure)
      | Some lines \<Rightarrow>
          (case mv_parse_body store_only N f asl lines st of
             None \<Rightarrow> None
           | Some (Inl e) \<Rightarrow> Some (Inl e)
           | Some (Inr st1) \<Rightarrow> mv_parse_functions store_only N fs asl file st1))"

definition no_instructions :: parser where
  "no_instructions = \<lparr>parsed_instructions = [], direct_branch_refs = [], instructions = []\<rparr>"

definition mv_elf_parse :: "bool \<Rightarrow> nat \<Rightarrow> string list \<Rightarrow> 64 word \<Rightarrow> string list option \<Rightarrow> parser outcome option" where
  "mv_elf_parse store_only N names asl the_file =
     (case the_file of None \<Rightarrow> Some (Inl Exit_Failure)
      | Some file \<Rightarrow> mv_parse_functions store_only N names asl file no_instructions)"

section \<open>The records of a parse\<close>

lemma mv_register_values: "mv_get_register_index r = - 2 \<or> 1 \<le> mv_get_register_index r \<and> mv_get_register_index r \<le> 15"
  by (simp add: mv_get_register_index_def)

lemma mv_register_le: "mv_get_register_index r \<le> 15"
  using mv_register_values [of r] by auto

lemma parse_registers_base: "base_index t = 0 \<Longrightarrow> base_index (parse_registers mv_get_register_index k p t) \<le> 15"
  using mv_register_le by (simp add: parse_registers_def Let_def)

lemma mv_operand_base: "parse_operand mv_get_register_index s = Inr t \<Longrightarrow> base_index t \<le> 15"
  using parse_registers_base
  by (auto simp: parse_operand_def no_target_def Let_def split: if_splits option.splits)

text \<open>What every record satisfies; \<open>k\<close> is its position.\<close>

definition mv_record_ok :: "bool \<Rightarrow> nat \<Rightarrow> mv_instruction \<Rightarrow> bool" where
  "mv_record_ok store_only k r \<longleftrightarrow> record_index r = int k \<and> type r \<in> {CHR ''s'', CHR ''l''} \<and> (store_only \<longrightarrow> type r = CHR ''s'')
     \<and> rip_relative r = CHR ''n'' \<and> effective_operand_address r = 0
     \<and> 1 \<le> base_index (target r) \<and> base_index (target r) \<le> 15 \<and> scale_index (target r) = 0
     \<and> data_size r \<in> {-1, 1, 2, 4, 8} \<and> length (whole r) < BLOCK"

lemma mv_parse_instruction_ok:
  assumes "mv_parse_instruction fname addr len parsed k category p = Inr (Some r)"
  shows "\<exists>opc src dst t. r = mv_record fname addr len parsed k category p opc src dst t \<and> 0 \<le> parsed \<and> length p < BLOCK
    \<and> 1 \<le> base_index t \<and> base_index t \<le> 15 \<and> scale_index t = 0"
proof -
  obtain opc src dst t where t: "parse_operand mv_get_register_index (memory_operand category src dst) = Inr t"
    and b: "\<not> base_index t \<le> 0" "scale_index t = 0" "\<not> parsed < 0" "\<not> BLOCK \<le> length p"
    and r: "r = mv_record fname addr len parsed k category p opc src dst t"
    using assms by (auto simp: mv_parse_instruction_def mv_operand_def and_then_eq_Inr split: if_split_asm)
  then have "base_index t \<le> 15" using mv_operand_base [OF t] by simp
  with r b show ?thesis by (intro exI [of _ opc] exI [of _ src] exI [of _ dst] exI [of _ t]) simp
qed

lemma mv_parse_line_ok:
  assumes "mv_parse_line store_only N fname asl parsed k line = Inr (Some r)"
  shows "mv_record_ok store_only k r \<and> k < N \<and> 0 \<le> parsed \<and> parsed_index r = parsed"
proof -
  obtain addr len category p where
    i: "mv_parse_instruction fname addr len parsed k category p = Inr (Some r)"
    and c: "category \<in> {CHR ''s'', CHR ''l''}" "store_only \<longrightarrow> category = CHR ''s''" and k: "k < N"
    using assms by (auto simp: mv_parse_line_def Let_def and_then_eq_Inr split: if_split_asm)
  from mv_parse_instruction_ok [OF i] obtain opc src dst t where
    r: "r = mv_record fname addr len parsed k category p opc src dst t" "0 \<le> parsed" "length p < BLOCK"
    "1 \<le> base_index t" "base_index t \<le> 15" "scale_index t = 0" by blast
  then show ?thesis using c k get_data_size_values [of opc src dst category] by (simp add: mv_record_ok_def mv_record_def)
qed

definition branch_refs :: "parsed_instruction list \<Rightarrow> (64 word \<times> 64 word) list" where
  "branch_refs ps = map (\<lambda>p. (pi_address p, pi_target_address p)) (filter (\<lambda>p. pi_control_flow p = CHR ''y'' \<and> pi_target_address p \<noteq> 0) ps)"

text \<open>The record and the decoded instruction it names come from one line of the file.\<close>

definition same_line :: "bool \<Rightarrow> nat \<Rightarrow> 64 word \<Rightarrow> string list \<Rightarrow> parsed_instruction list \<Rightarrow> nat \<Rightarrow> mv_instruction \<Rightarrow> bool" where
  "same_line store_only N asl file ps k r \<longleftrightarrow> 0 \<le> parsed_index r \<and> nat (parsed_index r) < length ps
     \<and> (\<exists>line \<in> set file. parse_disassembly_instruction asl line = Inr (Some (ps ! nat (parsed_index r)))
          \<and> (\<exists>fname. mv_parse_line store_only N fname asl (parsed_index r) k line = Inr (Some r)))"

definition parser_ok :: "bool \<Rightarrow> nat \<Rightarrow> 64 word \<Rightarrow> string list \<Rightarrow> parser \<Rightarrow> bool" where
  "parser_ok store_only N asl file st \<longleftrightarrow>
     length (instructions st) \<le> N \<and> length (parsed_instructions st) \<le> MAX_PARSED_INSTRUCTIONS
     \<and> direct_branch_refs st = branch_refs (parsed_instructions st)
     \<and> (\<forall>k < length (instructions st). mv_record_ok store_only k (instructions st ! k)
          \<and> same_line store_only N asl file (parsed_instructions st) k (instructions st ! k))"

lemma same_line_more: "same_line store_only N asl file ps k r \<Longrightarrow> same_line store_only N asl file (ps @ qs) k r"
  by (auto simp: same_line_def nth_append)

lemma register_line_ok:
  assumes "mv_register_line asl line st = Inr (parsed, st1)" and "parser_ok store_only N asl file st"
  shows "parser_ok store_only N asl file st1 \<and> instructions st1 = instructions st
    \<and> (0 \<le> parsed \<longrightarrow> nat parsed < length (parsed_instructions st1)
         \<and> parse_disassembly_instruction asl line = Inr (Some (parsed_instructions st1 ! nat parsed)))"
proof -
  obtain found where f: "parse_disassembly_instruction asl line = Inr found" using assms(1) by (auto simp: mv_register_line_def and_then_eq_Inr)
  show ?thesis
  proof (cases found)
    case None
    then show ?thesis using assms f by (auto simp: mv_register_line_def)
  next
    case (Some p)
    then have reg: "register_parsed_instruction p st = Inr st1" and parsed: "parsed = int (length (parsed_instructions st1)) - 1"
      using assms(1) f by (auto simp: mv_register_line_def and_then_eq_Inr)
    have s: "parsed_instructions st1 = parsed_instructions st @ [p]" "instructions st1 = instructions st"
      "direct_branch_refs st1 = (if pi_control_flow p = CHR ''y'' \<and> pi_target_address p \<noteq> 0
         then direct_branch_refs st @ [(pi_address p, pi_target_address p)] else direct_branch_refs st)"
      "length (parsed_instructions st) < MAX_PARSED_INSTRUCTIONS"
      using reg by (auto simp: register_parsed_instruction_def Let_def split: if_splits)
    have "parser_ok store_only N asl file st1"
      using assms(2) s same_line_more by (auto simp: parser_ok_def branch_refs_def)
    then show ?thesis using f Some s parsed by simp
  qed
qed

lemma add_record_ok:
  assumes "parser_ok store_only N asl file st" and "mv_parse_line store_only N fname asl parsed (length (instructions st)) line = Inr found"
    and "0 \<le> parsed \<longrightarrow> nat parsed < length (parsed_instructions st)
         \<and> parse_disassembly_instruction asl line = Inr (Some (parsed_instructions st ! nat parsed))"
    and "line \<in> set file"
  shows "parser_ok store_only N asl file (mv_add_record found st)"
proof (cases found)
  case None
  then show ?thesis using assms(1) by (simp add: mv_add_record_def)
next
  case (Some r)
  note l = mv_parse_line_ok [OF assms(2) [unfolded Some]]
  have "same_line store_only N asl file (parsed_instructions st) (length (instructions st)) r"
    using assms(2-4) l unfolding same_line_def Some by blast
  then show ?thesis using assms(1) l by (auto simp: mv_add_record_def Some parser_ok_def nth_append less_Suc_eq)
qed

lemma mv_parse_body_ok:
  "mv_parse_body store_only N fname asl lines st = Some (Inr st') \<Longrightarrow> set lines \<subseteq> set file \<Longrightarrow> parser_ok store_only N asl file st
   \<Longrightarrow> parser_ok store_only N asl file st'"
proof (induction lines arbitrary: st)
  case (Cons line lines)
  obtain parsed st1 where reg: "mv_register_line asl line st = Inr (parsed, st1)"
    using Cons.prems(1) by (cases "mv_register_line asl line st") auto
  note r = register_line_ok [OF reg Cons.prems(3)]
  show ?case
  proof (cases "line = [CHR 0x0A]")
    case True
    then show ?thesis using Cons.prems(1) reg r by simp
  next
    case False
    then obtain found where l: "mv_parse_line store_only N fname asl parsed (length (instructions st1)) line = Inr found"
      using Cons.prems(1) reg by (cases "mv_parse_line store_only N fname asl parsed (length (instructions st1)) line") auto
    then have "mv_parse_body store_only N fname asl lines (mv_add_record found st1) = Some (Inr st')"
      using Cons.prems(1) False reg by simp
    moreover have "parser_ok store_only N asl file (mv_add_record found st1)"
      using add_record_ok [OF conjunct1 [OF r] l] r Cons.prems(2) by simp
    ultimately show ?thesis using Cons.IH Cons.prems(2) by simp
  qed
qed simp

lemma find_function_lines: "find_function f ls = Some lines \<Longrightarrow> set lines \<subseteq> set ls"
  by (induction ls) (auto split: if_splits)

lemma mv_parse_functions_ok:
  "mv_parse_functions store_only N fs asl file st = Some (Inr st') \<Longrightarrow> parser_ok store_only N asl file st
   \<Longrightarrow> parser_ok store_only N asl file st'"
  by (induction fs arbitrary: st) (auto intro: mv_parse_body_ok [OF _ find_function_lines] split: option.splits sum.splits)

text \<open>
  Property C18. The records the parser of the page version monitor returns fit their array, carry their positions, are
  stores (or loads, except in the builds that save before a store) with one of the fifteen saved registers as
  base and no index, and are never relative to the instruction pointer. Every record comes from the same line of the file
  as the decoded instruction it names, and the list of branches holds exactly the branches with a known target
  among the decoded instructions, in order.
\<close>

theorem mv_elf_parse_records:
  assumes "mv_elf_parse store_only N names asl (Some file) = Some (Inr st)"
  shows "length (instructions st) \<le> N \<and> length (parsed_instructions st) \<le> MAX_PARSED_INSTRUCTIONS
    \<and> direct_branch_refs st = branch_refs (parsed_instructions st)
    \<and> (\<forall>k < length (instructions st). mv_record_ok store_only k (instructions st ! k)
         \<and> same_line store_only N asl file (parsed_instructions st) k (instructions st ! k))"
proof -
  have "parser_ok store_only N asl file no_instructions" by (simp add: parser_ok_def no_instructions_def branch_refs_def)
  then have "parser_ok store_only N asl file st" using assms mv_parse_functions_ok by (simp add: mv_elf_parse_def)
  then show ?thesis unfolding parser_ok_def .
qed

section \<open>Printed lines are decoded\<close>

text \<open>
  A line as \<open>objdump -Dw\<close> prints it: the address right-aligned in its column, a tabulator, the bytes with a blank behind each and
  blanks up to the width of seven, a tabulator, the mnemonic with blanks up to the width of six and one more, the operands.
\<close>

definition print_bytes :: "byte list \<Rightarrow> string" where
  "print_bytes bs = concat (map (\<lambda>b. [hex_digit (unat b div 16), hex_digit (unat b mod 16), CHR '' '']) bs)"

definition byte_column :: "byte list \<Rightarrow> string" where
  "byte_column bs = print_bytes bs @ replicate (3 * (7 - length bs)) (CHR '' '')"


definition print_line :: "nat \<Rightarrow> nat \<Rightarrow> byte list \<Rightarrow> string \<Rightarrow> string" where
  "print_line width a bs txt = replicate (width - length (hex_string a)) (CHR '' '') @ hex_string a @ CHR '':'' # CHR 0x09 #
     byte_column bs @ CHR 0x09 # txt @ [CHR 0x0A]"

definition printed_instruction :: "64 word \<Rightarrow> nat \<Rightarrow> byte list \<Rightarrow> string \<Rightarrow> parsed_instruction" where
  "printed_instruction asl a bs txt =
     \<lparr>pi_address = of_nat a + asl, pi_size = length bs, pi_pc_relative = CHR ''n'', pi_control_flow = CHR ''n'',
       pi_displacement_size = 0, pi_target_address = 0, pi_text = take (BLOCK - 1) (txt @ [CHR 0x0A])\<rparr>"

lemma byte_digits: "unat (b :: byte) div 16 < 16" "unat b mod 16 < 16"
proof -
  have "unat b < 256" using unsigned_less [of b] by simp
  then show "unat b div 16 < 16" "unat b mod 16 < 16" by (simp_all add: less_mult_imp_div_less)
qed

lemma hex_digit_code_range:
  "n < 16 \<Longrightarrow> 48 \<le> char_code (hex_digit n) \<and> char_code (hex_digit n) \<le> 57 \<or> 97 \<le> char_code (hex_digit n) \<and> char_code (hex_digit n) \<le> 102"
  using hex_string_code [of "hex_digit n" n] by (simp add: hex_string_small)

lemma print_bytes_code:
  "ch \<in> set (print_bytes bs) \<Longrightarrow> ch = CHR '' '' \<or> 48 \<le> char_code ch \<and> char_code ch \<le> 57 \<or> 97 \<le> char_code ch \<and> char_code ch \<le> 102"
  using hex_digit_code_range [OF byte_digits(1)] hex_digit_code_range [OF byte_digits(2)] by (auto simp: print_bytes_def)

lemma hex_digit_is_xdigit: "n < 16 \<Longrightarrow> is_xdigit (hex_digit n)"
  by (simp add: is_xdigit_def hex_digit_value)

lemma byte_column_code:
  "ch \<in> set (byte_column bs) \<Longrightarrow> ch = CHR '' '' \<or> 48 \<le> char_code ch \<and> char_code ch \<le> 57 \<or> 97 \<le> char_code ch \<and> char_code ch \<le> 102"
  using print_bytes_code by (auto simp: byte_column_def)

lemma count_print_bytes: "count_instruction_bytes (byte_column bs) = length bs"
proof -
  have "\<not> is_xdigit (CHR '' '')" by (simp add: is_xdigit_def digit_value_def)
  then have "length (filter is_xdigit (print_bytes bs)) = 2 * length bs"
    by (induction bs) (simp_all add: print_bytes_def hex_digit_is_xdigit byte_digits)
  moreover have "filter is_xdigit (replicate k (CHR '' '')) = []" for k
    using \<open>\<not> is_xdigit (CHR '' '')\<close> by (simp add: filter_replicate)
  ultimately show ?thesis by (simp add: count_instruction_bytes_def byte_column_def)
qed

lemma hex_string_no: "48 > char_code ch \<or> 57 < char_code ch \<and> char_code ch < 97 \<or> 102 < char_code ch \<Longrightarrow> ch \<notin> set (hex_string n)"
  using hex_string_code [of ch n] by auto

lemma hex_string_second: "hex_string n = c1 # c2 # cs \<Longrightarrow> c2 \<noteq> CHR ''x'' \<and> c2 \<noteq> CHR ''X''"
  using hex_string_no [of "CHR ''x''" n] hex_string_no [of "CHR ''X''" n] by (auto simp: hex_string.simps [of n])

lemma strip_prefix_hex: "strip_prefix 16 (hex_string n) = hex_string n"
  using hex_string_second [of n] by (auto simp: strip_prefix_def split: list.splits)

lemma strtoul_hex:
  assumes "n < 2 ^ 64"
  shows "strtoul 16 (hex_string n) = of_nat n"
proof -
  obtain ch cs where h: "hex_string n = ch # cs" "\<not> is_space ch" "ch \<noteq> CHR ''-''" "ch \<noteq> CHR ''+''"
    using hex_string_Cons by blast
  have "digits_value 16 0 (hex_string n) = int n" using digits_value_hex [of 0 n "[]"] by simp
  then have v: "signed_value 16 (hex_string n) = int n" using h strip_prefix_hex [of n] by (simp add: signed_value_def)
  have "int n < 2 ^ 64" using assms by (metis of_nat_less_iff of_nat_numeral of_nat_power)
  then show ?thesis using v by (simp add: strtoul_def Let_def)
qed



lemma skip_blanks: "dropWhile is_space (replicate k (CHR '' '') @ s) = dropWhile is_space s"
  by (induction k) (simp_all add: is_space_def)

lemma line_parts_printed:
  assumes "bs \<noteq> []" and "txt \<noteq> []" and "CHR 0x09 \<notin> set txt" and "\<not> is_space (hd txt)"
  shows "line_parts (print_line width a bs txt) = Some (hex_string a, byte_column bs, txt @ [CHR 0x0A])"
proof -
  let ?T = "CHR 0x09" and ?rest = "txt @ [CHR 0x0A]" and ?pad = "replicate (width - length (hex_string a)) (CHR '' '')"
  obtain ch cs where c: "hex_string a = ch # cs" "\<not> is_space ch" using hex_string_Cons by blast
  have h: "set (?pad @ hex_string a) \<inter> {CHR '':'', ?T} = {}"
    using hex_string_no [of "CHR '':''" a] hex_string_no [of ?T a] by auto
  have 1: "strtok {CHR '':'', ?T} (print_line width a bs txt) = Some (?pad @ hex_string a, ?T # byte_column bs @ ?T # ?rest)"
    using strtok_token(1) [OF _ h, of "CHR '':''" "?T # byte_column bs @ ?T # ?rest"] c(1) by (simp add: print_line_def)
  have b: "byte_column bs \<noteq> []" "set (byte_column bs) \<inter> {?T} = {}"
    using assms(1) byte_column_code [of ?T bs] by (cases bs; auto simp: byte_column_def print_bytes_def)+
  have 2: "strtok {?T} (?T # byte_column bs @ ?T # ?rest) = Some (byte_column bs, ?rest)"
    using strtok_token(1) [OF b, of ?T ?rest] by (simp add: strtok_skip)
  have 3: "strtok {?T} ?rest = Some (?rest, [])" by (rule strtok_token(2)) (use assms(2,3) in auto)
  have 4: "dropWhile is_space (?pad @ hex_string a) = hex_string a" using c by (simp add: skip_blanks)
  have 5: "dropWhile is_space ?rest = ?rest" using assms(2,4) by (cases "txt") simp_all
  show ?thesis unfolding line_parts_def 1 option.case prod.case 2 3 4 5 using assms(2) c(1) by simp
qed






text \<open>\<open>ret\<close> without blanks behind it keeps the newline of its line and is not taken for control flow.\<close>

theorem bare_ret_missed:
  assumes "a < 2 ^ 64"
  shows "parse_disassembly_instruction asl (print_line width a [0xc3] ''ret'') = Inr (Some (printed_instruction asl a [0xc3] ''ret''))"
proof -
  let ?line = "print_line width a [0xc3] ''ret''"
  have parts: "line_parts ?line = Some (hex_string a, byte_column [0xc3], ''ret'' @ [CHR 0x0A])"
    by (rule line_parts_printed) (simp_all add: is_space_def)
  have tok: "strtok {CHR '' '', CHR 0x09} (''ret'' @ [CHR 0x0A]) = Some (''ret'' @ [CHR 0x0A], [])"
    by (rule strtok_token(2)) auto
  have "CHR ''('' \<notin> set ?line"
    using hex_string_no [of "CHR ''(''" a] byte_column_code [of "CHR ''(''" "[0xc3]"] by (auto simp: print_line_def)
  moreover have "CHR ''('' \<in> set s" if "has_text s ''(%rip)''" for s
    using that by (induction s) (auto simp: starts_with_def split: if_splits)
  ultimately have "\<not> has_text ?line ''(%rip)''" by blast
  then show ?thesis
    unfolding parse_disassembly_instruction_def parts option.case prod.case tok
    using assms count_print_bytes [of "[0xc3]"]
    by (simp add: resolve_rip_def resolve_branch_def is_control_flow_mnemonic_def strtoul_hex printed_instruction_def)
qed

theorem bare_ret_missed_witness: "parse_disassembly_instruction 0 (print_line 8 4096 [0xc3] ''ret'')
    = Inr (Some (printed_instruction 0 4096 [0xc3] ''ret''))"
  by (rule bare_ret_missed) simp

section \<open>The hook reaches the operands of the parser\<close>

text \<open>The register at every place of the snapshot.\<close>

definition snapshot_registers :: "string list" where
  "snapshot_registers = [''%r15'', ''%r14'', ''%r13'', ''%r12'', ''%rbp'', ''%rbx'', ''%r11'', ''%r10'', ''%r9'', ''%r8'',
     ''%rax'', ''%rcx'', ''%rdx'', ''%rsi'', ''%rdi'']"

lemma mv_register_index: "j < 15 \<Longrightarrow> mv_get_register_index (snapshot_registers ! j) = int j + 1"
proof -
  assume "j < 15"
  then have "j \<in> set [0, 1, 2, 3, 4, 5, 6, 7, 8, 9, 10, 11, 12, 13, 14]" by (simp, presburger)
  then show ?thesis by (elim set_ConsD [THEN disjE]; simp add: snapshot_registers_def mv_get_register_index_def)
qed

lemma mv_register_known: "0 < mv_get_register_index r \<longleftrightarrow> r \<in> set snapshot_registers"
  by (simp add: mv_get_register_index_def snapshot_registers_def)

lemma mv_register_not_0: "mv_get_register_index r \<noteq> 0"
  by (simp add: mv_get_register_index_def)

text \<open>
  Property C20. The parser keeps exactly the operands with a known base register and no index. For them the hook
  computes the address of the operand from the place of the snapshot that holds the base register, and it can move
  the operand anywhere: it changes this one register of the snapshot, by the distance of the two addresses, and the
  instruction then addresses the new place.
\<close>

theorem mv_operand_of_parsed:
  fixes regs :: registers
  assumes "effective_operand_address ins = 0" and "rip_relative ins \<noteq> CHR ''y''"
    and "parse_operand mv_get_register_index (print_operand disp base ix) = Inr (target ins)"
    and "plain base" and "\<forall>r s. ix = Some (r, s) \<longrightarrow> plain r \<and> s < 16" and "\<forall>neg n. disp = Some (neg, n) \<longrightarrow> n < 2 ^ 64"
  defines "d \<equiv> (case disp of None \<Rightarrow> 0 | Some (neg, n) \<Rightarrow> if neg then - of_nat n else of_nat n) :: 64 word"
  shows "(0 < base_index (target ins) \<and> scale_index (target ins) = 0 \<longleftrightarrow> base \<in> set snapshot_registers \<and> ix = None)
    \<and> (\<forall>j < 15. base = snapshot_registers ! j \<longrightarrow> ix = None \<longrightarrow>
         compute_effective_address ins regs = Inr (d + regs j)
       \<and> (\<forall>ea'. \<exists>regs'. rewrite_base_reg_for_ea ins regs (d + regs j) ea' = Inr (1, regs')
            \<and> compute_effective_address ins regs' = Inr ea'
            \<and> regs' = regs(j := regs j + (ea' - (d + regs j)))))"
proof (intro conjI allI impI)
  have t: "target ins = operand_target mv_get_register_index disp base ix" using assms(3) parse_print_operand [OF assms(4-6)] by simp
  show "0 < base_index (target ins) \<and> scale_index (target ins) = 0 \<longleftrightarrow> base \<in> set snapshot_registers \<and> ix = None"
    using mv_register_known [of base] mv_register_not_0 by (auto simp: t operand_target_def Let_def split: option.splits)
  fix j assume j: "j < 15" "base = snapshot_registers ! j" "ix = None"
  have tj: "base_index (target ins) = int j + 1" "scale_index (target ins) = 0" "displacement (target ins) = d"
    using mv_register_index [OF j(1)] j(2,3) by (simp_all add: t operand_target_def Let_def d_def)
  have rd: "read_reg regs (int j + 1) = Inr (regs j)" "write_reg regs (int j + 1) v = Inr (regs(j := v))" for regs :: registers and v
    using j(1) by (simp_all add: read_reg_def write_reg_def SAVED_REGISTERS_def)
  have ea: "compute_effective_address ins regs = Inr (d + regs j)" for regs
    using assms(1) tj rd(1) by (simp add: compute_effective_address_def Let_def)
  show "compute_effective_address ins regs = Inr (d + regs j)" by (rule ea)
  fix ea'
  show "\<exists>regs'. rewrite_base_reg_for_ea ins regs (d + regs j) ea' = Inr (1, regs')
            \<and> compute_effective_address ins regs' = Inr ea' \<and> regs' = regs(j := regs j + (ea' - (d + regs j)))"
    using assms(2) tj rd ea [of "regs(j := regs j + (ea' - (d + regs j)))"]
    by (cases "ea' - (d + regs j) = 0") (simp_all add: rewrite_base_reg_for_ea_def Let_def)
qed

definition demo_operand :: mv_instruction where
  "demo_operand = (demo_record 4096 3)\<lparr>target := operand_target mv_get_register_index (Some (True, 8)) ''%rbx'' None\<rparr>"

theorem mv_operand_of_parsed_witness:
  "compute_effective_address (instruction_record.truncate demo_operand) (\<lambda>k. if k = 5 then 1000 else 0) = Inr 992"
proof -
  have p: "plain ''%rbx''" by (simp add: plain_def)
  let ?ins = "instruction_record.truncate demo_operand"
  have t: "parse_operand mv_get_register_index (print_operand (Some (True, 8)) ''%rbx'' None) = Inr (target ?ins)"
    using p by (simp add: demo_operand_def parse_print_operand instruction_record.truncate_def)
  have e: "effective_operand_address ?ins = 0" "rip_relative ?ins \<noteq> CHR ''y''"
    by (simp_all add: demo_operand_def Landing_Pads.demo_record_def instruction_record.truncate_def)
  have "snapshot_registers ! 5 = ''%rbx''" by (simp add: snapshot_registers_def)
  moreover have "(5 :: nat) < 15" by simp
  ultimately have "compute_effective_address ?ins (\<lambda>k. if k = 5 then 1000 else 0) = Inr (- 8 + 1000)"
    using mv_operand_of_parsed [OF e t p, of "\<lambda>k. if k = 5 then 1000 else 0", THEN conjunct2, rule_format, of 5] by simp
  then show ?thesis by simp
qed

section \<open>A listing\<close>

definition store_line :: string where
  "store_line = '' 190:'' @ [CHR 0x09] @ ''89 50 08 '' @ [CHR 0x09] @ ''mov %edx,0x8(%rax)'' @ [CHR 0x0A]"

definition load_line :: string where
  "load_line = '' 193:'' @ [CHR 0x09] @ ''8b 13 '' @ [CHR 0x09] @ ''mov (%rbx),%edx'' @ [CHR 0x0A]"

definition mv_listing :: "string list" where
  "mv_listing = [''00190 <f>:'' @ [CHR 0x0A], store_line, load_line, [CHR 0x0A]]"

lemma mv_listing_lines:
  "parse_disassembly_instruction 0 store_line = Inr (Some \<lparr>pi_address = 400, pi_size = 3, pi_pc_relative = CHR ''n'',
     pi_control_flow = CHR ''n'', pi_displacement_size = 0, pi_target_address = 0, pi_text = ''mov %edx,0x8(%rax)'' @ [CHR 0x0A]\<rparr>)"
  "parse_disassembly_instruction 0 load_line = Inr (Some \<lparr>pi_address = 403, pi_size = 2, pi_pc_relative = CHR ''n'',
     pi_control_flow = CHR ''n'', pi_displacement_size = 0, pi_target_address = 0, pi_text = ''mov (%rbx),%edx'' @ [CHR 0x0A]\<rparr>)"
  "parse_disassembly_instruction 0 [CHR 0x0A] = Inr None"
  by code_simp+

definition listing_store :: mv_instruction where
  "listing_store = mv_record ''<f>'' 400 3 0 0 (CHR ''s'') ''mov %edx,0x8(%rax)'' ''mov'' ''%edx'' ''0x8(%rax)''
     \<lparr>displacement = 8, base_index = 11, scale_index = 0, scale = 0\<rparr>"

definition listing_load :: mv_instruction where
  "listing_load = mv_record ''<f>'' 403 2 1 1 (CHR ''l'') ''mov (%rbx),%edx'' ''mov'' ''(%rbx)'' ''%edx''
     \<lparr>displacement = 0, base_index = 6, scale_index = 0, scale = 0\<rparr>"

lemma mv_listing_records:
  "mv_parse_line False 4 ''<f>'' 0 0 0 store_line = Inr (Some listing_store)"
  "mv_parse_line False 4 ''<f>'' 0 1 1 load_line = Inr (Some listing_load)"
  by code_simp+

lemma mv_parse_line_room: "index < N \<Longrightarrow> index < M \<Longrightarrow>
    mv_parse_line store_only N fname asl parsed index line = mv_parse_line store_only M fname asl parsed index line"
  by (simp add: mv_parse_line_def Let_def)

lemma listing_parsed:
  assumes "find_function ''<f>'' ls = Some (store_line # load_line # [CHR 0x0A] # rest)" and "2 \<le> N"
  shows "\<exists>st. mv_elf_parse False N [''<f>''] 0 (Some ls) = Some (Inr st) \<and> instructions st = [listing_store, listing_load]"
proof -
  have n: "store_line \<noteq> [CHR 0x0A]" "load_line \<noteq> [CHR 0x0A]" by code_simp+
  have l: "mv_parse_line False N ''<f>'' 0 0 0 store_line = Inr (Some listing_store)"
    "mv_parse_line False N ''<f>'' 0 1 (Suc 0) load_line = Inr (Some listing_load)"
    using mv_listing_records mv_parse_line_room [of _ N 4] assms(2) by simp_all
  show ?thesis
    using n by (simp add: mv_elf_parse_def assms(1) mv_register_line_def mv_listing_lines register_parsed_instruction_def Let_def
        MAX_PARSED_INSTRUCTIONS_def no_instructions_def l mv_add_record_def)
qed

lemma mv_listing_parsed:
  "\<exists>st. mv_elf_parse False 4 [''<f>''] 0 (Some mv_listing) = Some (Inr st) \<and> instructions st = [listing_store, listing_load]"
proof (rule listing_parsed)
  show "find_function ''<f>'' mv_listing = Some (store_line # load_line # [CHR 0x0A] # [])" by code_simp
qed simp

theorem mv_elf_parse_records_witness:
  "\<exists>st. mv_elf_parse False 4 [''<f>''] 0 (Some mv_listing) = Some (Inr st) \<and> mv_record_ok False 1 listing_load
     \<and> (\<exists>line \<in> set mv_listing. parse_disassembly_instruction 0 line = Inr (Some (parsed_instructions st ! 1)))"
proof -
  obtain st where st: "mv_elf_parse False 4 [''<f>''] 0 (Some mv_listing) = Some (Inr st)" "instructions st = [listing_store, listing_load]"
    using mv_listing_parsed by blast
  note r = mv_elf_parse_records [OF st(1)]
  have "mv_record_ok False 1 listing_load \<and> same_line False 4 0 mv_listing (parsed_instructions st) 1 listing_load"
    using r st(2) by auto
  then show ?thesis using st(1) by (auto simp: same_line_def listing_load_def mv_record_def)
qed

end
