(* ===== verification/Mv_Install.thy ===== *)
theory Mv_Install
  imports Mv_Disasm
begin

text \<open>
  \<open>__wrap_main\<close> of \<open>MVM_MMAP_MULTIVERSIONING/src/_elf_parse.c\<close>: from the disassembly of the program to its patched
  code. The parser, the landing pads and the patches meet here.
\<close>

section \<open>The areas of records and patches\<close>

text \<open>
  The two areas have \<open>SIZE\<close> bytes each; the structs have the layout of the x86-64 ABI. The user's part of the
  patches is empty (\<open>user_defined\<close> of \<open>patches/patches.c\<close>).
\<close>

definition SIZE :: nat where "SIZE = 4096 * 2 ^ 8"
definition record_bytes :: nat where "record_bytes = 888"
definition patch_bytes :: nat where "patch_bytes = 1144"
definition block_offset :: nat where "block_offset = 516"

definition MAX_TARGET_INSTRUCTIONS :: nat where
  "MAX_TARGET_INSTRUCTIONS = min (SIZE div record_bytes) (SIZE div patch_bytes)"

definition patch_at :: "64 word \<Rightarrow> nat \<Rightarrow> patch" where
  "patch_at patches_addr i =
     \<lparr>functional_instr = [], block = patches_addr + of_nat (i * patch_bytes + block_offset), code = 0, intermediate_zone_address = 0,
       jmp_to_intermediate = [], original_instruction_size = 0, original_instruction_address = 0,
       original_instruction_bytes = [], jmp_to_post = []\<rparr>"

definition build_intermediate_representation :: "64 word \<Rightarrow> mv_instruction list \<Rightarrow> (mv_instruction \<times> patch) list" where
  "build_intermediate_representation patches_addr rs = zip rs (map (patch_at patches_addr) [0..<length rs])"

section \<open>The entry point\<close>

definition LINE_SIZE :: nat where "LINE_SIZE = 1024"
definition TARGET_FUNCTIONS :: nat where "TARGET_FUNCTIONS = 128"

definition target_names :: "string \<Rightarrow> string list outcome" where
  "target_names target_functions =
     (let names = tokens {CHR '',''} (take (LINE_SIZE - 1) target_functions) in
      if length names \<ge> TARGET_FUNCTIONS then Inl Undefined else Inr names)"

definition fresh_zones :: "64 word list \<Rightarrow> zones" where
  "fresh_zones z = \<lparr>zone_at = z, zone_busy = replicate (length z) False\<rparr>"

text \<open>From the records to the patched code; the argument \<open>APPLY_PATCHES\<close> is the macro of this name.\<close>

definition install_patches ::
  "build \<Rightarrow> bool \<Rightarrow> 64 word \<Rightarrow> 64 word \<Rightarrow> mv_instruction list \<Rightarrow> 64 word list \<Rightarrow> memory \<Rightarrow> ((mv_instruction \<times> patch) list \<times> memory) outcome" where
  "install_patches bd APPLY_PATCHES records_addr patches_addr rs z mem =
     and_then (finalize_detours rs (fresh_zones z)) (\<lambda>(rs1, zs1).
     and_then (mv_build_patches bd (\<lambda>i. records_addr + of_nat (i * record_bytes)) 0
                 (build_intermediate_representation patches_addr rs1) mem) (\<lambda>(built, mem1).
       Inr (built, if APPLY_PATCHES then mv_apply_patches built mem1 else mem1)))"

text \<open>\<open>runtime\<close> is the address of \<open>elf_parse\<close> in the running program.\<close>

definition mv_wrap_main ::
  "build \<Rightarrow> bool \<Rightarrow> bool \<Rightarrow> 64 word \<Rightarrow> 64 word \<Rightarrow> 64 word \<Rightarrow> string \<Rightarrow> string list option \<Rightarrow> memory
   \<Rightarrow> ((mv_instruction \<times> patch) list \<times> memory) outcome option" where
  "mv_wrap_main bd store_only APPLY_PATCHES records_addr patches_addr runtime target_functions the_file mem =
     (case and_then (find_elf_parse_compile_time_address the_file) (\<lambda>compile_time.
           and_then (target_names target_functions) (\<lambda>names.
           and_then (find_intermediate_zones SIZE (runtime - compile_time) the_file) (\<lambda>z.
             Inr (runtime - compile_time, names, z)))) of
        Inl e \<Rightarrow> Some (Inl e)
      | Inr (asl, names, z) \<Rightarrow>
          (case mv_elf_parse store_only MAX_TARGET_INSTRUCTIONS names asl the_file of
             None \<Rightarrow> None
           | Some (Inl e) \<Rightarrow> Some (Inl e)
           | Some (Inr st) \<Rightarrow> Some (install_patches bd APPLY_PATCHES records_addr patches_addr (instructions st) z mem)))"

section \<open>A layout the patches fit in\<close>

definition slots_of :: "64 word list \<Rightarrow> nat set" where
  "slots_of z = (\<Union>a \<in> set z. span a LANDING_PAD_SLOT_SIZE)"

definition patch_area :: "64 word \<Rightarrow> nat \<Rightarrow> nat set" where
  "patch_area patches_addr n = {unat patches_addr..<unat patches_addr + n * patch_bytes}"

text \<open>
  The instructions do not overlap each other, the slots or the area of the patches; all of them are in user
  space, within half a gigabyte of the area.
\<close>

definition near :: "64 word \<Rightarrow> 64 word \<Rightarrow> bool" where
  "near a b \<longleftrightarrow> \<bar>int (unat a) - int (unat b)\<bar> \<le> 2 ^ 29"

definition code_layout :: "mv_instruction list \<Rightarrow> 64 word list \<Rightarrow> 64 word \<Rightarrow> bool" where
  "code_layout rs z patches_addr \<longleftrightarrow> slots_ok (fresh_zones z)
     \<and> length rs \<le> MAX_TARGET_INSTRUCTIONS \<and> unat patches_addr < 2 ^ 62
     \<and> (\<forall>r \<in> set rs. unat (address r) < 2 ^ 62 \<and> isize r \<le> MAX_STOLEN_BYTES \<and> near (address r) patches_addr
          \<and> site r \<inter> slots_of z = {} \<and> site r \<inter> patch_area patches_addr (length rs) = {})
     \<and> (\<forall>a \<in> set z. near a patches_addr) \<and> slots_of z \<inter> patch_area patches_addr (length rs) = {}
     \<and> sorted_wrt (\<lambda>r s. site r \<inter> site s = {}) rs"

lemma fits32_near:
  assumes "\<bar>int (unat a) - int (unat b)\<bar> < 2 ^ 31"
  shows "fits32 (a - b)"
proof -
  have "a - b = word_of_int (int (unat a) - int (unat b))" using word_of_distance [of a b] by (simp add: word_of_int_minus)
  moreover have "sint (word_of_int (int (unat a) - int (unat b)) :: 64 word) = int (unat a) - int (unat b)"
  proof -
    have "(2 :: int) ^ 31 < 2 ^ 63" by simp
    then show ?thesis by (intro sint_of_small_int) (use assms in linarith)+
  qed
  ultimately have "sint (a - b) = int (unat a) - int (unat b)" by (simp only:)
  then show ?thesis using assms unfolding fits32_def by linarith
qed

section \<open>The detours fit\<close>

lemma patch_block_place:
  assumes "unat patches_addr < 2 ^ 62" and "n \<le> MAX_TARGET_INSTRUCTIONS" and "k < n"
  shows "unat (block (patch_at patches_addr k)) = unat patches_addr + k * patch_bytes + block_offset"
proof -
  have "k \<le> 916" using assms(2,3) by (simp add: MAX_TARGET_INSTRUCTIONS_def SIZE_def record_bytes_def patch_bytes_def)
  then have "k * patch_bytes + block_offset \<le> 2 ^ 62" by (simp add: patch_bytes_def block_offset_def)
  moreover have "(2 :: nat) ^ 62 + 2 ^ 62 < 2 ^ 64" by simp
  ultimately have "unat patches_addr + (k * patch_bytes + block_offset) < 2 ^ 64" using assms(1) by linarith
  then show ?thesis using unat_add_nat [of patches_addr "k * patch_bytes + block_offset"] by (simp add: patch_at_def)
qed

lemma stub_length_le: "stub_length bd \<le> 82"
  by (simp add: stub_length_def test_code_size_def)

lemma patch_no_code [simp]: "functional_instr (patch_at patches_addr k) = []"
  by (simp add: patch_at_def)

text \<open>The part of the area that belongs to patch \<open>k\<close>.\<close>

lemma detour_block_in_patch:
  assumes "unat patches_addr < 2 ^ 62" and "n \<le> MAX_TARGET_INSTRUCTIONS" and "k < n" and "isize r \<le> MAX_STOLEN_BYTES"
    and "x \<in> detour_block bd r (patch_at patches_addr k)"
  shows "unat patches_addr + k * patch_bytes \<le> x \<and> x < unat patches_addr + (k + 1) * patch_bytes"
proof -
  have "unat (block (patch_at patches_addr k)) \<le> x \<and> x < unat (block (patch_at patches_addr k)) + (stub_length bd + isize r + 5)"
    using assms(5) by (simp add: detour_block_def)
  then show ?thesis
    using patch_block_place [OF assms(1-3)] stub_length_le [of bd] assms(4)
    by (simp add: block_offset_def patch_bytes_def MAX_STOLEN_BYTES_def)
qed

lemma detour_block_in_area:
  assumes "unat patches_addr < 2 ^ 62" and "n \<le> MAX_TARGET_INSTRUCTIONS" and "k < n" and "isize r \<le> MAX_STOLEN_BYTES"
  shows "detour_block bd r (patch_at patches_addr k) \<subseteq> patch_area patches_addr n"
proof
  fix x assume "x \<in> detour_block bd r (patch_at patches_addr k)"
  from detour_block_in_patch [OF assms this]
  have "unat patches_addr + k * patch_bytes \<le> x" "x < unat patches_addr + (k + 1) * patch_bytes" by simp_all
  moreover have "(k + 1) * patch_bytes \<le> n * patch_bytes" using assms(3) by (intro mult_right_mono) simp_all
  ultimately show "x \<in> patch_area patches_addr n" by (simp add: patch_area_def)
qed

lemma detour_blocks_apart:
  assumes "unat patches_addr < 2 ^ 62" and "n \<le> MAX_TARGET_INSTRUCTIONS" and "k < j" and "j < n"
    and "isize r \<le> MAX_STOLEN_BYTES" and "isize s \<le> MAX_STOLEN_BYTES"
  shows "detour_block bd r (patch_at patches_addr k) \<inter> detour_block bd s (patch_at patches_addr j) = {}"
proof -
  have m: "(k + 1) * patch_bytes \<le> j * patch_bytes" using assms(3) by (intro mult_right_mono) simp_all
  have "x \<notin> detour_block bd s (patch_at patches_addr j)" if "x \<in> detour_block bd r (patch_at patches_addr k)" for x
  proof
    assume "x \<in> detour_block bd s (patch_at patches_addr j)"
    from detour_block_in_patch [OF assms(1,2,4,6) this] have "unat patches_addr + j * patch_bytes \<le> x" ..
    moreover have "k < n" using assms(3,4) by simp
    from detour_block_in_patch [OF assms(1,2) this assms(5) that] have "x < unat patches_addr + (k + 1) * patch_bytes" ..
    ultimately show False using m by linarith
  qed
  then show ?thesis by blast
qed

text \<open>What \<open>finalize_detours\<close> leaves at position \<open>k\<close>.\<close>

definition detoured :: "64 word list \<Rightarrow> mv_instruction \<Rightarrow> mv_instruction \<Rightarrow> bool" where
  "detoured z r r' \<longleftrightarrow> address r' = address r \<and> isize r' = isize r \<and> 2 \<le> isize r \<and> indirect_jump r' = CHR ''y''
     \<and> detour_size r' = isize r \<and> stolen r' = [own_instruction r] \<and> middle_buffer r' \<in> set z \<and> middle_buffer r' \<noteq> 0
     \<and> pad r' \<subseteq> slots_of z
     \<and> - 128 \<le> sint (middle_buffer r' - (address r + 2)) \<and> sint (middle_buffer r' - (address r + 2)) < 128"

lemma pad_width: "LANDING_PAD_WIDTH = 10" "LANDING_PAD_SLOT_SIZE = 5"
  by (simp_all add: LANDING_PAD_WIDTH_def LANDING_PAD_SLOT_SIZE_def LANDING_PAD_WIDTH_SLOTS_def)

lemma pad_in_slots:
  assumes "slots_ok zs" and "pad_candidate zs a i" and "middle_buffer r = zone_at zs ! i"
  shows "pad r \<subseteq> slots_of (zone_at zs)"
proof -
  have i: "i + 1 < length (zone_at zs)" "zone_at zs ! (i + 1) = zone_at zs ! i + 5"
    using assms(2) by (simp_all add: pad_candidate_def run_available)
  have small: "unat (zone_at zs ! i) < 2 ^ 62" using zone_small [OF assms(1), of i] i(1) by simp
  have "unat (zone_at zs ! (i + 1)) = unat (zone_at zs ! i) + 5"
    using unat_add_nat [of "zone_at zs ! i" 5] small i(2) by simp
  then have "pad r \<subseteq> span (zone_at zs ! i) 5 \<union> span (zone_at zs ! (i + 1)) 5"
    by (auto simp: pad_def assms(3) pad_width)
  moreover have "zone_at zs ! i \<in> set (zone_at zs)" "zone_at zs ! (i + 1) \<in> set (zone_at zs)" using i(1) by simp_all
  ultimately show ?thesis unfolding slots_of_def pad_width by blast
qed

lemma finalize_detoured:
  assumes "slots_ok (fresh_zones z)" and "finalize_detours rs (fresh_zones z) = Inr (rs', zs')" and "\<forall>r \<in> set rs. unat (address r) < 2 ^ 62"
  shows "length rs' = length rs \<and> (\<forall>k < length rs. detoured z (rs ! k) (rs' ! k))
    \<and> (\<forall>k < length rs. \<forall>j < length rs. k \<noteq> j \<longrightarrow> pad (rs' ! k) \<inter> pad (rs' ! j) = {})"
proof -
  obtain "is" where "is": "length is = length rs" "length rs' = length rs"
    "\<forall>k < length rs. detour_over (fresh_zones z) (plain_record (rs ! k)) (rs' ! k) (is ! k)"
    using finalize_result [OF assms(1,2)] by blast
  note a = detours_apart [OF assms]
  have z: "zone_at (fresh_zones z) = z" by (simp add: fresh_zones_def)
  have "detoured z (rs ! k) (rs' ! k)" if k: "k < length rs" for k
  proof -
    have "pad_candidate (fresh_zones z) (address (rs ! k)) (is ! k)" "middle_buffer (rs' ! k) = zone_at (fresh_zones z) ! (is ! k)"
      using "is"(3) k by (simp_all add: detour_over_def plain_record_def)
    from pad_in_slots [OF assms(1) this] have "pad (rs' ! k) \<subseteq> slots_of z" by (simp add: z)
    then show ?thesis using a k z unfolding detoured_def by simp
  qed
  moreover have "pad (rs' ! k) \<inter> pad (rs' ! j) = {}" if "k < length rs" "j < length rs" "k \<noteq> j" for k j
    using a that by (fastforce simp: pad_def)
  ultimately show ?thesis using "is"(2) by blast
qed

lemma intermediate_nth:
  "length (build_intermediate_representation patches_addr rs) = length rs"
  "k < length rs \<Longrightarrow> build_intermediate_representation patches_addr rs ! k = (rs ! k, patch_at patches_addr k)"
  by (simp_all add: build_intermediate_representation_def)

lemma intermediate_in:
  "ip \<in> set (build_intermediate_representation patches_addr rs) \<Longrightarrow> \<exists>k < length rs. ip = (rs ! k, patch_at patches_addr k)"
  using intermediate_nth by (metis in_set_conv_nth)

lemma layout_nth:
  assumes "code_layout rs z patches_addr" and "k < length rs"
  shows "unat (address (rs ! k)) < 2 ^ 62" and "isize (rs ! k) \<le> MAX_STOLEN_BYTES" and "near (address (rs ! k)) patches_addr"
    and "site (rs ! k) \<inter> slots_of z = {}" and "site (rs ! k) \<inter> patch_area patches_addr (length rs) = {}"
  using assms nth_mem [OF assms(2)] unfolding code_layout_def by blast+

lemma layout_sites:
  assumes "code_layout rs z patches_addr" and "k < j" and "j < length rs"
  shows "site (rs ! k) \<inter> site (rs ! j) = {}"
  using assms sorted_wrt_nth_less [of "\<lambda>r s. site r \<inter> site s = {}" rs k j] by (simp add: code_layout_def)

lemma layout_ready:
  assumes "code_layout rs z patches_addr" and "k < length rs" and "detoured z (rs ! k) r"
  shows "detour_ready bd r (patch_at patches_addr k)"
proof -
  note l = layout_nth [OF assms(1,2)]
  have a: "unat patches_addr < 2 ^ 62" "length rs \<le> MAX_TARGET_INSTRUCTIONS" using assms(1) by (simp_all add: code_layout_def)
  have n: "k \<le> 916" using a(2) assms(2) by (simp add: MAX_TARGET_INSTRUCTIONS_def SIZE_def record_bytes_def patch_bytes_def)
  have "middle_buffer r \<in> set z" using assms(3) by (simp add: detoured_def)
  then have "unat (middle_buffer r) < 2 ^ 62" using assms(1) by (auto simp: code_layout_def slots_ok_def fresh_zones_def)
  then have pad: "unat (middle_buffer r) + LANDING_PAD_WIDTH < 2 ^ 64" by (simp add: pad_width)
  have d: "address r = address (rs ! k)" "isize r = isize (rs ! k)" "2 \<le> isize (rs ! k)" "indirect_jump r = CHR ''y''"
    "middle_buffer r \<noteq> 0" "detour_size r = isize (rs ! k)" "stolen r = [own_instruction (rs ! k)]"
    using assms(3) by (simp_all add: detoured_def)
  have addr: "unat (address r) + isize r < 2 ^ 64" using l(1,2) d(1,2) by (simp add: MAX_STOLEN_BYTES_def)
  have "unat (block (patch_at patches_addr k)) = unat patches_addr + k * patch_bytes + block_offset"
    by (rule patch_block_place [OF a assms(2)])
  then have "unat (block (patch_at patches_addr k)) + (stub_length bd + isize r + 0 + 5) < 2 ^ 64"
    using a(1) n stub_length_le [of bd] l(2) d(2) by (simp add: patch_bytes_def block_offset_def MAX_STOLEN_BYTES_def)
  then show ?thesis using d pad addr l(2) unfolding detour_ready_def by (simp add: own_instruction_def)
qed

lemma layout_reach:
  assumes "code_layout rs z patches_addr" and "k < length rs" and "detoured z (rs ! k) r"
  shows "jumps_reach bd (r, patch_at patches_addr k)"
proof -
  let ?b = "block (patch_at patches_addr k)"
  note l = layout_nth [OF assms(1,2)] and ready = layout_ready [OF assms, of bd]
  have a: "unat patches_addr < 2 ^ 62" "length rs \<le> MAX_TARGET_INSTRUCTIONS" using assms(1) by (simp_all add: code_layout_def)
  have k: "k * patch_bytes + block_offset \<le> 2 ^ 21"
    using a(2) assms(2) by (simp add: MAX_TARGET_INSTRUCTIONS_def SIZE_def record_bytes_def patch_bytes_def block_offset_def)
  have b: "unat ?b = unat patches_addr + (k * patch_bytes + block_offset)" using patch_block_place [OF a assms(2)] by simp
  have "middle_buffer r \<in> set z" using assms(3) by (simp add: detoured_def)
  then have z: "near (middle_buffer r) patches_addr" "unat (middle_buffer r) < 2 ^ 62"
    using assms(1) by (auto simp: code_layout_def slots_ok_def fresh_zones_def)
  have z5: "unat (middle_buffer r + 5) = unat (middle_buffer r) + 5" using unat_add_nat [of "middle_buffer r" 5] z(2) by simp
  have "int (k * patch_bytes + block_offset) \<le> int (2 ^ 21)" using k by (simp only: of_nat_le_iff)
  then have far: "int (k * patch_bytes + block_offset) \<le> 2 ^ 21" by simp
  have small: "(2 :: int) ^ 29 + 2 ^ 21 + 200 < 2 ^ 31" by simp
  have "\<bar>int (unat ?b) - int (unat (middle_buffer r + 5))\<bar> < 2 ^ 31"
    unfolding b z5 using z(1) far small unfolding near_def by linarith
  then have 1: "fits32 (?b - (middle_buffer r + 5))" by (rule fits32_near)
  let ?ret = "detour_return bd (r, patch_at patches_addr k)"
  have d: "address r = address (rs ! k)" "isize r = isize (rs ! k)" "indirect_jump r = CHR ''y''" using assms(3) by (simp_all add: detoured_def)
  have ret: "unat ?ret = unat patches_addr + (k * patch_bytes + block_offset) + (stub_length bd + isize r)"
    using block_place(2) [OF ready] by (simp add: detour_return_def b)
  have "unat ?ret + 5 < 2 ^ 64" using ready b unfolding detour_ready_def ret by simp
  then have ret5: "unat (?ret + 5) = unat ?ret + 5" using unat_add_nat [of ?ret 5] by simp
  have behind: "unat (address r + of_nat (isize r)) = unat (address r) + isize r"
    using ready unfolding detour_ready_def by (intro unat_add_nat) simp
  have len: "isize r \<le> 64" "stub_length bd \<le> 82" using l(2) d(2) stub_length_le [of bd] by (simp_all add: MAX_STOLEN_BYTES_def)
  have "\<bar>int (unat (address r + of_nat (isize r))) - int (unat (?ret + 5))\<bar> < 2 ^ 31"
    unfolding ret5 behind ret using l(3) far small len unfolding near_def d(1) by linarith
  then have 2: "fits32 (address r + of_nat (isize r) - (?ret + 5))" by (rule fits32_near)
  show ?thesis using assms(3) 1 2 d(1) by (simp add: jumps_reach_def detoured_def)
qed

lemma footprint_parts:
  assumes "code_layout rs z patches_addr" and "k < length rs" and "detoured z (rs ! k) r"
  shows "site r = site (rs ! k)" and "pad r \<subseteq> slots_of z"
    and "detour_block bd r (patch_at patches_addr k) \<subseteq> patch_area patches_addr (length rs)"
    and "site r \<inter> slots_of z = {}" and "site r \<inter> patch_area patches_addr (length rs) = {}"
    and "slots_of z \<inter> patch_area patches_addr (length rs) = {}"
proof -
  have d: "address r = address (rs ! k)" "isize r = isize (rs ! k)" using assms(3) by (simp_all add: detoured_def)
  show s: "site r = site (rs ! k)" by (simp add: site_def d)
  show "pad r \<subseteq> slots_of z" using assms(3) by (simp add: detoured_def)
  show "detour_block bd r (patch_at patches_addr k) \<subseteq> patch_area patches_addr (length rs)"
    using assms(1,2) layout_nth(2) [OF assms(1,2)] d(2) by (intro detour_block_in_area) (simp_all add: code_layout_def)
  show "site r \<inter> slots_of z = {}" "site r \<inter> patch_area patches_addr (length rs) = {}"
    using layout_nth(4,5) [OF assms(1,2)] by (simp_all add: s)
  show "slots_of z \<inter> patch_area patches_addr (length rs) = {}" using assms(1) by (simp add: code_layout_def)
qed

lemma layout_detours_fit:
  assumes "code_layout rs z patches_addr" and "length rs' = length rs" and "\<forall>k < length rs. detoured z (rs ! k) (rs' ! k)"
    and "\<forall>k < length rs. \<forall>j < length rs. k \<noteq> j \<longrightarrow> pad (rs' ! k) \<inter> pad (rs' ! j) = {}"
  shows "detours_fit bd (build_intermediate_representation patches_addr rs')"
  unfolding detours_fit_def
proof
  let ?ips = "build_intermediate_representation patches_addr rs'"
  have parts: "site r \<inter> pad r = {} \<and> site r \<inter> detour_block bd r p = {} \<and> pad r \<inter> detour_block bd r p = {} \<and> detour_ready bd r p"
    if m: "(r, p) \<in> set ?ips" for r p
  proof -
    obtain k where k: "k < length rs" "r = rs' ! k" "p = patch_at patches_addr k"
      using intermediate_in [OF m] assms(2) by auto
    have d: "detoured z (rs ! k) r" using assms(3) k by simp
    note f = footprint_parts [OF assms(1) k(1) d]
    show ?thesis using f(2-6) layout_ready [OF assms(1) k(1) d, of bd] unfolding k(3) by blast
  qed
  then show "\<forall>(ins, p) \<in> set ?ips. detour_ready bd ins p \<and> site ins \<inter> pad ins = {} \<and> site ins \<inter> detour_block bd ins p = {}
      \<and> pad ins \<inter> detour_block bd ins p = {}" by blast
  show "sorted_wrt (\<lambda>ip jq. footprint bd ip \<inter> footprint bd jq = {}) ?ips"
    unfolding sorted_wrt_iff_nth_less
  proof (intro allI impI)
    fix k j assume "k < j" "j < length ?ips"
    then have k: "k < length rs" "j < length rs" "k < j" using assms(2) by (simp_all add: intermediate_nth)
    have d: "detoured z (rs ! k) (rs' ! k)" "detoured z (rs ! j) (rs' ! j)" using assms(3) k by blast+
    note fk = footprint_parts [OF assms(1) k(1) d(1)] and fj = footprint_parts [OF assms(1) k(2) d(2)]
    have "site (rs' ! k) \<inter> site (rs' ! j) = {}" using layout_sites [OF assms(1) k(3,2)] by (simp add: fk(1) fj(1))
    moreover have "pad (rs' ! k) \<inter> pad (rs' ! j) = {}" using assms(4) k by blast
    moreover have "detour_block bd (rs' ! k) (patch_at patches_addr k) \<inter> detour_block bd (rs' ! j) (patch_at patches_addr j) = {}"
    proof (rule detour_blocks_apart)
      show "isize (rs' ! k) \<le> MAX_STOLEN_BYTES" "isize (rs' ! j) \<le> MAX_STOLEN_BYTES"
        using d layout_nth(2) [OF assms(1) k(1)] layout_nth(2) [OF assms(1) k(2)] by (simp_all add: detoured_def)
    qed (use assms(1) k in \<open>simp_all add: code_layout_def\<close>)
    ultimately have "footprint bd (rs' ! k, patch_at patches_addr k) \<inter> footprint bd (rs' ! j, patch_at patches_addr j) = {}"
      using fk(2-6) fj(2-6) unfolding footprint_def prod.case by blast
    then show "footprint bd (?ips ! k) \<inter> footprint bd (?ips ! j) = {}" using k assms(2) by (simp add: intermediate_nth)
  qed
qed
section \<open>The instrumented program\<close>

text \<open>A detour from the site of \<open>r\<close> to patch \<open>k\<close> that works, over a pad among the slots.\<close>

definition installed :: "build \<Rightarrow> memory \<Rightarrow> 64 word list \<Rightarrow> 64 word \<Rightarrow> nat \<Rightarrow> mv_instruction \<Rightarrow> mv_instruction \<Rightarrow> memory \<Rightarrow> bool" where
  "installed bd old z patches_addr k r r' mem \<longleftrightarrow> detoured z r r' \<and> detour_works bd old (r', patch_at patches_addr k) mem"

lemma intermediate_fst: "map fst (build_intermediate_representation patches_addr rs) = rs"
  by (simp add: build_intermediate_representation_def)

lemma install_patches_correct:
  assumes "code_layout rs z patches_addr"
  shows "(\<exists>e. finalize_detours rs (fresh_zones z) = Inl e \<and> install_patches bd True records_addr patches_addr rs z mem = Inl e)
    \<or> (\<exists>built mem'. install_patches bd True records_addr patches_addr rs z mem = Inr (built, mem') \<and> length built = length rs
         \<and> (\<forall>k < length rs. installed bd mem z patches_addr k (rs ! k) (fst (built ! k)) mem')
         \<and> (\<forall>x. (\<forall>r \<in> set rs. x \<notin> site r) \<longrightarrow> x \<notin> slots_of z \<longrightarrow> x \<notin> patch_area patches_addr (length rs) \<longrightarrow> mem' x = mem x))"
proof (cases "finalize_detours rs (fresh_zones z)")
  case (Inl e)
  then show ?thesis by (simp add: install_patches_def)
next
  case (Inr res)
  obtain rs' zs' where f: "finalize_detours rs (fresh_zones z) = Inr (rs', zs')" using Inr by (cases res) simp
  have ok: "slots_ok (fresh_zones z)" "\<forall>r \<in> set rs. unat (address r) < 2 ^ 62" using assms by (simp_all add: code_layout_def)
  note fin = finalize_detoured [OF ok(1) f ok(2)]
  let ?ips = "build_intermediate_representation patches_addr rs'"
  have len: "length rs' = length rs" and d: "\<forall>k < length rs. detoured z (rs ! k) (rs' ! k)" using fin by blast+
  have fit: "detours_fit bd ?ips" using layout_detours_fit [OF assms len d] fin by blast
  have reach: "\<forall>ip \<in> set ?ips. jumps_reach bd ip"
  proof
    fix ip assume m: "ip \<in> set ?ips"
    obtain k where k: "k < length rs" "ip = (rs' ! k, patch_at patches_addr k)" using intermediate_in [OF m] len by auto
    then show "jumps_reach bd ip" using layout_reach [OF assms k(1), of "rs' ! k" bd] d by simp
  qed
  from detours_work [OF fit reach, of "\<lambda>i. records_addr + of_nat (i * record_bytes)" mem]
  obtain built mem1 where b: "mv_build_patches bd (\<lambda>i. records_addr + of_nat (i * record_bytes)) 0 ?ips mem = Inr (built, mem1)"
    "map fst built = map fst ?ips"
    "\<forall>k < length ?ips. detour_works bd mem (?ips ! k) (mv_apply_patches built mem1)"
    "\<forall>x. (\<forall>ip \<in> set ?ips. x \<notin> footprint bd ip) \<longrightarrow> mv_apply_patches built mem1 x = mem x" by blast
  have fst: "map fst built = rs'" using b(2) by (simp add: intermediate_fst)
  then have lb: "length built = length rs" using len by (metis length_map)
  have run: "install_patches bd True records_addr patches_addr rs z mem = Inr (built, mv_apply_patches built mem1)"
    using f b(1) by (simp add: install_patches_def)
  have "installed bd mem z patches_addr k (rs ! k) (fst (built ! k)) (mv_apply_patches built mem1)" if k: "k < length rs" for k
  proof -
    have "fst (built ! k) = rs' ! k" using fst k lb by (metis nth_map)
    then show ?thesis using d b(3) k len by (simp add: installed_def intermediate_nth)
  qed
  moreover have "mv_apply_patches built mem1 x = mem x"
    if x: "\<forall>r \<in> set rs. x \<notin> site r" "x \<notin> slots_of z" "x \<notin> patch_area patches_addr (length rs)" for x
  proof -
    have "x \<notin> footprint bd ip" if m: "ip \<in> set ?ips" for ip
    proof -
      obtain k where k: "k < length rs" "ip = (rs' ! k, patch_at patches_addr k)" using intermediate_in [OF m] len by auto
      have dk: "detoured z (rs ! k) (rs' ! k)" using d k(1) by blast
      note p = footprint_parts [OF assms k(1) dk]
      have "rs ! k \<in> set rs" using k(1) by simp
      then have "x \<notin> site (rs' ! k)" using x(1) p(1) by blast
      then show ?thesis using x(2,3) p(2,3) unfolding k(2) footprint_def prod.case by blast
    qed
    then show ?thesis using b(4) by blast
  qed
  ultimately show ?thesis using run lb by blast
qed

text \<open>
  Property C10. Instrumenting a program whose instructions, slots and patch area do not overlap and lie near each other: either
  some record finds no landing pad, and the start-up exits, or every record the parser found has a detour that works.
  Its instruction has become a short jump to a pad among the slots and the pad a long jump to its own patch; the patch holds
  the bytes of the instruction as the program had them and jumps back behind it. No byte
  outside of the instrumented instructions, the slots and the patches has changed.
\<close>

theorem instrumentation_installed:
  assumes "find_elf_parse_compile_time_address the_file = Inr compile_time" and "target_names target_functions = Inr names"
    and "find_intermediate_zones SIZE (runtime - compile_time) the_file = Inr z"
    and "mv_elf_parse store_only MAX_TARGET_INSTRUCTIONS names (runtime - compile_time) the_file = Some (Inr st)"
    and "code_layout (instructions st) z patches_addr"
  shows "(\<exists>e. finalize_detours (instructions st) (fresh_zones z) = Inl e
           \<and> mv_wrap_main bd store_only True records_addr patches_addr runtime target_functions the_file mem = Some (Inl e))
    \<or> (\<exists>built mem'. mv_wrap_main bd store_only True records_addr patches_addr runtime target_functions the_file mem = Some (Inr (built, mem'))
         \<and> length built = length (instructions st)
         \<and> (\<forall>k < length (instructions st). installed bd mem z patches_addr k (instructions st ! k) (fst (built ! k)) mem')
         \<and> (\<forall>x. (\<forall>r \<in> set (instructions st). x \<notin> site r) \<longrightarrow> x \<notin> slots_of z
              \<longrightarrow> x \<notin> patch_area patches_addr (length (instructions st)) \<longrightarrow> mem' x = mem x))"
proof -
  have "mv_wrap_main bd store_only True records_addr patches_addr runtime target_functions the_file mem =
      Some (install_patches bd True records_addr patches_addr (instructions st) z mem)"
    using assms(1-4) by (simp add: mv_wrap_main_def)
  then show ?thesis using install_patches_correct [OF assms(5), of bd records_addr mem] by simp
qed

section \<open>A program\<close>

definition slot_line :: "string \<Rightarrow> string" where
  "slot_line a = '' '' @ a @ '':'' @ [CHR 0x09] @ ''fa '' @ [CHR 0x09] @ ''cli '' @ [CHR 0x0A]"

definition program_listing :: "string list" where
  "program_listing = (''00180 <elf_parse>:'' @ [CHR 0x0A]) # mv_listing
     @ [slot_line ''1a0'', slot_line ''1a5'', slot_line ''1aa'', slot_line ''1af'']"

lemma program_zones: "collect_zones 8 0 program_listing [] = Inr [416, 421, 426, 431]"
  by code_simp

lemma collect_zones_room:
  "collect_zones N asl ls zs = Inr z \<Longrightarrow> N \<le> M \<Longrightarrow> collect_zones M asl ls zs = Inr z"
  by (induction ls arbitrary: zs) (auto simp: Let_def split: if_splits)

lemma program_book:
  "book_landing_pad 400 (fresh_zones [416, 421, 426, 431]) = (416, \<lparr>zone_at = [416, 421, 426, 431], zone_busy = [True, True, False, False]\<rparr>)"
  "book_landing_pad 403 \<lparr>zone_at = [416, 421, 426, 431], zone_busy = [True, True, False, False]\<rparr>
     = (426, \<lparr>zone_at = [416, 421, 426, 431], zone_busy = [True, True, True, True]\<rparr>)"
  by code_simp+

lemma program_layout: "code_layout [listing_store, listing_load] [416, 421, 426, 431] 4096"
proof -
  have s: "site listing_store = {400..<403}" "site listing_load = {403..<405}"
    by (simp_all add: site_def span_def listing_store_def listing_load_def mv_record_def)
  have sl: "slots_of [416, 421, 426, 431] = {416..<421} \<union> {421..<426} \<union> {426..<431} \<union> {431..<436}"
    by (auto simp: slots_of_def pad_width)
  have area: "patch_area 4096 2 = {4096..<6384}" by (simp add: patch_area_def patch_bytes_def)
  have ok: "slots_ok (fresh_zones [416, 421, 426, 431])" by (simp add: slots_ok_def fresh_zones_def pad_width)
  have r: "address listing_store = 400" "isize listing_store = 3" "address listing_load = 403" "isize listing_load = 2"
    by (simp_all add: listing_store_def listing_load_def mv_record_def)
  have n: "length [listing_store, listing_load] = 2" by simp
  have d: "site listing_store \<inter> slots_of [416, 421, 426, 431] = {}" "site listing_load \<inter> slots_of [416, 421, 426, 431] = {}"
    "site listing_store \<inter> patch_area 4096 2 = {}" "site listing_load \<inter> patch_area 4096 2 = {}"
    "slots_of [416, 421, 426, 431] \<inter> patch_area 4096 2 = {}" "site listing_store \<inter> site listing_load = {}"
    unfolding s sl area by auto
  have near: "near 400 4096" "near 403 4096" "near 416 4096" "near 421 4096" "near 426 4096" "near 431 4096"
    by (simp_all add: near_def)
  show ?thesis unfolding code_layout_def n using ok d near
    by (simp add: r MAX_STOLEN_BYTES_def MAX_TARGET_INSTRUCTIONS_def SIZE_def record_bytes_def patch_bytes_def)
qed

theorem instrumentation_installed_witness:
  "\<exists>built mem'. mv_wrap_main demo_build False True 0 4096 384 ''<f>'' (Some program_listing) of_nat = Some (Inr (built, mem'))
     \<and> length built = 2 \<and> jump_target mem' 400 = Some (middle_buffer (fst (built ! 0)))
     \<and> jump_target mem' (middle_buffer (fst (built ! 0))) = Some 4612"
proof -
  have c: "find_elf_parse_compile_time_address (Some program_listing) = Inr 384" by code_simp
  have t: "target_names ''<f>'' = Inr [''<f>'']"
  proof -
    have "tokens {CHR '',''} ''<f>'' = [''<f>'']" by code_simp
    then show ?thesis by (simp add: target_names_def LINE_SIZE_def TARGET_FUNCTIONS_def Let_def)
  qed
  have z: "find_intermediate_zones SIZE (384 - 384) (Some program_listing) = Inr [416, 421, 426, 431]"
    using collect_zones_room [OF program_zones, of SIZE] by (simp add: find_intermediate_zones_def SIZE_def)
  have f: "find_function ''<f>'' program_listing = Some (store_line # load_line # [CHR 0x0A]
      # [slot_line ''1a0'', slot_line ''1a5'', slot_line ''1aa'', slot_line ''1af''])" by code_simp
  obtain st where st: "mv_elf_parse False MAX_TARGET_INSTRUCTIONS [''<f>''] 0 (Some program_listing) = Some (Inr st)"
    and i: "instructions st = [listing_store, listing_load]"
    using listing_parsed [OF f, of MAX_TARGET_INSTRUCTIONS]
    by (auto simp: MAX_TARGET_INSTRUCTIONS_def SIZE_def record_bytes_def patch_bytes_def)
  have st0: "mv_elf_parse False MAX_TARGET_INSTRUCTIONS [''<f>''] (384 - 384) (Some program_listing) = Some (Inr st)" using st by simp
  have l: "code_layout (instructions st) [416, 421, 426, 431] 4096" unfolding i by (rule program_layout)
  have "\<exists>rs. finalize_detours (instructions st) (fresh_zones [416, 421, 426, 431]) = Inr rs"
    by (simp add: i configure_landing_pad_def listing_store_def listing_load_def mv_record_def program_book)
  then have nf: "\<not> (\<exists>e. finalize_detours (instructions st) (fresh_zones [416, 421, 426, 431]) = Inl e)" by auto
  obtain built mem' where b: "mv_wrap_main demo_build False True 0 4096 384 ''<f>'' (Some program_listing) of_nat = Some (Inr (built, mem'))"
    and len: "length built = length (instructions st)"
    and k: "\<forall>k < length (instructions st). installed demo_build of_nat [416, 421, 426, 431] 4096 k (instructions st ! k) (fst (built ! k)) mem'"
    using instrumentation_installed [OF c t z st0 l, of demo_build 0 of_nat] nf by blast
  have "installed demo_build of_nat [416, 421, 426, 431] 4096 0 listing_store (fst (built ! 0)) mem'"
    using k [rule_format, of 0] by (simp add: i)
  then have d: "detoured [416, 421, 426, 431] listing_store (fst (built ! 0))"
    and w: "detour_works demo_build of_nat (fst (built ! 0), patch_at 4096 0) mem'" unfolding installed_def by blast+
  have addr: "address (fst (built ! 0)) = 400" using d by (simp add: detoured_def listing_store_def mv_record_def)
  have "jump_target mem' 400 = Some (middle_buffer (fst (built ! 0)))"
    "jump_target mem' (middle_buffer (fst (built ! 0))) = Some (block (patch_at 4096 0))"
    using w unfolding detour_works_def prod.case addr by blast+
  moreover have "block (patch_at 4096 0) = 4612" by (simp add: patch_at_def patch_bytes_def block_offset_def)
  ultimately show ?thesis using b len by (intro exI [of _ built] exI [of _ mem']) (simp add: i)
qed

end
