(* ===== verification/Grid_Patch.thy ===== *)
theory Grid_Patch
  imports Mv_Disasm
begin

text \<open>
  The patches of the grid monitors (\<open>MVM_GRID_CKPT\<close> and \<open>MVM_GRID_CKPT_BS\<close>): in front of the copy of a store they
  save registers, load the address of the operand and run the checkpoint hook; without the hook, \<open>user_defined\<close>
  repeats the store at a fixed distance. The binary of an instruction comes from \<open>gcc\<close> and \<open>objdump\<close>, called by
  the code: \<open>assemble\<close> is the content of the file they leave for a line of assembly.
\<close>

section \<open>The mirrored store\<close>

definition CODE_BLOCK :: nat where "CODE_BLOCK = 512"
definition READ_SIZE :: nat where "READ_SIZE = 1024"

text \<open>A pointer as \<open>printf\<close> shows it.\<close>

definition print_pointer :: "64 word \<Rightarrow> string" where
  "print_pointer w = (if w = 0 then ''(nil)'' else ''0x'' @ hex_string (unat w))"

definition offset_string :: string where "offset_string = ''0x200000''"

definition mirror_operand :: "string \<Rightarrow> string outcome" where
  "mirror_operand dst =
     (if take 1 dst = ''('' then Inr (offset_string @ dst)
      else case strtok {CHR ''(''} dst of
             None \<Rightarrow> Inl Undefined
           | Some (aux, rest) \<Rightarrow> Inr (print_pointer (word_of_int (strtol 16 aux + strtol 16 offset_string)) @ drop (length aux) dst))"

definition mirror_text :: "string \<Rightarrow> string \<Rightarrow> string \<Rightarrow> string outcome" where
  "mirror_text opc src dst =
     and_then (mirror_operand dst) (\<lambda>operand. Inr (opc @ '' '' @ src @ '','' @ operand @ [CHR 0x0A]))"

text \<open>The buffer of the functional instructions is empty before.\<close>

definition user_defined :: "(string \<Rightarrow> byte list) \<Rightarrow> instruction_record \<Rightarrow> patch \<Rightarrow> (instruction_record \<times> patch) outcome" where
  "user_defined assemble ins p =
     (if rip_relative ins = CHR ''n'' \<and> type ins = CHR ''s'' then
        and_then (mirror_text (opcode ins) (source ins) (dest ins)) (\<lambda>line.
          let binary = take READ_SIZE (assemble line) in
          if length binary > CODE_BLOCK then Inl Exit_Failure
          else Inr (ins\<lparr>instrumentation_instructions := instrumentation_instructions ins + 1\<rparr>, p\<lparr>functional_instr := binary\<rparr>))
      else Inr (ins, p))"

text \<open>\<open>CKPT\<close> is the macro of the builds with the checkpoint hook.\<close>

fun grid_intermediate_representation ::
  "bool \<Rightarrow> (string \<Rightarrow> byte list) \<Rightarrow> (instruction_record \<times> patch) list \<Rightarrow> (instruction_record \<times> patch) list outcome" where
  "grid_intermediate_representation CKPT assemble [] = Inr []"
| "grid_intermediate_representation CKPT assemble ((ins, p) # ips) =
     (let p0 = p\<lparr>functional_instr := []\<rparr> in
      and_then (if CKPT then Inr (ins, p0) else user_defined assemble ins p0) (\<lambda>ip.
      and_then (grid_intermediate_representation CKPT assemble ips) (\<lambda>rest. Inr (ip # rest))))"

section \<open>The code in front of the hook\<close>

text \<open>\<open>mov %rcx, %gs:0x10\<close>, and in the other monitor the stores of \<open>%rax\<close>, \<open>%rbx\<close>, the flags and \<open>%cl\<close>.\<close>

definition save_rcx :: "byte list" where
  "save_rcx = [0x65, 0x48, 0x89, 0x0c, 0x25, 0x10, 0x00, 0x00, 0x00]"

definition save_registers_bs :: "byte list" where
  "save_registers_bs =
     [0x65, 0x48, 0x89, 0x04, 0x25, 0x00, 0x00, 0x00, 0x00,
      0x65, 0x48, 0x89, 0x1c, 0x25, 0x08, 0x00, 0x00, 0x00,
      0x9f,
      0x65, 0x88, 0x0c, 0x25, 0x10, 0x00, 0x00, 0x00,
      0x65, 0x88, 0x24, 0x25, 0x14, 0x00, 0x00, 0x00]"

definition lea_line :: "string \<Rightarrow> instruction_record \<Rightarrow> string" where
  "lea_line reg ins = ''lea '' @ dest ins @ '', '' @ reg @ [CHR 0x0A]"

text \<open>The bytes \<open>ckpt_patch\<close> writes; its result is their number.\<close>

definition ckpt_patch :: "(string \<Rightarrow> byte list) \<Rightarrow> instruction_record \<Rightarrow> byte list outcome" where
  "ckpt_patch assemble ins =
     (let lea = take READ_SIZE (assemble (lea_line ''%rcx'' ins)) in
      if length lea > 10 then Inl Exit_Failure else Inr (save_rcx @ lea))"

definition ckpt_patch_bs :: "(string \<Rightarrow> byte list) \<Rightarrow> instruction_record \<Rightarrow> byte list outcome" where
  "ckpt_patch_bs assemble ins =
     (let lea = take READ_SIZE (assemble (lea_line ''%rbx'' ins)) in
      if length lea > 10 then Inl Exit_Failure else Inr (save_registers_bs @ lea))"

text \<open>The hook lies at \<open>hook\<close> and ends at \<open>dummy_ckpt\<close>, \<open>hook_size\<close> bytes behind.\<close>

definition hook_prologue :: "build \<Rightarrow> 64 word \<Rightarrow> byte list \<Rightarrow> 64 word \<Rightarrow> nat \<Rightarrow> 64 word \<Rightarrow> memory \<Rightarrow> memory" where
  "hook_prologue bd record_addr pre hook hook_size start mem =
     (let at_pre = start + of_nat (stub_length bd); at_hook = at_pre + of_nat (length pre);
          mem1 = put_bytes at_pre pre (stub_prologue bd record_addr start mem)
      in memcpy mem1 (unat at_hook) (unat hook) hook_size)"

definition grid_build_patch ::
  "build \<Rightarrow> (instruction_record \<Rightarrow> byte list outcome) \<Rightarrow> 64 word \<Rightarrow> nat \<Rightarrow> 64 word \<Rightarrow> instruction_record \<times> patch \<Rightarrow> zones \<times> memory
   \<Rightarrow> ((instruction_record \<times> patch) \<times> zones \<times> memory) outcome" where
  "grid_build_patch bd ckpt hook hook_size record_addr = (\<lambda>(ins, p) (zs, mem).
     if type ins = CHR ''l'' then Inr ((ins, p), zs, mem)
     else if isize ins > MAX_INST_LEN then Inl Undefined
     else and_then (ckpt ins) (\<lambda>pre.
       build_behind (stub_length bd + length pre + hook_size) (hook_prologue bd record_addr pre hook hook_size) (ins, p) (zs, mem)))"

fun grid_build_patches ::
  "build \<Rightarrow> (instruction_record \<Rightarrow> byte list outcome) \<Rightarrow> 64 word \<Rightarrow> nat \<Rightarrow> (nat \<Rightarrow> 64 word) \<Rightarrow> nat
   \<Rightarrow> (instruction_record \<times> patch) list \<Rightarrow> zones \<times> memory \<Rightarrow> ((instruction_record \<times> patch) list \<times> zones \<times> memory) outcome" where
  "grid_build_patches bd ckpt hook hook_size record_addr i [] st = Inr ([], st)"
| "grid_build_patches bd ckpt hook hook_size record_addr i (ip # ips) st =
     and_then (grid_build_patch bd ckpt hook hook_size (record_addr i) ip st) (\<lambda>(ip1, st1).
     and_then (grid_build_patches bd ckpt hook hook_size record_addr (i + 1) ips st1) (\<lambda>(ips1, st2). Inr (ip1 # ips1, st2)))"

section \<open>The mirrored operand lies at the offset\<close>

lemma offset_value: "strtol 16 offset_string = 0x200000"
  by code_simp

lemma offset_hex: "hex_string 0x200000 = ''200000''"
proof -
  have "hex_digit 2 = CHR ''2''" "hex_digit 0 = CHR ''0''" by code_simp+
  then show ?thesis by (simp add: hex_string.simps)
qed

lemma signed_value_negative: "signed_value 16 (''-0x'' @ hex_string n) = - int n"
proof -
  obtain ch cs where h: "hex_string n = ch # cs" "digit_value ch < 16" using hex_string_Cons by blast
  have "digits_value 16 0 (hex_string n) = int n" using digits_value_hex [of 0 n "[]"] by simp
  then show ?thesis using h by (simp add: signed_value_def strip_prefix_def is_space_def)
qed

lemma strtol_printed:
  assumes "n < 2 ^ 63"
  shows "strtol 16 ((if neg then ''-'' else []) @ ''0x'' @ hex_string n) = (if neg then - int n else int n)"
proof -
  have "int n < int (2 ^ 63)" using assms by (simp only: of_nat_less_iff)
  then have "int n < 2 ^ 63" by simp
  then show ?thesis using signed_value_negative [of n] signed_value_prefixed [of n] by (auto simp: strtol_def)
qed

definition shifted :: "target_address \<Rightarrow> target_address" where
  "shifted t = t\<lparr>displacement := displacement t + 0x200000\<rparr>"

lemma print_operand_body:
  "print_operand disp base ix =
     (case disp of None \<Rightarrow> [] | Some (neg, n) \<Rightarrow> (if neg then ''-'' else []) @ ''0x'' @ hex_string n) @ CHR ''('' # printed_registers base ix"
  by (simp add: print_operand_def printed_registers_def)

lemma displacement_operand_target:
  "displacement (operand_target gri disp base ix) = (case disp of None \<Rightarrow> 0 | Some (neg, n) \<Rightarrow> if neg then - of_nat n else of_nat n)"
  by (simp add: operand_target_def Let_def split: option.splits prod.splits)

lemma operand_target_disp:
  "operand_target gri (Some (False, m)) base ix = (operand_target gri disp base ix)\<lparr>displacement := of_nat m\<rparr>"
  by (simp add: operand_target_def Let_def split: option.splits prod.splits)

text \<open>
  Property C24. The operand of the mirrored store is the operand of the store with \<open>0x200000\<close> added to its
  displacement, whatever its registers: a parser reads it back so. The one exception is a displacement that makes
  the sum 0, which \<open>printf\<close> shows as \<open>(nil)\<close>.
\<close>

theorem mirror_operand_shifted:
  fixes gri :: "string \<Rightarrow> int"
  assumes "plain base" and "\<forall>r s. ix = Some (r, s) \<longrightarrow> plain r \<and> s < 16" and "\<forall>neg n. disp = Some (neg, n) \<longrightarrow> n < 2 ^ 63"
  defines "t \<equiv> operand_target gri disp base ix"
  shows "\<exists>operand. mirror_operand (print_operand disp base ix) = Inr operand
    \<and> (displacement t \<noteq> - 0x200000 \<longrightarrow> parse_operand gri operand = Inr (shifted t))
    \<and> (displacement t = - 0x200000 \<longrightarrow> operand = ''(nil)('' @ printed_registers base ix)"
proof (cases disp)
  case None
  have m: "mirror_operand (print_operand disp base ix) = Inr (print_operand (Some (False, 0x200000)) base ix)"
    using None by (simp add: mirror_operand_def print_operand_body offset_string_def offset_hex)
  have d: "displacement t = 0" by (simp add: t_def displacement_operand_target None)
  have "parse_operand gri (print_operand (Some (False, 0x200000)) base ix) = Inr (operand_target gri (Some (False, 0x200000)) base ix)"
    by (rule parse_print_operand [OF assms(1,2)]) simp
  also have "operand_target gri (Some (False, 0x200000)) base ix = shifted t"
    unfolding operand_target_disp [of gri _ base ix disp] shifted_def d by (simp add: t_def)
  finally show ?thesis using m d by simp
next
  case (Some q)
  then obtain neg n where q: "disp = Some (neg, n)" by (cases q) simp
  let ?d = "(if neg then ''-'' else []) @ ''0x'' @ hex_string n"
  let ?v = "(if neg then - of_nat n else of_nat n) :: 64 word"
  have e: "print_operand disp base ix = ?d @ CHR ''('' # printed_registers base ix" by (simp add: print_operand_body q)
  have d: "?d \<noteq> []" "set ?d \<inter> {CHR ''(''} = {}" using plain_hex [of n] by (auto simp: plain_def)
  have dt: "displacement t = ?v" by (simp add: t_def displacement_operand_target q)
  have tok: "strtok {CHR ''(''} (?d @ CHR ''('' # printed_registers base ix) = Some (?d, printed_registers base ix)"
    by (rule strtok_token(1) [OF d]) simp
  have h: "take 1 (?d @ CHR ''('' # printed_registers base ix) \<noteq> ''(''" by simp
  have "word_of_int (strtol 16 ?d + strtol 16 offset_string) = ?v + 0x200000"
    using strtol_printed [of n neg] assms(3) q by (simp add: offset_value)
  then have m: "mirror_operand (print_operand disp base ix) = Inr (print_pointer (?v + 0x200000) @ CHR ''('' # printed_registers base ix)"
    unfolding e mirror_operand_def if_not_P [OF h] tok by simp
  show ?thesis
  proof (cases "?v = - 0x200000")
    case True
    then have "print_pointer (?v + 0x200000) = ''(nil)''" by (simp add: print_pointer_def)
    then show ?thesis using m True dt by simp
  next
    case False
    then have nz: "?v + 0x200000 \<noteq> 0" unfolding eq_neg_iff_add_eq_0 .
    let ?m = "unat (?v + 0x200000)"
    have "print_pointer (?v + 0x200000) @ CHR ''('' # printed_registers base ix = print_operand (Some (False, ?m)) base ix"
      using nz by (simp add: print_pointer_def print_operand_body)
    moreover have "parse_operand gri (print_operand (Some (False, ?m)) base ix) = Inr (operand_target gri (Some (False, ?m)) base ix)"
    proof (rule parse_print_operand [OF assms(1,2)])
      show "\<forall>neg n. Some (False, ?m) = Some (neg, n) \<longrightarrow> n < 2 ^ 64"
      proof -
        have "unat w < 2 ^ 64" for w :: "64 word" using unsigned_less [of w] by simp
        then show ?thesis by blast
      qed
    qed
    moreover have "operand_target gri (Some (False, ?m)) base ix = shifted t"
      unfolding operand_target_disp [of gri _ base ix disp] shifted_def dt by (simp add: t_def)
    ultimately show ?thesis using m False dt by simp
  qed
qed

theorem mirror_operand_shifted_witness:
  "\<exists>operand. mirror_operand (print_operand (Some (True, 8)) ''%rbx'' None) = Inr operand
     \<and> parse_operand mv_get_register_index operand = Inr \<lparr>displacement = 0x1ffff8, base_index = 6, scale_index = 0, scale = 0\<rparr>"
proof -
  have p: "plain ''%rbx''" by (simp add: plain_def)
  have "displacement (operand_target mv_get_register_index (Some (True, 8)) ''%rbx'' None) = - 8" by (simp add: operand_target_def)
  then show ?thesis
    using mirror_operand_shifted [OF p, of None "Some (True, 8)" mv_get_register_index]
    by (auto simp: shifted_def operand_target_def mv_get_register_index_def)
qed
section \<open>The block of a grid patch\<close>

lemma behind_prologue:
  assumes "build_behind offs pro (ins, p) (zs, mem) = Inr ((ins1, p1), zs1, mem1)"
    and "unat (block p) + patch_length offs ins p < 2 ^ 64" and "rip_relative ins = CHR ''y'' \<Longrightarrow> 4 \<le> isize ins"
    and "x < unat (block p) + offs"
  shows "mem1 x = pro (block p) mem x"
proof -
  define c where "c = block p + of_nat offs"
  let ?n = "isize ins" and ?a = "address ins"
  define m2 where "m2 = memcpy (pro (block p) mem) (unat c) (unat ?a) ?n"
  define m4 where "m4 = write_tail c ?a ?n (functional_instr p) m2"
  have m1: "mem1 = (if rip_relative ins = CHR ''y'' then put_bytes (c + of_nat ?n - 4)
      (le_bytes 4 (effective_operand_address ins - (c + of_nat ?n))) m4 else m4)"
    using assms(1)
    by (auto simp: build_behind_def rebase_operand_def Let_def and_then_eq_Inr c_def m2_def m4_def split: if_split_asm)
  have U: "unat c = unat (block p) + offs" "unat (c + of_nat ?n) = unat c + ?n"
    using assms(2) unat_add_nat [of "block p" offs] unat_add_nat [of c ?n] by (simp_all add: c_def patch_length_def)
  have "m4 x = m2 x" unfolding m4_def by (rule write_tail_low) (use U assms(2,4) in \<open>simp_all add: patch_length_def\<close>)
  also have "\<dots> = pro (block p) mem x" using assms(4) U(1) by (simp add: m2_def memcpy_def)
  finally have low: "m4 x = pro (block p) mem x" .
  show ?thesis
  proof (cases "rip_relative ins = CHR ''y''")
    case True
    have "(4 :: 64 word) \<le> c + of_nat ?n" using U(2) assms(3) [OF True] by (simp add: word_le_nat_alt)
    then have "unat (c + of_nat ?n - 4) = unat c + ?n - 4" using unat_sub [of 4 "c + of_nat ?n"] U(2) by simp
    then have "mem1 x = m4 x" unfolding m1 if_P [OF True]
      by (intro put_bytes_out) (use U(1) assms(3) [OF True] assms(4) in linarith)
    then show ?thesis using low by simp
  qed (use m1 low in simp)
qed

lemma hook_prologue_parts:
  assumes "unat start + (stub_length bd + length pre + hook_size) < 2 ^ 64"
    and hook: "unat hook + hook_size \<le> unat start \<or> unat start + (stub_length bd + length pre + hook_size) \<le> unat hook"
  shows "k < length pre \<Longrightarrow> hook_prologue bd ra pre hook hook_size start mem (unat start + stub_length bd + k) = pre ! k"
    and "k < hook_size \<Longrightarrow> hook_prologue bd ra pre hook hook_size start mem (unat start + stub_length bd + length pre + k) = mem (unat hook + k)"
    and "x < unat start \<or> unat start + (stub_length bd + length pre + hook_size) \<le> x \<Longrightarrow> hook_prologue bd ra pre hook hook_size start mem x = mem x"
proof -
  let ?p = "start + of_nat (stub_length bd)" and ?h = "start + of_nat (stub_length bd) + of_nat (length pre)"
  have U: "unat ?p = unat start + stub_length bd" "unat ?h = unat start + stub_length bd + length pre"
    using assms(1) unat_add_nat [of start "stub_length bd"] unat_add_nat [of ?p "length pre"] by simp_all
  let ?m0 = "stub_prologue bd ra start mem"
  let ?m1 = "put_bytes ?p pre ?m0"
  have run: "hook_prologue bd ra pre hook hook_size start mem = memcpy ?m1 (unat ?h) (unat hook) hook_size"
    by (simp add: hook_prologue_def Let_def)
  have m0: "?m0 x = mem x" if "x < unat start \<or> unat start + stub_length bd \<le> x" for x
    by (rule stub_prologue_out) (use assms(1) that in auto)
  have m1: "?m1 x = mem x" if "x < unat start \<or> unat start + stub_length bd + length pre \<le> x" for x
  proof -
    have "?m1 x = ?m0 x" by (rule put_bytes_out) (use that U(1) in auto)
    then show ?thesis using m0 [of x] that by auto
  qed
  show "hook_prologue bd ra pre hook hook_size start mem (unat start + stub_length bd + k) = pre ! k" if "k < length pre"
  proof -
    have "memcpy ?m1 (unat ?h) (unat hook) hook_size (unat ?p + k) = ?m1 (unat ?p + k)"
      using that U by (simp add: memcpy_def)
    also have "\<dots> = pre ! k" by (rule put_bytes_in [OF that])
    finally show ?thesis unfolding run U(1) .
  qed
  show "hook_prologue bd ra pre hook hook_size start mem (unat start + stub_length bd + length pre + k) = mem (unat hook + k)" if "k < hook_size"
  proof -
    have "memcpy ?m1 (unat ?h) (unat hook) hook_size (unat ?h + k) = ?m1 (unat hook + k)"
      using that by (simp add: mem_simps)
    also have "\<dots> = mem (unat hook + k)" by (rule m1) (use hook that in auto)
    finally show ?thesis unfolding run U(2) .
  qed
  show "hook_prologue bd ra pre hook hook_size start mem x = mem x"
    if x: "x < unat start \<or> unat start + (stub_length bd + length pre + hook_size) \<le> x"
  proof -
    have "memcpy ?m1 (unat ?h) (unat hook) hook_size x = ?m1 x" using x U(2) by (auto simp: memcpy_def)
    also have "\<dots> = mem x" by (rule m1) (use x in auto)
    finally show ?thesis unfolding run .
  qed
qed

text \<open>
  What the saved bytes mean to the processor: stores of a 64-bit or of an 8-bit register at a place of the
  thread's own segment (\<open>%gs\<close>), by the number of the register (\<open>%rax\<close> 0, \<open>%rcx\<close> and \<open>%cl\<close> 1, \<open>%rbx\<close> 3, \<open>%ah\<close> 4),
  and the load of \<open>%ah\<close> with the flags.
\<close>

datatype save_instruction = Mov_GS64 nat "32 word" | Mov_GS8 nat "32 word" | Lahf

fun encode :: "save_instruction \<Rightarrow> byte list" where
  "encode (Mov_GS64 r disp) = [0x65, 0x48, 0x89, of_nat (4 + 8 * r), 0x25] @ le_bytes 4 disp"
| "encode (Mov_GS8 r disp) = [0x65, 0x88, of_nat (4 + 8 * r), 0x25] @ le_bytes 4 disp"
| "encode Lahf = [0x9f]"

lemma le_bytes_4: "le_bytes 4 (w :: 32 word) = [ucast w, ucast (drop_bit 8 w), ucast (drop_bit 16 w), ucast (drop_bit 24 w)]"
proof -
  have "[0..<4] = [0, 1, 2, 3::nat]" by (simp add: upt_rec)
  then show ?thesis by (simp add: le_bytes_def)
qed

definition grid_saves :: "save_instruction list" where
  "grid_saves = [Mov_GS64 1 0x10]"

definition grid_bs_saves :: "save_instruction list" where
  "grid_bs_saves = [Mov_GS64 0 0x00, Mov_GS64 3 0x08, Lahf, Mov_GS8 1 0x10, Mov_GS8 4 0x14]"

lemma saves_encoded: "concat (map encode grid_saves) = save_rcx" "concat (map encode grid_bs_saves) = save_registers_bs"
  by (simp_all add: grid_saves_def grid_bs_saves_def save_rcx_def save_registers_bs_def le_bytes_4)

lemma ckpt_patch_parts:
  "ckpt_patch assemble ins = Inr pre \<longleftrightarrow> length (assemble (lea_line ''%rcx'' ins)) \<le> 10 \<and> pre = save_rcx @ assemble (lea_line ''%rcx'' ins)"
  "ckpt_patch_bs assemble ins = Inr pre \<longleftrightarrow> length (assemble (lea_line ''%rbx'' ins)) \<le> 10 \<and> pre = save_registers_bs @ assemble (lea_line ''%rbx'' ins)"
  by (auto simp: ckpt_patch_def ckpt_patch_bs_def Let_def READ_SIZE_def)

lemma grid_patch_layout:
  assumes "grid_build_patch bd ckpt hook hook_size ra (ins, p) (zs, mem) = Inr ((ins1, p1), zs1, mem1)" and "type ins \<noteq> CHR ''l''"
    and "ckpt ins = Inr pre"
  defines "offs \<equiv> stub_length bd + length pre + hook_size"
  assumes room: "unat (block p) + patch_length offs ins p < 2 ^ 64"
    and site: "unat (address ins) + isize ins \<le> unat (block p) \<or> unat (block p) + patch_length offs ins p \<le> unat (address ins)"
    and hook: "unat hook + hook_size \<le> unat (block p) \<or> unat (block p) + patch_length offs ins p \<le> unat hook"
    and rip': "rip_relative ins = CHR ''y'' \<longrightarrow> 4 \<le> isize ins"
  shows "code p1 = block p + of_nat offs
    \<and> (\<forall>k < length pre. mem1 (unat (block p) + stub_length bd + k) = pre ! k)
    \<and> (\<forall>k < hook_size. mem1 (unat (block p) + stub_length bd + length pre + k) = mem (unat hook + k))
    \<and> (\<forall>k < isize ins. rip_relative ins \<noteq> CHR ''y'' \<or> k + 4 < isize ins \<longrightarrow> mem1 (unat (code p1) + k) = mem (unat (address ins) + k))
    \<and> (fits32 (address ins + of_nat (isize ins) - (code p1 + of_nat (isize ins + length (functional_instr p)) + 5)) \<longrightarrow>
         jump_target mem1 (code p1 + of_nat (isize ins + length (functional_instr p))) = Some (address ins + of_nat (isize ins)))
    \<and> (5 \<le> isize ins \<longrightarrow> fits32 (block p - (address ins + 5)) \<longrightarrow>
         (\<forall>mem'. jump_target (apply_patch (ins1, p1) mem') (address ins) = Some (block p)))"
proof -
  note rip = rip' [rule_format]
  let ?pro = "hook_prologue bd ra pre hook hook_size"
  have b: "build_behind offs ?pro (ins, p) (zs, mem) = Inr ((ins1, p1), zs1, mem1)"
    using assms(1-3) by (auto simp: grid_build_patch_def offs_def split: if_split_asm)
  have inside: "unat (block p) + (stub_length bd + length pre + hook_size) < 2 ^ 64"
    "unat hook + hook_size \<le> unat (block p) \<or> unat (block p) + (stub_length bd + length pre + hook_size) \<le> unat hook"
    using room hook by (auto simp: patch_length_def offs_def)
  note parts = hook_prologue_parts [OF inside, of _ ra mem]
  have pro: "?pro (block p) mem x = mem x" if "x < unat (block p) \<or> unat (block p) + offs \<le> x" for x
    by (rule parts(3)) (use that in \<open>simp add: offs_def\<close>)
  note low = behind_prologue [OF b room rip]
  have 1: "mem1 (unat (block p) + stub_length bd + k) = pre ! k" if "k < length pre" for k
  proof -
    have "mem1 (unat (block p) + stub_length bd + k) = ?pro (block p) mem (unat (block p) + stub_length bd + k)"
      by (rule low) (use that in \<open>simp_all add: offs_def\<close>)
    then show ?thesis using parts(1) [OF that] by simp
  qed
  have 2: "mem1 (unat (block p) + stub_length bd + length pre + k) = mem (unat hook + k)" if "k < hook_size" for k
  proof -
    have "mem1 (unat (block p) + stub_length bd + length pre + k) = ?pro (block p) mem (unat (block p) + stub_length bd + length pre + k)"
      by (rule low) (use that in \<open>simp_all add: offs_def\<close>)
    then show ?thesis using parts(2) [OF that] by simp
  qed
  have c: "code p1 = block p + of_nat offs"
    using b by (auto simp: build_behind_def Let_def and_then_eq_Inr split: if_split_asm)
  have reach: "jump_target (apply_patch (ins1, p1) mem') (address ins) = Some (block p)"
    if "5 \<le> isize ins" "fits32 (block p - (address ins + 5))" for mem'
    by (rule behind_reached(1) [OF b assms(2) that])
  note rest = behind_block [OF b pro room site rip]
  show ?thesis using c 1 2 rest reach by blast
qed

text \<open>
  Property C23. The block of a grid patch holds, one behind the other, the instructions that save the registers the
  hook uses (\<open>%rcx\<close>; in the other monitor \<open>%rax\<close>, \<open>%rbx\<close>, \<open>%cl\<close> and, behind \<open>lahf\<close>, the flags in \<open>%ah\<close>), the bytes the assembler
  makes of the \<open>lea\<close> of the operand as it is written in the store, the hook byte for byte, and the store, whose last four bytes are
  the new displacement when it is relative to the instruction pointer; then a jump leads to the instruction
  behind the store. The patch fails when the \<open>lea\<close> is longer than ten bytes. A store of five bytes or more leads to the block.
\<close>

theorem grid_patch_correct:
  assumes "grid_build_patch bd ckpt hook hook_size ra (ins, p) (zs, mem) = Inr ((ins1, p1), zs1, mem1)" and "type ins \<noteq> CHR ''l''"
    and "(ckpt, saves, reg) \<in> {(ckpt_patch assemble, [Mov_GS64 1 0x10], ''%rcx''),
      (ckpt_patch_bs assemble, [Mov_GS64 0 0x00, Mov_GS64 3 0x08, Lahf, Mov_GS8 1 0x10, Mov_GS8 4 0x14], ''%rbx'')}"
  defines "lea \<equiv> assemble (''lea '' @ dest ins @ '', '' @ reg @ [CHR 0x0A])" and "saved \<equiv> concat (map encode saves)"
  defines "at_lea \<equiv> stub_length bd + length saved"
  defines "at_hook \<equiv> at_lea + length lea"
  defines "offs \<equiv> at_hook + hook_size"
  assumes room: "unat (block p) + patch_length offs ins p < 2 ^ 64"
    and site: "unat (address ins) + isize ins \<le> unat (block p) \<or> unat (block p) + patch_length offs ins p \<le> unat (address ins)"
    and hook: "unat hook + hook_size \<le> unat (block p) \<or> unat (block p) + patch_length offs ins p \<le> unat hook"
    and rip: "rip_relative ins = CHR ''y'' \<Longrightarrow> 4 \<le> isize ins"
  shows "length lea \<le> 10 \<and> code p1 = block p + of_nat offs
    \<and> (\<forall>k < length saved. mem1 (unat (block p) + stub_length bd + k) = saved ! k)
    \<and> (\<forall>k < length lea. mem1 (unat (block p) + at_lea + k) = lea ! k)
    \<and> (\<forall>k < hook_size. mem1 (unat (block p) + at_hook + k) = mem (unat hook + k))
    \<and> (\<forall>k < isize ins. rip_relative ins \<noteq> CHR ''y'' \<or> k + 4 < isize ins \<longrightarrow> mem1 (unat (code p1) + k) = mem (unat (address ins) + k))
    \<and> (fits32 (address ins + of_nat (isize ins) - (code p1 + of_nat (isize ins + length (functional_instr p)) + 5)) \<longrightarrow>
         jump_target mem1 (code p1 + of_nat (isize ins + length (functional_instr p))) = Some (address ins + of_nat (isize ins)))
    \<and> (5 \<le> isize ins \<longrightarrow> fits32 (block p - (address ins + 5)) \<longrightarrow>
         (\<forall>mem'. jump_target (apply_patch (ins1, p1) mem') (address ins) = Some (block p)))"
proof -
  obtain pre where pre: "ckpt ins = Inr pre"
    using assms(1,2) by (auto simp: grid_build_patch_def and_then_eq_Inr split: if_splits)
  have lea: "length lea \<le> 10" "pre = saved @ lea"
    using assms(3) pre saves_encoded
    by (auto simp: ckpt_patch_parts lea_def lea_line_def saved_def grid_saves_def grid_bs_saves_def)
  have offs: "offs = stub_length bd + length pre + hook_size"
    by (simp add: offs_def at_hook_def at_lea_def lea(2))
  have rip': "rip_relative ins = CHR ''y'' \<longrightarrow> 4 \<le> isize ins" using rip by blast
  note L = grid_patch_layout [OF assms(1,2) pre, folded offs, OF room site hook rip']
  have "mem1 (unat (block p) + stub_length bd + k) = saved ! k" if "k < length saved" for k
    using L that by (simp add: lea(2) nth_append)
  moreover have "mem1 (unat (block p) + at_lea + k) = lea ! k" if "k < length lea" for k
    using L [THEN conjunct2, THEN conjunct1, rule_format, of "length saved + k"] that
    by (simp add: lea(2) nth_append at_lea_def add.assoc)
  moreover have "mem1 (unat (block p) + at_hook + k) = mem (unat hook + k)" if "k < hook_size" for k
    using L [THEN conjunct2, THEN conjunct2, THEN conjunct1, rule_format, OF that]
    by (simp add: lea(2) at_lea_def at_hook_def add.assoc)
  ultimately show ?thesis using lea(1) L by blast
qed

definition demo_long_store :: instruction_record where
  "demo_long_store = demo_store\<lparr>isize := 5\<rparr>"

text \<open>The assembler's bytes of \<open>lea (%rax), %rcx\<close>.\<close>

definition demo_assembler :: "string \<Rightarrow> byte list" where
  "demo_assembler = (\<lambda>_. [0x48, 0x8d, 0x08])"

theorem grid_patch_correct_witness:
  "\<exists>ins1 p1 zs1 mem1. grid_build_patch demo_build (ckpt_patch demo_assembler) 9000 4 0 (demo_long_store, demo_patch) (near_zones, of_nat)
       = Inr ((ins1, p1), zs1, mem1)
     \<and> mem1 8003 = 0x0c \<and> mem1 8009 = 0x48 \<and> mem1 8012 = of_nat 9000 \<and> mem1 8016 = of_nat 4096 \<and> jump_target mem1 8022 = Some 4101"
proof -
  let ?ck = "ckpt_patch demo_assembler" and ?sv = "[Mov_GS64 1 0x10]"
  have d: "type demo_long_store = CHR ''s''" "isize demo_long_store = 5" "address demo_long_store = 4096" "rip_relative demo_long_store = CHR ''n''"
    by (simp_all add: demo_long_store_def demo_store_def)
  have p: "block demo_patch = 8000" "functional_instr demo_patch = [0x90]" by (simp_all add: demo_patch_def)
  have s: "stub_length demo_build = 0" by (simp add: stub_length_def demo_build_def)
  have sv: "concat (map encode ?sv) = [0x65, 0x48, 0x89, 0x0c, 0x25, 0x10, 0, 0, 0]" by (simp add: le_bytes_4)
  have le: "demo_assembler x = [0x48, 0x8d, 0x08]" for x by (simp add: demo_assembler_def)
  have nl: "type demo_long_store \<noteq> CHR ''l''" using d(1) by simp
  obtain ins1 p1 zs1 mem1 where b: "grid_build_patch demo_build ?ck 9000 4 0 (demo_long_store, demo_patch) (near_zones, of_nat)
      = Inr ((ins1, p1), zs1, mem1)"
    by (simp add: grid_build_patch_def ckpt_patch_def le READ_SIZE_def build_behind_def pack_jumps_def d Let_def MAX_INST_LEN_def)
  have in_set: "(?ck, ?sv, ''%rcx'') \<in> {(ckpt_patch demo_assembler, [Mov_GS64 1 0x10], ''%rcx''),
      (ckpt_patch_bs demo_assembler, [Mov_GS64 0 0x00, Mov_GS64 3 0x08, Lahf, Mov_GS8 1 0x10, Mov_GS8 4 0x14], ''%rbx'')}" by simp
  have len: "patch_length 16 demo_long_store demo_patch = 27" by (simp add: patch_length_def d p)
  note t = grid_patch_correct [OF b nl in_set, unfolded sv le s p d]
  have T: "code p1 = 8016 \<and> (\<forall>k < 9. mem1 (8000 + k) = [0x65, 0x48, 0x89, 0x0c, 0x25, 0x10, 0, 0, 0] ! k)
    \<and> (\<forall>k < 3. mem1 (8009 + k) = [0x48, 0x8d, 0x08] ! k) \<and> (\<forall>k < 4. mem1 (8012 + k) = of_nat (9000 + k))
    \<and> (\<forall>k < 5. mem1 (8016 + k) = of_nat (4096 + k)) \<and> jump_target mem1 8022 = Some 4101"
    using t by (auto simp: len fits32_def)
  have "mem1 8003 = 0x0c" using T [THEN conjunct2, THEN conjunct1, rule_format, of 3] by simp
  moreover have "mem1 8009 = 0x48" using T [THEN conjunct2, THEN conjunct2, THEN conjunct1, rule_format, of 0] by simp
  moreover have "mem1 8012 = of_nat 9000" using T [THEN conjunct2, THEN conjunct2, THEN conjunct2, THEN conjunct1, rule_format, of 0] by simp
  moreover have "mem1 8016 = of_nat 4096" using T [THEN conjunct2, THEN conjunct2, THEN conjunct2, THEN conjunct2, THEN conjunct1, rule_format, of 0] by simp
  moreover have "jump_target mem1 8022 = Some 4101" using T by blast
  ultimately show ?thesis using b by blast
qed

end
