(* ===== verification/Topology.thy ===== *)
theory Topology
  imports Stubs
begin

text \<open>
  \<open>models/pcs/topology.c\<close>: the receiver of a message on a grid of hexagons or squares, a mesh, a ring, a
  ring in both directions and a star. Coordinates are \<open>unsigned int\<close>, and a step over the edge wraps to
  a number that is not below the length of the edge.
\<close>

section \<open>The topologies\<close>

definition TOPOLOGY_HEXAGON :: int where "TOPOLOGY_HEXAGON = 1000"
definition TOPOLOGY_SQUARE :: int where "TOPOLOGY_SQUARE = 1001"
definition TOPOLOGY_MESH :: int where "TOPOLOGY_MESH = 1002"
definition TOPOLOGY_STAR :: int where "TOPOLOGY_STAR = 1003"
definition TOPOLOGY_RING :: int where "TOPOLOGY_RING = 1004"
definition TOPOLOGY_BIDRING :: int where "TOPOLOGY_BIDRING = 1005"

text \<open>
  The switch over the direction. Without a case for it, \<open>nx\<close> and \<open>ny\<close> keep what they had, and have
  nothing the first time.
\<close>

definition hex_move :: "int \<Rightarrow> 32 word \<Rightarrow> 32 word \<Rightarrow> (32 word \<times> 32 word) option" where
  "hex_move r x y =
     (if r = 0 then Some (if y mod 2 = 0 then x - 1 else x, y - 1)
      else if r = 5 then Some (if y mod 2 = 0 then x else x + 1, y - 1)
      else if r = 2 then Some (if y mod 2 = 0 then x - 1 else x, y + 1)
      else if r = 3 then Some (if y mod 2 = 0 then x else x + 1, y + 1)
      else if r = 4 then Some (x + 1, y)
      else if r = 1 then Some (x - 1, y)
      else None)"

text \<open>From the direction that was drawn, counter clockwise to the first one inside of the grid.\<close>

partial_function (option) hex_walk :: "32 word \<Rightarrow> 32 word \<Rightarrow> 32 word \<Rightarrow> int \<Rightarrow> (32 word \<times> 32 word) outcome option" where
  "hex_walk edge x y r =
     (case hex_move r x y of
        None \<Rightarrow> Some (Inl Undefined)
      | Some (nx, ny) \<Rightarrow>
          if nx \<ge> edge \<or> ny \<ge> edge then hex_walk edge x y ((r + 1) mod 6) else Some (Inr (nx, ny)))"

definition square_move :: "int \<Rightarrow> 32 word \<Rightarrow> 32 word \<Rightarrow> (32 word \<times> 32 word) option" where
  "square_move r x y =
     (if r = 0 then Some (x, y - 1) else if r = 2 then Some (x, y + 1)
      else if r = 3 then Some (x + 1, y) else if r = 1 then Some (x - 1, y) else None)"

text \<open>On the square grid every round draws a direction again.\<close>

definition draw_direction :: "config \<Rightarrow> 32 word \<Rightarrow> 32 word \<Rightarrow> (int \<times> 32 word \<times> 32 word) outcome" where
  "draw_direction cfg s1 s2 =
     (let (u, t1, t2) = Random cfg s1 s2 in
      and_then (int_of_double (dmul cfg 4 u)) (\<lambda>r. Inr (if r = 4 then 3 else r, t1, t2)))"

partial_function (option) square_walk ::
  "config \<Rightarrow> 32 word \<Rightarrow> 32 word \<Rightarrow> 32 word \<Rightarrow> 32 word \<Rightarrow> 32 word \<Rightarrow> (32 word \<times> 32 word \<times> 32 word \<times> 32 word) outcome option" where
  "square_walk cfg edge x y s1 s2 =
     (case draw_direction cfg s1 s2 of
        Inl e \<Rightarrow> Some (Inl e)
      | Inr (r, t1, t2) \<Rightarrow>
          (case square_move r x y of
             None \<Rightarrow> Some (Inl Undefined)
           | Some (nx, ny) \<Rightarrow>
               if nx \<ge> edge \<or> ny \<ge> edge then square_walk cfg edge x y t1 t2 else Some (Inr (nx, ny, t1, t2))))"

text \<open>\<open>edge = sqrt(OBJECTS)\<close>, and back from coordinates to the number of a cell.\<close>

definition grid_edge :: "config \<Rightarrow> 32 word" where
  "grid_edge cfg = word_of_int (trunc_double (rnd cfg (sqrt (real (OBJECTS cfg)))))"

definition linear :: "32 word \<Rightarrow> 32 word \<times> 32 word \<Rightarrow> 32 word" where
  "linear edge = (\<lambda>(nx, ny). ny * edge + nx)"

definition hexagon_receiver ::
  "config \<Rightarrow> 32 word \<Rightarrow> 32 word \<Rightarrow> 32 word \<Rightarrow> (32 word \<times> 32 word \<times> 32 word) outcome option" where
  "hexagon_receiver cfg lp s1 s2 =
     (let edge = grid_edge cfg in
      if edge = 0 then Some (Inl Undefined)
      else if edge * edge \<noteq> of_nat (OBJECTS cfg) then Some (Inr (0, s1, s2))
      else if OBJECTS cfg = 1 then Some (Inr (lp, s1, s2))
      else let (u, t1, t2) = Random cfg s1 s2 in
        case int_of_double (dmul cfg 6 u) of
          Inl e \<Rightarrow> Some (Inl e)
        | Inr r \<Rightarrow> map_option (\<lambda>res. and_then res (\<lambda>p. Inr (linear edge p, t1, t2))) (hex_walk edge (lp mod edge) (lp div edge) r))"

definition square_receiver ::
  "config \<Rightarrow> 32 word \<Rightarrow> 32 word \<Rightarrow> 32 word \<Rightarrow> (32 word \<times> 32 word \<times> 32 word) outcome option" where
  "square_receiver cfg lp s1 s2 =
     (let edge = grid_edge cfg in
      if edge = 0 then Some (Inl Undefined)
      else if edge * edge \<noteq> of_nat (OBJECTS cfg) then Some (Inr (0, s1, s2))
      else if OBJECTS cfg = 1 then Some (Inr (lp, s1, s2))
      else map_option (\<lambda>res. and_then res (\<lambda>(nx, ny, t1, t2). Inr (linear edge (nx, ny), t1, t2)))
             (square_walk cfg edge (lp mod edge) (lp div edge) s1 s2))"

text \<open>\<open>(int)(n_prc_tot * Random(s1, s2))\<close>.\<close>

definition random_object :: "config \<Rightarrow> 32 word \<Rightarrow> 32 word \<Rightarrow> (32 word \<times> 32 word \<times> 32 word) outcome" where
  "random_object cfg s1 s2 =
     (let (u, t1, t2) = Random cfg s1 s2 in
      and_then (int_of_double (dmul cfg (real (OBJECTS cfg)) u)) (\<lambda>r. Inr (word_of_int r, t1, t2)))"

definition bidring_receiver ::
  "config \<Rightarrow> 32 word \<Rightarrow> 32 word \<Rightarrow> 32 word \<Rightarrow> 32 word \<times> 32 word \<times> 32 word" where
  "bidring_receiver cfg lp s1 s2 =
     (let (u, t1, t2) = Random cfg s1 s2;
          r = (if u < 1 / 2 then lp - 1 else lp + 1);
          r = (if r = - 1 then of_nat (OBJECTS cfg) - 1 else r)
      in (if r = of_nat (OBJECTS cfg) then 0 else r, t1, t2))"

definition ring_receiver :: "config \<Rightarrow> 32 word \<Rightarrow> 32 word" where
  "ring_receiver cfg lp = (if lp + 1 = of_nat (OBJECTS cfg) then 0 else lp + 1)"

text \<open>
  The seeds are results. An unknown topology returns a variable that was never written; \<open>None\<close> when the
  loop over the directions does not end.
\<close>

definition FindReceiver ::
  "config \<Rightarrow> 32 word \<Rightarrow> int \<Rightarrow> 32 word \<Rightarrow> 32 word \<Rightarrow> (32 word \<times> 32 word \<times> 32 word) outcome option" where
  "FindReceiver cfg lp topology s1 s2 =
     (if topology = TOPOLOGY_HEXAGON then hexagon_receiver cfg lp s1 s2
      else if topology = TOPOLOGY_SQUARE then square_receiver cfg lp s1 s2
      else if topology = TOPOLOGY_MESH then Some (random_object cfg s1 s2)
      else if topology = TOPOLOGY_BIDRING then Some (Inr (bidring_receiver cfg lp s1 s2))
      else if topology = TOPOLOGY_RING then Some (Inr (ring_receiver cfg lp, s1, s2))
      else if topology = TOPOLOGY_STAR then
        Some (if lp = 0 then random_object cfg s1 s2 else Inr (0, s1, s2))
      else Some (Inl Undefined))"

section \<open>Neighbours of a hexagon\<close>

definition hex_step :: "int \<Rightarrow> int \<times> int \<Rightarrow> int \<times> int" where
  "hex_step r = (\<lambda>(x, y).
     if r = 0 then (if even y then x - 1 else x, y - 1)
     else if r = 5 then (if even y then x else x + 1, y - 1)
     else if r = 2 then (if even y then x - 1 else x, y + 1)
     else if r = 3 then (if even y then x else x + 1, y + 1)
     else if r = 4 then (x + 1, y) else (x - 1, y))"

lemma six_cases: "(0 :: int) \<le> r \<Longrightarrow> r < 6 \<Longrightarrow> r = 0 \<or> r = 1 \<or> r = 2 \<or> r = 3 \<or> r = 4 \<or> r = 5"
  by linarith

lemma hex_step_opposite: "0 \<le> r \<Longrightarrow> r < 6 \<Longrightarrow> hex_step ((r + 3) mod 6) (hex_step r p) = p"
  by (cases p; drule (1) six_cases; elim disjE) (simp_all add: hex_step_def)

lemma hex_step_moves: "0 \<le> r \<Longrightarrow> r < 6 \<Longrightarrow> hex_step r p \<noteq> p"
  by (cases p; drule (1) six_cases; elim disjE) (simp_all add: hex_step_def)

text \<open>Inside of the grid the unsigned steps are those on the integers.\<close>

lemma uint_down:
  fixes x :: "32 word"
  assumes "x < e" "x - 1 < e"
  shows "uint (x - 1) = uint x - 1"
proof -
  have "x \<noteq> 0"
  proof
    assume "x = 0"
    then have "uint (x - 1) = 2 ^ 32 - 1" by (simp add: uint_word_ariths)
    moreover have "uint e < 2 ^ 32" using unsigned_less [of e] by simp
    ultimately show False using assms(2) by (simp add: word_less_def)
  qed
  then have "0 < uint x" by (metis uint_0_iff uint_ge_0 order_less_le)
  moreover have "uint x < 2 ^ 32" using unsigned_less [of x] by simp
  ultimately show ?thesis by (simp add: uint_word_ariths)
qed

lemma uint_up:
  fixes x :: "32 word"
  assumes "x < e"
  shows "uint (x + 1) = uint x + 1"
proof -
  have "uint x + 1 \<le> uint e" using assms by (simp add: word_less_def)
  moreover have "uint e < 2 ^ 32" using unsigned_less [of e] by simp
  ultimately show ?thesis by (simp add: uint_word_ariths)
qed

lemma word_even: "(y :: 32 word) mod 2 = 0 \<longleftrightarrow> even (uint y)"
  by (simp add: word_uint_eq_iff uint_word_ariths even_iff_mod_2_eq_zero uint_mod)

lemma hex_move_step:
  assumes "0 \<le> r" "r < 6" and "x < e" "y < e" and "hex_move r x y = Some (nx, ny)" and "nx < e" "ny < e"
  shows "(uint nx, uint ny) = hex_step r (uint x, uint y)"
  using six_cases [OF assms(1,2)] assms(3-)
  by (elim disjE) (auto simp: hex_move_def hex_step_def word_even uint_down uint_up split: if_splits)

lemma hex_move_some: "0 \<le> r \<Longrightarrow> r < 6 \<Longrightarrow> \<exists>nx ny. hex_move r x y = Some (nx, ny)"
  by (drule (1) six_cases; elim disjE) (simp_all add: hex_move_def)

definition inside_move :: "32 word \<Rightarrow> 32 word \<Rightarrow> 32 word \<Rightarrow> int \<Rightarrow> bool" where
  "inside_move e x y r \<longleftrightarrow> 0 \<le> r \<and> r < 6 \<and> (\<exists>nx ny. hex_move r x y = Some (nx, ny) \<and> nx < e \<and> ny < e)"

text \<open>East or west is inside of a grid of two or more columns.\<close>

lemma some_inside_move:
  assumes "x < e" "y < e" "1 < e"
  shows "\<exists>d. inside_move e x y d"
proof (cases "x + 1 < e")
  case True
  then have "inside_move e x y 4" using assms by (simp add: inside_move_def hex_move_def)
  then show ?thesis by blast
next
  case False
  have up: "uint (x + 1) = uint x + 1" by (rule uint_up [OF assms(1)])
  have "1 \<le> uint x" using False up assms(3) by (simp add: word_less_def)
  moreover have "uint x < 2 ^ 32" using unsigned_less [of x] by simp
  ultimately have "uint (x - 1) = uint x - 1" by (simp add: uint_word_ariths)
  then have "x - 1 < e" using assms(1) by (simp add: word_less_def)
  then have "inside_move e x y 1" using assms by (simp add: inside_move_def hex_move_def)
  then show ?thesis by blast
qed

lemma hex_walk_reaches:
  assumes "inside_move e x y d" and "0 \<le> r" "r < 6" and "r = (d - int k) mod 6"
  shows "\<exists>r' nx ny. hex_walk e x y r = Some (Inr (nx, ny)) \<and> 0 \<le> r' \<and> r' < 6 \<and> hex_move r' x y = Some (nx, ny) \<and> nx < e \<and> ny < e"
  using assms(2-)
proof (induction k arbitrary: r)
  case 0
  then have rd: "r = d" using assms(1) by (simp add: inside_move_def)
  then obtain nx ny where "hex_move r x y = Some (nx, ny)" "nx < e" "ny < e" using rd assms(1) by (auto simp: inside_move_def)
  with rd show ?case using 0(1,2) by (subst hex_walk.simps) (auto simp: not_le)
next
  case (Suc k)
  obtain nx ny where m: "hex_move r x y = Some (nx, ny)" using hex_move_some [OF Suc.prems(1,2)] by blast
  show ?case
  proof (cases "nx \<ge> e \<or> ny \<ge> e")
    case False
    then show ?thesis using m Suc.prems(1,2) by (subst hex_walk.simps) (auto simp: not_le)
  next
    case True
    have "(r + 1) mod 6 = (d - int k) mod 6" using Suc.prems(3) by (simp add: mod_simps)
    from Suc.IH [OF _ _ this] show ?thesis using m True by (subst hex_walk.simps) simp
  qed
qed

lemma hex_walk_inside:
  assumes "x < e" "y < e" "1 < e" and "0 \<le> r" "r < 6"
  shows "\<exists>r' nx ny. hex_walk e x y r = Some (Inr (nx, ny)) \<and> 0 \<le> r' \<and> r' < 6 \<and> hex_move r' x y = Some (nx, ny) \<and> nx < e \<and> ny < e"
proof -
  obtain d where d: "inside_move e x y d" using some_inside_move [OF assms(1-3)] by blast
  have "r = (d - int (nat ((d - r) mod 6))) mod 6" using assms(4,5) by (simp add: mod_simps)
  then show ?thesis by (rule hex_walk_reaches [OF d assms(4,5)])
qed

text \<open>The loop over the directions, bounded by a number of iterations.\<close>

primrec hex_walk_within :: "nat \<Rightarrow> 32 word \<Rightarrow> 32 word \<Rightarrow> 32 word \<Rightarrow> int \<Rightarrow> (32 word \<times> 32 word) outcome option" where
  "hex_walk_within 0 edge x y r = None"
| "hex_walk_within (Suc f) edge x y r =
     (case hex_move r x y of
        None \<Rightarrow> Some (Inl Undefined)
      | Some (nx, ny) \<Rightarrow>
          if nx \<ge> edge \<or> ny \<ge> edge then hex_walk_within f edge x y ((r + 1) mod 6) else Some (Inr (nx, ny)))"

lemma hex_walk_within_sound: "hex_walk_within f e x y r = Some res \<Longrightarrow> hex_walk e x y r = Some res"
proof (induction f arbitrary: r)
  case (Suc f)
  then show ?case by (subst hex_walk.simps) (auto split: option.splits if_splits)
qed simp

lemma hex_walk_within_more: "hex_walk_within f e x y r = Some res \<Longrightarrow> f \<le> g \<Longrightarrow> hex_walk_within g e x y r = Some res"
proof (induction f arbitrary: r g)
  case (Suc f)
  then obtain g' where "g = Suc g'" "f \<le> g'" by (cases g) auto
  with Suc show ?case by (auto split: option.splits if_splits)
qed simp

lemma hex_walk_within_reaches:
  assumes "inside_move e x y d" and "0 \<le> r" "r < 6" and "r = (d - int k) mod 6"
  shows "\<exists>p. hex_walk_within (Suc k) e x y r = Some (Inr p)"
  using assms(2-)
proof (induction k arbitrary: r)
  case 0
  then show ?case using assms(1) by (auto simp: inside_move_def not_le)
next
  case (Suc k)
  obtain nx ny where m: "hex_move r x y = Some (nx, ny)" using hex_move_some [OF Suc.prems(1,2)] by blast
  have "(r + 1) mod 6 = (d - int k) mod 6" using Suc.prems(3) by (simp add: mod_simps)
  from Suc.IH [OF _ _ this] show ?case using m by auto
qed

lemma hex_walk_six:
  assumes "x < e" "y < e" "1 < e" and "0 \<le> r" "r < 6"
  shows "hex_walk_within 6 e x y r = hex_walk e x y r"
proof -
  obtain d where d: "inside_move e x y d" using some_inside_move [OF assms(1-3)] by blast
  let ?k = "nat ((d - r) mod 6)"
  have "r = (d - int ?k) mod 6" using assms(4,5) by (simp add: mod_simps)
  from hex_walk_within_reaches [OF d assms(4,5) this] obtain p where p: "hex_walk_within (Suc ?k) e x y r = Some (Inr p)" by blast
  have "(d - r) mod 6 < 6" by simp
  then have "Suc ?k \<le> 6" by linarith
  from hex_walk_within_more [OF p this] hex_walk_within_sound [OF p] show ?thesis by simp
qed

section \<open>Coordinates\<close>

definition hex_adjacent :: "nat \<Rightarrow> nat \<Rightarrow> nat \<Rightarrow> bool" where
  "hex_adjacent e a b \<longleftrightarrow> a < e * e \<and> b < e * e
     \<and> (\<exists>d. 0 \<le> d \<and> d < 6 \<and> hex_step d (int (a mod e), int (a div e)) = (int (b mod e), int (b div e)))"

lemma hex_adjacent_sym: "hex_adjacent e a b \<Longrightarrow> hex_adjacent e b a"
  unfolding hex_adjacent_def
proof (elim conjE exE)
  fix d assume h: "a < e * e" "b < e * e" "(0 :: int) \<le> d" "d < 6" "hex_step d (int (a mod e), int (a div e)) = (int (b mod e), int (b div e))"
  have "hex_step ((d + 3) mod 6) (int (b mod e), int (b div e)) = (int (a mod e), int (a div e))"
    using hex_step_opposite [OF h(3,4), of "(int (a mod e), int (a div e))"] h(5) by simp
  then show "b < e * e \<and> a < e * e \<and> (\<exists>d. 0 \<le> d \<and> d < 6 \<and> hex_step d (int (b mod e), int (b div e)) = (int (a mod e), int (a div e)))"
    using h(1,2) by (intro conjI exI [of _ "(d + 3) mod 6"]) simp_all
qed

lemma hex_adjacent_irrefl: "\<not> hex_adjacent e a a"
  using hex_step_moves by (auto simp: hex_adjacent_def)

lemma unat_small: "n < 2 ^ 32 \<Longrightarrow> unat (of_nat n :: 32 word) = n"
  by (simp add: unsigned_of_nat take_bit_nat_eq_self)

lemma linear_coordinates:
  fixes nx ny :: "32 word"
  assumes "unat nx < e" "unat ny < e" and "e \<le> 2 ^ 15"
  shows "unat (linear (of_nat e) (nx, ny)) = unat ny * e + unat nx \<and> unat ny * e + unat nx < e * e"
proof -
  have le: "Suc (unat ny) * e \<le> e * e" using assms(2) by (intro mult_le_mono1) simp
  then have lt: "unat ny * e + unat nx < e * e" using assms(1) by simp
  have "e * e \<le> 2 ^ 15 * 2 ^ 15" using assms(3) by (rule mult_le_mono [OF _ assms(3)])
  then have small: "unat ny * e + unat nx < 2 ^ 32" using lt by simp
  have "of_nat (unat ny * e + unat nx) = linear (of_nat e) (nx, ny)" by (simp add: linear_def)
  then have "unat (linear (of_nat e) (nx, ny)) = unat (of_nat (unat ny * e + unat nx) :: 32 word)" by simp
  also have "\<dots> = unat ny * e + unat nx" by (rule unat_small [OF small])
  finally show ?thesis using lt by simp
qed

section \<open>Drawing a number\<close>

lemma drawn:
  assumes "close_rounding cfg" and "0 < n" "n \<le> 2 ^ 31" and "Random cfg s1 s2 = (u, t1, t2)"
  shows "\<exists>r. int_of_double (dmul cfg n u) = Inr r \<and> 0 \<le> r \<and> real_of_int r < n"
proof -
  have u: "0 < u" "u \<le> 1 - 1 / 2 ^ 32" using random_upper [OF assms(1), of s1 s2] assms(4) by simp_all
  define v where "v = rnd cfg (n * u)"
  have nu: "0 \<le> n * u" "n * u \<le> n * (1 - 1 / 2 ^ 32)" using u assms(2) by simp_all
  have "n * u * (1 - 1 / 2 ^ 52) \<le> v" "v \<le> n * u * (1 + 1 / 2 ^ 52)"
    using close_rounding_bounds [OF assms(1) nu(1)] by (simp_all add: v_def)
  moreover have "0 \<le> n * u * (1 - 1 / 2 ^ 52)" by (intro mult_nonneg_nonneg nu) simp
  moreover have "n * u * (1 + 1 / 2 ^ 52) \<le> n * (1 - 1 / 2 ^ 32) * (1 + 1 / 2 ^ 52)" by (intro mult_right_mono nu) simp
  moreover have "n * (1 - 1 / 2 ^ 32) * (1 + 1 / 2 ^ 52) < n * (1 :: real)"
  proof -
    have "(1 - 1 / 2 ^ 32) * (1 + 1 / 2 ^ 52) < (1 :: real)" by simp
    then show ?thesis using assms(2) unfolding mult.assoc by (rule mult_strict_left_mono)
  qed
  ultimately have v: "0 \<le> v" "v < n" by linarith+
  then have t: "trunc_double v = \<lfloor>v\<rfloor>" by (simp add: trunc_double_nonneg)
  have "real_of_int \<lfloor>v\<rfloor> < 2 ^ 31" using v assms(3) by linarith
  then have "real_of_int \<lfloor>v\<rfloor> < real_of_int (2 ^ 31)" by simp
  then have "\<lfloor>v\<rfloor> < 2 ^ 31" by (simp only: of_int_less_iff)
  then have "int_of_double v = Inr \<lfloor>v\<rfloor>" using v t by (simp add: int_of_double_def fits_int32_def)
  moreover have "real_of_int \<lfloor>v\<rfloor> < n" using v by linarith
  ultimately show ?thesis using v by (auto simp: dmul_def v_def)
qed

section \<open>Receivers on a grid\<close>

text \<open>A grid of \<open>e * e\<close> cells, and an integer of a double is itself.\<close>

definition grid_config :: "config \<Rightarrow> nat \<Rightarrow> bool" where
  "grid_config cfg e \<longleftrightarrow> close_rounding cfg \<and> OBJECTS cfg = e * e \<and> 2 \<le> e \<and> e \<le> 2 ^ 15 \<and> rnd cfg (real e) = real e"

lemma grid_edge_eq:
  assumes "grid_config cfg e"
  shows "grid_edge cfg = of_nat e" "unat (of_nat e :: 32 word) = e" "(of_nat e :: 32 word) \<noteq> 0"
    "(of_nat e * of_nat e :: 32 word) = of_nat (OBJECTS cfg)" "OBJECTS cfg \<noteq> 1"
proof -
  have "sqrt (real (OBJECTS cfg)) = real e" using assms by (simp add: grid_config_def)
  then show "grid_edge cfg = of_nat e" using assms by (simp add: grid_edge_def grid_config_def trunc_double_def)
  show u: "unat (of_nat e :: 32 word) = e" using assms by (intro unat_small) (simp add: grid_config_def)
  show "(of_nat e :: 32 word) \<noteq> 0"
  proof
    assume "(of_nat e :: 32 word) = 0"
    then have "unat (of_nat e :: 32 word) = 0" by simp
    then show False using u assms by (simp add: grid_config_def)
  qed
  show "(of_nat e * of_nat e :: 32 word) = of_nat (OBJECTS cfg)" using assms by (simp add: grid_config_def)
  have "2 * 2 \<le> e * e" using assms unfolding grid_config_def by (intro mult_le_mono) auto
  then show "OBJECTS cfg \<noteq> 1" using assms by (simp add: grid_config_def)
qed

lemma coordinates_inside:
  fixes lp :: "32 word"
  assumes "grid_config cfg e" and "unat lp < OBJECTS cfg"
  defines "edge \<equiv> of_nat e :: 32 word"
  shows "lp mod edge < edge" "lp div edge < edge" "1 < edge"
    "unat (lp mod edge) = unat lp mod e" "unat (lp div edge) = unat lp div e"
proof -
  note u = grid_edge_eq(2) [OF assms(1)]
  have e: "0 < e" "unat lp < e * e" using assms(1,2) by (simp_all add: grid_config_def)
  show m: "unat (lp mod edge) = unat lp mod e" and d: "unat (lp div edge) = unat lp div e"
    using u by (simp_all add: edge_def unat_mod unat_div)
  show "lp mod edge < edge" using m e u by (simp add: word_less_nat_alt edge_def)
  have "unat lp div e < e" using e(2) by (simp add: less_mult_imp_div_less)
  then show "lp div edge < edge" using d u by (simp add: word_less_nat_alt edge_def)
  show "1 < edge" using u assms(1) by (simp add: word_less_nat_alt edge_def grid_config_def)
qed

lemma hexagon_receiver_correct:
  assumes "grid_config cfg e" and "unat lp < OBJECTS cfg"
  shows "\<exists>r t1 t2. FindReceiver cfg lp TOPOLOGY_HEXAGON s1 s2 = Some (Inr (r, t1, t2))
    \<and> (\<exists>d p. int_of_double (dmul cfg 6 (fst (Random cfg s1 s2))) = Inr d
         \<and> hex_walk_within 6 (of_nat e) (lp mod of_nat e) (lp div of_nat e) d = Some (Inr p) \<and> r = linear (of_nat e) p)
    \<and> hex_adjacent e (unat lp) (unat r) \<and> hex_adjacent e (unat r) (unat lp) \<and> r \<noteq> lp"
proof -
  let ?e = "of_nat e :: 32 word"
  note g = grid_edge_eq [OF assms(1)] and c = coordinates_inside [OF assms]
  obtain u t1 t2 where R: "Random cfg s1 s2 = (u, t1, t2)" by (metis prod_cases3)
  obtain r0 where r0: "int_of_double (dmul cfg 6 u) = Inr r0" "0 \<le> r0" "r0 < 6"
    using drawn [OF _ _ _ R, of 6] assms(1) by (auto simp: grid_config_def)
  obtain d nx ny where w: "hex_walk ?e (lp mod ?e) (lp div ?e) r0 = Some (Inr (nx, ny))"
    and d: "0 \<le> d" "d < 6" "hex_move d (lp mod ?e) (lp div ?e) = Some (nx, ny)" "nx < ?e" "ny < ?e"
    using hex_walk_inside [OF c(1-3) r0(2,3)] by blast
  define r where "r = linear ?e (nx, ny)"
  have F: "FindReceiver cfg lp TOPOLOGY_HEXAGON s1 s2 = Some (Inr (r, t1, t2))"
    using g R r0(1) w by (simp add: FindReceiver_def hexagon_receiver_def Let_def r_def)
  have n: "unat nx < e" "unat ny < e" using d(4,5) g(2) by (simp_all add: word_less_nat_alt)
  have e: "0 < e" "e \<le> 2 ^ 15" "OBJECTS cfg = e * e" using assms(1) by (simp_all add: grid_config_def)
  have ur: "unat r = unat ny * e + unat nx" "unat ny * e + unat nx < e * e"
    using linear_coordinates [OF n e(2)] by (simp_all add: r_def)
  have co: "unat r mod e = unat nx" "unat r div e = unat ny" using ur n e(1) by simp_all
  have "(uint nx, uint ny) = hex_step d (uint (lp mod ?e), uint (lp div ?e))"
    by (rule hex_move_step [OF d(1,2) c(1,2) d(3-5)])
  then have "hex_step d (int (unat lp mod e), int (unat lp div e)) = (int (unat r mod e), int (unat r div e))"
    unfolding co c(4,5) [symmetric] by simp
  then have adj: "hex_adjacent e (unat lp) (unat r)" using d(1,2) ur assms(2) e(3) by (auto simp: hex_adjacent_def)
  moreover have "r \<noteq> lp" using adj hex_adjacent_irrefl [of e "unat lp"] by auto
  moreover have "hex_walk_within 6 ?e (lp mod ?e) (lp div ?e) r0 = Some (Inr (nx, ny))"
    using hex_walk_six [OF c(1-3) r0(2,3)] w by simp
  moreover have "int_of_double (dmul cfg 6 (fst (Random cfg s1 s2))) = Inr r0" using r0(1) R by simp
  ultimately show ?thesis using F hex_adjacent_sym r_def by blast
qed

text \<open>
  Property C30. On a square number of objects of at least four, a message on the grid of hexagons is sent, whatever the
  seeds: the loop over the directions, started at the direction that was drawn, ends after at most six steps, and the
  receiver it gives is one of the at most six neighbours of the sender, another object, and has the sender as a neighbour itself.
\<close>

theorem hexagon_receiver_adjacent:
  assumes "grid_config cfg e" and "unat lp < OBJECTS cfg"
  shows "\<exists>r t1 t2. FindReceiver cfg lp TOPOLOGY_HEXAGON s1 s2 = Some (Inr (r, t1, t2))
    \<and> (\<exists>d p. int_of_double (dmul cfg 6 (fst (Random cfg s1 s2))) = Inr d
         \<and> hex_walk_within 6 (of_nat e) (lp mod of_nat e) (lp div of_nat e) d = Some (Inr p) \<and> r = linear (of_nat e) p)
    \<and> hex_adjacent e (unat lp) (unat r) \<and> hex_adjacent e (unat r) (unat lp) \<and> r \<noteq> lp"
  by (rule hexagon_receiver_correct [OF assms])

definition demo_grid :: config where
  "demo_grid = \<lparr>THREADS = 1, OBJECTS = 9, LOOKAHEAD = 1, SPECULATION = True, AVOID_THROTTLING = False, rnd = (\<lambda>x. x)\<rparr>"

lemma demo_grid: "grid_config demo_grid 3"
  by (simp add: grid_config_def demo_grid_def close_rounding_def)

theorem hexagon_receiver_adjacent_witness:
  "\<exists>r t1 t2. FindReceiver demo_grid 4 TOPOLOGY_HEXAGON 1 2 = Some (Inr (r, t1, t2)) \<and> hex_adjacent 3 4 (unat r)"
  using hexagon_receiver_adjacent [OF demo_grid, of 4 1 2] by (auto simp: demo_grid_def)

section \<open>The square grid\<close>

text \<open>The seeds before the \<open>n\<close>-th draw, and the direction it gives.\<close>

primrec seeds_before :: "config \<Rightarrow> 32 word \<Rightarrow> 32 word \<Rightarrow> nat \<Rightarrow> 32 word \<times> 32 word" where
  "seeds_before cfg s1 s2 0 = (s1, s2)"
| "seeds_before cfg s1 s2 (Suc n) = snd (Random cfg (fst (seeds_before cfg s1 s2 n)) (snd (seeds_before cfg s1 s2 n)))"

definition stays :: "config \<Rightarrow> 32 word \<Rightarrow> 32 word \<Rightarrow> 32 word \<Rightarrow> 32 word \<Rightarrow> 32 word \<Rightarrow> bool" where
  "stays cfg edge x y s1 s2 \<longleftrightarrow> (\<exists>r t1 t2 nx ny. draw_direction cfg s1 s2 = Inr (r, t1, t2)
     \<and> square_move r x y = Some (nx, ny) \<and> nx < edge \<and> ny < edge)"

lemma draw_direction_ok:
  assumes "close_rounding cfg"
  obtains r nx ny where "draw_direction cfg s1 s2 = Inr (r, snd (Random cfg s1 s2))" and "0 \<le> r" "r < 4"
    and "square_move r x y = Some (nx, ny)"
proof -
  obtain u t1 t2 where R: "Random cfg s1 s2 = (u, t1, t2)" by (metis prod_cases3)
  obtain r where r: "int_of_double (dmul cfg 4 u) = Inr r" "0 \<le> r" "r < 4"
    using drawn [OF assms _ _ R, of 4] by auto
  have "r = 0 \<or> r = 1 \<or> r = 2 \<or> r = 3" using r by linarith
  then obtain nx ny where "square_move r x y = Some (nx, ny)" by (auto simp: square_move_def)
  then show thesis using that [of r nx ny] R r by (simp add: draw_direction_def)
qed

lemma seeds_before_Suc:
  "seeds_before cfg s1 s2 (Suc n) = seeds_before cfg (fst (snd (Random cfg s1 s2))) (snd (snd (Random cfg s1 s2))) n"
  by (induction n) simp_all

lemma square_walk_stays:
  assumes "close_rounding cfg" and "case seeds_before cfg s1 s2 n of (a, b) \<Rightarrow> stays cfg edge x y a b"
  shows "\<exists>nx ny t1 t2. square_walk cfg edge x y s1 s2 = Some (Inr (nx, ny, t1, t2))"
  using assms(2)
proof (induction n arbitrary: s1 s2)
  case 0
  then show ?case by (subst square_walk.simps) (auto simp: stays_def not_le)
next
  case (Suc n)
  obtain r nx ny where d: "draw_direction cfg s1 s2 = Inr (r, snd (Random cfg s1 s2))" "square_move r x y = Some (nx, ny)"
    by (rule draw_direction_ok [OF assms(1)])
  show ?case
  proof (cases "nx \<ge> edge \<or> ny \<ge> edge")
    case True
    then show ?thesis using Suc.IH [OF Suc.prems [unfolded seeds_before_Suc]] d
      by (subst square_walk.simps) (simp add: split_beta)
  next
    case False
    then show ?thesis using d by (subst square_walk.simps) (simp add: split_beta)
  qed
qed

text \<open>What a walk that ends has found.\<close>

definition found_square ::
  "config \<Rightarrow> 32 word \<Rightarrow> 32 word \<Rightarrow> 32 word \<Rightarrow> 32 word \<Rightarrow> 32 word \<Rightarrow> (32 word \<times> 32 word \<times> 32 word \<times> 32 word) outcome \<Rightarrow> bool" where
  "found_square cfg edge x y s1 s2 res \<longleftrightarrow> (\<exists>n nx ny t1 t2 r. res = Inr (nx, ny, t1, t2)
     \<and> (case seeds_before cfg s1 s2 n of (a, b) \<Rightarrow> stays cfg edge x y a b)
     \<and> 0 \<le> r \<and> r < 4 \<and> square_move r x y = Some (nx, ny) \<and> nx < edge \<and> ny < edge)"

lemmas square_walk_induct =
  square_walk.raw_induct [where xa = "(((((cfg, edge), x), y), s1), s2)" for cfg edge x y s1 s2, simplified split_conv]

lemma square_walk_result:
  assumes "square_walk cfg edge x y s1 s2 = Some res"
  shows "close_rounding cfg \<longrightarrow> found_square cfg edge x y s1 s2 res"
proof (rule square_walk_induct [OF _ assms, where P = "\<lambda>cfg edge x y s1 s2 res. close_rounding cfg \<longrightarrow> found_square cfg edge x y s1 s2 res"])
  fix walk cfg edge x y s1 s2 res
  assume IH: "\<And>cfg edge x y s1 s2 res. walk cfg edge x y s1 s2 = Some res \<Longrightarrow> close_rounding cfg \<longrightarrow> found_square cfg edge x y s1 s2 res"
    and eq: "(case draw_direction cfg s1 s2 of Inl e \<Rightarrow> Some (Inl e)
       | Inr (r, t1, t2) \<Rightarrow> (case square_move r x y of None \<Rightarrow> Some (Inl Undefined)
           | Some (nx, ny) \<Rightarrow> if edge \<le> nx \<or> edge \<le> ny then walk cfg edge x y t1 t2 else Some (Inr (nx, ny, t1, t2)))) = Some res"
  show "close_rounding cfg \<longrightarrow> found_square cfg edge x y s1 s2 res"
  proof
    assume c: "close_rounding cfg"
    obtain r nx ny where d: "draw_direction cfg s1 s2 = Inr (r, snd (Random cfg s1 s2))" "0 \<le> r" "r < 4"
      "square_move r x y = Some (nx, ny)"
      by (rule draw_direction_ok [OF c])
    obtain t1 t2 where t: "snd (Random cfg s1 s2) = (t1, t2)" by (metis surj_pair)
    show "found_square cfg edge x y s1 s2 res"
    proof (cases "edge \<le> nx \<or> edge \<le> ny")
      case False
      then have "res = Inr (nx, ny, t1, t2)" using eq d t by simp
      moreover have "case seeds_before cfg s1 s2 0 of (a, b) \<Rightarrow> stays cfg edge x y a b"
        using d t False by (auto simp: stays_def not_le)
      moreover have "nx < edge" "ny < edge" using False by (simp_all add: not_le)
      ultimately show ?thesis using d(2-4) unfolding found_square_def
        by (intro exI [of _ 0] exI [of _ nx] exI [of _ ny] exI [of _ t1] exI [of _ t2] exI [of _ r] conjI)
    next
      case True
      then have "walk cfg edge x y t1 t2 = Some res" using eq d t by simp
      from IH [OF this] c have "found_square cfg edge x y t1 t2 res" by simp
      then obtain n nx' ny' u1 u2 q where f: "res = Inr (nx', ny', u1, u2)"
        "case seeds_before cfg t1 t2 n of (a, b) \<Rightarrow> stays cfg edge x y a b"
        "0 \<le> q" "q < 4" "square_move q x y = Some (nx', ny')" "nx' < edge" "ny' < edge"
        unfolding found_square_def by (elim exE conjE) (rule that)
      have "case seeds_before cfg s1 s2 (Suc n) of (a, b) \<Rightarrow> stays cfg edge x y a b"
        using f(2) t unfolding seeds_before_Suc by simp
      then show ?thesis using f unfolding found_square_def
        by (intro exI [of _ "Suc n"] exI [of _ nx'] exI [of _ ny'] exI [of _ u1] exI [of _ u2] exI [of _ q] conjI)
    qed
  qed
qed

definition square_adjacent :: "nat \<Rightarrow> nat \<Rightarrow> nat \<Rightarrow> bool" where
  "square_adjacent e a b \<longleftrightarrow> a < e * e \<and> b < e * e
     \<and> \<bar>int (a mod e) - int (b mod e)\<bar> + \<bar>int (a div e) - int (b div e)\<bar> = 1"

lemma square_move_step:
  assumes "square_move r x y = Some (nx, ny)" and "x < e" "y < e" and "nx < e" "ny < e"
  shows "\<bar>uint x - uint nx\<bar> + \<bar>uint y - uint ny\<bar> = 1"
  using assms by (auto simp: square_move_def uint_down uint_up split: if_splits)

text \<open>
  On the grid of squares the code draws a direction until one stays inside of the grid:
  \<open>FindReceiver\<close> returns exactly when some draw of the sequence does, and then the receiver shares a side
  with the sender.
\<close>

theorem square_receiver_returns:
  assumes "grid_config cfg e" and "unat lp < OBJECTS cfg"
  shows "((\<exists>res. FindReceiver cfg lp TOPOLOGY_SQUARE s1 s2 = Some res) \<longleftrightarrow>
      (\<exists>n. case seeds_before cfg s1 s2 n of (a, b) \<Rightarrow> stays cfg (of_nat e) (lp mod of_nat e) (lp div of_nat e) a b))
    \<and> (\<forall>res. FindReceiver cfg lp TOPOLOGY_SQUARE s1 s2 = Some res \<longrightarrow>
        (\<exists>r t1 t2. res = Inr (r, t1, t2) \<and> square_adjacent e (unat lp) (unat r)))"
proof -
  let ?e = "of_nat e :: 32 word" and ?x = "lp mod of_nat e" and ?y = "lp div of_nat e"
  note g = grid_edge_eq [OF assms(1)] and c = coordinates_inside [OF assms]
  have cr: "close_rounding cfg" and e: "0 < e" "e \<le> 2 ^ 15" "OBJECTS cfg = e * e" using assms(1) by (simp_all add: grid_config_def)
  have F: "FindReceiver cfg lp TOPOLOGY_SQUARE s1 s2 =
      map_option (\<lambda>res. and_then res (\<lambda>(nx, ny, t1, t2). Inr (linear ?e (nx, ny), t1, t2))) (square_walk cfg ?e ?x ?y s1 s2)"
    using g by (simp add: FindReceiver_def square_receiver_def TOPOLOGY_SQUARE_def TOPOLOGY_HEXAGON_def Let_def)
  have found: "found_square cfg ?e ?x ?y s1 s2 w" if "square_walk cfg ?e ?x ?y s1 s2 = Some w" for w
    using square_walk_result [OF that] cr by simp
  have 1: "(\<exists>res. FindReceiver cfg lp TOPOLOGY_SQUARE s1 s2 = Some res) \<longleftrightarrow>
      (\<exists>n. case seeds_before cfg s1 s2 n of (a, b) \<Rightarrow> stays cfg ?e ?x ?y a b)"
  proof
    assume "\<exists>res. FindReceiver cfg lp TOPOLOGY_SQUARE s1 s2 = Some res"
    then obtain w where "square_walk cfg ?e ?x ?y s1 s2 = Some w" unfolding F by auto
    from found [OF this] show "\<exists>n. case seeds_before cfg s1 s2 n of (a, b) \<Rightarrow> stays cfg ?e ?x ?y a b"
      unfolding found_square_def by (elim exE conjE) (rule exI)
  next
    assume "\<exists>n. case seeds_before cfg s1 s2 n of (a, b) \<Rightarrow> stays cfg ?e ?x ?y a b"
    then obtain n where "case seeds_before cfg s1 s2 n of (a, b) \<Rightarrow> stays cfg ?e ?x ?y a b" by (rule exE)
    from square_walk_stays [OF cr this] show "\<exists>res. FindReceiver cfg lp TOPOLOGY_SQUARE s1 s2 = Some res" unfolding F by auto
  qed
  have 2: "\<exists>r t1 t2. res = Inr (r, t1, t2) \<and> square_adjacent e (unat lp) (unat r)"
    if "FindReceiver cfg lp TOPOLOGY_SQUARE s1 s2 = Some res" for res
  proof -
    note res = that
    obtain w where w: "square_walk cfg ?e ?x ?y s1 s2 = Some w"
      "res = and_then w (\<lambda>(nx, ny, t1, t2). Inr (linear ?e (nx, ny), t1, t2))" using res unfolding F by auto
    from found [OF w(1)] obtain nx ny t1 t2 d where f: "w = Inr (nx, ny, t1, t2)" "square_move d ?x ?y = Some (nx, ny)" "nx < ?e" "ny < ?e"
      unfolding found_square_def by (elim exE conjE) (rule that)
    have n: "unat nx < e" "unat ny < e" using f(3,4) g(2) by (simp_all add: word_less_nat_alt)
    define r where "r = linear ?e (nx, ny)"
    have ur: "unat r = unat ny * e + unat nx" "unat ny * e + unat nx < e * e"
      using linear_coordinates [OF n e(2)] by (simp_all add: r_def)
    have co: "unat r mod e = unat nx" "unat r div e = unat ny" using ur n e(1) by simp_all
    have "\<bar>uint ?x - uint nx\<bar> + \<bar>uint ?y - uint ny\<bar> = 1" by (rule square_move_step [OF f(2) c(1,2) f(3,4)])
    then have "\<bar>int (unat lp mod e) - int (unat r mod e)\<bar> + \<bar>int (unat lp div e) - int (unat r div e)\<bar> = 1"
      unfolding co c(4,5) [symmetric] by simp
    then have "square_adjacent e (unat lp) (unat r)" using ur assms(2) e(3) by (simp add: square_adjacent_def)
    then show ?thesis using w(2) f(1) by (simp add: r_def)
  qed
  show ?thesis using 1 2 by blast
qed

text \<open>
  On a mesh, a ring, a ring in both directions and a star every message has a receiver in
  range: any object on a mesh and from the centre of a star, the centre from elsewhere, the next object
  on a ring, and one of the two next to the sender on a ring in both directions.
\<close>

theorem ring_receivers:
  assumes "close_rounding cfg" and "0 < OBJECTS cfg" "OBJECTS cfg < 2 ^ 31" and "unat lp < OBJECTS cfg"
    and "topology \<in> {TOPOLOGY_MESH, TOPOLOGY_BIDRING, TOPOLOGY_RING, TOPOLOGY_STAR}"
  shows "\<exists>r t1 t2. FindReceiver cfg lp topology s1 s2 = Some (Inr (r, t1, t2)) \<and> unat r < OBJECTS cfg
    \<and> (topology = TOPOLOGY_RING \<longrightarrow> unat r = (unat lp + 1) mod OBJECTS cfg)
    \<and> (topology = TOPOLOGY_BIDRING \<longrightarrow> unat r = (unat lp + 1) mod OBJECTS cfg \<or> unat lp = (unat r + 1) mod OBJECTS cfg)
    \<and> (topology = TOPOLOGY_STAR \<and> lp \<noteq> 0 \<longrightarrow> r = 0)"
proof -
  let ?n = "OBJECTS cfg"
  note t = TOPOLOGY_MESH_def TOPOLOGY_BIDRING_def TOPOLOGY_RING_def TOPOLOGY_STAR_def TOPOLOGY_HEXAGON_def TOPOLOGY_SQUARE_def
  have un: "unat (of_nat ?n :: 32 word) = ?n" by (rule unat_small) (use assms(3) in simp)
  have up: "unat (lp + 1) = unat lp + 1" using assms(3,4) by (subst unat_add_lem [THEN iffD1]) simp_all
  have next_lp: "unat (if lp + 1 = of_nat ?n then 0 else lp + 1) = (unat lp + 1) mod ?n"
  proof (cases "lp + 1 = of_nat ?n")
    case True
    then have "unat lp + 1 = ?n" using up un by simp
    then show ?thesis using True by simp
  next
    case False
    then have "unat lp + 1 \<noteq> ?n" using up un by (simp add: word_unat_eq_iff)
    then have "unat lp + 1 < ?n" using assms(4) by simp
    then show ?thesis using False up by simp
  qed
  have draw: "\<exists>r t1 t2. random_object cfg s1 s2 = Inr (r, t1, t2) \<and> unat r < ?n"
  proof -
    obtain u t1 t2 where R: "Random cfg s1 s2 = (u, t1, t2)" by (metis prod_cases3)
    have "real ?n \<le> 2 ^ 31" using assms(3) by (simp add: of_nat_le_iff [of ?n "2 ^ 31", where 'a = real, symmetric] del: of_nat_le_iff)
    then obtain r where r: "int_of_double (dmul cfg (real ?n) u) = Inr r" "0 \<le> r" "real_of_int r < real ?n"
      using drawn [OF assms(1) _ _ R, of "real ?n"] assms(2) by auto
    have "word_of_int r = (of_nat (nat r) :: 32 word)" using r(2) by simp
    moreover have "nat r < ?n" using r by linarith
    ultimately have "unat (word_of_int r :: 32 word) < ?n" using unat_small [of "nat r"] assms(3) by simp
    then show ?thesis using r(1) R by (simp add: random_object_def)
  qed
  obtain r t1 t2 where d: "random_object cfg s1 s2 = Inr (r, t1, t2)" "unat r < ?n" using draw by blast
  obtain u w1 w2 where R: "Random cfg s1 s2 = (u, w1, w2)" by (metis prod_cases3)
  define down where "down = (if lp - 1 = - 1 then of_nat ?n - 1 else lp - 1 :: 32 word)"
  have down: "unat down < ?n \<and> unat lp = (unat down + 1) mod ?n"
  proof (cases "lp = 0")
    case True
    have "(of_nat ?n :: 32 word) \<noteq> 0" using un assms(2) by (auto simp: word_unat_eq_iff)
    then have "unat (of_nat ?n - 1 :: 32 word) = ?n - 1" using un by (simp add: unat_minus_one)
    then have "unat down = ?n - 1" using True by (simp add: down_def)
    then show ?thesis using True assms(2) by simp
  next
    case False
    then have "lp - 1 \<noteq> - 1" by (metis add_0 diff_add_cancel uminus_add_conv_diff ab_left_minus add.commute)
    moreover have "unat (lp - 1) = unat lp - 1" by (rule unat_minus_one [OF False])
    moreover have "0 < unat lp" using False by (simp add: unat_gt_0)
    ultimately show ?thesis using assms(4) by (simp add: down_def)
  qed
  have "lp + 1 \<noteq> - 1"
  proof
    assume "lp + 1 = - 1"
    then have "unat (lp + 1) = unat (- 1 :: 32 word)" by (simp only:)
    then show False using up assms(3,4) by (simp add: unsigned_minus_1_eq_mask mask_eq_exp_minus_1)
  qed
  note up_ne = this
  have down_ne: "down \<noteq> of_nat ?n" using down un by auto
  have "u < 1 / 2 \<Longrightarrow> bidring_receiver cfg lp s1 s2 = (if down = of_nat ?n then 0 else down, w1, w2)"
    by (simp only: bidring_receiver_def R Let_def prod.case if_True down_def)
  moreover have "\<not> u < 1 / 2 \<Longrightarrow> bidring_receiver cfg lp s1 s2 = (if lp + 1 = of_nat ?n then 0 else lp + 1, w1, w2)"
    by (simp only: bidring_receiver_def R Let_def prod.case if_False up_ne)
  ultimately have bid: "bidring_receiver cfg lp s1 s2 =
      (if u < 1 / 2 then down else if lp + 1 = of_nat ?n then 0 else lp + 1, w1, w2)"
    using down_ne by (cases "u < 1 / 2") (simp_all only: if_True if_False not_False_eq_True simp_thms)
  have nlt: "unat (if lp + 1 = of_nat ?n then 0 else lp + 1) < ?n" unfolding next_lp using assms(2) by simp
  consider "topology = TOPOLOGY_MESH" | "topology = TOPOLOGY_BIDRING" | "topology = TOPOLOGY_RING" | "topology = TOPOLOGY_STAR"
    using assms(5) by auto
  then show ?thesis
  proof cases
    case 1
    then show ?thesis using d by (simp add: FindReceiver_def t)
  next
    case 2
    then have F: "FindReceiver cfg lp topology s1 s2 = Some (Inr (bidring_receiver cfg lp s1 s2))" by (simp add: FindReceiver_def t)
    show ?thesis
    proof (cases "u < 1 / 2")
      case True
      then show ?thesis using F bid down 2 by (simp add: t)
    next
      case False
      then show ?thesis using F bid nlt next_lp 2 by (simp add: t)
    qed
  next
    case 3
    then have "FindReceiver cfg lp topology s1 s2 = Some (Inr (if lp + 1 = of_nat ?n then 0 else lp + 1, s1, s2))"
      by (simp add: FindReceiver_def ring_receiver_def t)
    then show ?thesis using nlt next_lp 3 by (simp add: t)
  next
    case 4
    then show ?thesis using d assms(2) by (cases "lp = 0") (simp_all add: FindReceiver_def t)
  qed
qed

text \<open>From the cell in the middle every direction stays inside.\<close>

lemma demo_stays: "stays demo_grid 3 1 1 s1 s2"
proof -
  have c: "close_rounding demo_grid" using demo_grid by (simp add: grid_config_def)
  obtain r nx ny where d: "draw_direction demo_grid s1 s2 = Inr (r, snd (Random demo_grid s1 s2))"
    "square_move r 1 1 = Some (nx, ny)" by (rule draw_direction_ok [OF c])
  have "nx < 3 \<and> ny < 3" using d(2) by (auto simp: square_move_def split: if_splits)
  then show ?thesis using d unfolding stays_def by (metis surj_pair)
qed

theorem square_receiver_returns_witness:
  "\<exists>r t1 t2. FindReceiver demo_grid 4 TOPOLOGY_SQUARE 1 2 = Some (Inr (r, t1, t2)) \<and> square_adjacent 3 4 (unat r)"
proof -
  have l: "unat (4 :: 32 word) < OBJECTS demo_grid" by (simp add: demo_grid_def)
  have "case seeds_before demo_grid 1 2 0 of (a, b) \<Rightarrow> stays demo_grid (of_nat 3) (4 mod of_nat 3) (4 div of_nat 3) a b"
    using demo_stays by simp
  from iffD2 [OF conjunct1 [OF square_receiver_returns [OF demo_grid l, of 1 2]] exI [of _ 0], OF this]
  obtain res where "FindReceiver demo_grid 4 TOPOLOGY_SQUARE 1 2 = Some res" by (rule exE)
  then show ?thesis using square_receiver_returns [OF demo_grid l, of 1 2] by auto
qed

theorem ring_receivers_witness:
  "\<exists>r t1 t2. FindReceiver demo_grid 8 TOPOLOGY_RING 1 2 = Some (Inr (r, t1, t2)) \<and> unat r = 0"
  using ring_receivers [of demo_grid 8 TOPOLOGY_RING 1 2] by (auto simp: demo_grid_def close_rounding_def)

end
