(* ===== verification/Pcs_Channels.thy ===== *)
theory Pcs_Channels
  imports Topology Linked_List
begin

text \<open>
  The state of a cell of \<open>models/pcs/application.c\<close> and its channels: a bitmap of the busy channels and a
  list of \<open>malloc\<close>ed records, the newest first, linked through \<open>prev\<close>. What \<open>malloc\<close> returns and leaves in
  the memory is an argument.
\<close>

section \<open>The state of a cell\<close>

record sir_data_per_cell =
  fading :: real
  power :: real

text \<open>The records of the channels, by address; the pointer to the \<open>sir_data\<close> of a record is not shared.\<close>

record channel_heap =
  chan_links :: "nat links"
  channel_id :: "nat \<Rightarrow> int"
  sir_data :: "nat \<Rightarrow> sir_data_per_cell"

record lp_state =
  cell_id :: int
  seed1 :: "32 word"
  seed2 :: "32 word"
  channel_counter :: "32 word"
  arriving_calls :: "32 word"
  complete_calls :: "32 word"
  blocked_on_setup :: "32 word"
  blocked_on_handoff :: "32 word"
  leaving_handoffs :: "32 word"
  arriving_handoffs :: "32 word"
  executed_events :: "32 word"
  lvt :: real
  ta :: real
  ref_ta :: real
  ta_duration :: real
  ta_change :: real
  channels_per_cell :: nat
  channel_state :: "nat \<Rightarrow> 32 word"
  channels :: "nat option"
  heap :: channel_heap

definition BITS :: nat where "BITS = 32"

text \<open>\<open>CHECK_CHANNEL\<close>, \<open>SET_CHANNEL\<close> and \<open>RESET_CHANNEL\<close>.\<close>

definition CHECK_CHANNEL :: "(nat \<Rightarrow> 32 word) \<Rightarrow> nat \<Rightarrow> bool" where
  "CHECK_CHANNEL st i \<longleftrightarrow> st (i div BITS) AND push_bit (i mod BITS) 1 \<noteq> 0"

definition SET_CHANNEL :: "(nat \<Rightarrow> 32 word) \<Rightarrow> nat \<Rightarrow> nat \<Rightarrow> 32 word" where
  "SET_CHANNEL st i = st(i div BITS := st (i div BITS) OR push_bit (i mod BITS) 1)"

definition RESET_CHANNEL :: "(nat \<Rightarrow> 32 word) \<Rightarrow> nat \<Rightarrow> nat \<Rightarrow> 32 word" where
  "RESET_CHANNEL st i = st(i div BITS := st (i div BITS) AND NOT (push_bit (i mod BITS) 1))"

section \<open>Gains\<close>

definition CROSS_PATH_GAIN :: "config \<Rightarrow> real" where "CROSS_PATH_GAIN cfg = rnd cfg (5 / 10 ^ 14)"
definition PATH_GAIN :: "config \<Rightarrow> real" where "PATH_GAIN cfg = rnd cfg (1 / 10 ^ 10)"
definition MIN_POWER :: real where "MIN_POWER = 3"
definition MAX_POWER :: real where "MAX_POWER = 3000"
definition SIR_AIM :: real where "SIR_AIM = 10"

fun my_pow :: "config \<Rightarrow> real \<Rightarrow> nat \<Rightarrow> real" where
  "my_pow cfg x 0 = 1"
| "my_pow cfg x (Suc y) = dmul cfg (my_pow cfg x y) x"

definition generate_cross_path_gain :: "config \<Rightarrow> 32 word \<Rightarrow> 32 word \<Rightarrow> (real \<times> 32 word \<times> 32 word) outcome" where
  "generate_cross_path_gain cfg s1 s2 =
     (let (u, t1, t2) = Random cfg s1 s2; variation = dmul cfg 10 u in
      and_then (int_of_double (ddiv cfg variation 10)) (\<lambda>y.
        Inr (dmul cfg (CROSS_PATH_GAIN cfg) (my_pow cfg 10 (nat y)), t1, t2)))"

text \<open>\<open>pow\<close> of the C library gives the power up to the rounding of \<open>cfg\<close>.\<close>

definition generate_path_gain :: "config \<Rightarrow> 32 word \<Rightarrow> 32 word \<Rightarrow> real \<times> 32 word \<times> 32 word" where
  "generate_path_gain cfg s1 s2 =
     (let (u, t1, t2) = Random cfg s1 s2; variation = dmul cfg 10 u in
      (dmul cfg (PATH_GAIN cfg) (rnd cfg (10 powr ddiv cfg variation 10)), t1, t2))"

text \<open>The sum over the channels behind a record, along \<open>prev\<close>.\<close>

partial_function (option) sum_walk ::
  "config \<Rightarrow> channel_heap \<Rightarrow> nat option \<Rightarrow> real \<times> 32 word \<times> 32 word \<Rightarrow> (real \<times> 32 word \<times> 32 word) outcome option" where
  "sum_walk cfg h ch acc =
     (case ch of
        None \<Rightarrow> Some (Inr acc)
      | Some c \<Rightarrow>
          (case acc of (summ, s1, s2) \<Rightarrow>
            (case generate_cross_path_gain cfg s1 s2 of
               Inl e \<Rightarrow> Some (Inl e)
             | Inr (g, t1, t2) \<Rightarrow>
                 sum_walk cfg h (prv (chan_links h) c)
                   (dadd cfg summ (dmul cfg (dmul cfg g (power (sir_data h c))) (fading (sir_data h c))), t1, t2))))"

definition clamp_power :: "real \<Rightarrow> real" where
  "clamp_power p = (let p1 = (if p < MIN_POWER then MIN_POWER else p) in if p1 > MAX_POWER then MAX_POWER else p1)"

text \<open>
  The power of a new channel: the least one without interference, and then the fading keeps what the
  memory held.
\<close>

definition new_power ::
  "config \<Rightarrow> sir_data_per_cell \<Rightarrow> real \<times> 32 word \<times> 32 word \<Rightarrow> (sir_data_per_cell \<times> 32 word \<times> 32 word) outcome" where
  "new_power cfg old = (\<lambda>(summ, s1, s2).
     if summ = 0 then Inr (old\<lparr>power := MIN_POWER\<rparr>, s1, s2)
     else and_then (Expent cfg 1 s1 s2) (\<lambda>(f, t1, t2).
       let (g, w1, w2) = generate_path_gain cfg t1 t2 in
       Inr (\<lparr>fading = f, power = clamp_power (ddiv cfg (dmul cfg SIR_AIM summ) (dmul cfg g f))\<rparr>, w1, w2)))"

section \<open>Taking and giving back a channel\<close>

text \<open>What the two calls of \<open>malloc\<close> give: the address of the record, and the memory of its data.\<close>

record channel_malloc =
  new_channel :: "nat option"
  new_sir :: "sir_data_per_cell option"

fun first_clear :: "(nat \<Rightarrow> 32 word) \<Rightarrow> nat \<Rightarrow> nat \<Rightarrow> nat option" where
  "first_clear st i 0 = None"
| "first_clear st i (Suc n) = (if \<not> CHECK_CHANNEL st i then Some i else first_clear st (i + 1) n)"

text \<open>The new record becomes the newest of the list.\<close>

definition push_channel :: "nat \<Rightarrow> int \<Rightarrow> sir_data_per_cell \<Rightarrow> lp_state \<Rightarrow> lp_state" where
  "push_channel c index sir s =
     (let h = heap s;
          l1 = set_prv (set_nxt (chan_links h) c None) c (channels s);
          l2 = (case channels s of None \<Rightarrow> l1 | Some newest \<Rightarrow> set_nxt l1 newest (Some c))
      in s\<lparr>heap := h\<lparr>chan_links := l2, channel_id := (channel_id h)(c := index), sir_data := (sir_data h)(c := sir)\<rparr>,
           channels := Some c\<rparr>)"

text \<open>The seeds of the cell are the ones the callers pass.\<close>

definition allocation :: "config \<Rightarrow> channel_malloc \<Rightarrow> lp_state \<Rightarrow> (int \<times> lp_state) outcome option" where
  "allocation cfg m s =
     (case first_clear (channel_state s) 0 (channels_per_cell s) of
        None \<Rightarrow> Some (Inl Aborted)
      | Some index \<Rightarrow>
          (case (new_channel m, new_sir m) of
             (Some c, Some sir) \<Rightarrow>
               let s1 = push_channel c (int index) sir (s\<lparr>channel_state := SET_CHANNEL (channel_state s) index\<rparr>) in
               map_option (\<lambda>res. and_then res (\<lambda>acc. and_then (new_power cfg sir acc) (\<lambda>(sir1, t1, t2).
                   Inr (int index, s1\<lparr>heap := (heap s1)\<lparr>sir_data := (sir_data (heap s1))(c := sir1)\<rparr>, seed1 := t1, seed2 := t2\<rparr>))))
                 (sum_walk cfg (heap s1) (prv (chan_links (heap s1)) c) (0, seed1 s, seed2 s))
           | _ \<Rightarrow> Some (Inl Exit_Failure)))"

partial_function (option) find_channel :: "channel_heap \<Rightarrow> int \<Rightarrow> nat option \<Rightarrow> nat option option" where
  "find_channel h ch p =
     (case p of
        None \<Rightarrow> Some None
      | Some c \<Rightarrow> if channel_id h c = ch then Some (Some c) else find_channel h ch (prv (chan_links h) c))"

definition unlink_channel :: "nat \<Rightarrow> lp_state \<Rightarrow> lp_state" where
  "unlink_channel c s =
     (let h = heap s; l = chan_links h in
      if channels s = Some c then
        (let newest = prv l c;
             l1 = (case newest of None \<Rightarrow> l | Some p \<Rightarrow> set_nxt l p None)
         in s\<lparr>channels := newest, heap := h\<lparr>chan_links := l1\<rparr>\<rparr>)
      else
        (let l1 = (case nxt l c of None \<Rightarrow> l | Some n \<Rightarrow> set_prv l n (prv l c));
             l2 = (case prv l1 c of None \<Rightarrow> l1 | Some p \<Rightarrow> set_nxt l1 p (nxt l1 c))
         in s\<lparr>heap := h\<lparr>chan_links := l2\<rparr>\<rparr>))"

definition deallocation :: "int \<Rightarrow> lp_state \<Rightarrow> lp_state outcome option" where
  "deallocation ch s =
     map_option (\<lambda>found. case found of
         None \<Rightarrow> Inl Aborted
       | Some c \<Rightarrow> (let s1 = unlink_channel c s in Inr (s1\<lparr>channel_state := RESET_CHANNEL (channel_state s1) (nat ch)\<rparr>)))
       (find_channel (heap s) ch (channels s))"

text \<open>\<open>fading_recheck\<close> draws a new fading for every channel of the list.\<close>

partial_function (option) fading_walk ::
  "config \<Rightarrow> nat option \<Rightarrow> channel_heap \<times> 32 word \<times> 32 word \<Rightarrow> (channel_heap \<times> 32 word \<times> 32 word) outcome option" where
  "fading_walk cfg ch st =
     (case ch of
        None \<Rightarrow> Some (Inr st)
      | Some c \<Rightarrow>
          (case st of (h, s1, s2) \<Rightarrow>
            (case Expent cfg 1 s1 s2 of
               Inl e \<Rightarrow> Some (Inl e)
             | Inr (f, t1, t2) \<Rightarrow>
                 fading_walk cfg (prv (chan_links h) c) (h\<lparr>sir_data := (sir_data h)(c := (sir_data h c)\<lparr>fading := f\<rparr>)\<rparr>, t1, t2))))"

definition fading_recheck :: "config \<Rightarrow> lp_state \<Rightarrow> lp_state outcome option" where
  "fading_recheck cfg s =
     map_option (\<lambda>res. and_then res (\<lambda>(h, t1, t2). Inr (s\<lparr>heap := h, seed1 := t1, seed2 := t2\<rparr>)))
       (fading_walk cfg (channels s) (heap s, seed1 s, seed2 s))"

section \<open>The bitmap\<close>

lemma bit_one_shifted: "bit (push_bit k 1 :: 32 word) n \<longleftrightarrow> k = n \<and> n < 32"
  by (auto simp: bit_push_bit_iff bit_1_iff simp del: push_bit_of_1)

lemma word_nonzero_bit: "(w :: 32 word) \<noteq> 0 \<longleftrightarrow> (\<exists>n. bit w n)"
proof
  show "\<exists>n. bit w n \<Longrightarrow> w \<noteq> 0" by auto
  show "w \<noteq> 0 \<Longrightarrow> \<exists>n. bit w n" using bit_word_eqI [of w 0] by auto
qed

lemma CHECK_CHANNEL_bit: "CHECK_CHANNEL st i \<longleftrightarrow> bit (st (i div 32)) (i mod 32)"
proof -
  let ?m = "push_bit (i mod 32) 1 :: 32 word"
  have m: "bit (st (i div 32) AND ?m) n \<longleftrightarrow> n = i mod 32 \<and> bit (st (i div 32)) n" for n
    by (auto simp: bit_and_iff bit_one_shifted simp del: push_bit_of_1)
  have "st (i div 32) AND ?m \<noteq> 0 \<longleftrightarrow> (\<exists>n. bit (st (i div 32) AND ?m) n)"
    by (rule word_nonzero_bit)
  then show ?thesis unfolding m by (auto simp: CHECK_CHANNEL_def BITS_def)
qed

lemma same_channel: "i div 32 = j div 32 \<Longrightarrow> i mod 32 = j mod 32 \<Longrightarrow> i = (j :: nat)"
  by (metis div_mult_mod_eq)

lemma CHECK_SET [simp]: "CHECK_CHANNEL (SET_CHANNEL st i) j \<longleftrightarrow> j = i \<or> CHECK_CHANNEL st j"
proof (cases "j div 32 = i div 32")
  case True
  then show ?thesis using same_channel [of i j]
    by (simp add: CHECK_CHANNEL_bit SET_CHANNEL_def BITS_def bit_or_iff bit_one_shifted del: push_bit_of_1) metis
next
  case False
  then show ?thesis by (auto simp: CHECK_CHANNEL_bit SET_CHANNEL_def BITS_def)
qed

lemma CHECK_RESET [simp]: "CHECK_CHANNEL (RESET_CHANNEL st i) j \<longleftrightarrow> j \<noteq> i \<and> CHECK_CHANNEL st j"
proof (cases "j div 32 = i div 32")
  case True
  then show ?thesis using same_channel [of i j]
    by (simp add: CHECK_CHANNEL_bit RESET_CHANNEL_def BITS_def bit_and_iff bit_not_iff bit_one_shifted del: push_bit_of_1) metis
next
  case False
  then show ?thesis by (auto simp: CHECK_CHANNEL_bit RESET_CHANNEL_def BITS_def)
qed

lemma first_clear_Some:
  "first_clear st i n = Some k \<Longrightarrow> i \<le> k \<and> k < i + n \<and> \<not> CHECK_CHANNEL st k \<and> (\<forall>j. i \<le> j \<and> j < k \<longrightarrow> CHECK_CHANNEL st j)"
proof (induction n arbitrary: i)
  case (Suc n)
  show ?case
  proof (cases "CHECK_CHANNEL st i")
    case True
    with Suc.prems have "first_clear st (i + 1) n = Some k" by simp
    from Suc.IH [OF this] show ?thesis using True by (auto simp: le_Suc_eq Suc_le_eq nat_less_le)
  qed (use Suc.prems in auto)
qed simp

lemma first_clear_None: "first_clear st i n = None \<Longrightarrow> i \<le> j \<Longrightarrow> j < i + n \<Longrightarrow> CHECK_CHANNEL st j"
proof (induction n arbitrary: i)
  case (Suc n)
  then show ?case by (cases "j = i") (auto split: if_splits)
qed simp

section \<open>The list of channels\<close>

text \<open>\<open>ys\<close> are the channels, the oldest first.\<close>

definition chain :: "nat links \<Rightarrow> nat option \<Rightarrow> nat list \<Rightarrow> bool" where
  "chain l p ys \<longleftrightarrow> nlist l \<lparr>hd_ptr = (if ys = [] then None else Some (hd ys)), tl_ptr = p\<rparr> ys"

lemma chain_newest: "chain l p ys \<Longrightarrow> p = (if ys = [] then None else Some (last ys))"
  by (auto simp: chain_def nlist_def split: if_splits)

lemma chain_backward:
  assumes "chain l p ys"
  shows "successively (linked l) ys" "ys \<noteq> [] \<Longrightarrow> prv l (hd ys) = None" "distinct ys"
  using assms by (auto simp: chain_def nlist_def split: if_splits)

definition push_links :: "nat links \<Rightarrow> nat option \<Rightarrow> nat \<Rightarrow> nat links" where
  "push_links l p c = (let l1 = set_prv (set_nxt l c None) c p in case p of None \<Rightarrow> l1 | Some q \<Rightarrow> set_nxt l1 q (Some c))"

lemma chain_push:
  assumes "chain l p ys" and "c \<notin> set ys"
  shows "chain (push_links l p c) (Some c) (ys @ [c])"
proof -
  let ?e = "\<lparr>hd_ptr = (if ys = [] then None else Some (hd ys)), tl_ptr = p\<rparr>"
  obtain l' e' where a: "ptr_append l ?e c = Some (l', e')" "nlist l' e' (ys @ [c])"
    using ptr_append_nlist [OF assms(1) [unfolded chain_def] assms(2)] by blast
  have "l' = push_links l p c \<and> e' = \<lparr>hd_ptr = Some (hd (ys @ [c])), tl_ptr = Some c\<rparr>"
    using a(1) chain_newest [OF assms(1)] by (auto simp: ptr_append_def push_links_def Let_def split: if_splits)
  then show ?thesis using a(2) by (simp add: chain_def)
qed

definition unlink_links :: "nat links \<Rightarrow> nat option \<Rightarrow> nat \<Rightarrow> nat links \<times> nat option" where
  "unlink_links l p c =
     (if p = Some c then (case prv l c of None \<Rightarrow> l | Some q \<Rightarrow> set_nxt l q None, prv l c)
      else (let l1 = (case nxt l c of None \<Rightarrow> l | Some n \<Rightarrow> set_prv l n (prv l c))
            in (case prv l1 c of None \<Rightarrow> l1 | Some q \<Rightarrow> set_nxt l1 q (nxt l1 c)), p))"

lemma last_only: "distinct (ys @ c # zs) \<Longrightarrow> last (ys @ c # zs) = c \<longleftrightarrow> zs = []"
  by (cases zs rule: rev_cases) auto

lemma chain_unlink:
  assumes "chain l p (ys @ c # zs)" and "unlink_links l p c = (l', p')"
  shows "chain l' p' (ys @ zs)"
proof -
  let ?e = "\<lparr>hd_ptr = Some (hd (ys @ [c])), tl_ptr = p\<rparr>"
  have n: "nlist l ?e (ys @ c # zs)" using assms(1) by (cases ys) (simp_all add: chain_def)
  obtain l2 e2 where r: "ptr_remove l ?e c = (l2, e2)" "nlist l2 e2 (ys @ zs)"
    using ptr_remove_nlist [OF n] by blast
  have p: "p = Some (last (ys @ c # zs))" using chain_newest [OF assms(1)] by simp
  have d: "distinct (ys @ c # zs)" and s: "successively (linked l) (ys @ c # zs)"
    using chain_backward [OF assms(1)] by simp_all
  have nx: "nxt l c = (if zs = [] then None else Some (hd zs))"
  proof (cases zs)
    case Nil
    then show ?thesis using n by (simp add: nlist_def)
  next
    case (Cons z zs')
    then show ?thesis using s by (auto simp: successively_append_iff linked_def)
  qed
  have pv: "prv l c = (if ys = [] then None else Some (last ys))"
  proof (cases ys rule: rev_cases)
    case Nil
    then show ?thesis using n by (simp add: nlist_def)
  next
    case (snoc ys' y)
    then show ?thesis using s by (auto simp: successively_append_iff linked_def)
  qed
  have ne: "ys \<noteq> [] \<Longrightarrow> last ys \<noteq> c" "zs \<noteq> [] \<Longrightarrow> hd zs \<noteq> c" using d by auto
  have pc: "p = Some c \<longleftrightarrow> zs = []" using p last_only [OF d] by simp
  have l2: "l2 = l' \<and> tl_ptr e2 = p'"
    using r(1) assms(2) ne unfolding ptr_remove_def unlink_links_def pc nx pv
    by (auto simp: set_nxt_def set_prv_def nx pv split: if_splits)
  then have "e2 = \<lparr>hd_ptr = (if ys @ zs = [] then None else Some (hd (ys @ zs))), tl_ptr = p'\<rparr>"
    using r(2) by (cases e2) (auto simp: nlist_def split: if_splits)
  then show ?thesis using r(2) l2 by (simp add: chain_def)
qed

section \<open>The channels of a cell\<close>

definition ids_of :: "lp_state \<Rightarrow> nat list \<Rightarrow> int list" where
  "ids_of s ys = map (channel_id (heap s)) ys"

definition channels_ok :: "lp_state \<Rightarrow> nat list \<Rightarrow> bool" where
  "channels_ok s ys \<longleftrightarrow> chain (chan_links (heap s)) (channels s) ys
     \<and> distinct (ids_of s ys) \<and> set (ids_of s ys) = int ` {i. i < channels_per_cell s \<and> CHECK_CHANNEL (channel_state s) i}"

lemma length_channels:
  assumes "channels_ok s ys"
  shows "length ys = card {i. i < channels_per_cell s \<and> CHECK_CHANNEL (channel_state s) i}"
proof -
  have "length ys = card (set (ids_of s ys))" using assms distinct_card [of "ids_of s ys"] by (simp add: channels_ok_def ids_of_def)
  also have "\<dots> = card {i. i < channels_per_cell s \<and> CHECK_CHANNEL (channel_state s) i}"
    using assms by (simp add: channels_ok_def card_image)
  finally show ?thesis .
qed

lemma some_clear:
  assumes "channels_ok s ys" and "length ys < channels_per_cell s"
  shows "\<exists>i. first_clear (channel_state s) 0 (channels_per_cell s) = Some i"
proof (cases "first_clear (channel_state s) 0 (channels_per_cell s)")
  case None
  have "{i. i < channels_per_cell s \<and> CHECK_CHANNEL (channel_state s) i} = {..<channels_per_cell s}"
    using first_clear_None [OF None] by auto
  then show ?thesis using length_channels [OF assms(1)] assms(2) by simp
qed simp

section \<open>The draws of an allocation\<close>

lemma cross_gain_constant:
  assumes "close_rounding cfg"
  shows "generate_cross_path_gain cfg s1 s2 = Inr (dmul cfg (CROSS_PATH_GAIN cfg) 1, snd (Random cfg s1 s2))"
proof -
  obtain u t1 t2 where R: "Random cfg s1 s2 = (u, t1, t2)" by (metis prod_cases3)
  have u: "0 < u" "u \<le> 1 - 1 / 2 ^ 32" using random_upper [OF assms, of s1 s2] R by simp_all
  define v where "v = rnd cfg (10 * u)"
  have v: "10 * u * (1 - 1 / 2 ^ 52) \<le> v" "v \<le> 10 * u * (1 + 1 / 2 ^ 52)"
    using close_rounding_bounds [OF assms, of "10 * u"] u by (simp_all add: v_def)
  have v0: "0 \<le> v" using v(1) u by (smt (verit) mult_nonneg_nonneg divide_le_eq_1 one_le_power)
  define w where "w = rnd cfg (v / 10)"
  have w: "v / 10 * (1 - 1 / 2 ^ 52) \<le> w" "w \<le> v / 10 * (1 + 1 / 2 ^ 52)"
    using close_rounding_bounds [OF assms, of "v / 10"] v0 by (simp_all add: w_def)
  have "v / 10 \<le> u * (1 + 1 / 2 ^ 52)" using v(2) by simp
  also have "\<dots> \<le> (1 - 1 / 2 ^ 32) * (1 + 1 / 2 ^ 52)" using u by (intro mult_right_mono) simp_all
  finally have "v / 10 * (1 + 1 / 2 ^ 52) \<le> (1 - 1 / 2 ^ 32) * (1 + 1 / 2 ^ 52) * (1 + 1 / 2 ^ 52)" by (intro mult_right_mono) simp_all
  also have "\<dots> < 1" by simp
  finally have w1: "w < 1" using w(2) by linarith
  have "0 \<le> v / 10 * (1 - 1 / 2 ^ 52)" using v0 by (intro mult_nonneg_nonneg) simp_all
  then have w0: "0 \<le> w" using w(1) by linarith
  have "trunc_double w = 0" using w0 w1 by (simp add: trunc_double_def floor_eq_iff)
  then have "int_of_double w = Inr 0" by (simp add: int_of_double_def fits_int32_def)
  then show ?thesis using R by (simp add: generate_cross_path_gain_def dmul_def ddiv_def v_def w_def)
qed

text \<open>The same sum over the list of the channels.\<close>

fun sum_over :: "config \<Rightarrow> channel_heap \<Rightarrow> nat list \<Rightarrow> real \<times> 32 word \<times> 32 word \<Rightarrow> real \<times> 32 word \<times> 32 word" where
  "sum_over cfg h [] acc = acc"
| "sum_over cfg h (c # cs) (summ, s1, s2) = sum_over cfg h cs
     (dadd cfg summ (dmul cfg (dmul cfg (dmul cfg (CROSS_PATH_GAIN cfg) 1) (power (sir_data h c))) (fading (sir_data h c))), snd (Random cfg s1 s2))"

lemma sum_walk_sum_over:
  assumes "successively (linked (chan_links h)) ys" and "ys \<noteq> [] \<Longrightarrow> prv (chan_links h) (hd ys) = None" and "close_rounding cfg"
  shows "sum_walk cfg h (if ys = [] then None else Some (last ys)) acc = Some (Inr (sum_over cfg h (rev ys) acc))"
  using assms(1,2)
proof (induction ys arbitrary: acc rule: rev_induct)
  case Nil
  then show ?case by (subst sum_walk.simps) simp
next
  case (snoc y ys)
  obtain summ s1 s2 where acc: "acc = (summ, s1, s2)" by (metis prod_cases3)
  obtain t1 t2 where t: "snd (Random cfg s1 s2) = (t1, t2)" by (metis surj_pair)
  have "prv (chan_links h) y = (if ys = [] then None else Some (last ys))"
    using snoc.prems by (auto simp: successively_append_iff linked_def)
  moreover have "successively (linked (chan_links h)) ys" "ys \<noteq> [] \<Longrightarrow> prv (chan_links h) (hd ys) = None"
    using snoc.prems by (auto simp: successively_append_iff)
  ultimately show ?case using snoc.IH cross_gain_constant [OF assms(3), of s1 s2] t
    by (subst sum_walk.simps) (simp add: acc)
qed

lemma new_power_bounds:
  "\<exists>sir t1 t2. new_power cfg old acc = Inr (sir, t1, t2) \<and> MIN_POWER \<le> power sir \<and> power sir \<le> MAX_POWER"
proof -
  obtain summ s1 s2 where acc: "acc = (summ, s1, s2)" by (metis prod_cases3)
  have "\<exists>f t1 t2. Expent cfg 1 s1 s2 = Inr (f, t1, t2)" by (simp add: Expent_def split_beta)
  then obtain f t1 t2 where E: "Expent cfg 1 s1 s2 = Inr (f, t1, t2)" by blast
  obtain g w1 w2 where G: "generate_path_gain cfg t1 t2 = (g, w1, w2)" by (metis prod_cases3)
  have cl: "MIN_POWER \<le> clamp_power p \<and> clamp_power p \<le> MAX_POWER" for p
    by (auto simp: clamp_power_def Let_def MIN_POWER_def MAX_POWER_def)
  show ?thesis
  proof (cases "summ = 0")
    case True
    then show ?thesis by (simp add: new_power_def acc MIN_POWER_def MAX_POWER_def)
  next
    case False
    then show ?thesis using cl by (simp add: new_power_def acc E G)
  qed
qed

section \<open>Allocation and deallocation\<close>

lemma push_channel_eq:
  "push_channel c index sir s = s\<lparr>heap := (heap s)\<lparr>chan_links := push_links (chan_links (heap s)) (channels s) c,
      channel_id := (channel_id (heap s))(c := index), sir_data := (sir_data (heap s))(c := sir)\<rparr>, channels := Some c\<rparr>"
  by (cases "channels s") (simp_all add: push_channel_def push_links_def Let_def)

lemma prv_push_links: "p \<noteq> Some c \<Longrightarrow> prv (push_links l p c) c = p"
  by (simp add: push_links_def Let_def split: option.splits)

text \<open>What an allocation leaves alone.\<close>

definition same_counters :: "lp_state \<Rightarrow> lp_state \<Rightarrow> bool" where
  "same_counters s s' \<longleftrightarrow> (\<exists>h p b t1 t2. s' = s\<lparr>heap := h, channels := p, channel_state := b, seed1 := t1, seed2 := t2\<rparr>)"

lemma allocation_unfold:
  assumes "channels_ok s ys" and "first_clear (channel_state s) 0 (channels_per_cell s) = Some i"
    and "new_channel m = Some c" "new_sir m = Some sir" and "c \<notin> set ys" and "close_rounding cfg"
  obtains sir1 t1 t2 where "allocation cfg m s = Some (Inr (int i, s\<lparr>channel_state := SET_CHANNEL (channel_state s) i, channels := Some c, heap := (heap s)\<lparr>
      chan_links := push_links (chan_links (heap s)) (channels s) c, channel_id := (channel_id (heap s))(c := int i),
      sir_data := (sir_data (heap s))(c := sir1)\<rparr>, seed1 := t1, seed2 := t2\<rparr>))"
    and "MIN_POWER \<le> power sir1" "power sir1 \<le> MAX_POWER"
proof -
  let ?l = "push_links (chan_links (heap s)) (channels s) c"
  define s1 where "s1 = push_channel c (int i) sir (s\<lparr>channel_state := SET_CHANNEL (channel_state s) i\<rparr>)"
  have ch: "chain (chan_links (heap s)) (channels s) ys" using assms(1) by (simp add: channels_ok_def)
  have newest: "channels s = (if ys = [] then None else Some (last ys))" by (rule chain_newest [OF ch])
  have ne: "channels s \<noteq> Some c" using newest assms(5) by auto
  have l1: "chan_links (heap s1) = ?l" by (simp add: s1_def push_channel_eq)
  have "chain ?l (Some c) (ys @ [c])" by (rule chain_push [OF ch assms(5)])
  from chain_backward [OF this] have b: "successively (linked ?l) ys" "ys \<noteq> [] \<Longrightarrow> prv ?l (hd ys) = None"
    by (auto simp: successively_append_iff)
  define acc where "acc = sum_over cfg (heap s1) (rev ys) (0, seed1 s, seed2 s)"
  have "sum_walk cfg (heap s1) (prv (chan_links (heap s1)) c) (0, seed1 s, seed2 s) = Some (Inr acc)"
  proof -
    have p: "prv (chan_links (heap s1)) c = (if ys = [] then None else Some (last ys))"
      unfolding l1 prv_push_links [OF ne] by (rule newest)
    show ?thesis unfolding p acc_def by (rule sum_walk_sum_over) (use b l1 assms(6) in simp_all)
  qed
  moreover obtain sir1 t1 t2 where n: "new_power cfg sir acc = Inr (sir1, t1, t2)" "MIN_POWER \<le> power sir1" "power sir1 \<le> MAX_POWER"
    using new_power_bounds by blast
  ultimately have "allocation cfg m s = Some (Inr (int i, s1\<lparr>heap := (heap s1)\<lparr>sir_data := (sir_data (heap s1))(c := sir1)\<rparr>, seed1 := t1, seed2 := t2\<rparr>))"
    using assms(2-4) by (simp add: allocation_def Let_def s1_def)
  then have "allocation cfg m s = Some (Inr (int i, s\<lparr>channel_state := SET_CHANNEL (channel_state s) i, channels := Some c,
      heap := (heap s)\<lparr>chan_links := ?l, channel_id := (channel_id (heap s))(c := int i),
      sir_data := (sir_data (heap s))(c := sir1)\<rparr>, seed1 := t1, seed2 := t2\<rparr>))"
    by (simp add: s1_def push_channel_eq)
  then show thesis using n(2,3) by (rule that)
qed

lemma ids_insert:
  assumes "c \<notin> set ys" and "channel_id (heap s') = (channel_id (heap s))(c := i)"
  shows "ids_of s' (ys @ [c]) = ids_of s ys @ [i]"
  using assms by (auto simp: ids_of_def)

text \<open>
  \<open>allocation\<close> on a cell with fewer busy channels than it has takes the lowest free channel,
  and no other, appends its record as the newest of the list, gives it a power between the two bounds,
  and leaves the counters of the cell alone.
\<close>

theorem allocation_correct:
  assumes "channels_ok s ys" and "length ys < channels_per_cell s" and "close_rounding cfg"
    and "new_channel m = Some c" "new_sir m = Some sir" and "c \<notin> set ys"
  shows "\<exists>i s'. allocation cfg m s = Some (Inr (int i, s')) \<and> i < channels_per_cell s
    \<and> \<not> CHECK_CHANNEL (channel_state s) i \<and> (\<forall>j < i. CHECK_CHANNEL (channel_state s) j)
    \<and> (\<forall>j. CHECK_CHANNEL (channel_state s') j \<longleftrightarrow> j = i \<or> CHECK_CHANNEL (channel_state s) j)
    \<and> channels_ok s' (ys @ [c]) \<and> ids_of s' (ys @ [c]) = ids_of s ys @ [int i]
    \<and> MIN_POWER \<le> power (sir_data (heap s') c) \<and> power (sir_data (heap s') c) \<le> MAX_POWER \<and> same_counters s s'"
proof -
  obtain i where i: "first_clear (channel_state s) 0 (channels_per_cell s) = Some i" using some_clear [OF assms(1,2)] by blast
  note f = first_clear_Some [OF i]
  obtain sir1 t1 t2 where a: "allocation cfg m s = Some (Inr (int i, s\<lparr>channel_state := SET_CHANNEL (channel_state s) i, channels := Some c, heap := (heap s)\<lparr>
      chan_links := push_links (chan_links (heap s)) (channels s) c, channel_id := (channel_id (heap s))(c := int i),
      sir_data := (sir_data (heap s))(c := sir1)\<rparr>, seed1 := t1, seed2 := t2\<rparr>))" (is "_ = Some (Inr (_, ?s'))")
    and p: "MIN_POWER \<le> power sir1" "power sir1 \<le> MAX_POWER"
    by (rule allocation_unfold [OF assms(1) i assms(4-6,3)])
  have ch: "chain (chan_links (heap s)) (channels s) ys" and dis: "distinct (ids_of s ys)"
    and ids: "set (ids_of s ys) = int ` {i. i < channels_per_cell s \<and> CHECK_CHANNEL (channel_state s) i}"
    using assms(1) by (simp_all add: channels_ok_def)
  have new: "ids_of ?s' (ys @ [c]) = ids_of s ys @ [int i]" by (rule ids_insert [OF assms(6)]) simp
  have "int i \<notin> set (ids_of s ys)" using ids f by auto
  moreover have "chain (chan_links (heap ?s')) (channels ?s') (ys @ [c])" using chain_push [OF ch assms(6)] by simp
  moreover have "set (ids_of s ys @ [int i]) = int ` {j. j < channels_per_cell ?s' \<and> CHECK_CHANNEL (channel_state ?s') j}"
    using ids f by (auto simp: image_iff)
  ultimately have "channels_ok ?s' (ys @ [c])" using dis unfolding channels_ok_def new by simp
  moreover have "same_counters s ?s'"
    unfolding same_counters_def
    by (intro exI [of _ "heap ?s'"] exI [of _ "channels ?s'"] exI [of _ "channel_state ?s'"] exI [of _ t1] exI [of _ t2]) simp
  ultimately show ?thesis using a f p new by (intro exI [of _ i] exI [of _ ?s'] conjI) (simp_all del: CHECK_SET, auto)
qed

lemma find_channel_find:
  assumes "successively (linked (chan_links h)) ys" and "ys \<noteq> [] \<Longrightarrow> prv (chan_links h) (hd ys) = None"
  shows "find_channel h ch (if ys = [] then None else Some (last ys)) = Some (List.find (\<lambda>c. channel_id h c = ch) (rev ys))"
  using assms
proof (induction ys rule: rev_induct)
  case Nil
  then show ?case by (subst find_channel.simps) simp
next
  case (snoc y ys)
  have "prv (chan_links h) y = (if ys = [] then None else Some (last ys))"
    using snoc.prems by (auto simp: successively_append_iff linked_def)
  moreover have "successively (linked (chan_links h)) ys" "ys \<noteq> [] \<Longrightarrow> prv (chan_links h) (hd ys) = None"
    using snoc.prems by (auto simp: successively_append_iff)
  ultimately show ?case using snoc.IH by (subst find_channel.simps) simp
qed

lemma find_channel_ok:
  assumes "channels_ok s ys"
  shows "find_channel (heap s) ch (channels s) = Some (List.find (\<lambda>c. channel_id (heap s) c = ch) (rev ys))"
proof -
  have ch: "chain (chan_links (heap s)) (channels s) ys" using assms by (simp add: channels_ok_def)
  show ?thesis unfolding chain_newest [OF ch] by (rule find_channel_find) (use chain_backward [OF ch] in auto)
qed

lemma unlink_channel_eq:
  "unlink_channel c s = s\<lparr>channels := snd (unlink_links (chan_links (heap s)) (channels s) c),
      heap := (heap s)\<lparr>chan_links := fst (unlink_links (chan_links (heap s)) (channels s) c)\<rparr>\<rparr>"
  by (simp add: unlink_channel_def unlink_links_def Let_def)

lemma find_distinct:
  assumes "distinct (map f xs)" and "x \<in> set xs"
  shows "List.find (\<lambda>c. f c = f x) (rev xs) = Some x"
proof -
  have "List.find (\<lambda>c. f c = f x) zs = Some x" if "distinct (map f zs)" "x \<in> set zs" for zs
    using that by (induction zs) (auto simp: image_iff)
  moreover have "distinct (map f (rev xs))" using assms(1) by (simp add: rev_map [symmetric])
  ultimately show ?thesis using assms(2) by simp
qed

text \<open>
  \<open>deallocation\<close> of a busy channel takes its record out of the list, wherever it is, and
  frees that channel and no other; for a channel that is not busy it aborts the program.
\<close>

theorem deallocation_correct:
  assumes "channels_ok s ys"
  shows "(\<forall>xs c zs. ys = xs @ c # zs \<and> channel_id (heap s) c = ch \<longrightarrow>
      (\<exists>s'. deallocation ch s = Some (Inr s') \<and> channels_ok s' (xs @ zs) \<and> ids_of s' (xs @ zs) = ids_of s (xs @ zs)
        \<and> (\<forall>j. CHECK_CHANNEL (channel_state s') j \<longleftrightarrow> int j \<noteq> ch \<and> CHECK_CHANNEL (channel_state s) j)
        \<and> same_counters s s'))
    \<and> (ch \<notin> set (ids_of s ys) \<longrightarrow> deallocation ch s = Some (Inl Aborted))"
proof (intro conjI allI impI)
  note f = find_channel_ok [OF assms, of ch]
  have chn: "chain (chan_links (heap s)) (channels s) ys" and dis: "distinct (ids_of s ys)"
    and ids: "set (ids_of s ys) = int ` {i. i < channels_per_cell s \<and> CHECK_CHANNEL (channel_state s) i}"
    using assms by (simp_all add: channels_ok_def)
  {
    assume "ch \<notin> set (ids_of s ys)"
    then have "List.find (\<lambda>c. channel_id (heap s) c = ch) (rev ys) = None" by (auto simp: find_None_iff ids_of_def)
    then show "deallocation ch s = Some (Inl Aborted)" using f by (simp add: deallocation_def)
  next
    fix xs c zs assume y: "ys = xs @ c # zs \<and> channel_id (heap s) c = ch"
    have "List.find (\<lambda>c. channel_id (heap s) c = ch) (rev ys) = Some c"
      using find_distinct [of "channel_id (heap s)" ys c] dis y by (simp add: ids_of_def)
    then obtain s' where s': "deallocation ch s = Some (Inr s')"
      "s' = (unlink_channel c s)\<lparr>channel_state := RESET_CHANNEL (channel_state s) (nat ch)\<rparr>"
      using f by (simp add: deallocation_def Let_def unlink_channel_eq)
    obtain l' p' where u: "unlink_links (chan_links (heap s)) (channels s) c = (l', p')" by (metis surj_pair)
    have "chain l' p' (xs @ zs)" using chain_unlink [of "chan_links (heap s)" "channels s" xs c zs l' p'] chn y u by simp
    then have c': "chain (chan_links (heap s')) (channels s') (xs @ zs)" by (simp add: s'(2) unlink_channel_eq u)
    have same: "ids_of s' (xs @ zs) = ids_of s (xs @ zs)" by (simp add: ids_of_def s'(2) unlink_channel_eq)
    have "ch \<in> set (ids_of s ys)" using y by (simp add: ids_of_def)
    then have ch0: "0 \<le> ch" unfolding ids by auto
    have split: "ids_of s ys = ids_of s xs @ ch # ids_of s zs" using y by (simp add: ids_of_def)
    have nc: "ch \<notin> set (ids_of s (xs @ zs))" and d': "distinct (ids_of s (xs @ zs))" using dis split by (auto simp: ids_of_def)
    have "set (ids_of s (xs @ zs)) = set (ids_of s ys) - {ch}" using nc split by (auto simp: ids_of_def)
    also have "\<dots> = int ` {i. i < channels_per_cell s' \<and> CHECK_CHANNEL (channel_state s') i}"
      unfolding ids using ch0 by (auto simp: s'(2) unlink_channel_eq)
    finally have ok: "channels_ok s' (xs @ zs)" using c' d' unfolding channels_ok_def same by blast
    have cs: "\<forall>j. CHECK_CHANNEL (channel_state s') j \<longleftrightarrow> int j \<noteq> ch \<and> CHECK_CHANNEL (channel_state s) j"
      using ch0 by (auto simp: s'(2))
    have "same_counters s s'" unfolding same_counters_def s'(2) unlink_channel_eq
      by (intro exI [of _ "heap s'"] exI [of _ "channels s'"] exI [of _ "channel_state s'"] exI [of _ "seed1 s"] exI [of _ "seed2 s"])
        (simp add: s'(2) unlink_channel_eq)
    then show "\<exists>s'. deallocation ch s = Some (Inr s') \<and> channels_ok s' (xs @ zs) \<and> ids_of s' (xs @ zs) = ids_of s (xs @ zs)
        \<and> (\<forall>j. CHECK_CHANNEL (channel_state s') j \<longleftrightarrow> int j \<noteq> ch \<and> CHECK_CHANNEL (channel_state s) j)
        \<and> same_counters s s'"
      using s'(1) ok same cs by blast
  }
qed

text \<open>A cell of three channels, the first of them busy with the record at 7.\<close>

definition demo_cell :: lp_state where
  "demo_cell = \<lparr>cell_id = 4, seed1 = 5, seed2 = 0, channel_counter = 2, arriving_calls = 1, complete_calls = 0, blocked_on_setup = 0,
     blocked_on_handoff = 0, leaving_handoffs = 0, arriving_handoffs = 0, executed_events = 1, lvt = 0, ta = 4 / 10, ref_ta = 4 / 10,
     ta_duration = 120, ta_change = 300, channels_per_cell = 3, channel_state = (\<lambda>_. 0)(0 := 1), channels = Some 7,
     heap = \<lparr>chan_links = \<lparr>nxt = (\<lambda>_. None), prv = (\<lambda>_. None)\<rparr>, channel_id = (\<lambda>_. 0), sir_data = (\<lambda>_. \<lparr>fading = 1, power = 3\<rparr>)\<rparr>\<rparr>"

lemma demo_bits: "CHECK_CHANNEL (channel_state demo_cell) i \<longleftrightarrow> i = 0"
proof -
  have "i div 32 = 0 \<and> i mod 32 = 0 \<longleftrightarrow> i = 0" using same_channel [of i 0] by auto
  then show ?thesis by (auto simp: CHECK_CHANNEL_bit demo_cell_def bit_1_iff)
qed

lemma demo_cell_ok: "channels_ok demo_cell [7]" "ids_of demo_cell [7] = [0]"
proof -
  show i: "ids_of demo_cell [7] = [0]" by (simp add: ids_of_def demo_cell_def)
  have "{i. i < channels_per_cell demo_cell \<and> CHECK_CHANNEL (channel_state demo_cell) i} = {0}"
    unfolding demo_bits by (auto simp: demo_cell_def)
  moreover have "chain (chan_links (heap demo_cell)) (channels demo_cell) [7]"
    by (simp add: chain_def nlist_def demo_cell_def)
  ultimately show "channels_ok demo_cell [7]" unfolding channels_ok_def i by simp
qed

theorem allocation_correct_witness:
  "\<exists>s'. allocation demo_grid \<lparr>new_channel = Some 9, new_sir = Some \<lparr>fading = 0, power = 0\<rparr>\<rparr> demo_cell = Some (Inr (1, s'))
     \<and> channels_ok s' [7, 9] \<and> ids_of s' [7, 9] = [0, 1]"
proof -
  have c: "close_rounding demo_grid" using demo_grid by (simp add: grid_config_def)
  have l: "length [7 :: nat] < channels_per_cell demo_cell" by (simp add: demo_cell_def)
  obtain i s' where a: "allocation demo_grid \<lparr>new_channel = Some 9, new_sir = Some \<lparr>fading = 0, power = 0\<rparr>\<rparr> demo_cell = Some (Inr (int i, s'))"
    "i \<noteq> 0" "\<forall>j < i. j = 0" "channels_ok s' [7, 9]" "ids_of s' [7, 9] = [0, int i]"
    using allocation_correct [OF demo_cell_ok(1) l c, of "\<lparr>new_channel = Some 9, new_sir = Some \<lparr>fading = 0, power = 0\<rparr>\<rparr>" 9 "\<lparr>fading = 0, power = 0\<rparr>"]
    unfolding demo_bits demo_cell_ok(2) by auto
  then have "i = 1" by (metis One_nat_def Suc_lessI less_one not_gr_zero zero_neq_one)
  then show ?thesis using a by auto
qed

theorem deallocation_correct_witness:
  "(\<exists>s'. deallocation 0 demo_cell = Some (Inr s') \<and> channels_ok s' []) \<and> deallocation 1 demo_cell = Some (Inl Aborted)"
proof -
  have "channel_id (heap demo_cell) 7 = 0" by (simp add: demo_cell_def)
  then have "\<exists>s'. deallocation 0 demo_cell = Some (Inr s') \<and> channels_ok s' ([] @ [])"
    using deallocation_correct [OF demo_cell_ok(1), of 0] by (metis append_Nil)
  moreover have "deallocation 1 demo_cell = Some (Inl Aborted)"
    using deallocation_correct [OF demo_cell_ok(1), of 1] by (simp add: demo_cell_ok(2))
  ultimately show ?thesis by simp
qed

end
