(* ===== verification/Pcs.thy ===== *)
theory Pcs
  imports Pcs_Channels
begin

text \<open>
  The event handler of \<open>models/pcs/application.c\<close>, the model of a network of cells for mobile calls. A call
  takes a channel of its cell until it ends or leaves for a neighbour. What the handler schedules is a
  list of calls of \<open>ScheduleNewEvent\<close>, whose result it does not look at.
\<close>

section \<open>Parameters and messages\<close>

record pcs_config =
  CHANNELS_PER_CELL :: nat
  TA :: real
  TA_DURATION :: real
  TA_CHANGE :: real

definition START_CALL :: int where "START_CALL = 20"
definition END_CALL :: int where "END_CALL = 21"
definition HANDOFF_LEAVE :: int where "HANDOFF_LEAVE = 30"
definition HANDOFF_RECV :: int where "HANDOFF_RECV = 31"
definition HANDOFF_IN :: int where "HANDOFF_IN = 32"
definition HANDOFF_SHIFT :: "config \<Rightarrow> real" where "HANDOFF_SHIFT cfg = rnd cfg (1 / 10 ^ 6)"

record event_content =
  cell :: int
  from_cell :: "32 word"
  sent_at :: real
  channel :: int
  call_term_time :: real

record scheduled =
  to_object :: int
  at_time :: real
  of_type :: int
  with_content :: "event_content option"

text \<open>
  What the environment gives to a call of the handler: the results of \<open>malloc\<close>, and what the memory
  of the local message and of the new bitmap held.
\<close>

record pcs_environment =
  state_allocated :: bool
  bitmap_allocated :: bool
  old_bitmap :: "nat \<Rightarrow> 32 word"
  chan_malloc :: channel_malloc
  old_content :: event_content

text \<open>A result or a fault, or no result when a loop does not end.\<close>

definition run_then :: "'a outcome option \<Rightarrow> ('a \<Rightarrow> 'b outcome option) \<Rightarrow> 'b outcome option" where
  "run_then x f = (case x of None \<Rightarrow> None | Some (Inl e) \<Rightarrow> Some (Inl e) | Some (Inr a) \<Rightarrow> f a)"

lemma run_then_simps [simp]: "run_then (Some (Inl e)) f = Some (Inl e)" "run_then (Some (Inr a)) f = f a"
  by (simp_all add: run_then_def)

lemma run_then_eq_Inr [outcome_simps]: "run_then x f = Some (Inr r) \<longleftrightarrow> (\<exists>a. x = Some (Inr a) \<and> f a = Some (Inr r))"
  by (auto simp: run_then_def split: option.splits sum.splits)

section \<open>Start-up\<close>

definition zero_state :: lp_state where
  "zero_state = \<lparr>cell_id = 0, seed1 = 0, seed2 = 0, channel_counter = 0, arriving_calls = 0, complete_calls = 0, blocked_on_setup = 0,
     blocked_on_handoff = 0, leaving_handoffs = 0, arriving_handoffs = 0, executed_events = 0, lvt = 0, ta = 0, ref_ta = 0,
     ta_duration = 0, ta_change = 0, channels_per_cell = 0, channel_state = (\<lambda>_. 0), channels = None,
     heap = \<lparr>chan_links = \<lparr>nxt = (\<lambda>_. None), prv = (\<lambda>_. None)\<rparr>, channel_id = (\<lambda>_. 0), sir_data = (\<lambda>_. \<lparr>fading = 0, power = 0\<rparr>)\<rparr>\<rparr>"

definition initial_ta :: "config \<Rightarrow> pcs_config \<Rightarrow> nat \<Rightarrow> real" where
  "initial_ta cfg p lp = (if lp < OBJECTS cfg div 2 then ddiv cfg (TA p) 2 else TA p)"

definition initial_cell :: "config \<Rightarrow> pcs_config \<Rightarrow> pcs_environment \<Rightarrow> nat \<Rightarrow> lp_state" where
  "initial_cell cfg p env lp =
     (let s1 = of_nat lp + 1; n = CHANNELS_PER_CELL p in
      zero_state\<lparr>seed1 := s1, seed2 := s1 XOR s1, cell_id := int lp, channel_counter := of_nat n, ta := initial_ta cfg p lp,
        ref_ta := initial_ta cfg p lp, ta_duration := TA_DURATION p, ta_change := TA_CHANGE p, channels_per_cell := n,
        channel_state := (\<lambda>w. if w < unat (of_nat n :: 32 word) div 32 + 1 then 0 else old_bitmap env w)\<rparr>)"

fun initial_calls :: "config \<Rightarrow> nat \<Rightarrow> nat \<Rightarrow> lp_state \<Rightarrow> lp_state \<times> scheduled list" where
  "initial_calls cfg lp 0 s = (s, [])"
| "initial_calls cfg lp (Suc n) s =
     (let (u, t1, t2) = Random cfg (seed1 s) (seed2 s);
          (s1, out) = initial_calls cfg lp n (s\<lparr>seed1 := t1, seed2 := t2\<rparr>)
      in (s1, \<lparr>to_object = int lp, at_time = dmul cfg (rnd cfg (2 / 100)) u, of_type = START_CALL, with_content = None\<rparr> # out))"

definition handle_init :: "config \<Rightarrow> pcs_config \<Rightarrow> pcs_environment \<Rightarrow> nat \<Rightarrow> (lp_state \<times> scheduled list) outcome" where
  "handle_init cfg p env lp =
     (if \<not> state_allocated env then Inl Exit_Failure
      else let s = initial_cell cfg p env lp in
        and_then (int_of_double (ddiv cfg (TA_DURATION p) (ta s))) (\<lambda>init_calls.
          if \<not> bitmap_allocated env then Inl Undefined
          else Inr (initial_calls cfg lp (nat init_calls) s)))"

section \<open>Calls\<close>

text \<open>The end of the epoch of \<open>now\<close>, and a little more, which the conservative build keeps to.\<close>

definition pcs_barrier :: "config \<Rightarrow> real \<Rightarrow> real outcome" where
  "pcs_barrier cfg now =
     (if SPECULATION cfg then Inr 0
      else and_then (int_of_double (ddiv cfg now (LOOKAHEAD cfg))) (\<lambda>k.
        Inr (dadd cfg (dadd cfg (dmul cfg (real_of_int k) (LOOKAHEAD cfg)) (LOOKAHEAD cfg)) (rnd cfg (1 / 10 ^ 8)))))"

definition not_before :: "config \<Rightarrow> real \<Rightarrow> real \<Rightarrow> real" where
  "not_before cfg bound t = (if \<not> SPECULATION cfg \<and> t < bound then bound else t)"

text \<open>When a call ends, and when it leaves.\<close>

definition call_times :: "config \<Rightarrow> real \<Rightarrow> real \<Rightarrow> lp_state \<Rightarrow> (real \<times> real \<times> lp_state) outcome" where
  "call_times cfg now barrier s =
     and_then (Expent cfg (ta_duration s) (seed1 s) (seed2 s)) (\<lambda>(d, t1, t2).
     and_then (Expent cfg (ta_change s) t1 t2) (\<lambda>(h, w1, w2).
       Inr (not_before cfg barrier (dadd cfg now d), not_before cfg barrier (dadd cfg now h), s\<lparr>seed1 := w1, seed2 := w2\<rparr>)))"

definition place_call ::
  "config \<Rightarrow> nat \<Rightarrow> real \<Rightarrow> real \<Rightarrow> event_content \<Rightarrow> lp_state \<Rightarrow> (lp_state \<times> scheduled list) outcome option" where
  "place_call cfg lp term handoff_time msg s =
     (if term \<le> dadd cfg handoff_time (HANDOFF_SHIFT cfg) then
        Some (Inr (s, [\<lparr>to_object = int lp, at_time = term, of_type = END_CALL, with_content = Some msg\<rparr>]))
      else run_then (FindReceiver cfg (of_nat lp) TOPOLOGY_HEXAGON (seed1 s) (seed2 s)) (\<lambda>(r, t1, t2).
        let msg1 = msg\<lparr>cell := sint r\<rparr> in
        Some (Inr (s\<lparr>seed1 := t1, seed2 := t2\<rparr>,
          [\<lparr>to_object = int lp, at_time = handoff_time, of_type = HANDOFF_LEAVE, with_content = Some msg1\<rparr>,
           \<lparr>to_object = sint r, at_time = dadd cfg handoff_time (HANDOFF_SHIFT cfg), of_type = HANDOFF_IN, with_content = Some msg1\<rparr>]))))"

definition accept_call ::
  "config \<Rightarrow> pcs_environment \<Rightarrow> nat \<Rightarrow> real \<Rightarrow> real \<Rightarrow> lp_state \<Rightarrow> (lp_state \<times> scheduled list) outcome option" where
  "accept_call cfg env lp now barrier s =
     (if channel_counter s = 0 then Some (Inr (s\<lparr>blocked_on_setup := blocked_on_setup s + 1\<rparr>, []))
      else run_then (allocation cfg (chan_malloc env) (s\<lparr>channel_counter := channel_counter s - 1\<rparr>)) (\<lambda>(ch, s1).
        run_then (Some (call_times cfg now barrier s1)) (\<lambda>(term, handoff_time, s2).
          place_call cfg lp term handoff_time
            ((old_content env)\<lparr>cell := - 1, channel := ch, from_cell := of_nat lp, sent_at := now, call_term_time := term\<rparr>) s2)))"

text \<open>The next new call of the cell.\<close>

definition next_call :: "config \<Rightarrow> nat \<Rightarrow> real \<Rightarrow> int \<Rightarrow> lp_state \<Rightarrow> (lp_state \<times> scheduled list) outcome" where
  "next_call cfg lp now init_calls s =
     and_then (Expent cfg (ta s) (seed1 s) (seed2 s)) (\<lambda>(x, t1, t2).
       Inr (s\<lparr>seed1 := t1, seed2 := t2\<rparr>,
         [\<lparr>to_object = int lp, at_time = not_before cfg (dadd cfg now (LOOKAHEAD cfg)) (dadd cfg now (dmul cfg (real_of_int init_calls) x)),
           of_type = START_CALL, with_content = None\<rparr>]))"

definition handle_call ::
  "config \<Rightarrow> pcs_config \<Rightarrow> pcs_environment \<Rightarrow> nat \<Rightarrow> real \<Rightarrow> real \<Rightarrow> bool \<Rightarrow> lp_state \<Rightarrow> (lp_state \<times> scheduled list) outcome option" where
  "handle_call cfg p env lp now barrier new_call s =
     run_then (Some (int_of_double (ddiv cfg (TA_DURATION p) (ta s)))) (\<lambda>init_calls.
     run_then (accept_call cfg env lp now barrier (s\<lparr>arriving_calls := arriving_calls s + 1\<rparr>)) (\<lambda>(s1, out1).
       if new_call then Some (and_then (next_call cfg lp now init_calls s1) (\<lambda>(s2, out2). Inr (s2, out1 @ out2)))
       else Some (Inr (s1, out1))))"

text \<open>A call taken over from another cell keeps the time it ends; nothing holds it back to the end of the epoch.\<close>

definition handle_handoff ::
  "config \<Rightarrow> pcs_environment \<Rightarrow> nat \<Rightarrow> real \<Rightarrow> event_content option \<Rightarrow> lp_state \<Rightarrow> (lp_state \<times> scheduled list) outcome option" where
  "handle_handoff cfg env lp now content s =
     (let s0 = s\<lparr>arriving_handoffs := arriving_handoffs s + 1, arriving_calls := arriving_calls s + 1\<rparr> in
      if channel_counter s0 = 0 then Some (Inr (s0\<lparr>blocked_on_handoff := blocked_on_handoff s0 + 1\<rparr>, []))
      else run_then (allocation cfg (chan_malloc env) (s0\<lparr>channel_counter := channel_counter s0 - 1\<rparr>)) (\<lambda>(ch, s1).
        case content of None \<Rightarrow> Some (Inl Undefined)
        | Some msg \<Rightarrow> run_then (Some (Expent cfg (ta_change s1) (seed1 s1) (seed2 s1))) (\<lambda>(h, t1, t2).
          let new_msg = (old_content env)\<lparr>cell := - 1, channel := ch, call_term_time := call_term_time msg\<rparr>;
              s2 = s1\<lparr>seed1 := t1, seed2 := t2\<rparr>; handoff_time = dadd cfg now h in
          if call_term_time msg \<le> dadd cfg handoff_time (HANDOFF_SHIFT cfg) then
            Some (Inr (s2, [\<lparr>to_object = int lp, at_time = call_term_time msg, of_type = END_CALL, with_content = Some new_msg\<rparr>]))
          else run_then (FindReceiver cfg (of_nat lp) TOPOLOGY_HEXAGON (seed1 s2) (seed2 s2)) (\<lambda>(r, w1, w2).
            Some (Inr (s2\<lparr>seed1 := w1, seed2 := w2\<rparr>,
              [\<lparr>to_object = int lp, at_time = handoff_time, of_type = HANDOFF_LEAVE, with_content = Some (new_msg\<lparr>cell := sint r\<rparr>)\<rparr>]))))))"

definition handle_end :: "event_content \<Rightarrow> lp_state \<Rightarrow> (lp_state \<times> scheduled list) outcome option" where
  "handle_end msg s =
     run_then (deallocation (channel msg) (s\<lparr>channel_counter := channel_counter s + 1, complete_calls := complete_calls s + 1\<rparr>))
       (\<lambda>s1. Some (Inr (s1, [])))"

definition handle_leave :: "event_content \<Rightarrow> lp_state \<Rightarrow> (lp_state \<times> scheduled list) outcome option" where
  "handle_leave msg s =
     run_then (deallocation (channel msg) (s\<lparr>channel_counter := channel_counter s + 1, leaving_handoffs := leaving_handoffs s + 1\<rparr>))
       (\<lambda>s1. Some (Inr (s1, [])))"

section \<open>The handler\<close>

text \<open>\<open>state\<close> is \<open>None\<close> until \<open>INIT\<close>; a content that is \<open>None\<close> is a null pointer.\<close>

definition ProcessEvent ::
  "config \<Rightarrow> pcs_config \<Rightarrow> pcs_environment \<Rightarrow> nat \<Rightarrow> real \<Rightarrow> int \<Rightarrow> event_content option \<Rightarrow> lp_state option
   \<Rightarrow> (lp_state \<times> scheduled list) outcome option" where
  "ProcessEvent cfg p env lp now kind content state =
     run_then (Some (pcs_barrier cfg now)) (\<lambda>barrier.
     if kind = INIT then Some (handle_init cfg p env lp)
     else case map_option (\<lambda>s. s\<lparr>lvt := now, executed_events := executed_events s + 1\<rparr>) state of
       None \<Rightarrow> Some (Inl (if kind \<in> {START_CALL, HANDOFF_IN, END_CALL, HANDOFF_LEAVE, HANDOFF_RECV} then Undefined else Aborted))
     | Some s \<Rightarrow>
         if kind = HANDOFF_IN then handle_call cfg p env lp now barrier False s
         else if kind = START_CALL then handle_call cfg p env lp now barrier True s
         else if kind = END_CALL then (case content of None \<Rightarrow> Some (Inl Undefined) | Some msg \<Rightarrow> handle_end msg s)
         else if kind = HANDOFF_LEAVE then (case content of None \<Rightarrow> Some (Inl Undefined) | Some msg \<Rightarrow> handle_leave msg s)
         else if kind = HANDOFF_RECV then handle_handoff cfg env lp now content s
         else Some (Inl Aborted))"

text \<open>The interarrival time of the hours of a week; nothing calls it.\<close>

definition HOUR :: int where "HOUR = 3600"
definition DAY :: int where "DAY = 24 * HOUR"
definition WEEK :: int where "WEEK = 7 * DAY"

definition recompute_ta :: "config \<Rightarrow> real \<Rightarrow> real \<Rightarrow> real outcome" where
  "recompute_ta cfg ref time_now =
     and_then (int_of_double time_now) (\<lambda>t.
       let now = t smod WEEK; today = now smod DAY in
       Inr (if now > 5 * DAY then dmul cfg ref 5
            else if real_of_int today < 17 / 2 * real_of_int HOUR then dmul cfg ref 4
            else if today < 13 * HOUR then dmul cfg ref (rnd cfg (8 / 10))
            else if today < 15 * HOUR then dmul cfg ref (5 / 2)
            else if today < 19 * HOUR then dmul cfg ref 2
            else if today < 21 * HOUR then dmul cfg ref (rnd cfg (22 / 10))
            else dmul cfg ref (9 / 2)))"

section \<open>The invariant of a cell\<close>

definition parameters_ok :: "config \<Rightarrow> pcs_config \<Rightarrow> nat \<Rightarrow> bool" where
  "parameters_ok cfg p e \<longleftrightarrow> grid_config cfg e \<and> CHANNELS_PER_CELL p < 2 ^ 31 \<and> 0 \<le> TA_DURATION p \<and> 0 \<le> TA_CHANGE p
     \<and> (\<forall>t \<in> {TA p, ddiv cfg (TA p) 2}. 0 \<le> t \<and> (\<exists>k. int_of_double (ddiv cfg (TA_DURATION p) t) = Inr k))"

text \<open>
  \<open>P\<close> are the channels for which an end or a leaving is scheduled. Every call that arrived was blocked, has
  ended, has left, or holds a channel; the counters wrap.
\<close>

definition cell_inv :: "config \<Rightarrow> pcs_config \<Rightarrow> lp_state \<Rightarrow> nat list \<Rightarrow> int multiset \<Rightarrow> bool" where
  "cell_inv cfg p s ys P \<longleftrightarrow> channels_ok s ys \<and> P = mset (ids_of s ys)
     \<and> channels_per_cell s = CHANNELS_PER_CELL p \<and> unat (channel_counter s) + length ys = CHANNELS_PER_CELL p
     \<and> ta_duration s = TA_DURATION p \<and> ta_change s = TA_CHANGE p \<and> ta s \<in> {TA p, ddiv cfg (TA p) 2}
     \<and> arriving_calls s = blocked_on_setup s + blocked_on_handoff s + complete_calls s + leaving_handoffs s + of_nat (length ys)"

lemma channels_ok_cong:
  assumes "heap s' = heap s" "channels s' = channels s" "channel_state s' = channel_state s" "channels_per_cell s' = channels_per_cell s"
  shows "channels_ok s' ys \<longleftrightarrow> channels_ok s ys" "ids_of s' ys = ids_of s ys"
  using assms by (simp_all add: channels_ok_def ids_of_def)

definition releases :: "nat \<Rightarrow> scheduled list \<Rightarrow> int multiset" where
  "releases lp out = mset (map (channel \<circ> the \<circ> with_content)
     (filter (\<lambda>e. to_object e = int lp \<and> (of_type e = END_CALL \<or> of_type e = HANDOFF_LEAVE)) out))"

lemma releases_simps [simp]:
  "releases lp [] = {#}" "releases lp (out @ out') = releases lp out + releases lp out'"
  by (simp_all add: releases_def)

lemmas pcs_types = START_CALL_def END_CALL_def HANDOFF_LEAVE_def HANDOFF_RECV_def HANDOFF_IN_def INIT_def

text \<open>A record that \<open>malloc\<close> gives is not one of the list.\<close>

definition fresh_channel :: "pcs_environment \<Rightarrow> nat list \<Rightarrow> bool" where
  "fresh_channel env ys \<longleftrightarrow> (\<exists>c sir. new_channel (chan_malloc env) = Some c \<and> new_sir (chan_malloc env) = Some sir \<and> c \<notin> set ys)"

lemma take_channel:
  assumes inv: "cell_inv cfg p s ys P" and pos: "channel_counter s \<noteq> 0" and f: "fresh_channel env ys" and c: "close_rounding cfg"
    and s0: "\<exists>h. s0 = s\<lparr>channel_counter := channel_counter s - 1, arriving_calls := arriving_calls s + 1, arriving_handoffs := h\<rparr>"
  shows "\<exists>i s1 c. allocation cfg (chan_malloc env) s0 = Some (Inr (int i, s1)) \<and> cell_inv cfg p s1 (ys @ [c]) (P + {#int i#})"
proof -
  obtain c sir where m: "new_channel (chan_malloc env) = Some c" "new_sir (chan_malloc env) = Some sir" "c \<notin> set ys"
    using f by (auto simp: fresh_channel_def)
  have ok: "channels_ok s0 ys" "ids_of s0 ys = ids_of s ys" using channels_ok_cong [of s0 s ys] inv s0 by (auto simp: cell_inv_def)
  have u: "unat (channel_counter s - 1) = unat (channel_counter s) - 1" "0 < unat (channel_counter s)"
    using pos by (simp_all add: unat_minus_one unat_gt_0)
  then have len: "length ys < channels_per_cell s0" using inv s0 by (auto simp: cell_inv_def)
  obtain i s1 where a: "allocation cfg (chan_malloc env) s0 = Some (Inr (int i, s1))" "channels_ok s1 (ys @ [c])"
    "ids_of s1 (ys @ [c]) = ids_of s ys @ [int i]" "same_counters s0 s1"
    using allocation_correct [OF ok(1) len \<open>close_rounding cfg\<close> m] ok(2) by auto
  have "cell_inv cfg p s1 (ys @ [c]) (P + {#int i#})"
    using a(2-4) inv u s0 by (auto simp: cell_inv_def same_counters_def)
  then show ?thesis using a(1) by blast
qed

lemma give_back:
  assumes inv: "cell_inv cfg p s ys P" and ch: "ch \<in># P" and n: "CHANNELS_PER_CELL p < 2 ^ 31"
    and s0: "s0 = s\<lparr>channel_counter := channel_counter s + 1, complete_calls := complete_calls s + 1\<rparr>
      \<or> s0 = s\<lparr>channel_counter := channel_counter s + 1, leaving_handoffs := leaving_handoffs s + 1\<rparr>"
  shows "\<exists>s1 ys'. deallocation ch s0 = Some (Inr s1) \<and> cell_inv cfg p s1 ys' (P - {#ch#})"
proof -
  have same: "heap s0 = heap s" "channels s0 = channels s" "channel_state s0 = channel_state s" "channels_per_cell s0 = channels_per_cell s"
    using s0 by auto
  have ok: "channels_ok s0 ys" "\<And>zs. ids_of s0 zs = ids_of s zs" using channels_ok_cong [OF same] inv by (simp_all add: cell_inv_def)
  have "ch \<in> set (ids_of s ys)" using inv ch by (simp add: cell_inv_def)
  then obtain c where c: "c \<in> set ys" "channel_id (heap s) c = ch" by (auto simp: ids_of_def)
  obtain xs zs where ys: "ys = xs @ c # zs" using split_list [OF c(1)] by blast
  obtain s1 where d: "deallocation ch s0 = Some (Inr s1)" "channels_ok s1 (xs @ zs)" "ids_of s1 (xs @ zs) = ids_of s (xs @ zs)" "same_counters s0 s1"
    using deallocation_correct [OF ok(1), of ch] ys c(2) same(1) ok(2) by metis
  have "unat (channel_counter s) < 2 ^ 31" using inv n by (simp add: cell_inv_def)
  then have u: "unat (channel_counter s + 1) = unat (channel_counter s) + 1" by (subst unat_add_lem [THEN iffD1]) simp_all
  have P: "mset (ids_of s (xs @ zs)) = P - {#ch#}" using inv ys c(2) by (simp add: cell_inv_def ids_of_def)
  have acc: "arriving_calls s1 = blocked_on_setup s1 + blocked_on_handoff s1 + complete_calls s1 + leaving_handoffs s1 + of_nat (length (xs @ zs))"
    using s0 d(4) inv ys by (auto simp: cell_inv_def same_counters_def)
  have cnt: "channel_counter s1 = channel_counter s + 1" "channels_per_cell s1 = channels_per_cell s" "ta_duration s1 = ta_duration s"
    "ta_change s1 = ta_change s" "ta s1 = ta s"
    using s0 d(4) by (auto simp: same_counters_def)
  have "cell_inv cfg p s1 (xs @ zs) (P - {#ch#})"
    using d(2,3) inv P acc cnt u ys unfolding cell_inv_def by simp
  then show ?thesis using d(1) by blast
qed

section \<open>Calls\<close>

lemma cell_inv_seeds: "cell_inv cfg p (s\<lparr>seed1 := a, seed2 := b\<rparr>) ys P \<longleftrightarrow> cell_inv cfg p s ys P"
  using channels_ok_cong [of "s\<lparr>seed1 := a, seed2 := b\<rparr>" s ys] by (simp add: cell_inv_def)

lemma expent_ok: "0 \<le> mean \<Longrightarrow> \<exists>x t1 t2. Expent cfg mean s1 s2 = Inr (x, t1, t2)"
  by (simp add: Expent_def split_beta)

lemma receiver_ok:
  assumes "parameters_ok cfg p e" and "lp < OBJECTS cfg"
  shows "\<exists>r t1 t2. FindReceiver cfg (of_nat lp) TOPOLOGY_HEXAGON s1 s2 = Some (Inr (r, t1, t2))"
proof -
  have g: "grid_config cfg e" using assms(1) by (simp add: parameters_ok_def)
  have "e * e \<le> 2 ^ 15 * 2 ^ 15" using g unfolding grid_config_def by (intro mult_le_mono) auto
  then have "lp < 2 ^ 32" using assms(2) g by (simp add: grid_config_def)
  then have "unat (of_nat lp :: 32 word) < OBJECTS cfg" using unat_small [of lp] assms(2) by simp
  from hexagon_receiver_correct [OF g this] show ?thesis by blast
qed

lemma place_call_ok:
  assumes "parameters_ok cfg p e" and "lp < OBJECTS cfg" and "cell_inv cfg p s ys P"
  shows "\<exists>s' out. place_call cfg lp term handoff_time msg s = Some (Inr (s', out)) \<and> cell_inv cfg p s' ys P
    \<and> releases lp out = {#channel msg#}"
proof (cases "term \<le> dadd cfg handoff_time (HANDOFF_SHIFT cfg)")
  case True
  then show ?thesis using assms(3) by (simp add: place_call_def releases_def)
next
  case False
  obtain r t1 t2 where "FindReceiver cfg (of_nat lp) TOPOLOGY_HEXAGON (seed1 s) (seed2 s) = Some (Inr (r, t1, t2))"
    using receiver_ok [OF assms(1,2)] by blast
  then show ?thesis using False assms(3) by (simp add: place_call_def Let_def releases_def cell_inv_seeds pcs_types)
qed

lemma accept_call_ok:
  assumes par: "parameters_ok cfg p e" and lp: "lp < OBJECTS cfg" and inv: "cell_inv cfg p s ys P" and f: "fresh_channel env ys"
  shows "\<exists>s' out ys'. accept_call cfg env lp now barrier (s\<lparr>arriving_calls := arriving_calls s + 1\<rparr>) = Some (Inr (s', out))
    \<and> cell_inv cfg p s' ys' (P + releases lp out)"
proof (cases "channel_counter s = 0")
  case True
  let ?s = "s\<lparr>arriving_calls := arriving_calls s + 1, blocked_on_setup := blocked_on_setup s + 1\<rparr>"
  have "cell_inv cfg p ?s ys P" using inv channels_ok_cong [of ?s s ys] by (simp add: cell_inv_def algebra_simps)
  then show ?thesis using True by (auto simp: accept_call_def)
next
  case False
  let ?s0 = "s\<lparr>arriving_calls := arriving_calls s + 1, channel_counter := channel_counter s - 1\<rparr>"
  have c: "close_rounding cfg" using par by (simp add: parameters_ok_def grid_config_def)
  have "\<exists>h. ?s0 = s\<lparr>channel_counter := channel_counter s - 1, arriving_calls := arriving_calls s + 1, arriving_handoffs := h\<rparr>"
    by (rule exI [of _ "arriving_handoffs s"]) simp
  from take_channel [OF inv False f c this]
  obtain i s1 c' where a: "allocation cfg (chan_malloc env) ?s0 = Some (Inr (int i, s1))" and i1: "cell_inv cfg p s1 (ys @ [c']) (P + {#int i#})"
    by blast
  have du: "0 \<le> ta_duration s1" "0 \<le> ta_change s1" using i1 par by (simp_all add: cell_inv_def parameters_ok_def)
  obtain d t1 t2 where d: "Expent cfg (ta_duration s1) (seed1 s1) (seed2 s1) = Inr (d, t1, t2)" using expent_ok [OF du(1)] by blast
  obtain h w1 w2 where h: "Expent cfg (ta_change s1) t1 t2 = Inr (h, w1, w2)" using expent_ok [OF du(2)] by blast
  let ?te = "not_before cfg barrier (dadd cfg now d)" and ?ho = "not_before cfg barrier (dadd cfg now h)"
  let ?s2 = "s1\<lparr>seed1 := w1, seed2 := w2\<rparr>"
  have t: "call_times cfg now barrier s1 = Inr (?te, ?ho, ?s2)" by (simp add: call_times_def d h)
  have i2: "cell_inv cfg p ?s2 (ys @ [c']) (P + {#int i#})" using i1 by (simp add: cell_inv_seeds)
  let ?msg = "(old_content env)\<lparr>cell := - 1, channel := int i, from_cell := of_nat lp, sent_at := now, call_term_time := ?te\<rparr>"
  obtain s' out where pl: "place_call cfg lp ?te ?ho ?msg ?s2 = Some (Inr (s', out))"
    "cell_inv cfg p s' (ys @ [c']) (P + {#int i#})" "releases lp out = {#int i#}"
    using place_call_ok [OF par lp i2, of ?te ?ho ?msg] by auto
  have "accept_call cfg env lp now barrier (s\<lparr>arriving_calls := arriving_calls s + 1\<rparr>) = Some (Inr (s', out))"
    using False a t pl(1) by (simp add: accept_call_def)
  then show ?thesis using pl(2,3) by (intro exI [of _ s'] exI [of _ out] exI [of _ "ys @ [c']"]) simp
qed

lemma handle_call_ok:
  assumes par: "parameters_ok cfg p e" and lp: "lp < OBJECTS cfg" and inv: "cell_inv cfg p s ys P" and f: "fresh_channel env ys"
  shows "\<exists>s' out ys'. handle_call cfg p env lp now barrier new_call s = Some (Inr (s', out)) \<and> cell_inv cfg p s' ys' (P + releases lp out)"
proof -
  have "ta s \<in> {TA p, ddiv cfg (TA p) 2}" using inv by (simp add: cell_inv_def)
  then obtain k where k: "int_of_double (ddiv cfg (TA_DURATION p) (ta s)) = Inr k" using par unfolding parameters_ok_def by blast
  obtain s1 out ys' where a: "accept_call cfg env lp now barrier (s\<lparr>arriving_calls := arriving_calls s + 1\<rparr>) = Some (Inr (s1, out))"
    "cell_inv cfg p s1 ys' (P + releases lp out)"
    using accept_call_ok [OF par lp inv f] by blast
  show ?thesis
  proof (cases new_call)
    case False
    then show ?thesis using k a by (auto simp: handle_call_def)
  next
    case True
    have "0 \<le> ta s1" using a(2) par unfolding cell_inv_def parameters_ok_def by auto
    then obtain x t1 t2 where x: "Expent cfg (ta s1) (seed1 s1) (seed2 s1) = Inr (x, t1, t2)" using expent_ok by blast
    have "cell_inv cfg p (s1\<lparr>seed1 := t1, seed2 := t2\<rparr>) ys' (P + releases lp out)" using a(2) by (simp add: cell_inv_seeds)
    then show ?thesis using True k a(1) x
      by (auto simp: handle_call_def next_call_def releases_def pcs_types intro!: exI [of _ ys'])
  qed
qed

lemma handle_handoff_ok:
  assumes par: "parameters_ok cfg p e" and lp: "lp < OBJECTS cfg" and inv: "cell_inv cfg p s ys P" and f: "fresh_channel env ys"
  shows "\<exists>s' out ys'. handle_handoff cfg env lp now (Some msg) s = Some (Inr (s', out)) \<and> cell_inv cfg p s' ys' (P + releases lp out)"
proof (cases "channel_counter s = 0")
  case True
  let ?s = "s\<lparr>arriving_handoffs := arriving_handoffs s + 1, arriving_calls := arriving_calls s + 1, blocked_on_handoff := blocked_on_handoff s + 1\<rparr>"
  have "cell_inv cfg p ?s ys P" using inv channels_ok_cong [of ?s s ys] by (simp add: cell_inv_def algebra_simps)
  then show ?thesis using True by (auto simp: handle_handoff_def Let_def)
next
  case False
  let ?s0 = "s\<lparr>arriving_handoffs := arriving_handoffs s + 1, arriving_calls := arriving_calls s + 1, channel_counter := channel_counter s - 1\<rparr>"
  have c: "close_rounding cfg" using par by (simp add: parameters_ok_def grid_config_def)
  have "\<exists>h. ?s0 = s\<lparr>channel_counter := channel_counter s - 1, arriving_calls := arriving_calls s + 1, arriving_handoffs := h\<rparr>"
    by (rule exI [of _ "arriving_handoffs s + 1"]) simp
  from take_channel [OF inv False f c this]
  obtain i s1 c' where a: "allocation cfg (chan_malloc env) ?s0 = Some (Inr (int i, s1))" and i1: "cell_inv cfg p s1 (ys @ [c']) (P + {#int i#})"
    by blast
  have du: "0 \<le> ta_change s1" using i1 par by (simp add: cell_inv_def parameters_ok_def)
  obtain h t1 t2 where h: "Expent cfg (ta_change s1) (seed1 s1) (seed2 s1) = Inr (h, t1, t2)" using expent_ok [OF du] by blast
  let ?s2 = "s1\<lparr>seed1 := t1, seed2 := t2\<rparr>"
  have i2: "cell_inv cfg p ?s2 (ys @ [c']) (P + {#int i#})" using i1 by (simp add: cell_inv_seeds)
  show ?thesis
  proof (cases "call_term_time msg \<le> dadd cfg (dadd cfg now h) (HANDOFF_SHIFT cfg)")
    case True
    then show ?thesis using False a h i2
      by (auto simp: handle_handoff_def Let_def releases_def intro!: exI [of _ "ys @ [c']"])
  next
    case later: False
    obtain r w1 w2 where r: "FindReceiver cfg (of_nat lp) TOPOLOGY_HEXAGON t1 t2 = Some (Inr (r, w1, w2))"
      using receiver_ok [OF par lp] by blast
    have i3: "cell_inv cfg p (s1\<lparr>seed1 := w1, seed2 := w2\<rparr>) (ys @ [c']) (P + {#int i#})" using i1 by (simp add: cell_inv_seeds)
    then show ?thesis using False later a h r
      by (auto simp: handle_handoff_def Let_def releases_def pcs_types intro!: exI [of _ "ys @ [c']"])
  qed
qed

section \<open>Start-up\<close>

lemma initial_calls_seeds:
  "initial_calls cfg lp n s = (s', out) \<Longrightarrow> (\<exists>a b. s' = s\<lparr>seed1 := a, seed2 := b\<rparr>) \<and> releases lp out = {#} \<and> length out = n"
proof (induction n arbitrary: s s' out)
  case 0
  then have "s' = s\<lparr>seed1 := seed1 s, seed2 := seed2 s\<rparr>" by simp
  then have "\<exists>a b. s' = s\<lparr>seed1 := a, seed2 := b\<rparr>" by (intro exI)
  then show ?case using 0 by simp
next
  case (Suc n)
  obtain u t1 t2 where R: "Random cfg (seed1 s) (seed2 s) = (u, t1, t2)" by (metis prod_cases3)
  obtain s1 out1 where r: "initial_calls cfg lp n (s\<lparr>seed1 := t1, seed2 := t2\<rparr>) = (s1, out1)" by (metis surj_pair)
  from Suc.IH [OF r] show ?case using Suc.prems R r by (auto simp: releases_def pcs_types)
qed

lemma handle_init_ok:
  assumes par: "parameters_ok cfg p e" and env: "state_allocated env" "bitmap_allocated env"
  shows "\<exists>s' out. handle_init cfg p env lp = Inr (s', out) \<and> cell_inv cfg p s' [] {#} \<and> releases lp out = {#}"
proof -
  let ?s = "initial_cell cfg p env lp" and ?n = "CHANNELS_PER_CELL p"
  have n: "unat (of_nat ?n :: 32 word) = ?n" by (rule unat_small) (use par in \<open>simp add: parameters_ok_def\<close>)
  have t: "ta ?s \<in> {TA p, ddiv cfg (TA p) 2}" by (simp add: initial_cell_def initial_ta_def Let_def)
  obtain k where k: "int_of_double (ddiv cfg (TA_DURATION p) (ta ?s)) = Inr k" using t par unfolding parameters_ok_def by blast
  have "\<not> CHECK_CHANNEL (channel_state ?s) i" if "i < ?n" for i
  proof -
    have "i div 32 < ?n div 32 + 1" using div_le_mono [of i ?n 32] that by linarith
    then show ?thesis by (simp add: CHECK_CHANNEL_bit initial_cell_def Let_def n)
  qed
  moreover have "channels_per_cell ?s = ?n" "heap ?s = heap zero_state" "channels ?s = None"
    by (simp_all add: initial_cell_def zero_state_def Let_def)
  ultimately have "channels_ok ?s []" by (auto simp: channels_ok_def ids_of_def chain_def nlist_def)
  then have inv: "cell_inv cfg p ?s [] {#}"
    using t n by (simp add: cell_inv_def ids_of_def initial_cell_def zero_state_def Let_def)
  obtain s' out where c: "initial_calls cfg lp (nat k) ?s = (s', out)" by (metis surj_pair)
  from initial_calls_seeds [OF c] inv show ?thesis using env k c by (auto simp: handle_init_def Let_def cell_inv_seeds)
qed

section \<open>Cells never abort\<close>

definition time_ok :: "config \<Rightarrow> real \<Rightarrow> bool" where
  "time_ok cfg now \<longleftrightarrow> (\<exists>b. pcs_barrier cfg now = Inr b)"

text \<open>
  The life of a cell: it starts, takes calls at any time, and gives channels back when one of the events it
  has scheduled for itself comes, in any order.
\<close>

definition fresh_for :: "pcs_environment \<Rightarrow> lp_state \<Rightarrow> bool" where
  "fresh_for env s \<longleftrightarrow> (\<exists>c sir. new_channel (chan_malloc env) = Some c \<and> new_sir (chan_malloc env) = Some sir
     \<and> (\<forall>ys. chain (chan_links (heap s)) (channels s) ys \<longrightarrow> c \<notin> set ys))"

inductive cell_reach :: "config \<Rightarrow> pcs_config \<Rightarrow> nat \<Rightarrow> lp_state \<Rightarrow> int multiset \<Rightarrow> bool" for cfg p lp where
  reach_init: "ProcessEvent cfg p env lp now INIT content None = Some (Inr (s, out)) \<Longrightarrow> cell_reach cfg p lp s (releases lp out)"
| reach_call: "cell_reach cfg p lp s P \<Longrightarrow> kind \<in> {START_CALL, HANDOFF_IN, HANDOFF_RECV} \<Longrightarrow> fresh_for env s \<Longrightarrow>
    ProcessEvent cfg p env lp now kind (Some msg) (Some s) = Some (Inr (s', out)) \<Longrightarrow> cell_reach cfg p lp s' (P + releases lp out)"
| reach_end: "cell_reach cfg p lp s P \<Longrightarrow> kind \<in> {END_CALL, HANDOFF_LEAVE} \<Longrightarrow> channel msg \<in># P \<Longrightarrow>
    ProcessEvent cfg p env lp now kind (Some msg) (Some s) = Some (Inr (s', out)) \<Longrightarrow>
    cell_reach cfg p lp s' (P - {#channel msg#} + releases lp out)"

lemma cell_inv_clock:
  "cell_inv cfg p (s\<lparr>lvt := now, executed_events := x\<rparr>) ys P \<longleftrightarrow> cell_inv cfg p s ys P"
  using channels_ok_cong [of "s\<lparr>lvt := now, executed_events := x\<rparr>" s ys] by (simp add: cell_inv_def)

lemma process_call:
  assumes par: "parameters_ok cfg p e" and lp: "lp < OBJECTS cfg" and inv: "cell_inv cfg p s ys P" and f: "fresh_for env s"
    and t: "time_ok cfg now" and k: "kind \<in> {START_CALL, HANDOFF_IN, HANDOFF_RECV}"
  shows "\<exists>s' out ys'. ProcessEvent cfg p env lp now kind (Some msg) (Some s) = Some (Inr (s', out)) \<and> cell_inv cfg p s' ys' (P + releases lp out)"
proof -
  let ?s = "s\<lparr>lvt := now, executed_events := executed_events s + 1\<rparr>"
  have i: "cell_inv cfg p ?s ys P" using inv by (simp add: cell_inv_clock)
  have fr: "fresh_channel env ys" using f inv by (auto simp: fresh_for_def fresh_channel_def cell_inv_def channels_ok_def)
  obtain b where b: "pcs_barrier cfg now = Inr b" using t by (auto simp: time_ok_def)
  show ?thesis using handle_call_ok [OF par lp i fr, of now b] handle_handoff_ok [OF par lp i fr, of now msg] k b
    by (auto simp: ProcessEvent_def pcs_types)
qed

lemma process_end:
  assumes par: "parameters_ok cfg p e" and inv: "cell_inv cfg p s ys P" and ch: "channel msg \<in># P"
    and t: "time_ok cfg now" and k: "kind \<in> {END_CALL, HANDOFF_LEAVE}"
  shows "\<exists>s' ys'. ProcessEvent cfg p env lp now kind (Some msg) (Some s) = Some (Inr (s', [])) \<and> cell_inv cfg p s' ys' (P - {#channel msg#})"
proof -
  let ?s = "s\<lparr>lvt := now, executed_events := executed_events s + 1\<rparr>"
  have i: "cell_inv cfg p ?s ys P" using inv by (simp add: cell_inv_clock)
  have n: "CHANNELS_PER_CELL p < 2 ^ 31" using par by (simp add: parameters_ok_def)
  obtain b where b: "pcs_barrier cfg now = Inr b" using t by (auto simp: time_ok_def)
  note g = give_back [OF i ch n]
  have "\<exists>s1 ys'. handle_end msg ?s = Some (Inr (s1, [])) \<and> cell_inv cfg p s1 ys' (P - {#channel msg#})"
    using g [of "?s\<lparr>channel_counter := channel_counter ?s + 1, complete_calls := complete_calls ?s + 1\<rparr>"] by (auto simp: handle_end_def)
  moreover have "\<exists>s1 ys'. handle_leave msg ?s = Some (Inr (s1, [])) \<and> cell_inv cfg p s1 ys' (P - {#channel msg#})"
    using g [of "?s\<lparr>channel_counter := channel_counter ?s + 1, leaving_handoffs := leaving_handoffs ?s + 1\<rparr>"] by (auto simp: handle_leave_def)
  ultimately show ?thesis using k b by (auto simp: ProcessEvent_def pcs_types)
qed

lemma process_time: "ProcessEvent cfg p env lp now kind content st = Some (Inr r) \<Longrightarrow> time_ok cfg now"
  by (cases "pcs_barrier cfg now") (simp_all add: ProcessEvent_def time_ok_def)

lemma reach_inv:
  assumes "cell_reach cfg p lp s P" and par: "parameters_ok cfg p e" and lp: "lp < OBJECTS cfg"
  shows "\<exists>ys. cell_inv cfg p s ys P"
  using assms(1)
proof (induction rule: cell_reach.induct)
  case (reach_init env now content s out)
  obtain b where b: "pcs_barrier cfg now = Inr b" using process_time [OF reach_init] by (auto simp: time_ok_def)
  then have h: "handle_init cfg p env lp = Inr (s, out)" using reach_init by (simp add: ProcessEvent_def)
  then have "state_allocated env" "bitmap_allocated env"
    by (auto simp: handle_init_def Let_def and_then_eq_Inr split: if_splits)
  from handle_init_ok [OF par this, of lp] show ?case using h by auto
next
  case (reach_call s P kind env now msg s' out)
  then obtain ys where "cell_inv cfg p s ys P" by blast
  from process_call [OF par lp this reach_call(3) process_time [OF reach_call(4)] reach_call(2), of msg] show ?case
    using reach_call(4) by auto
next
  case (reach_end s P kind msg env now s' out)
  then obtain ys where "cell_inv cfg p s ys P" by blast
  from process_end [OF par this reach_end(3) process_time [OF reach_end(4)] reach_end(2), of env lp] show ?case
    using reach_end(4) by auto
qed

text \<open>
  Property C28. In every run of a cell its channel counter, its bitmap, its list and the events it has
  scheduled for itself agree, and no call is lost: the calls that arrived were blocked, have ended, have
  left, or hold a channel. So the handler aborts on none of its events: a new call or a handoff is
  taken, and an end or a leaving finds its channel.
\<close>

theorem cell_never_aborts:
  assumes "cell_reach cfg p lp s P" and "parameters_ok cfg p e" and "lp < OBJECTS cfg" and "time_ok cfg now"
  shows "(\<exists>ys. cell_inv cfg p s ys P)
    \<and> (\<forall>kind env msg. kind \<in> {START_CALL, HANDOFF_IN, HANDOFF_RECV} \<and> fresh_for env s \<longrightarrow>
        (\<exists>s' out. ProcessEvent cfg p env lp now kind (Some msg) (Some s) = Some (Inr (s', out)) \<and> cell_reach cfg p lp s' (P + releases lp out)))
    \<and> (\<forall>kind env msg. kind \<in> {END_CALL, HANDOFF_LEAVE} \<and> channel msg \<in># P \<longrightarrow>
        (\<exists>s'. ProcessEvent cfg p env lp now kind (Some msg) (Some s) = Some (Inr (s', [])) \<and> cell_reach cfg p lp s' (P - {#channel msg#})))"
proof -
  obtain ys where inv: "cell_inv cfg p s ys P" using reach_inv [OF assms(1-3)] by blast
  have 1: "\<exists>s' out. ProcessEvent cfg p env lp now kind (Some msg) (Some s) = Some (Inr (s', out)) \<and> cell_reach cfg p lp s' (P + releases lp out)"
    if "kind \<in> {START_CALL, HANDOFF_IN, HANDOFF_RECV} \<and> fresh_for env s" for kind env msg
    using process_call [OF assms(2,3) inv _ assms(4), of env kind msg] that reach_call [OF assms(1), of kind env now msg] by blast
  have 2: "\<exists>s'. ProcessEvent cfg p env lp now kind (Some msg) (Some s) = Some (Inr (s', [])) \<and> cell_reach cfg p lp s' (P - {#channel msg#})"
    if "kind \<in> {END_CALL, HANDOFF_LEAVE} \<and> channel msg \<in># P" for kind env msg
    using process_end [OF assms(2) inv _ assms(4), of msg kind env lp] that reach_end [OF assms(1), of kind msg env now _ "[]"] by auto
  show ?thesis using inv 1 2 by blast
qed

definition demo_pcs :: pcs_config where
  "demo_pcs = \<lparr>CHANNELS_PER_CELL = 2, TA = 1, TA_DURATION = 3, TA_CHANGE = 5\<rparr>"

definition demo_env :: pcs_environment where
  "demo_env = \<lparr>state_allocated = True, bitmap_allocated = True, old_bitmap = (\<lambda>_. 0),
     chan_malloc = \<lparr>new_channel = Some 7, new_sir = Some \<lparr>fading = 0, power = 0\<rparr>\<rparr>,
     old_content = \<lparr>cell = 0, from_cell = 0, sent_at = 0, channel = 0, call_term_time = 0\<rparr>\<rparr>"

lemma demo_parameters: "parameters_ok demo_grid demo_pcs 3"
  using demo_grid by (auto simp: parameters_ok_def demo_pcs_def demo_grid_def ddiv_def int_of_double_def fits_int32_def trunc_double_def)

text \<open>A cell starts, takes a call, and the end of that call finds its channel.\<close>

theorem cell_never_aborts_witness:
  "\<exists>s P s' out. cell_reach demo_grid demo_pcs 4 s P \<and> (\<exists>ys. cell_inv demo_grid demo_pcs s ys P)
     \<and> ProcessEvent demo_grid demo_pcs demo_env 4 1 START_CALL (Some (old_content demo_env)) (Some s) = Some (Inr (s', out))"
proof -
  have lp: "4 < OBJECTS demo_grid" and t: "time_ok demo_grid 1" and b: "pcs_barrier demo_grid 0 = Inr 0"
    by (simp_all add: demo_grid_def time_ok_def pcs_barrier_def)
  obtain s out where h: "handle_init demo_grid demo_pcs demo_env 4 = Inr (s, out)" "cell_inv demo_grid demo_pcs s [] {#}"
    using handle_init_ok [OF demo_parameters, of demo_env 4] by (auto simp: demo_env_def)
  have r: "cell_reach demo_grid demo_pcs 4 s (releases 4 out)"
    by (rule reach_init [of _ _ demo_env 4 0 None]) (simp add: ProcessEvent_def b h(1))
  have "chain (chan_links (heap s)) (channels s) []" using h(2) by (simp add: cell_inv_def channels_ok_def)
  from chain_newest [OF this] have "channels s = None" by simp
  then have "7 \<notin> set ys" if "chain (chan_links (heap s)) (channels s) ys" for ys
    using chain_newest [OF that] by (auto split: if_splits)
  then have "fresh_for demo_env s" by (auto simp: fresh_for_def demo_env_def)
  note c = cell_never_aborts [OF r demo_parameters lp t]
  have "START_CALL \<in> {START_CALL, HANDOFF_IN, HANDOFF_RECV}" by simp
  with \<open>fresh_for demo_env s\<close> obtain s' out' where
    "ProcessEvent demo_grid demo_pcs demo_env 4 1 START_CALL (Some (old_content demo_env)) (Some s) = Some (Inr (s', out'))"
    using c [THEN conjunct2, THEN conjunct1, THEN spec, THEN spec, THEN spec, of START_CALL demo_env "old_content demo_env"] by auto
  then show ?thesis using r c [THEN conjunct1] by blast
qed

section \<open>The conservative build\<close>

text \<open>
  The epoch of \<open>now\<close> is the number \<open>k\<close> the code computes; the next one starts at \<open>(k + 1) * LOOKAHEAD\<close>. The rounding
  is monotone, and exact on the start of the two epochs.
\<close>

definition epoch_times :: "config \<Rightarrow> real \<Rightarrow> int \<Rightarrow> bool" where
  "epoch_times cfg now k \<longleftrightarrow> int_of_double (ddiv cfg now (LOOKAHEAD cfg)) = Inr k \<and> mono (rnd cfg) \<and> rnd cfg 0 = 0
     \<and> rnd cfg (real_of_int k * LOOKAHEAD cfg) = real_of_int k * LOOKAHEAD cfg
     \<and> rnd cfg (real_of_int (k + 1) * LOOKAHEAD cfg) = real_of_int (k + 1) * LOOKAHEAD cfg"

lemma dadd_above:
  assumes "mono (rnd cfg)" and "rnd cfg b = b" and "b \<le> x" and "0 \<le> y"
  shows "b \<le> dadd cfg x y"
proof -
  have "b \<le> x + y" using assms(3,4) by linarith
  then have "rnd cfg b \<le> rnd cfg (x + y)" by (rule monoD [OF assms(1)])
  then show ?thesis using assms(2) by (simp add: dadd_def)
qed

lemma rnd_positive: "mono (rnd cfg) \<Longrightarrow> rnd cfg 0 = 0 \<Longrightarrow> 0 \<le> x \<Longrightarrow> 0 \<le> rnd cfg x"
  by (metis monoD)

lemma pcs_barrier_next_epoch:
  assumes "\<not> SPECULATION cfg" and "epoch_times cfg now k" and "pcs_barrier cfg now = Inr barrier"
  shows "real_of_int (k + 1) * LOOKAHEAD cfg \<le> barrier"
proof -
  have e: "mono (rnd cfg)" "rnd cfg 0 = 0" "rnd cfg (real_of_int k * LOOKAHEAD cfg) = real_of_int k * LOOKAHEAD cfg"
    "rnd cfg (real_of_int (k + 1) * LOOKAHEAD cfg) = real_of_int (k + 1) * LOOKAHEAD cfg"
    and k: "int_of_double (ddiv cfg now (LOOKAHEAD cfg)) = Inr k"
    using assms(2) by (simp_all add: epoch_times_def)
  have "real_of_int k * LOOKAHEAD cfg + LOOKAHEAD cfg = real_of_int (k + 1) * LOOKAHEAD cfg" by (simp add: algebra_simps)
  then have "dadd cfg (dmul cfg (real_of_int k) (LOOKAHEAD cfg)) (LOOKAHEAD cfg) = real_of_int (k + 1) * LOOKAHEAD cfg"
    using e(3,4) by (simp add: dadd_def dmul_def)
  then have "barrier = dadd cfg (real_of_int (k + 1) * LOOKAHEAD cfg) (rnd cfg (1 / 10 ^ 8))"
    using assms(1,3) k by (simp add: pcs_barrier_def)
  moreover have "0 \<le> rnd cfg (1 / 10 ^ 8)" by (rule rnd_positive [OF e(1,2)]) simp
  ultimately show ?thesis using dadd_above [OF e(1,4)] by simp
qed

definition held_back :: "config \<Rightarrow> nat \<Rightarrow> real \<Rightarrow> real \<Rightarrow> scheduled list \<Rightarrow> scheduled \<Rightarrow> bool" where
  "held_back cfg lp now b out e \<longleftrightarrow> of_type e \<in> {END_CALL, HANDOFF_LEAVE} \<and> to_object e = int lp \<and> b \<le> at_time e
    \<or> of_type e = START_CALL \<and> to_object e = int lp \<and> dadd cfg now (LOOKAHEAD cfg) \<le> at_time e
    \<or> of_type e = HANDOFF_IN \<and> b \<le> at_time e \<and> (\<exists>l \<in> set out. of_type l = HANDOFF_LEAVE \<and> to_object l = int lp
        \<and> with_content l = with_content e \<and> at_time e = dadd cfg (at_time l) (HANDOFF_SHIFT cfg))"

lemma held_back_more: "held_back cfg lp now b out e \<Longrightarrow> set out \<subseteq> set out' \<Longrightarrow> held_back cfg lp now b out' e"
  by (auto simp: held_back_def)

lemma place_call_held:
  assumes "place_call cfg lp te ho msg s0 = Some (Inr (s1, o1))" and "b \<le> te" "b \<le> ho" "b \<le> dadd cfg ho (HANDOFF_SHIFT cfg)"
  shows "\<forall>e \<in> set o1. held_back cfg lp now b o1 e"
proof (cases "te \<le> dadd cfg ho (HANDOFF_SHIFT cfg)")
  case True
  then show ?thesis using assms by (auto simp: place_call_def held_back_def)
next
  case False
  obtain r c where "o1 = [\<lparr>to_object = int lp, at_time = ho, of_type = HANDOFF_LEAVE, with_content = c\<rparr>,
      \<lparr>to_object = r, at_time = dadd cfg ho (HANDOFF_SHIFT cfg), of_type = HANDOFF_IN, with_content = c\<rparr>]"
    using assms(1) False by (auto simp: place_call_def run_then_eq_Inr Let_def)
  then show ?thesis using assms(3,4) by (simp add: held_back_def)
qed

text \<open>
  Property C31. Without speculation a call schedules nothing inside of the epoch of now: its end, its leaving and its arrival
  in the neighbour come when the next epoch starts or later, the arrival one shift behind the leaving, and the next
  call of the cell comes at least one lookahead from now.
\<close>

theorem conservative_lookahead:
  assumes "\<not> SPECULATION cfg" and "kind = START_CALL \<or> kind = HANDOFF_IN" and "epoch_times cfg now k"
    and "ProcessEvent cfg p env lp now kind content (Some s) = Some (Inr (s', out))" and "e \<in> set out"
  shows "held_back cfg lp now (real_of_int (k + 1) * LOOKAHEAD cfg) out e"
proof -
  let ?b = "real_of_int (k + 1) * LOOKAHEAD cfg"
  have r: "mono (rnd cfg)" "rnd cfg 0 = 0" "rnd cfg ?b = ?b" using assms(3) by (simp_all add: epoch_times_def)
  obtain barrier where barrier: "pcs_barrier cfg now = Inr barrier"
    using assms(4) by (cases "pcs_barrier cfg now") (simp_all add: ProcessEvent_def)
  note bb = pcs_barrier_next_epoch [OF assms(1,3) barrier]
  have nb: "x \<le> not_before cfg x t" for x t using assms(1) by (simp add: not_before_def)
  have accept: "\<forall>e \<in> set o1. held_back cfg lp now ?b o1 e"
    if ac: "accept_call cfg env lp now barrier s0 = Some (Inr (s1, o1))" for s0 s1 o1
  proof (cases "channel_counter s0 = 0")
    case True
    then show ?thesis using ac by (simp add: accept_call_def)
  next
    case False
    then obtain a st te ho s2 where c: "call_times cfg now barrier st = Inr (te, ho, s2)"
      and pl: "place_call cfg lp te ho ((old_content env)\<lparr>cell := - 1, channel := a, from_cell := of_nat lp, sent_at := now, call_term_time := te\<rparr>) s2
        = Some (Inr (s1, o1))"
      using ac by (auto simp: accept_call_def run_then_eq_Inr)
    have "barrier \<le> te" "barrier \<le> ho" using c nb by (auto simp: call_times_def and_then_eq_Inr)
    then have h: "?b \<le> te" "?b \<le> ho" using bb by linarith+
    have "0 \<le> HANDOFF_SHIFT cfg" unfolding HANDOFF_SHIFT_def by (rule rnd_positive [OF r(1,2)]) simp
    with h(2) have "?b \<le> dadd cfg ho (HANDOFF_SHIFT cfg)" by (rule dadd_above [OF r(1,3)])
    then show ?thesis by (rule place_call_held [OF pl h])
  qed
  have call: "\<forall>e \<in> set o1. held_back cfg lp now ?b o1 e" if hc: "handle_call cfg p env lp now barrier new s0 = Some (Inr (s1, o1))" for new s0 s1 o1
  proof -
    obtain i s2 o2 where ac: "accept_call cfg env lp now barrier (s0\<lparr>arriving_calls := arriving_calls s0 + 1\<rparr>) = Some (Inr (s2, o2))"
      and rest: "(if new then Some (and_then (next_call cfg lp now i s2) (\<lambda>(s3, o3). Inr (s3, o2 @ o3))) else Some (Inr (s2, o2))) = Some (Inr (s1, o1))"
      using hc by (auto simp: handle_call_def run_then_eq_Inr)
    have "\<forall>e \<in> set o3. held_back cfg lp now ?b all e" if "next_call cfg lp now i s2 = Inr (s3, o3)" for s3 o3 all
      using that nb by (auto simp: next_call_def and_then_eq_Inr held_back_def)
    then show ?thesis using accept [OF ac] rest held_back_more
      by (auto simp: and_then_eq_Inr split: if_splits) (metis Un_upper1 set_append)
  qed
  have "\<forall>e \<in> set out. held_back cfg lp now ?b out e"
    using assms(2,4) barrier call by (auto simp: ProcessEvent_def pcs_types)
  then show ?thesis using assms(5) by blast
qed

definition demo_conservative :: config where
  "demo_conservative = demo_grid\<lparr>SPECULATION := False\<rparr>"

lemma demo_conservative_ok: "parameters_ok demo_conservative demo_pcs 3"
  using demo_parameters by (simp add: parameters_ok_def demo_conservative_def grid_config_def close_rounding_def ddiv_def)

lemma start_call_schedules:
  assumes "ProcessEvent cfg p env lp now START_CALL content (Some s) = Some (Inr (s', out))"
  shows "out \<noteq> []"
  using assms by (auto simp: ProcessEvent_def run_then_eq_Inr handle_call_def next_call_def and_then_eq_Inr pcs_types)

theorem conservative_lookahead_witness:
  "\<exists>s s' out e. ProcessEvent demo_conservative demo_pcs demo_env 4 1 START_CALL None (Some s) = Some (Inr (s', out))
     \<and> e \<in> set out \<and> held_back demo_conservative 4 1 2 out e"
proof -
  let ?c = demo_conservative
  have lp: "4 < OBJECTS ?c" and n: "\<not> SPECULATION ?c" by (simp_all add: demo_conservative_def demo_grid_def)
  have b: "pcs_barrier ?c 1 = Inr (2 + 1 / 10 ^ 8)"
    by (simp add: demo_conservative_def demo_grid_def pcs_barrier_def ddiv_def dadd_def dmul_def int_of_double_def fits_int32_def trunc_double_def)
  obtain s where h: "cell_inv ?c demo_pcs s [] {#}"
    using handle_init_ok [OF demo_conservative_ok, of demo_env 4] by (auto simp: demo_env_def)
  have f: "fresh_channel demo_env []" by (simp add: fresh_channel_def demo_env_def)
  let ?s = "s\<lparr>lvt := 1, executed_events := executed_events s + 1\<rparr>"
  have "cell_inv ?c demo_pcs ?s [] {#}" using h by (simp add: cell_inv_clock)
  then obtain s' out where "handle_call ?c demo_pcs demo_env 4 1 (2 + 1 / 10 ^ 8) True ?s = Some (Inr (s', out))"
    using handle_call_ok [OF demo_conservative_ok lp _ f] by blast
  then have r: "ProcessEvent ?c demo_pcs demo_env 4 1 START_CALL None (Some s) = Some (Inr (s', out))"
    by (simp add: ProcessEvent_def b pcs_types)
  obtain e where e: "e \<in> set out" using start_call_schedules [OF r] by (cases out) auto
  have "epoch_times ?c 1 1"
    by (simp add: epoch_times_def demo_conservative_def demo_grid_def ddiv_def int_of_double_def fits_int32_def trunc_double_def mono_def)
  from conservative_lookahead [OF n _ this r e] have "held_back ?c 4 1 2 out e" by (simp add: demo_conservative_def demo_grid_def)
  then show ?thesis using r e by blast
qed

end
