(* ===== verification/Highway.thy ===== *)
theory Highway
  imports Stubs Linked_List
begin

text \<open>
  \<open>models/highway/application.c\<close>: a stretch of a highway per object, with a list of cars for each of the two
  directions, kept in the order in which the cars leave. The links and the contents of the list elements are
  two maps over addresses; a swap of two cars swaps their contents. Counters of type \<open>int\<close> are integers.
\<close>

section \<open>Cars\<close>

record car_content =
  residence :: real
  ctype :: int
  cbuff :: "byte list"

type_synonym contents = "nat \<Rightarrow> car_content"

definition add_car :: "nat links \<Rightarrow> nat \<Rightarrow> nat \<Rightarrow> nat links outcome" where
  "add_car l tail car =
     (if prv l tail = None then Inl Exit_Failure
      else
        let l1 = set_nxt l car (Some tail); l2 = set_prv l1 car (prv l1 tail) in
        case prv l2 car of
          None \<Rightarrow> Inl Undefined
        | Some p \<Rightarrow> Inr (set_prv (set_nxt l2 p (Some car)) tail (Some car)))"

definition del_car :: "nat links \<Rightarrow> nat \<Rightarrow> nat \<Rightarrow> (nat option \<times> nat links) outcome" where
  "del_car l head tail =
     (case nxt l head of
        None \<Rightarrow> Inl Undefined
      | Some car \<Rightarrow>
          if car = tail then Inr (None, l)
          else (case nxt l car of
                  None \<Rightarrow> Inl Undefined
                | Some aux \<Rightarrow> Inr (Some car, set_prv (set_nxt l head (Some aux)) aux (Some head))))"

text \<open>
  The loop of \<open>traversal\<close>: from the tail on, a car that leaves before the one ahead changes places with it, up
  to the first that does not. \<open>tmp\<close> is the content of \<open>temp_buffer\<close>.
\<close>

partial_function (option) traversal_loop ::
  "nat links \<Rightarrow> nat \<Rightarrow> nat \<Rightarrow> bool \<Rightarrow> contents \<times> car_content \<Rightarrow> (contents \<times> car_content) outcome option" where
  "traversal_loop l head t skip st =
     (case prv l t of
        None \<Rightarrow> Some (Inl Undefined)
      | Some p \<Rightarrow>
          if p = head then Some (Inr st)
          else (case st of (m, tmp) \<Rightarrow>
            if \<not> skip \<and> residence (m t) < residence (m p)
            then traversal_loop l head p skip (m(p := m t, t := m p), m p)
            else traversal_loop l head p True (m, m p)))"

definition traversal :: "nat links \<Rightarrow> nat \<Rightarrow> nat \<Rightarrow> contents \<times> car_content \<Rightarrow> (contents \<times> car_content) outcome option" where
  "traversal l head tail st =
     (case prv l tail of
        None \<Rightarrow> Some (Inl Undefined)
      | Some p \<Rightarrow> if p = head then Some (Inr st) else traversal_loop l head p False st)"

section \<open>The object\<close>

record side =
  head_at :: nat
  tail_at :: nat
  load :: int

record highway_state =
  event_count :: int
  seed1 :: "32 word"
  seed2 :: "32 word"
  right :: side
  left :: side
  temp_buffer :: car_content
  car_links :: "nat links"
  cars :: contents

record scheduled =
  to_object :: nat
  at_time :: real
  of_type :: int
  with_type :: "int option"

definition CAR_TRAVERSAL_RIGHT :: int where "CAR_TRAVERSAL_RIGHT = 2"
definition CAR_TRAVERSAL_LEFT :: int where "CAR_TRAVERSAL_LEFT = 3"
definition CAR_LEAVING_RIGHT :: int where "CAR_LEAVING_RIGHT = 4"
definition CAR_LEAVING_LEFT :: int where "CAR_LEAVING_LEFT = 5"

definition MAX_CAR_COUNT :: int where "MAX_CAR_COUNT = 1000 div 40 * 3"
definition INITIAL_CARS :: nat where "INITIAL_CARS = nat MAX_CAR_COUNT"

definition car_class :: "config \<Rightarrow> real \<Rightarrow> int" where
  "car_class cfg u = (if u \<le> rnd cfg (33 / 100) then 0 else if u \<le> rnd cfg (66 / 100) then 1 else 2)"

definition mean_time :: "config \<Rightarrow> real" where "mean_time cfg = dmul cfg (LOOKAHEAD cfg) 12"

text \<open>The first cars of one direction: the half of the objects with the larger numbers starts with fewer.\<close>

fun initial_cars :: "config \<Rightarrow> nat \<Rightarrow> int \<Rightarrow> nat \<Rightarrow> 32 word \<times> 32 word \<Rightarrow> (scheduled list \<times> 32 word \<times> 32 word) outcome" where
  "initial_cars cfg lp kind 0 seeds = Inr ([], seeds)"
| "initial_cars cfg lp kind (Suc n) (s1, s2) =
     and_then (Expent cfg (mean_time cfg) s1 s2) (\<lambda>(x, t1, t2).
     let (u, w) = Random cfg t1 t2 in
     and_then (initial_cars cfg lp kind n w) (\<lambda>(out, w2).
       Inr (\<lparr>to_object = lp, at_time = dmul cfg (rnd cfg (1 / 1000)) x, of_type = kind, with_type = Some (car_class cfg u)\<rparr> # out, w2)))"

definition first_cars :: "config \<Rightarrow> nat \<Rightarrow> nat" where
  "first_cars cfg lp = (if lp < OBJECTS cfg div 2 then INITIAL_CARS else INITIAL_CARS - INITIAL_CARS div 2)"

text \<open>The addresses of the four sentinels lie in the struct \<open>malloc\<close> returns; \<open>base\<close> is the struct.\<close>

definition empty_sides :: "nat list \<Rightarrow> nat links \<Rightarrow> nat links" where
  "empty_sides b l = init_sentinels (init_sentinels l (b ! 0) (b ! 1)) (b ! 2) (b ! 3)"

definition handle_init :: "config \<Rightarrow> nat list option \<Rightarrow> highway_state \<Rightarrow> nat \<Rightarrow> (highway_state \<times> scheduled list) outcome" where
  "handle_init cfg sentinels old lp =
     (case sentinels of
        None \<Rightarrow> Inl Exit_Failure
      | Some b \<Rightarrow>
          let s1 = of_nat lp + 1 in
          and_then (initial_cars cfg lp CAR_TRAVERSAL_RIGHT (first_cars cfg lp) (s1, s1 XOR s1)) (\<lambda>(out1, w).
          and_then (initial_cars cfg lp CAR_TRAVERSAL_LEFT (first_cars cfg lp) w) (\<lambda>(out2, t1, t2).
            Inr (old\<lparr>event_count := 0, seed1 := t1, seed2 := t2, right := \<lparr>head_at = b ! 0, tail_at = b ! 1, load = 0\<rparr>,
                left := \<lparr>head_at = b ! 2, tail_at = b ! 3, load = 0\<rparr>, car_links := empty_sides b (car_links old)\<rparr>, out1 @ out2))))"

section \<open>Cars that enter and leave\<close>

definition right_dest :: "config \<Rightarrow> nat \<Rightarrow> nat" where
  "right_dest cfg lp =
     (let half = OBJECTS cfg div 2; dest = lp + 1 in
      if lp < half \<and> dest \<ge> half then 0 else if dest \<ge> OBJECTS cfg then half else dest)"

definition left_dest :: "config \<Rightarrow> nat \<Rightarrow> nat" where
  "left_dest cfg lp = (if int lp - 1 > - 1 then nat (int lp - 1) else OBJECTS cfg - 1)"

definition crossing_time :: "config \<Rightarrow> real \<Rightarrow> int \<Rightarrow> int \<Rightarrow> highway_state \<Rightarrow> (real \<times> 32 word \<times> 32 word) outcome" where
  "crossing_time cfg now tested counted s =
     (let scaling = (if tested \<le> MAX_CAR_COUNT then 1 else ddiv cfg (real_of_int MAX_CAR_COUNT) (real_of_int counted)) in
      and_then (Expent cfg (mean_time cfg) (seed1 s) (seed2 s)) (\<lambda>(x, t1, t2).
        let t = dadd cfg now (dmul cfg (ddiv cfg 1 scaling) x) in
        Inr (if \<not> SPECULATION cfg \<and> t < dadd cfg now (LOOKAHEAD cfg) then dadd cfg now (LOOKAHEAD cfg) else t, t1, t2)))"

text \<open>
  A car enters one direction: \<open>sd\<close> is that direction after its load has been raised, \<open>tested\<close> the load the code
  compares with the limit, \<open>car\<close> and \<open>old\<close> the address and the memory \<open>malloc\<close> gives.
\<close>

definition enter_side ::
  "config \<Rightarrow> real \<Rightarrow> int \<Rightarrow> int \<Rightarrow> side \<Rightarrow> (nat \<times> byte list) option \<Rightarrow> highway_state \<Rightarrow> (real \<times> highway_state) outcome option" where
  "enter_side cfg now ty tested sd new s =
     (case new of
        None \<Rightarrow> Some (Inl Exit_Failure)
      | Some (car, old) \<Rightarrow>
          (case and_then (crossing_time cfg now tested (load sd) s) (\<lambda>(t, t1, t2).
                and_then (add_car (car_links s) (tail_at sd) car) (\<lambda>l. Inr (t, t1, t2, l))) of
             Inl e \<Rightarrow> Some (Inl e)
           | Inr (t, t1, t2, l) \<Rightarrow>
               map_option (\<lambda>res. and_then res (\<lambda>(m, tmp).
                   Inr (t, s\<lparr>seed1 := t1, seed2 := t2, car_links := l, cars := m, temp_buffer := tmp\<rparr>)))
                 (traversal l (head_at sd) (tail_at sd)
                   ((cars s)(car := \<lparr>residence = t, ctype = ty, cbuff = old\<rparr>), temp_buffer s))))"

definition leave_side :: "side \<Rightarrow> highway_state \<Rightarrow> highway_state outcome option" where
  "leave_side sd s =
     (case del_car (car_links s) (head_at sd) (tail_at sd) of
        Inl e \<Rightarrow> Some (Inl e)
      | Inr (None, l) \<Rightarrow> Some (Inl Exit_Failure)
      | Inr (Some car, l) \<Rightarrow>
          map_option (\<lambda>res. and_then res (\<lambda>(m, tmp). Inr (s\<lparr>car_links := l, cars := m, temp_buffer := tmp\<rparr>)))
            (traversal l (head_at sd) (tail_at sd) (cars s, temp_buffer s)))"

section \<open>The handler\<close>

definition one_more :: "side \<Rightarrow> side" where "one_more sd = sd\<lparr>load := load sd + 1\<rparr>"
definition one_less :: "side \<Rightarrow> side" where "one_less sd = sd\<lparr>load := load sd - 1\<rparr>"

text \<open>To the left the code compares the load of the right side with the limit.\<close>

definition enter_right ::
  "config \<Rightarrow> nat \<Rightarrow> real \<Rightarrow> int \<Rightarrow> (nat \<times> byte list) option \<Rightarrow> highway_state \<Rightarrow> (highway_state \<times> scheduled list) outcome option" where
  "enter_right cfg lp now ty new s =
     (let sd = one_more (right s) in
      map_option (\<lambda>res. and_then res (\<lambda>(t, s1). Inr (s1,
          [\<lparr>to_object = lp, at_time = t, of_type = CAR_LEAVING_RIGHT, with_type = None\<rparr>,
           \<lparr>to_object = right_dest cfg lp, at_time = t, of_type = CAR_TRAVERSAL_RIGHT, with_type = Some ty\<rparr>])))
        (enter_side cfg now ty (load sd) sd new (s\<lparr>right := sd\<rparr>)))"

definition enter_left ::
  "config \<Rightarrow> nat \<Rightarrow> real \<Rightarrow> int \<Rightarrow> (nat \<times> byte list) option \<Rightarrow> highway_state \<Rightarrow> (highway_state \<times> scheduled list) outcome option" where
  "enter_left cfg lp now ty new s =
     (let sd = one_more (left s) in
      map_option (\<lambda>res. and_then res (\<lambda>(t, s1). Inr (s1,
          [\<lparr>to_object = lp, at_time = t, of_type = CAR_LEAVING_LEFT, with_type = None\<rparr>,
           \<lparr>to_object = left_dest cfg lp, at_time = t, of_type = CAR_TRAVERSAL_LEFT, with_type = Some ty\<rparr>])))
        (enter_side cfg now ty (load (right s)) sd new (s\<lparr>left := sd\<rparr>)))"

definition count_event :: "highway_state \<times> scheduled list \<Rightarrow> highway_state \<times> scheduled list" where
  "count_event = (\<lambda>(s, out). (s\<lparr>event_count := event_count s + 1\<rparr>, out))"

text \<open>
  \<open>content\<close> is the class of the car the event carries, \<open>state\<close> is \<open>None\<close> until \<open>INIT\<close>, when \<open>old\<close> is what the memory
  held.
\<close>

definition ProcessEvent ::
  "config \<Rightarrow> nat list option \<Rightarrow> highway_state \<Rightarrow> (nat \<times> byte list) option \<Rightarrow> nat \<Rightarrow> real \<Rightarrow> int \<Rightarrow> int option \<Rightarrow> highway_state option
   \<Rightarrow> (highway_state \<times> scheduled list) outcome option" where
  "ProcessEvent cfg sentinels old new lp now kind content state =
     map_option (\<lambda>res. and_then res (\<lambda>r. Inr (count_event r)))
       (if kind = INIT then Some (handle_init cfg sentinels old lp)
        else if kind \<notin> {CAR_TRAVERSAL_RIGHT, CAR_LEAVING_RIGHT, CAR_TRAVERSAL_LEFT, CAR_LEAVING_LEFT} then Some (Inl Exit_Failure)
        else case state of
          None \<Rightarrow> Some (Inl Undefined)
        | Some s \<Rightarrow>
            if kind = CAR_LEAVING_RIGHT then
              map_option (\<lambda>res. and_then res (\<lambda>s1. Inr (s1, []))) (leave_side (right s) (s\<lparr>right := one_less (right s)\<rparr>))
            else if kind = CAR_LEAVING_LEFT then
              map_option (\<lambda>res. and_then res (\<lambda>s1. Inr (s1, []))) (leave_side (left s) (s\<lparr>left := one_less (left s)\<rparr>))
            else (case content of
                None \<Rightarrow> Some (Inl Undefined)
              | Some ty \<Rightarrow>
                  if kind = CAR_TRAVERSAL_RIGHT then enter_right cfg lp now ty new s else enter_left cfg lp now ty new s))"

section \<open>The traversal sorts one car in\<close>

text \<open>The contents from the tail on.\<close>

fun sift :: "car_content list \<Rightarrow> car_content list" where
  "sift (x # y # zs) = (if residence x < residence y then y # sift (x # zs) else x # y # zs)"
| "sift xs = xs"

lemma sift_mset: "mset (sift xs) = mset xs"
  by (induction xs rule: sift.induct) auto

lemma sift_insert:
  "sorted_by residence cs \<Longrightarrow> rev (sift (x # rev cs)) = insert_by residence x cs"
proof (induction cs rule: rev_induct)
  case Nil
  then show ?case by simp
next
  case (snoc c cs)
  then have s: "sorted_by residence cs" and le: "\<forall>y \<in> set cs. residence y \<le> residence c" by (auto simp: sorted_by_append)
  show ?case
  proof (cases "residence x < residence c")
    case True
    then have "rev (sift (x # rev (cs @ [c]))) = insert_by residence x cs @ [c]" using snoc.IH [OF s] by simp
    also have "\<dots> = insert_by residence x (cs @ [c])" using True
      by (simp add: insert_by_takeWhile takeWhile_append dropWhile_append)
    finally show ?thesis .
  next
    case False
    then have "\<forall>y \<in> set (cs @ [c]). residence y \<le> residence x" using le by auto
    then have "insert_by residence x (cs @ [c]) = (cs @ [c]) @ [x]" by (rule insert_by_last)
    then show ?thesis using False by simp
  qed
qed

lemma sift_sorted: "sorted_by residence cs \<Longrightarrow> rev (sift (rev cs)) = cs"
proof (cases cs rule: rev_cases)
  case (snoc cs' c)
  assume s: "sorted_by residence cs"
  then have "rev (sift (c # rev cs')) = insert_by residence c cs'" using snoc by (intro sift_insert) (simp add: sorted_by_append)
  moreover have "insert_by residence c cs' = cs' @ [c]" by (rule insert_by_last) (use s snoc in \<open>auto simp: sorted_by_append\<close>)
  ultimately show ?thesis using snoc by simp
qed simp

lemma loop_skips:
  assumes "successively (linked l) (head # xs)" and "distinct (head # xs)" and "xs \<noteq> []"
  shows "\<exists>tmp'. traversal_loop l head (last xs) True (m, tmp) = Some (Inr (m, tmp'))"
  using assms
proof (induction xs arbitrary: tmp rule: rev_induct)
  case (snoc x xs)
  have p: "prv l x = Some (last (head # xs))"
    using snoc.prems(1) successively_append_iff [of "linked l" "head # xs" "[x]"] by (auto simp: linked_def)
  show ?case
  proof (cases "xs = []")
    case True
    then show ?thesis using p by (subst traversal_loop.simps) simp
  next
    case False
    have s: "successively (linked l) (head # xs)" "distinct (head # xs)"
      using snoc.prems successively_append_iff [of "linked l" "head # xs" "[x]"] by auto
    have "last xs \<noteq> head" using s(2) False by auto
    then show ?thesis using p False snoc.IH [OF s False] by (subst traversal_loop.simps) simp
  qed
qed simp

lemma loop_sifts:
  assumes "successively (linked l) (head # xs)" and "distinct (head # xs)" and "xs \<noteq> []"
  shows "\<exists>m' tmp'. traversal_loop l head (last xs) False (m, tmp) = Some (Inr (m', tmp'))
    \<and> map m' (rev xs) = sift (map m (rev xs)) \<and> (\<forall>a. a \<notin> set xs \<longrightarrow> m' a = m a)"
  using assms
proof (induction xs arbitrary: m tmp rule: rev_induct)
  case (snoc x xs)
  have p: "prv l x = Some (last (head # xs))"
    using snoc.prems(1) successively_append_iff [of "linked l" "head # xs" "[x]"] by (auto simp: linked_def)
  have s: "successively (linked l) (head # xs)" "distinct (head # xs)" "x \<notin> set xs" "x \<noteq> head"
    using snoc.prems successively_append_iff [of "linked l" "head # xs" "[x]"] by auto
  show ?case
  proof (cases xs rule: rev_cases)
    case Nil
    then show ?thesis using p by (subst traversal_loop.simps) simp
  next
    case (snoc ys y)
    have ne: "xs \<noteq> []" "last xs = y" "y \<noteq> head" "y \<noteq> x" "y \<notin> set ys" "x \<notin> set ys"
      using snoc s by auto
    show ?thesis
    proof (cases "residence (m x) < residence (m y)")
      case True
      let ?m = "m(y := m x, x := m y)"
      obtain m' tmp' where h: "traversal_loop l head y False (?m, m y) = Some (Inr (m', tmp'))"
        "map m' (rev xs) = sift (map ?m (rev xs))" "\<forall>a. a \<notin> set xs \<longrightarrow> m' a = ?m a"
        using snoc.IH [OF s(1,2) ne(1), of ?m "m y"] unfolding ne(2) by (elim exE conjE) (rule that)
      have "map ?m (rev ys) = map m (rev ys)" using ne by auto
      then have mm: "map ?m (rev xs) = m x # map m (rev ys)" using snoc ne by simp
      have "m' x = m y" using h(3) s(3) by simp
      moreover have "map m (rev (xs @ [x])) = m x # m y # map m (rev ys)" using snoc by simp
      ultimately have "map m' (rev (xs @ [x])) = sift (map m (rev (xs @ [x])))" using h(2) True unfolding mm by simp
      moreover have "\<forall>a. a \<notin> set (xs @ [x]) \<longrightarrow> m' a = m a" using h(3) snoc by auto
      moreover have "traversal_loop l head x False (m, tmp) = Some (Inr (m', tmp'))"
        using p ne True h(1) by (subst traversal_loop.simps) simp
      ultimately show ?thesis by auto
    next
      case False
      obtain tmp' where "traversal_loop l head y True (m, m y) = Some (Inr (m, tmp'))"
        using loop_skips [OF s(1,2) ne(1)] ne(2) by auto
      then have "traversal_loop l head x False (m, tmp) = Some (Inr (m, tmp'))"
        using p ne False by (subst traversal_loop.simps) simp
      then show ?thesis using False snoc by auto
    qed
  qed
qed simp

text \<open>\<open>traversal\<close> on a list of the heap; the links do not change.\<close>

lemma traversal_sifts:
  assumes "dll l head xs tail"
  shows "\<exists>m' tmp'. traversal l head tail (m, tmp) = Some (Inr (m', tmp'))
    \<and> map m' xs = rev (sift (rev (map m xs))) \<and> (\<forall>a. a \<notin> set xs \<longrightarrow> m' a = m a)"
proof (cases "xs = []")
  case True
  then show ?thesis using dll_last [OF assms] by (simp add: traversal_def)
next
  case False
  have d: "distinct (head # xs)" "successively (linked l) (head # xs)"
    using assms successively_append_iff [of "linked l" "head # xs" "[tail]"] by (auto simp: dll_def)
  have "last xs \<noteq> head" using d(1) False by auto
  moreover obtain m' tmp' where h: "traversal_loop l head (last xs) False (m, tmp) = Some (Inr (m', tmp'))"
    "map m' (rev xs) = sift (map m (rev xs))" "\<forall>a. a \<notin> set xs \<longrightarrow> m' a = m a"
    using loop_sifts [OF d(2,1) False] by blast
  ultimately have "traversal l head tail (m, tmp) = Some (Inr (m', tmp'))" using dll_last [OF assms] False by (simp add: traversal_def)
  moreover have "map m' xs = rev (sift (rev (map m xs)))" using h(2) by (metis rev_map rev_rev_ident)
  ultimately show ?thesis using h(3) by blast
qed

section \<open>Cars in and out of a list\<close>

lemma add_car_dll:
  assumes d: "dll l head xs tail" and fresh: "car \<notin> set (head # xs @ [tail])"
  shows "\<exists>l'. add_car l tail car = Inr l' \<and> dll l' head (xs @ [car]) tail
    \<and> (\<forall>x. x \<notin> set (head # car # xs @ [tail]) \<longrightarrow> nxt l' x = nxt l x \<and> prv l' x = prv l x)"
proof -
  obtain l' where l': "ptr_tail_insert l tail car = Some l'" "dll l' head (xs @ [car]) tail"
    "\<forall>x. x \<notin> set (head # car # xs @ [tail]) \<longrightarrow> nxt l' x = nxt l x \<and> prv l' x = prv l x"
    using ptr_tail_insert_dll [OF d fresh] by blast
  have "car \<noteq> tail" using fresh by auto
  then have "add_car l tail car = Inr l'" using l'(1) dll_last [OF d]
    by (auto simp: add_car_def ptr_tail_insert_def Let_def set_nxt_def set_prv_def)
  then show ?thesis using l'(2,3) by blast
qed

lemma del_car_dll:
  assumes d: "dll l head (x # xs) tail"
  shows "\<exists>l'. del_car l head tail = Inr (Some x, l') \<and> dll l' head xs tail
    \<and> (\<forall>y. y \<notin> set (head # x # xs @ [tail]) \<longrightarrow> nxt l' y = nxt l y \<and> prv l' y = prv l y)"
proof -
  obtain l' where l': "unlink l x = Some l'" "dll l' head xs tail" "nxt l' x = nxt l x" "prv l' x = prv l x"
    "\<forall>y. y \<notin> set (head # xs @ [tail]) \<longrightarrow> nxt l' y = nxt l y \<and> prv l' y = prv l y"
    using unlink_dll [of l head "[]" x xs tail] d by auto
  have k: "nxt l head = Some x" "prv l x = Some head" "x \<noteq> head" "x \<noteq> tail"
    using d by (auto simp: dll_def linked_def)
  have "nxt l x = Some (hd (xs @ [tail]))" using d by (cases xs) (auto simp: dll_def linked_def)
  then have "del_car l head tail = Inr (Some x, l')" using l'(1) k
    by (simp add: del_car_def unlink_def set_nxt_def set_prv_def Let_def)
  then show ?thesis using l'(2,5) by simp
qed

section \<open>The invariant of an object\<close>

definition queue_ok :: "highway_state \<Rightarrow> side \<Rightarrow> nat list \<Rightarrow> bool" where
  "queue_ok s sd xs \<longleftrightarrow> dll (car_links s) (head_at sd) xs (tail_at sd) \<and> sorted_by residence (map (cars s) xs)"

definition nodes :: "side \<Rightarrow> nat list \<Rightarrow> nat set" where
  "nodes sd xs = insert (head_at sd) (insert (tail_at sd) (set xs))"

definition leaving_times :: "highway_state \<Rightarrow> nat list \<Rightarrow> real multiset" where
  "leaving_times s xs = mset (map (residence \<circ> cars s) xs)"

definition hw_inv :: "highway_state \<Rightarrow> nat list \<Rightarrow> nat list \<Rightarrow> bool" where
  "hw_inv s xs ys \<longleftrightarrow> queue_ok s (right s) xs \<and> queue_ok s (left s) ys \<and> nodes (right s) xs \<inter> nodes (left s) ys = {}
     \<and> load (right s) = int (length xs) \<and> load (left s) = int (length ys)"

lemma queue_ok_frame:
  assumes "queue_ok s sd xs"
    and "\<And>x. x \<in> nodes sd xs \<Longrightarrow> nxt (car_links s') x = nxt (car_links s) x \<and> prv (car_links s') x = prv (car_links s) x"
    and "\<And>x. x \<in> nodes sd xs \<Longrightarrow> cars s' x = cars s x"
  shows "queue_ok s' sd xs" "leaving_times s' xs = leaving_times s xs"
proof -
  have m: "map (cars s') xs = map (cars s) xs" using assms(3) by (auto simp: nodes_def)
  have "dll (car_links s') (head_at sd) xs (tail_at sd)"
    by (rule dll_frame [where h = "car_links s"]) (use assms(1,2) in \<open>auto simp: queue_ok_def nodes_def\<close>)
  then show "queue_ok s' sd xs" using assms(1) unfolding queue_ok_def m by blast
  show "leaving_times s' xs = leaving_times s xs" unfolding leaving_times_def map_map [symmetric] m by (rule refl)
qed

lemma crossing_time_ok: "0 \<le> mean_time cfg \<Longrightarrow> \<exists>t t1 t2. crossing_time cfg now tested counted s = Inr (t, t1, t2)"
  by (simp add: crossing_time_def Expent_def split_beta Let_def)

lemma enter_side_ok:
  assumes q: "queue_ok s sd xs" and o: "queue_ok s sd' ys" "nodes sd xs \<inter> nodes sd' ys = {}"
    and car: "car \<notin> nodes sd xs" "car \<notin> nodes sd' ys" and mean: "0 \<le> mean_time cfg"
    and ct: "crossing_time cfg now tested (load sd) s = Inr (t, t1, t2)"
  shows "\<exists>s'. enter_side cfg now ty tested sd (Some (car, old)) s = Some (Inr (t, s'))
    \<and> queue_ok s' sd (xs @ [car]) \<and> queue_ok s' sd' ys \<and> right s' = right s \<and> left s' = left s
    \<and> leaving_times s' (xs @ [car]) = leaving_times s xs + {#t#} \<and> leaving_times s' ys = leaving_times s ys"
proof -
  let ?c = "\<lparr>residence = t, ctype = ty, cbuff = old\<rparr>" and ?m = "(cars s)(car := \<lparr>residence = t, ctype = ty, cbuff = old\<rparr>)"
  have d: "dll (car_links s) (head_at sd) xs (tail_at sd)" and srt: "sorted_by residence (map (cars s) xs)"
    using q by (simp_all add: queue_ok_def)
  obtain l' where l': "add_car (car_links s) (tail_at sd) car = Inr l'" "dll l' (head_at sd) (xs @ [car]) (tail_at sd)"
    "\<forall>x. x \<notin> set (head_at sd # car # xs @ [tail_at sd]) \<longrightarrow> nxt l' x = nxt (car_links s) x \<and> prv l' x = prv (car_links s) x"
    using add_car_dll [OF d, of car] car(1) by (auto simp: nodes_def)
  obtain m' tmp' where tr: "traversal l' (head_at sd) (tail_at sd) (?m, temp_buffer s) = Some (Inr (m', tmp'))"
    "map m' (xs @ [car]) = rev (sift (rev (map ?m (xs @ [car]))))" "\<forall>a. a \<notin> set (xs @ [car]) \<longrightarrow> m' a = ?m a"
    using traversal_sifts [OF l'(2), of ?m "temp_buffer s"] by blast
  have "map ?m xs = map (cars s) xs" using car(1) by (auto simp: nodes_def)
  then have e: "rev (map ?m (xs @ [car])) = ?c # rev (map (cars s) xs)" by (simp only: map_append rev_append) simp
  have mm: "map m' (xs @ [car]) = insert_by residence ?c (map (cars s) xs)" unfolding tr(2) e by (rule sift_insert [OF srt])
  define s' where "s' = s\<lparr>seed1 := t1, seed2 := t2, car_links := l', cars := m', temp_buffer := tmp'\<rparr>"
  have run: "enter_side cfg now ty tested sd (Some (car, old)) s = Some (Inr (t, s'))"
    using ct l'(1) tr(1) by (simp add: enter_side_def s'_def)
  have "sorted_by residence (map m' (xs @ [car]))" unfolding mm using srt by simp
  then have q': "queue_ok s' sd (xs @ [car])" using l'(2) by (simp add: queue_ok_def s'_def)
  have away: "x \<notin> set (head_at sd # car # xs @ [tail_at sd])" if "x \<in> nodes sd' ys" for x
    using that o(2) car(2) by (auto simp: nodes_def)
  have "queue_ok s' sd' ys" "leaving_times s' ys = leaving_times s ys"
    by (rule queue_ok_frame [OF o(1)]; use away l'(3) tr(3) in \<open>auto simp: s'_def\<close>)+
  moreover have "leaving_times s' (xs @ [car]) = leaving_times s xs + {#t#}"
  proof -
    have "leaving_times s' (xs @ [car]) = image_mset residence (mset (map m' (xs @ [car])))"
      by (simp add: leaving_times_def s'_def image_mset.compositionality)
    also have "\<dots> = leaving_times s xs + {#t#}" unfolding mm by (simp add: leaving_times_def image_mset.compositionality)
    finally show ?thesis .
  qed
  ultimately show ?thesis using run q' by (auto simp: s'_def)
qed

lemma leave_side_ok:
  assumes q: "queue_ok s sd (x # xs)" and o: "queue_ok s sd' ys" "nodes sd (x # xs) \<inter> nodes sd' ys = {}"
  shows "\<exists>s'. leave_side sd s = Some (Inr s') \<and> queue_ok s' sd xs \<and> queue_ok s' sd' ys \<and> right s' = right s \<and> left s' = left s
    \<and> residence (cars s x) = Min_mset (leaving_times s (x # xs))
    \<and> leaving_times s' xs = leaving_times s (x # xs) - {#residence (cars s x)#} \<and> leaving_times s' ys = leaving_times s ys"
proof -
  have d: "dll (car_links s) (head_at sd) (x # xs) (tail_at sd)" and srt: "sorted_by residence (map (cars s) (x # xs))"
    using q by (simp_all add: queue_ok_def)
  obtain l' where l': "del_car (car_links s) (head_at sd) (tail_at sd) = Inr (Some x, l')" "dll l' (head_at sd) xs (tail_at sd)"
    "\<forall>y. y \<notin> set (head_at sd # x # xs @ [tail_at sd]) \<longrightarrow> nxt l' y = nxt (car_links s) y \<and> prv l' y = prv (car_links s) y"
    using del_car_dll [OF d] by blast
  obtain m' tmp' where tr: "traversal l' (head_at sd) (tail_at sd) (cars s, temp_buffer s) = Some (Inr (m', tmp'))"
    "map m' xs = rev (sift (rev (map (cars s) xs)))" "\<forall>a. a \<notin> set xs \<longrightarrow> m' a = cars s a"
    using traversal_sifts [OF l'(2), of "cars s" "temp_buffer s"] by blast
  have mm: "map m' xs = map (cars s) xs" using tr(2) sift_sorted [of "map (cars s) xs"] srt by simp
  define s' where "s' = s\<lparr>car_links := l', cars := m', temp_buffer := tmp'\<rparr>"
  have run: "leave_side sd s = Some (Inr s')" using l'(1) tr(1) by (simp add: leave_side_def s'_def)
  have away: "y \<notin> set (head_at sd # x # xs @ [tail_at sd])" if "y \<in> nodes sd' ys" for y
    using that o(2) by (auto simp: nodes_def)
  have "queue_ok s' sd' ys" "leaving_times s' ys = leaving_times s ys"
    by (rule queue_ok_frame [OF o(1)]; use away l'(3) tr(3) in \<open>auto simp: s'_def\<close>)+
  moreover have "sorted_by residence (map m' xs)" unfolding mm using srt by simp
  then have "queue_ok s' sd xs" using l'(2) by (simp add: queue_ok_def s'_def)
  moreover have "leaving_times s' xs = leaving_times s (x # xs) - {#residence (cars s x)#}"
    using arg_cong [OF mm, of "\<lambda>cs. mset (map residence cs)"] by (simp add: leaving_times_def s'_def)
  moreover have "residence (cars s x) = Min_mset (leaving_times s (x # xs))"
    by (rule Min_eqI [symmetric]) (use srt in \<open>auto simp: leaving_times_def\<close>)
  ultimately show ?thesis using run by (auto simp: s'_def)
qed

section \<open>Events of an object\<close>

lemmas highway_types = CAR_TRAVERSAL_RIGHT_def CAR_TRAVERSAL_LEFT_def CAR_LEAVING_RIGHT_def CAR_LEAVING_LEFT_def INIT_def

lemma one_more_simps [simp]:
  "queue_ok s (one_more sd) xs = queue_ok s sd xs" "nodes (one_more sd) xs = nodes sd xs" "load (one_more sd) = load sd + 1"
  "queue_ok s (one_less sd) xs = queue_ok s sd xs" "nodes (one_less sd) xs = nodes sd xs" "load (one_less sd) = load sd - 1"
  by (simp_all add: one_more_def one_less_def queue_ok_def nodes_def)

lemma queue_ok_sides [simp]:
  "queue_ok (s\<lparr>right := a\<rparr>) sd xs = queue_ok s sd xs" "queue_ok (s\<lparr>left := a\<rparr>) sd xs = queue_ok s sd xs"
  "queue_ok (s\<lparr>event_count := n\<rparr>) sd xs = queue_ok s sd xs"
  "leaving_times (s\<lparr>right := a\<rparr>) xs = leaving_times s xs" "leaving_times (s\<lparr>left := a\<rparr>) xs = leaving_times s xs"
  "leaving_times (s\<lparr>event_count := n\<rparr>) xs = leaving_times s xs"
  by (simp_all add: queue_ok_def leaving_times_def comp_def)

lemma nodes_snoc [simp]: "nodes sd (xs @ [x]) = insert x (nodes sd xs)"
  by (auto simp: nodes_def)

lemma nodes_Cons: "nodes sd (x # xs) = insert x (nodes sd xs)"
  by (auto simp: nodes_def)

definition sends :: "nat \<Rightarrow> real \<Rightarrow> int \<Rightarrow> nat \<Rightarrow> int \<Rightarrow> int \<Rightarrow> scheduled list" where
  "sends lp t leaving dest traversing ty =
     [\<lparr>to_object = lp, at_time = t, of_type = leaving, with_type = None\<rparr>,
      \<lparr>to_object = dest, at_time = t, of_type = traversing, with_type = Some ty\<rparr>]"

lemma leave_side_cong: "head_at sd' = head_at sd \<Longrightarrow> tail_at sd' = tail_at sd \<Longrightarrow> leave_side sd' s = leave_side sd s"
  by (simp only: leave_side_def)

lemma enters_right:
  assumes inv: "hw_inv s xs ys" and mean: "0 \<le> mean_time cfg" and car: "car \<notin> nodes (right s) xs \<union> nodes (left s) ys"
  shows "\<exists>t s'. ProcessEvent cfg b o1 (Some (car, old)) lp now CAR_TRAVERSAL_RIGHT (Some ty) (Some s) =
      Some (Inr (s', sends lp t CAR_LEAVING_RIGHT (right_dest cfg lp) CAR_TRAVERSAL_RIGHT ty))
    \<and> hw_inv s' (xs @ [car]) ys \<and> leaving_times s' (xs @ [car]) = leaving_times s xs + {#t#} \<and> leaving_times s' ys = leaving_times s ys"
proof -
  let ?sd = "one_more (right s)" and ?s = "s\<lparr>right := one_more (right s)\<rparr>"
  obtain t t1 t2 where ct: "crossing_time cfg now (load ?sd) (load ?sd) ?s = Inr (t, t1, t2)" using crossing_time_ok [OF mean] by blast
  obtain s' where s': "enter_side cfg now ty (load ?sd) ?sd (Some (car, old)) ?s = Some (Inr (t, s'))"
    "queue_ok s' ?sd (xs @ [car])" "queue_ok s' (left s) ys" "right s' = ?sd" "left s' = left s"
    "leaving_times s' (xs @ [car]) = leaving_times s xs + {#t#}" "leaving_times s' ys = leaving_times s ys"
    using enter_side_ok [OF _ _ _ _ _ mean ct, of xs "left s" ys car ty old] inv car by (auto simp: hw_inv_def)
  have "hw_inv (s'\<lparr>event_count := event_count s' + 1\<rparr>) (xs @ [car]) ys"
    using s'(2-5) inv car by (simp add: hw_inv_def)
  moreover have "ProcessEvent cfg b o1 (Some (car, old)) lp now CAR_TRAVERSAL_RIGHT (Some ty) (Some s) =
      Some (Inr (s'\<lparr>event_count := event_count s' + 1\<rparr>, sends lp t CAR_LEAVING_RIGHT (right_dest cfg lp) CAR_TRAVERSAL_RIGHT ty))"
    using s'(1) by (simp add: ProcessEvent_def enter_right_def Let_def count_event_def sends_def highway_types)
  ultimately show ?thesis using s'(6,7)
    by (intro exI [of _ t] exI [of _ "s'\<lparr>event_count := event_count s' + 1\<rparr>"]) simp
qed

lemma enters_left:
  assumes inv: "hw_inv s xs ys" and mean: "0 \<le> mean_time cfg" and car: "car \<notin> nodes (right s) xs \<union> nodes (left s) ys"
  shows "\<exists>t s'. ProcessEvent cfg b o1 (Some (car, old)) lp now CAR_TRAVERSAL_LEFT (Some ty) (Some s) =
      Some (Inr (s', sends lp t CAR_LEAVING_LEFT (left_dest cfg lp) CAR_TRAVERSAL_LEFT ty))
    \<and> hw_inv s' xs (ys @ [car]) \<and> leaving_times s' (ys @ [car]) = leaving_times s ys + {#t#} \<and> leaving_times s' xs = leaving_times s xs"
proof -
  let ?sd = "one_more (left s)" and ?s = "s\<lparr>left := one_more (left s)\<rparr>"
  obtain t t1 t2 where ct: "crossing_time cfg now (load (right s)) (load ?sd) ?s = Inr (t, t1, t2)" using crossing_time_ok [OF mean] by blast
  obtain s' where s': "enter_side cfg now ty (load (right s)) ?sd (Some (car, old)) ?s = Some (Inr (t, s'))"
    "queue_ok s' ?sd (ys @ [car])" "queue_ok s' (right s) xs" "left s' = ?sd" "right s' = right s"
    "leaving_times s' (ys @ [car]) = leaving_times s ys + {#t#}" "leaving_times s' xs = leaving_times s xs"
    using enter_side_ok [OF _ _ _ _ _ mean ct, of ys "right s" xs car ty old] inv car by (auto simp: hw_inv_def)
  have "hw_inv (s'\<lparr>event_count := event_count s' + 1\<rparr>) xs (ys @ [car])"
    using s'(2-5) inv car by (simp add: hw_inv_def)
  moreover have "ProcessEvent cfg b o1 (Some (car, old)) lp now CAR_TRAVERSAL_LEFT (Some ty) (Some s) =
      Some (Inr (s'\<lparr>event_count := event_count s' + 1\<rparr>, sends lp t CAR_LEAVING_LEFT (left_dest cfg lp) CAR_TRAVERSAL_LEFT ty))"
    using s'(1) by (simp add: ProcessEvent_def enter_left_def Let_def count_event_def sends_def highway_types)
  ultimately show ?thesis using s'(6,7)
    by (intro exI [of _ t] exI [of _ "s'\<lparr>event_count := event_count s' + 1\<rparr>"]) simp
qed

lemma leaves_right:
  assumes inv: "hw_inv s (x # xs) ys"
  shows "\<exists>s'. ProcessEvent cfg b o1 new lp now CAR_LEAVING_RIGHT content (Some s) = Some (Inr (s', []))
    \<and> hw_inv s' xs ys \<and> leaving_times s' xs = leaving_times s (x # xs) - {#Min_mset (leaving_times s (x # xs))#}
    \<and> leaving_times s' ys = leaving_times s ys"
proof -
  let ?sd = "one_less (right s)" and ?s = "s\<lparr>right := one_less (right s)\<rparr>"
  obtain s' where s': "leave_side ?sd ?s = Some (Inr s')" "queue_ok s' ?sd xs" "queue_ok s' (left s) ys" "right s' = ?sd" "left s' = left s"
    "residence (cars s x) = Min_mset (leaving_times s (x # xs))"
    "leaving_times s' xs = leaving_times s (x # xs) - {#residence (cars s x)#}" "leaving_times s' ys = leaving_times s ys"
    using leave_side_ok [of ?s ?sd x xs "left s" ys] inv by (auto simp: hw_inv_def)
  have "leave_side (right s) ?s = leave_side ?sd ?s" by (rule leave_side_cong) (simp_all add: one_less_def)
  then have "ProcessEvent cfg b o1 new lp now CAR_LEAVING_RIGHT content (Some s) = Some (Inr (s'\<lparr>event_count := event_count s' + 1\<rparr>, []))"
    using s'(1) by (simp add: ProcessEvent_def count_event_def highway_types)
  moreover have "hw_inv (s'\<lparr>event_count := event_count s' + 1\<rparr>) xs ys"
    using s'(2-5) inv by (auto simp: hw_inv_def nodes_Cons)
  ultimately show ?thesis using s'(6-8)
    by (intro exI [of _ "s'\<lparr>event_count := event_count s' + 1\<rparr>"]) simp
qed

lemma leaves_left:
  assumes inv: "hw_inv s xs (y # ys)"
  shows "\<exists>s'. ProcessEvent cfg b o1 new lp now CAR_LEAVING_LEFT content (Some s) = Some (Inr (s', []))
    \<and> hw_inv s' xs ys \<and> leaving_times s' ys = leaving_times s (y # ys) - {#Min_mset (leaving_times s (y # ys))#}
    \<and> leaving_times s' xs = leaving_times s xs"
proof -
  let ?sd = "one_less (left s)" and ?s = "s\<lparr>left := one_less (left s)\<rparr>"
  obtain s' where s': "leave_side ?sd ?s = Some (Inr s')" "queue_ok s' ?sd ys" "queue_ok s' (right s) xs" "left s' = ?sd" "right s' = right s"
    "residence (cars s y) = Min_mset (leaving_times s (y # ys))"
    "leaving_times s' ys = leaving_times s (y # ys) - {#residence (cars s y)#}" "leaving_times s' xs = leaving_times s xs"
    using leave_side_ok [of ?s ?sd y ys "right s" xs] inv by (auto simp: hw_inv_def Int_commute)
  have "leave_side (left s) ?s = leave_side ?sd ?s" by (rule leave_side_cong) (simp_all add: one_less_def)
  then have "ProcessEvent cfg b o1 new lp now CAR_LEAVING_LEFT content (Some s) = Some (Inr (s'\<lparr>event_count := event_count s' + 1\<rparr>, []))"
    using s'(1) by (simp add: ProcessEvent_def count_event_def highway_types)
  moreover have "hw_inv (s'\<lparr>event_count := event_count s' + 1\<rparr>) xs ys"
    using s'(2-5) inv by (auto simp: hw_inv_def nodes_Cons)
  ultimately show ?thesis using s'(6-8)
    by (intro exI [of _ "s'\<lparr>event_count := event_count s' + 1\<rparr>"]) simp
qed

section \<open>The highway never stops\<close>

definition leavings :: "nat \<Rightarrow> int \<Rightarrow> scheduled list \<Rightarrow> real multiset" where
  "leavings lp kind out = mset (map at_time (filter (\<lambda>e. to_object e = lp \<and> of_type e = kind) out))"

lemma leavings_sends:
  "leavings lp CAR_LEAVING_RIGHT (sends lp t CAR_LEAVING_RIGHT d CAR_TRAVERSAL_RIGHT ty) = {#t#}"
  "leavings lp CAR_LEAVING_LEFT (sends lp t CAR_LEAVING_LEFT d CAR_TRAVERSAL_LEFT ty) = {#t#}"
  by (simp_all add: leavings_def sends_def highway_types)

definition fresh_car :: "highway_state \<Rightarrow> nat \<Rightarrow> bool" where
  "fresh_car s car \<longleftrightarrow> (\<forall>xs ys. hw_inv s xs ys \<longrightarrow> car \<notin> nodes (right s) xs \<union> nodes (left s) ys)"

text \<open>
  The life of an object: cars enter at any time; \<open>P\<close> and \<open>Q\<close> are the times at which cars are due to leave to the
  right and to the left, and of each the earliest comes next.
\<close>

inductive hw_reach :: "config \<Rightarrow> nat \<Rightarrow> highway_state \<Rightarrow> real multiset \<Rightarrow> real multiset \<Rightarrow> bool" for cfg lp where
  reach_init: "ProcessEvent cfg (Some b) old new lp now INIT content None = Some (Inr (s, out)) \<Longrightarrow> length b = 4 \<Longrightarrow> distinct b \<Longrightarrow>
    hw_reach cfg lp s {#} {#}"
| reach_right: "hw_reach cfg lp s P Q \<Longrightarrow> fresh_car s car \<Longrightarrow>
    ProcessEvent cfg b old (Some (car, buf)) lp now CAR_TRAVERSAL_RIGHT (Some ty) (Some s) = Some (Inr (s', out)) \<Longrightarrow>
    hw_reach cfg lp s' (P + leavings lp CAR_LEAVING_RIGHT out) Q"
| reach_left: "hw_reach cfg lp s P Q \<Longrightarrow> fresh_car s car \<Longrightarrow>
    ProcessEvent cfg b old (Some (car, buf)) lp now CAR_TRAVERSAL_LEFT (Some ty) (Some s) = Some (Inr (s', out)) \<Longrightarrow>
    hw_reach cfg lp s' P (Q + leavings lp CAR_LEAVING_LEFT out)"
| reach_out_right: "hw_reach cfg lp s P Q \<Longrightarrow> P \<noteq> {#} \<Longrightarrow>
    ProcessEvent cfg b old new lp (Min_mset P) CAR_LEAVING_RIGHT content (Some s) = Some (Inr (s', out)) \<Longrightarrow>
    hw_reach cfg lp s' (P - {#Min_mset P#}) Q"
| reach_out_left: "hw_reach cfg lp s P Q \<Longrightarrow> Q \<noteq> {#} \<Longrightarrow>
    ProcessEvent cfg b old new lp (Min_mset Q) CAR_LEAVING_LEFT content (Some s) = Some (Inr (s', out)) \<Longrightarrow>
    hw_reach cfg lp s' P (Q - {#Min_mset Q#})"

lemma init_inv:
  assumes "ProcessEvent cfg (Some b) old new lp now INIT content st = Some (Inr (s, out))" and "length b = 4" "distinct b"
  shows "hw_inv s [] []"
proof -
  obtain p q r u where b: "b = [p, q, r, u]" using assms(2) by (auto simp: length_Suc_conv numeral_eq_Suc)
  have "distinct [p, q, r, u]" using assms(3) b by simp
  then have "dll (empty_sides b l) p [] q \<and> dll (empty_sides b l) r [] u" for l
    by (simp add: empty_sides_def b dll_def linked_def init_sentinels_def)
  then show ?thesis using assms(1,3) b
    by (auto simp: ProcessEvent_def handle_init_def Let_def and_then_eq_Inr count_event_def hw_inv_def queue_ok_def nodes_def)
qed

lemma hw_reach_inv:
  assumes "hw_reach cfg lp s P Q" and mean: "0 \<le> mean_time cfg"
  shows "\<exists>xs ys. hw_inv s xs ys \<and> leaving_times s xs = P \<and> leaving_times s ys = Q"
  using assms(1)
proof (induction rule: hw_reach.induct)
  case (reach_init b old new now content s out)
  from init_inv [OF this] show ?case by (intro exI [of _ "[]"]) (simp add: leaving_times_def)
next
  case (reach_right s P Q car b old buf now ty s' out)
  then obtain xs ys where i: "hw_inv s xs ys" "leaving_times s xs = P" "leaving_times s ys = Q" by blast
  have c: "car \<notin> nodes (right s) xs \<union> nodes (left s) ys" using reach_right(2) i(1) by (simp add: fresh_car_def)
  obtain t s1 where "ProcessEvent cfg b old (Some (car, buf)) lp now CAR_TRAVERSAL_RIGHT (Some ty) (Some s) =
      Some (Inr (s1, sends lp t CAR_LEAVING_RIGHT (right_dest cfg lp) CAR_TRAVERSAL_RIGHT ty))"
    "hw_inv s1 (xs @ [car]) ys" "leaving_times s1 (xs @ [car]) = leaving_times s xs + {#t#}" "leaving_times s1 ys = leaving_times s ys"
    using enters_right [OF i(1) mean c] by blast
  then show ?case using reach_right(3) i(2,3) by (intro exI [of _ "xs @ [car]"] exI [of _ ys]) (auto simp: leavings_sends)
next
  case (reach_left s P Q car b old buf now ty s' out)
  then obtain xs ys where i: "hw_inv s xs ys" "leaving_times s xs = P" "leaving_times s ys = Q" by blast
  have c: "car \<notin> nodes (right s) xs \<union> nodes (left s) ys" using reach_left(2) i(1) by (simp add: fresh_car_def)
  obtain t s1 where "ProcessEvent cfg b old (Some (car, buf)) lp now CAR_TRAVERSAL_LEFT (Some ty) (Some s) =
      Some (Inr (s1, sends lp t CAR_LEAVING_LEFT (left_dest cfg lp) CAR_TRAVERSAL_LEFT ty))"
    "hw_inv s1 xs (ys @ [car])" "leaving_times s1 (ys @ [car]) = leaving_times s ys + {#t#}" "leaving_times s1 xs = leaving_times s xs"
    using enters_left [OF i(1) mean c] by blast
  then show ?case using reach_left(3) i(2,3) by (intro exI [of _ xs] exI [of _ "ys @ [car]"]) (auto simp: leavings_sends)
next
  case (reach_out_right s P Q b old new content s' out)
  then obtain xs ys where i: "hw_inv s xs ys" "leaving_times s xs = P" "leaving_times s ys = Q" by blast
  obtain x xs' where x: "xs = x # xs'" using reach_out_right(2) i(2) by (cases xs) (auto simp: leaving_times_def)
  show ?case using leaves_right [OF i(1) [unfolded x], of cfg b old new lp "Min_mset P" content] reach_out_right(3) i x by auto
next
  case (reach_out_left s P Q b old new content s' out)
  then obtain xs ys where i: "hw_inv s xs ys" "leaving_times s xs = P" "leaving_times s ys = Q" by blast
  obtain y ys' where y: "ys = y # ys'" using reach_out_left(2) i(3) by (cases ys) (auto simp: leaving_times_def)
  show ?case using leaves_left [OF i(1) [unfolded y], of cfg b old new lp "Min_mset Q" content] reach_out_left(3) i y by auto
qed

text \<open>
  Property C29. In every run of an object its two lists of cars hold, in order, exactly the cars that are due
  to leave, and the loads are their lengths. So no event stops the program: a car that enters is due to leave
  once and goes on, with its class, to one other object, and a leaving finds the car that is due.
\<close>

theorem highway_never_stops:
  assumes "hw_reach cfg lp s P Q" and "0 \<le> mean_time cfg"
  shows "\<exists>xs ys. hw_inv s xs ys \<and> leaving_times s xs = P \<and> leaving_times s ys = Q
    \<and> (\<forall>b old car buf now ty. fresh_car s car \<longrightarrow>
        (\<exists>t s'. ProcessEvent cfg b old (Some (car, buf)) lp now CAR_TRAVERSAL_RIGHT (Some ty) (Some s) =
           Some (Inr (s', sends lp t CAR_LEAVING_RIGHT (right_dest cfg lp) CAR_TRAVERSAL_RIGHT ty)))
      \<and> (\<exists>t s'. ProcessEvent cfg b old (Some (car, buf)) lp now CAR_TRAVERSAL_LEFT (Some ty) (Some s) =
           Some (Inr (s', sends lp t CAR_LEAVING_LEFT (left_dest cfg lp) CAR_TRAVERSAL_LEFT ty))))
    \<and> (\<forall>b old new now content. P \<noteq> {#} \<longrightarrow>
        (\<exists>s'. ProcessEvent cfg b old new lp now CAR_LEAVING_RIGHT content (Some s) = Some (Inr (s', []))
          \<and> leaving_times s' (tl xs) = P - {#Min_mset P#}))
    \<and> (\<forall>b old new now content. Q \<noteq> {#} \<longrightarrow>
        (\<exists>s'. ProcessEvent cfg b old new lp now CAR_LEAVING_LEFT content (Some s) = Some (Inr (s', []))
          \<and> leaving_times s' (tl ys) = Q - {#Min_mset Q#}))"
proof -
  obtain xs ys where i: "hw_inv s xs ys" "leaving_times s xs = P" "leaving_times s ys = Q"
    using hw_reach_inv [OF assms] by blast
  have 1: "\<exists>t s'. ProcessEvent cfg b old (Some (car, buf)) lp now CAR_TRAVERSAL_RIGHT (Some ty) (Some s) =
      Some (Inr (s', sends lp t CAR_LEAVING_RIGHT (right_dest cfg lp) CAR_TRAVERSAL_RIGHT ty))" if "fresh_car s car" for b old car buf now ty
    using enters_right [OF i(1) assms(2), of car] that i(1) unfolding fresh_car_def by blast
  have 2: "\<exists>t s'. ProcessEvent cfg b old (Some (car, buf)) lp now CAR_TRAVERSAL_LEFT (Some ty) (Some s) =
      Some (Inr (s', sends lp t CAR_LEAVING_LEFT (left_dest cfg lp) CAR_TRAVERSAL_LEFT ty))" if "fresh_car s car" for b old car buf now ty
    using enters_left [OF i(1) assms(2), of car] that i(1) unfolding fresh_car_def by blast
  have 3: "\<exists>s'. ProcessEvent cfg b old new lp now CAR_LEAVING_RIGHT content (Some s) = Some (Inr (s', []))
      \<and> leaving_times s' (tl xs) = P - {#Min_mset P#}" if p: "P \<noteq> {#}" for b old new now content
  proof -
    obtain x xs' where x: "xs = x # xs'" using p i(2) by (cases xs) (auto simp: leaving_times_def)
    show ?thesis using leaves_right [OF i(1) [unfolded x], of cfg b old new lp now content] i(2) x by auto
  qed
  have 4: "\<exists>s'. ProcessEvent cfg b old new lp now CAR_LEAVING_LEFT content (Some s) = Some (Inr (s', []))
      \<and> leaving_times s' (tl ys) = Q - {#Min_mset Q#}" if p: "Q \<noteq> {#}" for b old new now content
  proof -
    obtain y ys' where y: "ys = y # ys'" using p i(3) by (cases ys) (auto simp: leaving_times_def)
    show ?thesis using leaves_left [OF i(1) [unfolded y], of cfg b old new lp now content] i(3) y by auto
  qed
  show ?thesis using i 1 2 3 4 by (intro exI [of _ xs] exI [of _ ys] conjI allI impI)
qed

lemma initial_cars_ok: "0 \<le> mean_time cfg \<Longrightarrow> \<exists>out w. initial_cars cfg lp kind n seeds = Inr (out, w) \<and> length out = n"
proof (induction n arbitrary: seeds)
  case (Suc n)
  obtain s1 s2 where s: "seeds = (s1, s2)" by (metis surj_pair)
  obtain x t1 t2 where e: "Expent cfg (mean_time cfg) s1 s2 = Inr (x, t1, t2)"
    using Suc.prems by (cases "Random cfg s1 s2") (auto simp: Expent_def)
  obtain u w where r: "Random cfg t1 t2 = (u, w)" by (metis surj_pair)
  obtain out w2 where "initial_cars cfg lp kind n w = Inr (out, w2)" "length out = n" using Suc.IH [OF Suc.prems] by blast
  then show ?case by (simp add: s e r)
qed simp

definition demo_road :: config where
  "demo_road = \<lparr>THREADS = 1, OBJECTS = 4, LOOKAHEAD = 1, SPECULATION = True, AVOID_THROTTLING = False, rnd = (\<lambda>x. x)\<rparr>"

definition demo_memory :: highway_state where
  "demo_memory = \<lparr>event_count = 0, seed1 = 0, seed2 = 0, right = \<lparr>head_at = 0, tail_at = 0, load = 0\<rparr>, left = \<lparr>head_at = 0, tail_at = 0, load = 0\<rparr>,
     temp_buffer = \<lparr>residence = 0, ctype = 0, cbuff = []\<rparr>, car_links = \<lparr>nxt = (\<lambda>_. None), prv = (\<lambda>_. None)\<rparr>,
     cars = (\<lambda>_. \<lparr>residence = 0, ctype = 0, cbuff = []\<rparr>)\<rparr>"

text \<open>An object starts and takes a car.\<close>

theorem highway_never_stops_witness:
  "\<exists>s t s'. hw_reach demo_road 1 s {#} {#} \<and> ProcessEvent demo_road None demo_memory (Some (9, [])) 1 2 CAR_TRAVERSAL_RIGHT (Some 0) (Some s) =
     Some (Inr (s', sends 1 t CAR_LEAVING_RIGHT (right_dest demo_road 1) CAR_TRAVERSAL_RIGHT 0))"
proof -
  have mean: "0 \<le> mean_time demo_road" by (simp add: mean_time_def demo_road_def dmul_def)
  let ?b = "[1, 2, 3, 4] :: nat list"
  obtain out1 w where o1: "initial_cars demo_road 1 CAR_TRAVERSAL_RIGHT (first_cars demo_road 1) (2, 2 XOR 2) = Inr (out1, w)"
    using initial_cars_ok [OF mean] by blast
  obtain out2 t1 t2 where o2: "initial_cars demo_road 1 CAR_TRAVERSAL_LEFT (first_cars demo_road 1) w = Inr (out2, t1, t2)"
    using initial_cars_ok [OF mean] by (metis surj_pair)
  obtain s out where s: "ProcessEvent demo_road (Some ?b) demo_memory None 1 0 INIT None None = Some (Inr (s, out))"
    using o1 o2 by (simp add: ProcessEvent_def handle_init_def Let_def count_event_def)
  have r: "hw_reach demo_road 1 s {#} {#}" by (rule reach_init [OF s]) simp_all
  have i: "hw_inv s [] []" by (rule init_inv [OF s]) simp_all
  have b: "head_at (right s) = 1" "tail_at (right s) = 2" "head_at (left s) = 3" "tail_at (left s) = 4"
    using s by (auto simp: ProcessEvent_def handle_init_def Let_def and_then_eq_Inr count_event_def)
  have e: "xs = [] \<and> ys = []" if "hw_inv s xs ys" for xs ys
    using that i by (auto simp: hw_inv_def)
  have "9 \<notin> nodes (right s) xs \<union> nodes (left s) ys" if "hw_inv s xs ys" for xs ys
    using e [OF that] b by (simp add: nodes_def)
  then have "fresh_car s 9" by (simp add: fresh_car_def)
  then show ?thesis using highway_never_stops [OF r mean] r by blast
qed

section \<open>Routes\<close>

text \<open>
  To the right the cars of each half of the objects go round in it, to the left they go round all objects;
  every object has one object it gets its cars from.
\<close>

lemma routes:
  assumes "2 \<le> OBJECTS cfg" and "lp < OBJECTS cfg"
  shows "right_dest cfg lp < OBJECTS cfg \<and> (right_dest cfg lp < OBJECTS cfg div 2 \<longleftrightarrow> lp < OBJECTS cfg div 2)
    \<and> left_dest cfg lp < OBJECTS cfg \<and> (left_dest cfg lp + 1) mod OBJECTS cfg = lp"
  using assms by (auto simp: right_dest_def left_dest_def Let_def)

lemma right_dest_inj:
  assumes "2 \<le> OBJECTS cfg"
  shows "inj_on (right_dest cfg) {..<OBJECTS cfg}"
  by (rule inj_onI) (use assms in \<open>auto simp: right_dest_def Let_def split: if_splits\<close>)

text \<open>Up to the limit on the right side, the load of the left side does not slow the cars that enter it.\<close>

theorem left_load_ignored:
  assumes "load (right s) \<le> MAX_CAR_COUNT"
  shows "crossing_time cfg now (load (right s)) n s = crossing_time cfg now (load (right s)) k s"
  using assms by (simp add: crossing_time_def)

end
