(* ===== verification/Phold.thy ===== *)
theory Phold
  imports Topology
begin

text \<open>
  \<open>models/phold/application.c\<close>, the synthetic model. An object keeps two lists of \<open>malloc\<close>ed chunks whose first
  eight bytes are the pointer to the next chunk. The memory of an object maps the address of eight bytes to
  their value; the pointers to the first chunks are in it as well.
\<close>

section \<open>Chunks\<close>

type_synonym chunk_memory = "64 word \<Rightarrow> 64 word"

definition FILL_VALUE :: "64 word" where "FILL_VALUE = 42"
definition SIZE1 :: nat where "SIZE1 = 32"
definition SIZE2 :: nat where "SIZE2 = 64"

text \<open>\<open>add1\<close>, \<open>add2\<close> and \<open>dell1\<close>, \<open>dell2\<close>; \<open>hd_at\<close> is the address of the pointer to the first chunk.\<close>

definition add_chunk :: "64 word \<Rightarrow> 64 word \<Rightarrow> chunk_memory \<Rightarrow> chunk_memory outcome" where
  "add_chunk hd_at buff mem = (if buff = 0 then Inl Undefined else Inr ((mem(buff := mem hd_at))(hd_at := buff)))"

definition dell_chunk :: "64 word \<Rightarrow> chunk_memory \<Rightarrow> chunk_memory" where
  "dell_chunk hd_at mem = (if mem hd_at = 0 then mem else mem(hd_at := mem (mem hd_at)))"

fun add_chunks :: "64 word \<Rightarrow> 64 word list \<Rightarrow> chunk_memory \<Rightarrow> chunk_memory outcome" where
  "add_chunks hd_at [] mem = Inr mem"
| "add_chunks hd_at (b # bs) mem = and_then (add_chunk hd_at b mem) (add_chunks hd_at bs)"

definition fill_chunk :: "nat \<Rightarrow> 64 word \<Rightarrow> chunk_memory \<Rightarrow> chunk_memory" where
  "fill_chunk sz c mem = fold (\<lambda>k m. m(c + of_nat (8 * k) := FILL_VALUE)) [1..<sz div 8] mem"

text \<open>
  \<open>update1\<close> and \<open>update2\<close>: \<open>p\<close> is the address of a pointer, and becomes the first eight bytes of the chunk it
  points to. The pointer is read before the count is looked at; \<open>n\<close> is what is left of the count.
\<close>

fun update_walk :: "nat \<Rightarrow> nat \<Rightarrow> 64 word \<Rightarrow> chunk_memory \<Rightarrow> chunk_memory outcome" where
  "update_walk sz 0 p mem = (if p = 0 then Inl Undefined else Inr mem)"
| "update_walk sz (Suc n) p mem =
     (if p = 0 then Inl Undefined
      else let c = mem p in
        if c = 0 then Inr mem
        else let mem1 = fill_chunk sz c mem in update_walk sz n (mem1 c) mem1)"

text \<open>\<open>read1\<close> and \<open>read2\<close> go the same way and change nothing.\<close>

fun read_walk :: "nat \<Rightarrow> 64 word \<Rightarrow> chunk_memory \<Rightarrow> unit outcome" where
  "read_walk 0 p mem = (if p = 0 then Inl Undefined else Inr ())"
| "read_walk (Suc n) p mem =
     (if p = 0 then Inl Undefined else if mem p = 0 then Inr () else read_walk n (mem (mem p)) mem)"

section \<open>The object\<close>

record phold_config =
  M :: nat
  CHUNKS_IN_LIST :: nat

definition REALLOCATION :: "phold_config \<Rightarrow> nat" where "REALLOCATION p = CHUNKS_IN_LIST p div 1000"
definition P_LIMIT :: "phold_config \<Rightarrow> nat" where "P_LIMIT p = CHUNKS_IN_LIST p div 32"
definition TA :: "config \<Rightarrow> real" where "TA cfg = LOOKAHEAD cfg * 1"

definition NORMAL :: int where "NORMAL = 1"

record phold_state =
  event_count :: int
  seed1 :: "32 word"
  seed2 :: "32 word"
  p1_at :: "64 word"
  p2_at :: "64 word"
  chunk_mem :: chunk_memory

record scheduled =
  to_object :: int
  at_time :: real
  of_type :: int

fun initial_events :: "config \<Rightarrow> nat \<Rightarrow> nat \<Rightarrow> 32 word \<times> 32 word \<Rightarrow> (scheduled list \<times> 32 word \<times> 32 word) outcome" where
  "initial_events cfg lp 0 seeds = Inr ([], seeds)"
| "initial_events cfg lp (Suc n) (s1, s2) =
     and_then (Expent cfg (TA cfg) s1 s2) (\<lambda>(x, w).
     and_then (initial_events cfg lp n w) (\<lambda>(out, w2).
       Inr (\<lparr>to_object = int lp, at_time = dmul cfg (rnd cfg (1 / 100)) x, of_type = NORMAL\<rparr> # out, w2)))"

text \<open>\<open>new1\<close> and \<open>new2\<close> are the addresses \<open>malloc\<close> returns, \<open>old\<close> the memory the state lies in.\<close>

definition handle_init ::
  "config \<Rightarrow> phold_config \<Rightarrow> nat \<Rightarrow> 64 word list \<Rightarrow> 64 word list \<Rightarrow> phold_state option \<Rightarrow> (phold_state \<times> scheduled list) outcome" where
  "handle_init cfg p lp new1 new2 old =
     (case old of
        None \<Rightarrow> Inl Exit_Failure
      | Some s \<Rightarrow>
          let s1 = of_nat lp + 1; mem0 = (chunk_mem s)(p1_at s := 0, p2_at s := 0) in
          and_then (initial_events cfg lp (M p) (s1, s1 XOR s1)) (\<lambda>(out, t1, t2).
          and_then (add_chunks (p1_at s) (take (CHUNKS_IN_LIST p) new1) mem0) (\<lambda>mem1.
          and_then (add_chunks (p2_at s) (take (CHUNKS_IN_LIST p) new2) mem1) (\<lambda>mem2.
            Inr (s\<lparr>event_count := 0, seed1 := t1, seed2 := t2, chunk_mem := mem2\<rparr>, out)))))"

text \<open>The next event: its time, and an object drawn among all.\<close>

definition next_event_of :: "config \<Rightarrow> real \<Rightarrow> 32 word \<times> 32 word \<Rightarrow> (scheduled \<times> 32 word \<times> 32 word) outcome" where
  "next_event_of cfg now = (\<lambda>(s1, s2).
     and_then (Expent cfg (TA cfg) s1 s2) (\<lambda>(x, t1, t2).
     and_then (if \<not> SPECULATION cfg \<and> dadd cfg now x \<le> dadd cfg now (LOOKAHEAD cfg)
               then and_then (Expent cfg (TA cfg) t1 t2) (\<lambda>(y, w). Inr (dadd cfg (dadd cfg now (LOOKAHEAD cfg)) y, w))
               else Inr (dadd cfg now x, t1, t2)) (\<lambda>(t, w1, w2).
     let (u, v1, v2) = Random cfg w1 w2 in
     and_then (int_of_double (dmul cfg (real (OBJECTS cfg)) u)) (\<lambda>dest.
       Inr (\<lparr>to_object = dest, at_time = t, of_type = NORMAL\<rparr>, v1, v2)))))"

definition reallocate :: "nat \<Rightarrow> 64 word \<Rightarrow> 64 word \<Rightarrow> chunk_memory \<Rightarrow> chunk_memory" where
  "reallocate n a b mem = ((\<lambda>m. dell_chunk b (dell_chunk a m)) ^^ n) mem"

definition handle_normal ::
  "config \<Rightarrow> phold_config \<Rightarrow> real \<Rightarrow> 64 word list \<Rightarrow> 64 word list \<Rightarrow> phold_state \<Rightarrow> (phold_state \<times> scheduled list) outcome" where
  "handle_normal cfg p now new1 new2 s =
     and_then (next_event_of cfg now (seed1 s, seed2 s)) (\<lambda>(e, t1, t2).
     let r = REALLOCATION p in
     and_then (add_chunks (p1_at s) (take r new1) (reallocate r (p1_at s) (p2_at s) (chunk_mem s))) (\<lambda>mem1.
     and_then (add_chunks (p2_at s) (take r new2) mem1) (\<lambda>mem2.
     and_then (update_walk SIZE1 (P_LIMIT p) (p1_at s) mem2) (\<lambda>mem3.
     and_then (update_walk SIZE2 (P_LIMIT p) (p2_at s) mem3) (\<lambda>mem4.
       Inr (s\<lparr>event_count := event_count s + 1, seed1 := t1, seed2 := t2, chunk_mem := mem4\<rparr>, [e]))))))"

definition ProcessEvent ::
  "config \<Rightarrow> phold_config \<Rightarrow> nat \<Rightarrow> real \<Rightarrow> int \<Rightarrow> 64 word list \<Rightarrow> 64 word list \<Rightarrow> phold_state option \<Rightarrow> phold_state option
   \<Rightarrow> (phold_state \<times> scheduled list) outcome" where
  "ProcessEvent cfg p lp now kind new1 new2 old state =
     (if kind = INIT then handle_init cfg p lp new1 new2 old
      else if kind = NORMAL then (case state of None \<Rightarrow> Inl Undefined | Some s \<Rightarrow> handle_normal cfg p now new1 new2 s)
      else Inl Exit_Failure)"

section \<open>Lists of chunks\<close>

fun chunks_at :: "chunk_memory \<Rightarrow> 64 word \<Rightarrow> 64 word list \<Rightarrow> bool" where
  "chunks_at mem p [] \<longleftrightarrow> mem p = 0"
| "chunks_at mem p (x # xs) \<longleftrightarrow> mem p = x \<and> x \<noteq> 0 \<and> chunks_at mem x xs"

lemma chunks_at_frame: "(\<And>a. a \<in> insert p (set xs) \<Longrightarrow> mem' a = mem a) \<Longrightarrow> chunks_at mem' p xs \<longleftrightarrow> chunks_at mem p xs"
  by (induction xs arbitrary: p) auto

lemma add_chunks_at:
  assumes "chunks_at mem p xs" and "distinct (p # bs @ xs)" and "0 \<notin> set bs"
  shows "\<exists>mem'. add_chunks p bs mem = Inr mem' \<and> chunks_at mem' p (rev bs @ xs) \<and> (\<forall>a. a \<notin> insert p (set bs) \<longrightarrow> mem' a = mem a)"
  using assms
proof (induction bs arbitrary: mem xs)
  case (Cons b bs)
  let ?m = "(mem(b := mem p))(p := b)"
  have "chunks_at ?m b xs \<longleftrightarrow> chunks_at (mem(b := mem p)) b xs" by (rule chunks_at_frame) (use Cons.prems in auto)
  moreover have "chunks_at (mem(b := mem p)) b xs"
  proof (cases xs)
    case (Cons y ys)
    have "chunks_at (mem(b := mem p)) y ys \<longleftrightarrow> chunks_at mem y ys" by (rule chunks_at_frame) (use Cons.prems Cons in auto)
    then show ?thesis using Cons.prems Cons by simp
  qed (use Cons.prems in simp)
  ultimately have c: "chunks_at ?m p (b # xs)" using Cons.prems by simp
  have "distinct (p # bs @ b # xs)" "0 \<notin> set bs" using Cons.prems by auto
  from Cons.IH [OF c this] obtain mem' where "add_chunks p bs ?m = Inr mem'" "chunks_at mem' p (rev bs @ b # xs)"
    "\<forall>a. a \<notin> insert p (set bs) \<longrightarrow> mem' a = ?m a" by blast
  then show ?case using Cons.prems by (auto simp: add_chunk_def)
qed simp

lemma dell_chunk_at:
  assumes "chunks_at mem p xs" and "distinct (p # xs)"
  shows "chunks_at (dell_chunk p mem) p (tl xs)" "a \<noteq> p \<Longrightarrow> dell_chunk p mem a = mem a"
proof -
  show "a \<noteq> p \<Longrightarrow> dell_chunk p mem a = mem a" by (simp add: dell_chunk_def)
  show "chunks_at (dell_chunk p mem) p (tl xs)"
  proof (cases xs)
    case Nil
    then show ?thesis using assms by (simp add: dell_chunk_def)
  next
    case (Cons x ys)
    then have m: "mem p = x" "x \<noteq> 0" "chunks_at mem x ys" "p \<noteq> x" "p \<notin> set ys" using assms by auto
    have "chunks_at (mem(p := mem x)) p ys"
    proof (cases ys)
      case (Cons y zs)
      have "chunks_at (mem(p := mem x)) y zs \<longleftrightarrow> chunks_at mem y zs" by (rule chunks_at_frame) (use m Cons in auto)
      then show ?thesis using m Cons by simp
    qed (use m in simp)
    then show ?thesis using Cons m by (simp add: dell_chunk_def)
  qed
qed

text \<open>The two lists of an object are apart.\<close>

definition two_lists :: "chunk_memory \<Rightarrow> 64 word \<Rightarrow> 64 word \<Rightarrow> 64 word list \<Rightarrow> 64 word list \<Rightarrow> bool" where
  "two_lists mem a b xs ys \<longleftrightarrow> chunks_at mem a xs \<and> chunks_at mem b ys \<and> distinct (a # b # xs @ ys)"

lemma reallocate_two:
  "two_lists mem a b xs ys \<Longrightarrow> two_lists (reallocate n a b mem) a b (drop n xs) (drop n ys)"
proof (induction n)
  case 0
  then show ?case by (simp add: reallocate_def)
next
  case (Suc n)
  define m where "m = reallocate n a b mem"
  have t: "two_lists m a b (drop n xs) (drop n ys)" using Suc by (simp add: m_def)
  have d: "distinct (a # b # drop n xs @ drop n ys)" and A: "chunks_at m a (drop n xs)" and B: "chunks_at m b (drop n ys)"
    using t by (simp_all add: two_lists_def)
  let ?m1 = "dell_chunk a m" and ?m2 = "dell_chunk b (dell_chunk a m)"
  have dA: "distinct (a # drop n xs)" and dB: "distinct (b # drop n ys)" using d by auto
  have A1: "chunks_at ?m1 a (tl (drop n xs))" by (rule dell_chunk_at(1) [OF A dA])
  have "chunks_at ?m1 b (drop n ys) \<longleftrightarrow> chunks_at m b (drop n ys)"
    by (rule chunks_at_frame, rule dell_chunk_at(2) [OF A dA]) (use d in auto)
  then have B1: "chunks_at ?m1 b (drop n ys)" using B by simp
  have "chunks_at ?m2 a (tl (drop n xs)) \<longleftrightarrow> chunks_at ?m1 a (tl (drop n xs))"
    by (rule chunks_at_frame, rule dell_chunk_at(2) [OF B1 dB]) (use d in_set_tl in fastforce)
  then have "chunks_at ?m2 a (tl (drop n xs))" using A1 by simp
  moreover have "chunks_at ?m2 b (tl (drop n ys))" by (rule dell_chunk_at(1) [OF B1 dB])
  moreover have "distinct (a # b # tl (drop n xs) @ tl (drop n ys))"
    using d in_set_tl [of _ "drop n xs"] in_set_tl [of _ "drop n ys"] by (auto simp: distinct_tl)
  moreover have "reallocate (Suc n) a b mem = ?m2" by (simp add: reallocate_def m_def)
  ultimately show ?case by (simp add: two_lists_def drop_Suc tl_drop)
qed

section \<open>Walks over every other chunk\<close>

definition body :: "nat \<Rightarrow> 64 word \<Rightarrow> 64 word set" where
  "body sz c = (\<lambda>k. c + of_nat (8 * k)) ` {1..<sz div 8}"

lemma fill_chunk_eq: "fill_chunk sz c mem a = (if a \<in> body sz c then FILL_VALUE else mem a)"
proof -
  have "fold (\<lambda>k m. m(c + of_nat (8 * k) := FILL_VALUE)) ks mem a =
      (if a \<in> (\<lambda>k. c + of_nat (8 * k)) ` set ks then FILL_VALUE else mem a)" for ks
    by (induction ks arbitrary: mem) auto
  then show ?thesis by (simp add: fill_chunk_def body_def)
qed

definition bodies_apart :: "nat \<Rightarrow> 64 word list \<Rightarrow> 64 word set \<Rightarrow> bool" where
  "bodies_apart sz xs H \<longleftrightarrow> (\<forall>x \<in> set xs. body sz x \<inter> H = {})"

definition walked :: "nat \<Rightarrow> nat \<Rightarrow> 64 word list \<Rightarrow> 64 word set" where
  "walked sz n xs = (\<Union>i \<in> {i. i < n \<and> 2 * i < length xs}. body sz (xs ! (2 * i)))"

lemma walked_0 [simp]: "walked sz 0 xs = {}"
  by (simp add: walked_def)

lemma walked_Cons: "walked sz (Suc n) (x # y # zs) = body sz x \<union> walked sz n zs"
proof -
  have "{i. i < Suc n \<and> 2 * i < length (x # y # zs)} = insert 0 (Suc ` {i. i < n \<and> 2 * i < length zs})"
    by (auto simp: image_iff less_Suc_eq_0_disj)
  then show ?thesis by (simp add: walked_def image_iff)
qed

lemma walked_subset: "walked sz n xs \<subseteq> (\<Union>x \<in> set xs. body sz x)"
  using nth_mem by (fastforce simp: walked_def)

lemma update_walk_returns:
  assumes "chunks_at mem p xs" and "p \<noteq> 0" and "bodies_apart sz xs (set xs)" and "2 * n \<le> length xs \<or> even (length xs)"
  shows "\<exists>mem'. update_walk sz n p mem = Inr mem' \<and> (\<forall>a. mem' a = (if a \<in> walked sz n xs then FILL_VALUE else mem a))"
  using assms
proof (induction n arbitrary: p xs mem)
  case (Suc n)
  show ?case
  proof (cases xs rule: remdups_adj.cases)
    case 1
    then show ?thesis using Suc.prems by (simp add: walked_def)
  next
    case (2 x)
    then show ?thesis using Suc.prems(4) by simp
  next
    case (3 x y zs)
    let ?m = "fill_chunk sz x mem"
    have m: "mem p = x" "x \<noteq> 0" "mem x = y" "y \<noteq> 0" "chunks_at mem y zs" using Suc.prems(1) 3 by auto
    have ap: "body sz x \<inter> set (x # y # zs) = {}" using Suc.prems(3) 3 by (simp add: bodies_apart_def)
    then have fx: "?m x = y" using m by (simp add: fill_chunk_eq)
    have "chunks_at ?m y zs \<longleftrightarrow> chunks_at mem y zs"
      by (rule chunks_at_frame) (use ap in \<open>auto simp: fill_chunk_eq\<close>)
    then have c: "chunks_at ?m y zs" using m by simp
    have "bodies_apart sz zs (set zs)" using Suc.prems(3) 3 by (auto simp: bodies_apart_def)
    moreover have "2 * n \<le> length zs \<or> even (length zs)" using Suc.prems(4) 3 by auto
    ultimately obtain mem' where "update_walk sz n y ?m = Inr mem'"
      "\<forall>a. mem' a = (if a \<in> walked sz n zs then FILL_VALUE else ?m a)"
      using Suc.IH [OF c m(4)] by blast
    then show ?thesis using Suc.prems(2) m fx 3 by (auto simp: Let_def walked_Cons fill_chunk_eq)
  qed
qed simp

lemma update_walk_odd:
  assumes "chunks_at mem p xs" and "p \<noteq> 0" and "bodies_apart sz xs (set xs)" and "odd (length xs)" "length xs < 2 * n"
  shows "update_walk sz n p mem = Inl Undefined"
  using assms
proof (induction n arbitrary: p xs mem)
  case (Suc n)
  show ?case
  proof (cases xs rule: remdups_adj.cases)
    case 1
    then show ?thesis using Suc.prems by simp
  next
    case (2 x)
    then have "fill_chunk sz x mem x = 0" using Suc.prems(1,3) by (simp add: fill_chunk_eq bodies_apart_def)
    then show ?thesis using Suc.prems 2 by (cases n) (simp_all add: Let_def)
  next
    case (3 x y zs)
    let ?m = "fill_chunk sz x mem"
    have m: "mem p = x" "x \<noteq> 0" "mem x = y" "y \<noteq> 0" "chunks_at mem y zs" using Suc.prems(1) 3 by auto
    have ap: "body sz x \<inter> set (x # y # zs) = {}" using Suc.prems(3) 3 by (simp add: bodies_apart_def)
    then have fx: "?m x = y" using m by (simp add: fill_chunk_eq)
    have "chunks_at ?m y zs \<longleftrightarrow> chunks_at mem y zs"
      by (rule chunks_at_frame) (use ap in \<open>auto simp: fill_chunk_eq\<close>)
    then have "chunks_at ?m y zs" using m by simp
    moreover have "bodies_apart sz zs (set zs)" using Suc.prems(3) 3 by (auto simp: bodies_apart_def)
    ultimately have "update_walk sz n y ?m = Inl Undefined" using Suc.IH m Suc.prems(4,5) 3 by auto
    then show ?thesis using Suc.prems(2) m fx by (simp add: Let_def)
  qed
qed simp

text \<open>
  The update of a list of chunks writes the first, third, fifth chunk and so on, up to the
  limit, and never the ones between; the links stay. A list of odd length that is shorter than twice the
  limit makes it follow a null pointer.
\<close>

theorem update_every_other:
  assumes "chunks_at mem p xs" and "p \<noteq> 0" and "bodies_apart sz xs (insert p (set xs))" and "distinct xs"
  shows "(2 * n \<le> length xs \<or> even (length xs) \<longrightarrow> (\<exists>mem'. update_walk sz n p mem = Inr mem' \<and> chunks_at mem' p xs
      \<and> (\<forall>a. mem' a = (if a \<in> walked sz n xs then FILL_VALUE else mem a))))
    \<and> (odd (length xs) \<and> length xs < 2 * n \<longrightarrow> update_walk sz n p mem = Inl Undefined)"
proof (intro conjI impI)
  have ap: "bodies_apart sz xs (set xs)" using assms(3) by (auto simp: bodies_apart_def)
  show "update_walk sz n p mem = Inl Undefined" if "odd (length xs) \<and> length xs < 2 * n"
    using update_walk_odd [OF assms(1,2) ap] that by blast
  assume "2 * n \<le> length xs \<or> even (length xs)"
  then obtain mem' where w: "update_walk sz n p mem = Inr mem'" "\<forall>a. mem' a = (if a \<in> walked sz n xs then FILL_VALUE else mem a)"
    using update_walk_returns [OF assms(1,2) ap] by blast
  have "walked sz n xs \<inter> insert p (set xs) = {}"
    using walked_subset [of sz n xs] assms(3) unfolding bodies_apart_def by blast
  then have "mem' a = mem a" if "a \<in> insert p (set xs)" for a
    using w(2) that by (auto dest!: spec [of _ a])
  then have "chunks_at mem' p xs \<longleftrightarrow> chunks_at mem p xs" by (rule chunks_at_frame)
  then show "\<exists>mem'. update_walk sz n p mem = Inr mem' \<and> chunks_at mem' p xs
      \<and> (\<forall>a. mem' a = (if a \<in> walked sz n xs then FILL_VALUE else mem a))" using w assms(1) by blast
qed

lemma offsets: "{1..<32 div 8 :: nat} = {1, 2, 3}" "{1..<64 div 8 :: nat} = {1, 2, 3, 4, 5, 6, 7}"
  by auto

lemma body_32: "body 32 x = {x + 8, x + 16, x + 24}"
  unfolding body_def offsets by simp

lemma body_64: "body 64 x = {x + 8, x + 16, x + 24, x + 32, x + 40, x + 48, x + 56}"
  unfolding body_def offsets by simp

theorem update_every_other_witness:
  "(\<exists>mem'. update_walk 32 1 8 ((\<lambda>a. 0)(8 := 64, 64 := 128)) = Inr mem' \<and> chunks_at mem' 8 [64, 128]
      \<and> mem' 72 = FILL_VALUE \<and> mem' 136 = 0)"
proof -
  let ?m = "(\<lambda>a. 0)(8 := 64, 64 := 128) :: chunk_memory"
  have "\<exists>mem'. update_walk 32 1 8 ?m = Inr mem' \<and> chunks_at mem' 8 [64, 128]
      \<and> (\<forall>a. mem' a = (if a \<in> walked 32 1 [64, 128] then FILL_VALUE else ?m a))"
    using update_every_other [of ?m 8 "[64, 128]" 32 1] by (simp add: bodies_apart_def body_32)
  then obtain mem' where "update_walk 32 1 8 ?m = Inr mem'" "chunks_at mem' 8 [64, 128]"
      "\<forall>a. mem' a = (if a \<in> walked 32 1 [64, 128] then FILL_VALUE else ?m a)" by blast
  moreover have "walked 32 1 [64, 128 :: 64 word] = body 32 64" by (simp add: walked_Cons)
  ultimately show ?thesis by (simp add: body_32)
qed

section \<open>A normal event\<close>

text \<open>Nothing a walk writes is a pointer of the two lists.\<close>

definition separate :: "64 word \<Rightarrow> 64 word \<Rightarrow> 64 word list \<Rightarrow> 64 word list \<Rightarrow> bool" where
  "separate a b xs ys \<longleftrightarrow> a \<noteq> 0 \<and> b \<noteq> 0 \<and> 0 \<notin> set xs \<and> 0 \<notin> set ys \<and> distinct (a # b # xs @ ys)
     \<and> bodies_apart SIZE1 xs ({a, b} \<union> set xs \<union> set ys) \<and> bodies_apart SIZE2 ys ({a, b} \<union> set xs \<union> set ys)"

lemma bodies_apart_mono: "bodies_apart sz xs H \<Longrightarrow> G \<subseteq> H \<Longrightarrow> bodies_apart sz xs G"
  by (auto simp: bodies_apart_def)

lemma walked_frame:
  assumes "\<forall>a. mem' a = (if a \<in> walked sz n xs then FILL_VALUE else mem a)" and "bodies_apart sz xs H" and "insert p (set zs) \<subseteq> H"
  shows "chunks_at mem' p zs \<longleftrightarrow> chunks_at mem p zs"
proof (rule chunks_at_frame)
  fix a assume "a \<in> insert p (set zs)"
  then have "a \<notin> walked sz n xs" using walked_subset [of sz n xs] assms(2,3) unfolding bodies_apart_def by blast
  then show "mem' a = mem a" using assms(1) by simp
qed

lemma replace_chunks:
  assumes "two_lists mem a b xs ys" and "separate a b (rev new1 @ drop r xs) (rev new2 @ drop r ys)"
  shows "\<exists>m1 m2. add_chunks a new1 (reallocate r a b mem) = Inr m1 \<and> add_chunks b new2 m1 = Inr m2
    \<and> two_lists m2 a b (rev new1 @ drop r xs) (rev new2 @ drop r ys)"
proof -
  let ?m = "reallocate r a b mem"
  have t: "chunks_at ?m a (drop r xs)" "chunks_at ?m b (drop r ys)"
    using reallocate_two [OF assms(1), of r] by (simp_all add: two_lists_def)
  have d: "distinct (a # new1 @ drop r xs)" "0 \<notin> set new1" "distinct (b # new2 @ drop r ys)" "0 \<notin> set new2"
    and D: "distinct (a # b # (rev new1 @ drop r xs) @ rev new2 @ drop r ys)"
    using assms(2) by (auto simp: separate_def)
  obtain m1 where m1: "add_chunks a new1 ?m = Inr m1" "chunks_at m1 a (rev new1 @ drop r xs)"
    "\<forall>c. c \<notin> insert a (set new1) \<longrightarrow> m1 c = ?m c" using add_chunks_at [OF t(1) d(1,2)] by blast
  have "chunks_at m1 b (drop r ys) \<longleftrightarrow> chunks_at ?m b (drop r ys)"
  proof (rule chunks_at_frame)
    fix c assume "c \<in> insert b (set (drop r ys))"
    then have "c \<notin> insert a (set new1)" using D by auto
    then show "m1 c = ?m c" using m1(3) by blast
  qed
  then have "chunks_at m1 b (drop r ys)" using t(2) by blast
  from add_chunks_at [OF this d(3,4)] obtain m2 where m2: "add_chunks b new2 m1 = Inr m2"
    "chunks_at m2 b (rev new2 @ drop r ys)" "\<forall>c. c \<notin> insert b (set new2) \<longrightarrow> m2 c = m1 c" by blast
  have "chunks_at m2 a (rev new1 @ drop r xs) \<longleftrightarrow> chunks_at m1 a (rev new1 @ drop r xs)"
  proof (rule chunks_at_frame)
    fix c assume "c \<in> insert a (set (rev new1 @ drop r xs))"
    then have "c \<notin> insert b (set new2)" using D by auto
    then show "m2 c = m1 c" using m2(3) by blast
  qed
  then have "two_lists m2 a b (rev new1 @ drop r xs) (rev new2 @ drop r ys)" using m1(2) m2(2) D by (simp add: two_lists_def)
  then show ?thesis using m1(1) m2(1) by blast
qed

lemma next_event_ok:
  assumes "close_rounding cfg" and "0 \<le> LOOKAHEAD cfg" and "0 < OBJECTS cfg" "OBJECTS cfg \<le> 2 ^ 31"
  shows "\<exists>e w. next_event_of cfg now seeds = Inr (e, w) \<and> 0 \<le> to_object e \<and> to_object e < int (OBJECTS cfg) \<and> of_type e = NORMAL"
proof -
  have E: "\<exists>x t1 t2. Expent cfg (TA cfg) s1 s2 = Inr (x, t1, t2)" for s1 s2
    using assms(2) by (simp add: Expent_def TA_def split: prod.split)
  obtain s1 s2 where s: "seeds = (s1, s2)" by (cases seeds)
  obtain x t1 t2 where x: "Expent cfg (TA cfg) s1 s2 = Inr (x, t1, t2)" using E by blast
  obtain y r1 r2 where y: "Expent cfg (TA cfg) t1 t2 = Inr (y, r1, r2)" using E by blast
  obtain t w1 w2 where t: "(if \<not> SPECULATION cfg \<and> dadd cfg now x \<le> dadd cfg now (LOOKAHEAD cfg)
      then and_then (Expent cfg (TA cfg) t1 t2) (\<lambda>(y, w). Inr (dadd cfg (dadd cfg now (LOOKAHEAD cfg)) y, w))
      else Inr (dadd cfg now x, t1, t2)) = Inr (t, w1, w2)"
    by (cases "\<not> SPECULATION cfg \<and> dadd cfg now x \<le> dadd cfg now (LOOKAHEAD cfg)") (auto simp: y)
  obtain u v1 v2 where u: "Random cfg w1 w2 = (u, v1, v2)" by (metis prod_cases3)
  have "real (OBJECTS cfg) \<le> real (2 ^ 31)" using assms(4) by (simp only: of_nat_le_iff)
  then have "0 < real (OBJECTS cfg)" "real (OBJECTS cfg) \<le> 2 ^ 31" using assms(3) by simp_all
  from drawn [OF assms(1) this u] obtain d where d: "int_of_double (dmul cfg (real (OBJECTS cfg)) u) = Inr d"
    "0 \<le> d" "real_of_int d < real (OBJECTS cfg)" by blast
  have "real_of_int d < real_of_int (int (OBJECTS cfg))" using d(3) by simp
  then have "d < int (OBJECTS cfg)" by (simp only: of_int_less_iff)
  moreover have "next_event_of cfg now seeds = Inr (\<lparr>to_object = d, at_time = t, of_type = NORMAL\<rparr>, v1, v2)"
    unfolding next_event_of_def s prod.case x and_then_Inr x t u Let_def d(1) by (rule refl)
  ultimately show ?thesis using d(2) by auto
qed

text \<open>
  Property C32. A normal event returns. It takes the newest chunks of both lists off and puts as many new ones
  on, so that both lists keep their lengths and stay apart, counts itself, and schedules one normal event at
  an object of the model.
\<close>

theorem normal_event_keeps_lists:
  assumes "close_rounding cfg" and "0 \<le> LOOKAHEAD cfg" and "0 < OBJECTS cfg" "OBJECTS cfg \<le> 2 ^ 31"
    and "two_lists (chunk_mem s) (p1_at s) (p2_at s) xs ys"
    and "length xs = CHUNKS_IN_LIST p" "length ys = CHUNKS_IN_LIST p"
    and "length new1 = REALLOCATION p" "length new2 = REALLOCATION p"
    and "separate (p1_at s) (p2_at s) (rev new1 @ drop (REALLOCATION p) xs) (rev new2 @ drop (REALLOCATION p) ys)"
  shows "\<exists>s' e. handle_normal cfg p now new1 new2 s = Inr (s', [e])
    \<and> two_lists (chunk_mem s') (p1_at s) (p2_at s) (rev new1 @ drop (REALLOCATION p) xs) (rev new2 @ drop (REALLOCATION p) ys)
    \<and> event_count s' = event_count s + 1 \<and> of_type e = NORMAL \<and> 0 \<le> to_object e \<and> to_object e < int (OBJECTS cfg)"
proof -
  let ?r = "REALLOCATION p" and ?a = "p1_at s" and ?b = "p2_at s"
  let ?xs = "rev new1 @ drop ?r xs" and ?ys = "rev new2 @ drop ?r ys"
  have "?r \<le> CHUNKS_IN_LIST p" by (simp add: REALLOCATION_def)
  then have len: "2 * P_LIMIT p \<le> length ?xs" "2 * P_LIMIT p \<le> length ?ys" using assms(6-9) by (simp_all add: P_LIMIT_def)
  have nz: "?a \<noteq> 0" "?b \<noteq> 0" using assms(10) by (simp_all add: separate_def)
  let ?H = "{?a, ?b} \<union> set ?xs \<union> set ?ys"
  have ap: "bodies_apart SIZE1 ?xs ?H" "bodies_apart SIZE2 ?ys ?H" using assms(10) by (simp_all only: separate_def)
  have sub: "set ?xs \<subseteq> ?H" "set ?ys \<subseteq> ?H" "insert ?a (set ?xs) \<subseteq> ?H" "insert ?b (set ?ys) \<subseteq> ?H" by blast+
  obtain e t1 t2 where e: "next_event_of cfg now (seed1 s, seed2 s) = Inr (e, t1, t2)"
    "0 \<le> to_object e" "to_object e < int (OBJECTS cfg)" "of_type e = NORMAL"
    using next_event_ok [OF assms(1-4)] by (metis surj_pair)
  obtain m1 m2 where m: "add_chunks ?a new1 (reallocate ?r ?a ?b (chunk_mem s)) = Inr m1" "add_chunks ?b new2 m1 = Inr m2"
    and t: "two_lists m2 ?a ?b ?xs ?ys" using replace_chunks [OF assms(5,10)] by blast
  have at: "chunks_at m2 ?a ?xs" "chunks_at m2 ?b ?ys" using t by (simp_all add: two_lists_def)
  obtain m3 where u3: "update_walk SIZE1 (P_LIMIT p) ?a m2 = Inr m3"
    and w3: "\<forall>c. m3 c = (if c \<in> walked SIZE1 (P_LIMIT p) ?xs then FILL_VALUE else m2 c)"
    using update_walk_returns [OF at(1) nz(1) bodies_apart_mono [OF ap(1) sub(1)]] len(1) by blast
  have at3: "chunks_at m3 ?a ?xs" "chunks_at m3 ?b ?ys"
    using walked_frame [OF w3 ap(1) sub(3)] walked_frame [OF w3 ap(1) sub(4)] at by blast+
  obtain m4 where u4: "update_walk SIZE2 (P_LIMIT p) ?b m3 = Inr m4"
    and w4: "\<forall>c. m4 c = (if c \<in> walked SIZE2 (P_LIMIT p) ?ys then FILL_VALUE else m3 c)"
    using update_walk_returns [OF at3(2) nz(2) bodies_apart_mono [OF ap(2) sub(2)]] len(2) by blast
  have "chunks_at m4 ?a ?xs" "chunks_at m4 ?b ?ys"
    using walked_frame [OF w4 ap(2) sub(3)] walked_frame [OF w4 ap(2) sub(4)] at3 by blast+
  then have "two_lists m4 ?a ?b ?xs ?ys" using t by (simp add: two_lists_def)
  moreover have "handle_normal cfg p now new1 new2 s
      = Inr (s\<lparr>event_count := event_count s + 1, seed1 := t1, seed2 := t2, chunk_mem := m4\<rparr>, [e])"
    unfolding handle_normal_def e(1) and_then_Inr prod.case Let_def
    using assms(8,9) by (simp add: m u3 u4)
  ultimately show ?thesis using e(2-4) by auto
qed

definition demo_phold :: phold_config where "demo_phold = \<lparr>M = 1, CHUNKS_IN_LIST = 2\<rparr>"

definition demo_object :: phold_state where
  "demo_object = \<lparr>event_count = 7, seed1 = 1, seed2 = 1, p1_at = 8, p2_at = 16,
     chunk_mem = (\<lambda>a. 0)(8 := 64, 64 := 128, 16 := 256, 256 := 512)\<rparr>"

theorem normal_event_keeps_lists_witness:
  "\<exists>s' e. handle_normal exact_cfg demo_phold 1 [] [] demo_object = Inr (s', [e])
     \<and> two_lists (chunk_mem s') 8 16 [64, 128] [256, 512] \<and> event_count s' = 8 \<and> to_object e < int (OBJECTS exact_cfg)"
proof -
  have "separate 8 16 [64, 128] [256, 512]" by (simp add: separate_def bodies_apart_def SIZE1_def SIZE2_def body_32 body_64)
  moreover have "two_lists (chunk_mem demo_object) 8 16 [64, 128] [256, 512]" by (simp add: two_lists_def demo_object_def)
  ultimately show ?thesis
    using normal_event_keeps_lists [OF exact_cfg_close, of demo_object "[64, 128]" "[256, 512]" demo_phold "[]" "[]" 1]
    by (auto simp: demo_phold_def demo_object_def REALLOCATION_def exact_cfg_def demo_cfg_def)
qed

end
