(* ===== verification/Spec2Isabelle.thy ===== *)
theory Spec2Isabelle
  imports Prelude Linked_List Setup Barrier Event_Queue Rollback
    Extract Stubs Snapshot Allocator
    Chunk_Ckpt Grid_Ckpt Instruction Mmap_Mv Mmap_Mv_Store
    Mmap_Mv_Range Mmap_Mv_Base C_Strings Engine Disasm Patch_Code Landing_Pads Detour_Code
    Mv_Disasm Mv_Install Grid_Patch
    Topology Pcs_Channels Pcs Highway Phold
begin

text \<open>
  A verification library for PARSIR, a parallel discrete event simulation runtime in C, with its checkpoint
  backends, its binary instrumentation and its example models. Paths are relative to \<open>src/\<close>.

  \<^bold>\<open>The program.\<close> A simulation is a set of objects that exchange events with timestamps. \<open>engine/engine.c\<close>
  reads the CPUs and NUMA nodes of the machine, deals the objects out to worker threads and runs their loops. A
  worker takes the next event with \<open>GetEvent\<close> and gives it to the \<open>ProcessEvent\<close> of the model, which sends
  events with \<open>ScheduleNewEvent\<close> (\<open>stubs/stubs.c\<close>). Both go to \<open>queue/queue.c\<close>: a calendar of \<open>NUM_SLOTS\<close> epochs
  of one \<open>LOOKAHEAD\<close> for every object, fallback lists for what is further away, and a barrier
  (\<open>queue/barrier-synchronization.c\<close>) at the end of every epoch. The build with \<open>SPECULATION\<close> also runs objects
  ahead (\<open>speculation/speculation.c\<close>): a straggler sets a standing rollback, a send is logged and annihilated, and
  a rollback restores the memory of the object from a checkpoint and replays it silently. The checkpoint is one
  of four backends, chosen by the build: chunk copies (\<open>chunk_ckpt/\<close> over the allocator of \<open>memory/\<close>), grid cells
  (\<open>grid_ckpt/\<close>), and page versions (\<open>MVM_MMAP_MULTIVERSIONING/\<close>). They rely on hooks at every store, which
  \<open>MVM_*/src/_elf_parse.c\<close> finds in the disassembly of the program and patches into its code.

  \<^bold>\<open>The theories,\<close> in the order in which they build on each other.

  \<^item> \<open>Prelude\<close>, \<open>Setup\<close>: outcomes of C functions, doubles, flat memory, bitmaps, sorted lists; the macros of the
    build as the record \<open>config\<close> and the structs the runtime shares.
  \<^item> \<open>Linked_List\<close>: the pointer code of every list of the runtime; each routine refines an operation on HOL
    lists, which the later theories use.
  \<^item> \<open>Barrier\<close>: one step per shared access, under all interleavings: no thread passes a round early, and every
    reachable state can complete.
  \<^item> \<open>Event_Queue\<close>, \<open>Extract\<close>: the calendar (invariant \<open>queue_wf\<close>: every queued event in the slot of its epoch,
    in order; \<open>calendar_run\<close> is any sequence of sends, extractions and advances of the clock, and in every state
    it reaches the current slot holds the events of the epoch), and \<open>queue_extract\<close> as a step machine of critical sections: objects are exclusive, an extraction
    takes a least event and never one in the past of its object.
  \<^item> \<open>Rollback\<close>: insertion through the speculation queue, the send log, annihilation, rollback and the flush at
    the end of an epoch, over the multisets of live events. \<open>flush_schedule\<close> is the flush by all threads, for any
    order in which they take the object numbers; an object is flushed in one step, since it touches its own entries
    and, under their locks, its own slots.
  \<^item> \<open>Stubs\<close>: sends, receipt and random numbers, rounding included.
  \<^item> \<open>Snapshot\<close>: the contract of a checkpoint backend as the locale \<open>snapshot_backend\<close>: what is restored is what
    was marked, whatever was written between. \<open>Allocator\<close>, \<open>Chunk_Ckpt\<close>, \<open>Grid_Ckpt\<close> and \<open>Mmap_Mv_Range\<close> interpret
    it on the models of the code; \<open>Mmap_Mv\<close>, \<open>Mmap_Mv_Store\<close> and \<open>Mmap_Mv_Base\<close> hold the page versions in
    their three builds, with the bit masks of the page addresses and the wrap-around behind the last page; pages
    are a power of two long (\<open>page_size_ok\<close>).
  \<^item> \<open>Engine\<close>: the parsing of the text of the machine file (\<open>fscanf\<close>, \<open>fgets\<close>, \<open>strtok\<close>), the partition of objects and CPUs, the start-up and the event loop.
  \<^item> \<open>C_Strings\<close>, \<open>Instruction\<close>, \<open>Disasm\<close>, \<open>Patch_Code\<close>: the string functions the parser calls, its records, the
    parser, and the code of the patches as bytes that a processor model with relative jumps follows
    (\<open>MVM_CHUNK/src/_elf_parse.c\<close>). The theorems say where a patched store leads and what its block repeats, and for
    which stores, zones and operands the code goes wrong: immediates behind a displacement, zones above the reach
    of the two-byte jump, operands with an index and no base, base registers the table does not know.
  \<^item> \<open>Landing_Pads\<close>, \<open>Detour_Code\<close>, \<open>Mv_Disasm\<close>, \<open>Mv_Install\<close>: the monitor of the page versions
    (\<open>MVM_MMAP_MULTIVERSIONING/src/_elf_parse.c\<close>): the search for landing pads, building and applying detours, its
    parser, tried on lines with the padded columns of \<open>objdump -Dw\<close>, and \<open>__wrap_main\<close>, where they meet: from the lines of the disassembly to a patched program in
    which every detour works and nothing else has changed.
  \<^item> \<open>Grid_Patch\<close>: the patches of the grid monitors, with the saves of its registers, the \<open>lea\<close> and the hook in front of the store, and the mirrored
    store of the build without it.
  \<^item> \<open>Topology\<close>, \<open>Pcs_Channels\<close>, \<open>Pcs\<close>, \<open>Highway\<close>, \<open>Phold\<close>: the example models: receivers on grids and rings, the
    channels and the calls of a cell, the cars of a highway, the chunk lists of the synthetic load.

  \<^bold>\<open>Conventions.\<close> A fallible function returns \<open>'a outcome\<close>: \<open>Inl\<close> an exit, an abort or an undefined operation
  (a null pointer, an index out of bounds, a variable that was never written), \<open>Inr\<close> the result. Machine
  integers keep their width where they can wrap; event counters and loads of type \<open>int\<close> are integers. Doubles
  are reals under the rounding \<open>rnd\<close> of \<open>config\<close>, assumed close (relative error at most \<open>2^-52\<close>) where a theorem
  needs it; \<open>epsilon\<close> of \<open>include/random.h\<close> is taken exactly. What \<open>malloc\<close>, \<open>mmap\<close>, \<open>posix_memalign\<close> and \<open>mbind\<close> return,
  and what fresh memory holds, are arguments. Addresses of objects of the heap are numbers; an event
  carries the address of its struct.

  \<^bold>\<open>Loops.\<close> Loops over data are structural. Walks over pointers, the search of \<open>pick_cpu\<close> and the draw of a
  direction on a square grid are \<open>partial_function (option)\<close>, and \<open>None\<close> is a run that does not end (in
  \<open>Linked_List\<close> also one that reads through a null pointer); the theorems give the result, so that they show
  the end as well. A parser that passes the end of the file inside of a function reads its last line for ever, and is
  \<open>None\<close> too. \<open>snapshot_loop\<close> has fuel, and one unit per page of the range is shown to be enough,
  and so has \<open>hex_walk_within\<close>, where six steps over the directions of a hexagon are.

  \<^bold>\<open>Not modelled.\<close> The assembly that saves and restores the registers (its layout is what \<open>read_reg\<close>
  assumes; the store hooks of the grid backends are modelled in \<open>Grid_Ckpt\<close>); \<open>_early_start.c\<close> and the \<open>__wrap_main\<close> of
  the chunk and grid monitors, which call the same steps as the one in \<open>Mv_Install\<close>; the parsers of the grid
  monitors, which repeat the one of \<open>MVM_CHUNK\<close>; \<open>gcc\<close>, \<open>objdump\<close> and the filters around them, which \<open>Grid_Patch\<close>
  has as an argument; page protections and thread creation; printed messages; the scripts and plots in other languages.
  The event \<open>GetEvent\<close> gets from \<open>queue_extract\<close> is an argument, as the steps of the extraction interleave with those
  of other threads (\<open>Extract\<close>). The fading of a channel that was never written is a real number, not a NaN.
\<close>

end
